(* ===== verification/C2xm_Prelude.thy ===== *)
theory C2xm_Prelude
  imports Main "HOL-Library.Word" "HOL-Library.AList" "HOL-Library.Monad_Syntax"
begin

text \<open>
  What every component of the model shares: Python's exceptions and dictionaries, byte strings,
  slices, and the facts on bits of unbounded integers that the wire layouts rest on.

  Python integers are unbounded, so they are \<^typ>\<open>int\<close>; \<open>&\<close>, \<open>|\<close>, \<open><<\<close>
  and \<open>>>\<close> are \<open>AND\<close>, \<open>OR\<close>, \<^const>\<open>push_bit\<close> and \<^const>\<open>drop_bit\<close>, which agree with
  Python on negative numbers too (both use an infinite two's complement).  Objects of type
  \<open>bytes\<close> are lists of \<open>8 word\<close>.
\<close>

unbundle bit_operations_syntax

named_theorems dict_simps \<open>lookups in Python dictionaries\<close>
named_theorems field_bits \<open>bits of packed and unpacked fields\<close>
named_theorems pybytes \<open>byte strings: slices, padding, integer conversion\<close>

section \<open>Exceptions and results\<close>

datatype pyerr =
    ValueError
  | KeyError
  | TypeError
  | OverflowError
  | TimeoutError

type_synonym 'a result = "pyerr + 'a"

fun and_then :: "'e + 'a \<Rightarrow> ('a \<Rightarrow> 'e + 'b) \<Rightarrow> 'e + 'b" where
  "and_then (Inl e) f = Inl e"
| "and_then (Inr x) f = f x"

lemma and_then_Inr [elim!]:
  assumes "and_then m f = Inr y"
  obtains x where "m = Inr x" and "f x = Inr y"
  using assms by (cases m) auto

lemma and_then_assoc: "and_then (and_then m f) g = and_then m (\<lambda>x. and_then (f x) g)"
  by (cases m) simp_all

section \<open>Dictionaries\<close>

text \<open>\<open>d.get(k, v)\<close>; a subscript \<open>d[k]\<close> is the application \<open>d k\<close>, \<^const>\<open>None\<close> standing
  for KeyError.\<close>

definition dget :: "('k \<rightharpoonup> 'v) \<Rightarrow> 'k \<Rightarrow> 'v \<Rightarrow> 'v" where
  "dget d k v = (case d k of None \<Rightarrow> v | Some x \<Rightarrow> x)"

lemma dget_Some [simp, dict_simps]: "d k = Some x \<Longrightarrow> dget d k v = x"
  by (simp add: dget_def)

lemma dget_None [simp, dict_simps]: "d k = None \<Longrightarrow> dget d k v = v"
  by (simp add: dget_def)

lemma dget_upd [dict_simps]: "dget (d(k \<mapsto> x)) k' v = (if k' = k then x else dget d k' v)"
  by (simp add: dget_def)

definition subscript :: "('k \<rightharpoonup> 'v) \<Rightarrow> 'k \<Rightarrow> 'v result" where
  "subscript d k = (case d k of None \<Rightarrow> Inl KeyError | Some x \<Rightarrow> Inr x)"

lemma subscript_Some [simp]: "d k = Some x \<Longrightarrow> subscript d k = Inr x"
  by (simp add: subscript_def)

lemma subscript_None [simp]: "d k = None \<Longrightarrow> subscript d k = Inl KeyError"
  by (simp add: subscript_def)

text \<open>
  Insertion-ordered dictionaries are association lists: \<^const>\<open>AList.update\<close> overwrites in
  place or appends at the end, as Python's item assignment does, and \<^const>\<open>AList.delete\<close> is
  \<open>pop\<close>.
\<close>

lemma distinct_update [intro]:
  "distinct (map fst al) \<Longrightarrow> distinct (map fst (AList.update k v al))"
  by (rule distinct_update)

lemma set_update_subset: "set (AList.update k v al) \<subseteq> insert (k, v) (set al)"
  by (induction al) auto

lemma set_delete_subset: "set (AList.delete k al) \<subseteq> set al"
  by (induction al) auto

lemma map_of_update: "map_of (AList.update k v al) = (map_of al)(k \<mapsto> v)"
  by (rule update_conv')

lemma map_of_delete: "map_of (AList.delete k al) = (map_of al)(k := None)"
  by (rule delete_conv')

lemma distinct_delete_keys: "distinct (map fst al) \<Longrightarrow> distinct (map fst (AList.delete k al))"
  by (rule distinct_delete)

lemma update_new: "k \<notin> fst ` set al \<Longrightarrow> AList.update k v al = al @ [(k, v)]"
  by (induction al) auto

lemma length_update_new: "k \<notin> fst ` set al \<Longrightarrow> length (AList.update k v al) = Suc (length al)"
  by (simp add: update_new)

section \<open>Byte strings\<close>

type_synonym byte = "8 word"

text \<open>\<open>xs[a:b]\<close> for \<open>a, b >= 0\<close>.\<close>

definition slice :: "'a list \<Rightarrow> nat \<Rightarrow> nat \<Rightarrow> 'a list" where
  "slice xs a b = take (b - a) (drop a xs)"

text \<open>\<open>data.ljust(n, b"\x00")\<close>\<close>

definition ljust0 :: "nat \<Rightarrow> byte list \<Rightarrow> byte list" where
  "ljust0 n xs = xs @ replicate (n - length xs) 0"

lemma length_slice [simp, pybytes]: "length (slice xs a b) = min (b - a) (length xs - a)"
  by (simp add: slice_def)

lemma nth_slice [pybytes]:
  "i < b - a \<Longrightarrow> a + i < length xs \<Longrightarrow> slice xs a b ! i = xs ! (a + i)"
  by (simp add: slice_def)

lemma length_ljust0 [simp, pybytes]: "length (ljust0 n xs) = max n (length xs)"
  by (simp add: ljust0_def)

lemma take_ljust0 [pybytes]: "length xs \<le> n \<Longrightarrow> take (length xs) (ljust0 n xs) = xs"
  by (simp add: ljust0_def)

lemma ljust0_id [simp, pybytes]: "n \<le> length xs \<Longrightarrow> ljust0 n xs = xs"
  by (simp add: ljust0_def)

text \<open>\<open>bytes(xs)\<close> of a list of integers: ValueError unless every element is in \<open>range(256)\<close>.\<close>

fun bytes_of_ints :: "int list \<Rightarrow> byte list result" where
  "bytes_of_ints [] = Inr []"
| "bytes_of_ints (x # xs) =
     (if 0 \<le> x \<and> x < 256
      then and_then (bytes_of_ints xs) (\<lambda>bs. Inr (word_of_int x # bs))
      else Inl ValueError)"

lemma bytes_of_ints_uint [simp, pybytes]: "bytes_of_ints (map uint (bs :: byte list)) = Inr bs"
proof (induction bs)
  case (Cons b bs)
  have "uint b < 256" using uint_bounded [of b] by simp
  with Cons show ?case by simp
qed simp

lemma bytes_of_ints_length: "bytes_of_ints xs = Inr bs \<Longrightarrow> length bs = length xs"
  by (induction xs arbitrary: bs) (auto split: if_splits)

lemma bytes_of_ints_inj: "bytes_of_ints xs = Inr bs \<Longrightarrow> map uint bs = xs"
proof (induction xs arbitrary: bs)
  case (Cons x xs)
  then show ?case
    by (auto simp: uint_word_of_int split: if_splits)
qed simp

text \<open>Little-endian integers: \<open>int.from_bytes(bs, "little")\<close> and \<open>v.to_bytes(n, "little")\<close>,
  which raises OverflowError for a negative number and for one that does not fit.\<close>

fun int_from_bytes :: "byte list \<Rightarrow> int" where
  "int_from_bytes [] = 0"
| "int_from_bytes (b # bs) = uint b + 256 * int_from_bytes bs"

fun le_bytes :: "int \<Rightarrow> nat \<Rightarrow> byte list" where
  "le_bytes v 0 = []"
| "le_bytes v (Suc n) = word_of_int v # le_bytes (v div 256) n"

definition int_to_bytes :: "int \<Rightarrow> nat \<Rightarrow> byte list result" where
  "int_to_bytes v n = (if 0 \<le> v \<and> v < 256 ^ n then Inr (le_bytes v n) else Inl OverflowError)"

lemma length_le_bytes [simp, pybytes]: "length (le_bytes v n) = n"
  by (induction n arbitrary: v) auto

lemma int_from_bytes_bounds: "0 \<le> int_from_bytes bs \<and> int_from_bytes bs < 256 ^ length bs"
proof (induction bs)
  case (Cons b bs)
  have "uint b < 256" using uint_bounded [of b] by simp
  moreover have "int_from_bytes bs + 1 \<le> 256 ^ length bs" using Cons by linarith
  ultimately show ?case using Cons uint_nonnegative [of b] by (auto simp: algebra_simps)
qed simp

lemma le_bytes_int_from_bytes [simp, pybytes]: "le_bytes (int_from_bytes bs) (length bs) = bs"
proof (induction bs)
  case (Cons b bs)
  have b: "0 \<le> uint b" "uint b < 256" using uint_bounded [of b] by simp_all
  then have "(uint b + 256 * int_from_bytes bs) div 256 = int_from_bytes bs" by simp
  moreover have "word_of_int (uint b + 256 * int_from_bytes bs) = b"
    by (rule word_uint_eqI) (simp only: uint_word_of_int, use b in simp)
  ultimately show ?case using Cons by simp
qed simp

lemma int_from_bytes_le_bytes: "0 \<le> v \<Longrightarrow> int_from_bytes (le_bytes v n) = v mod 256 ^ n"
proof (induction n arbitrary: v)
  case (Suc n)
  have "v mod 256 + 256 * (v div 256 mod 256 ^ n) = v mod (256 * 256 ^ n)"
    using mod_mult2_eq' by (simp add: zmod_zmult2_eq)
  with Suc show ?case by (simp add: uint_word_of_int pos_imp_zdiv_nonneg_iff)
qed simp

lemma int_to_bytes_inverse: "int_to_bytes v n = Inr bs \<Longrightarrow> int_from_bytes bs = v \<and> length bs = n"
  by (auto simp: int_to_bytes_def int_from_bytes_le_bytes split: if_splits)

lemma int_to_bytes_from_bytes [simp, pybytes]:
  "length bs = n \<Longrightarrow> int_to_bytes (int_from_bytes bs) n = Inr bs"
  using int_from_bytes_bounds [of bs] by (auto simp: int_to_bytes_def)

section \<open>Bits of unbounded integers\<close>

lemma bit_int_AND_mask [field_bits]: "bit ((v :: int) AND mask n) i \<longleftrightarrow> i < n \<and> bit v i"
  by (auto simp: bit_and_iff bit_mask_iff)

lemma take_bit_small: "0 \<le> v \<Longrightarrow> v < 2 ^ n \<Longrightarrow> take_bit n (v :: int) = v"
  by (simp add: take_bit_int_eq_self)

lemma AND_NOT_mask: "(x :: int) AND NOT (mask n) = push_bit n (drop_bit n x)"
  by (rule bit_eqI) (auto simp: bit_simps)

lemma AND_NOT_mask_eq: "(x :: int) AND NOT (mask n) = x - x mod 2 ^ n"
  using bits_ident [of n x] by (simp add: AND_NOT_mask take_bit_eq_mod)

end
