(* ===== verification/Chi_Opcodes.thy ===== *)
theory Chi_Opcodes
  imports C2xm_Prelude
begin

text \<open>
  The CHI channel, response-kind and opcode enumerations of \<^verbatim>\<open>chi_flit.py\<close> and the three
  decoders \<^verbatim>\<open>decode_req\<close>, \<^verbatim>\<open>decode_rsp\<close>, \<^verbatim>\<open>decode_dat\<close>.  Constructors carry the name of
  their Python class as a prefix, since several classes share member names.
\<close>

section \<open>Enumerations\<close>

datatype channel_type = Channel_REQ | Channel_RSP | Channel_SNP | Channel_DAT

datatype rsp_kind = RspKind_MainPath | RspKind_ShortPath | RspKind_RetryAck | RspKind_PCrdGrant

datatype req_variant = ReqVariant_V0 | ReqVariant_V1

datatype req_major =
    ReqMajor_Read
  | ReqMajor_Write
  | ReqMajor_Maintenance
  | ReqMajor_Atomic
  | ReqMajor_DVM
  | ReqMajor_Prefetch
  | ReqMajor_ReservedOrUnsupported

datatype req_minor =
    ReqMinor_ReadShared
  | ReqMinor_MakeReadUnique
  | ReqMinor_ReadClean
  | ReqMinor_ReadOnce
  | ReqMinor_ReadNoSnp
  | ReqMinor_ReadUnique
  | ReqMinor_ReadNoSnpSep
  | ReqMinor_ReadPreferUnique
  | ReqMinor_WriteUnique
  | ReqMinor_WriteBack
  | ReqMinor_WriteClean
  | ReqMinor_WriteNoSnp
  | ReqMinor_WriteEvict
  | ReqMinor_CleanShared
  | ReqMinor_CleanInvalid
  | ReqMinor_CleanUnique
  | ReqMinor_MakeInvalid
  | ReqMinor_MakeUnique
  | ReqMinor_Evict
  | ReqMinor_CleanSharedPersist
  | ReqMinor_CleanSharedPersistSep
  | ReqMinor_Atomic
  | ReqMinor_DVMOp
  | ReqMinor_PrefetchTgt
  | ReqMinor_ReservedOrUnsupported

datatype rsp_major =
    RspMajor_Credit
  | RspMajor_Snoop
  | RspMajor_Completion
  | RspMajor_Retry
  | RspMajor_DBID
  | RspMajor_Receipt
  | RspMajor_Tag
  | RspMajor_Persist
  | RspMajor_Stash
  | RspMajor_CMO
  | RspMajor_ReservedOrUnsupported

datatype rsp_minor =
    RspMinor_RespLCrdReturn
  | RspMinor_SnpResp
  | RspMinor_CompAck
  | RspMinor_RetryAck
  | RspMinor_Comp
  | RspMinor_CompDBIDResp
  | RspMinor_DBIDResp
  | RspMinor_PCrdGrant
  | RspMinor_ReadReceipt
  | RspMinor_SnpRespFwded
  | RspMinor_TagMatch
  | RspMinor_RespSepData
  | RspMinor_Persist
  | RspMinor_CompPersist
  | RspMinor_DBIDRespOrd
  | RspMinor_StashDone
  | RspMinor_CompStashDone
  | RspMinor_CompCMO
  | RspMinor_ReservedOrUnsupported

datatype dat_major =
    DatMajor_Credit
  | DatMajor_SnpRespData
  | DatMajor_WriteData
  | DatMajor_CompletionData
  | DatMajor_Cancel
  | DatMajor_ReservedOrUnsupported

datatype dat_minor =
    DatMinor_DataLCrdReturn
  | DatMinor_SnpRespData
  | DatMinor_SnpRespDataPtl
  | DatMinor_SnpRespDataFwded
  | DatMinor_CopyBackWriteData
  | DatMinor_NonCopyBackWriteData
  | DatMinor_CompData
  | DatMinor_DataSepResp
  | DatMinor_NCBWrDataCompAck
  | DatMinor_WriteDataCancel
  | DatMinor_ReservedOrUnsupported

text \<open>\<^verbatim>\<open>RspKind\<close> is an \<^verbatim>\<open>IntEnum\<close>: its members are ordered by their integer values.\<close>

fun rsp_kind_value :: "rsp_kind \<Rightarrow> int" where
  "rsp_kind_value RspKind_MainPath = 0"
| "rsp_kind_value RspKind_ShortPath = 1"
| "rsp_kind_value RspKind_RetryAck = 2"
| "rsp_kind_value RspKind_PCrdGrant = 3"

lemma rsp_kind_value_inject [simp]: "rsp_kind_value a = rsp_kind_value b \<longleftrightarrow> a = b"
  by (cases a; cases b) simp_all

instantiation rsp_kind :: linorder
begin

definition less_eq_rsp_kind :: "rsp_kind \<Rightarrow> rsp_kind \<Rightarrow> bool" where
  "less_eq_rsp_kind a b \<longleftrightarrow> rsp_kind_value a \<le> rsp_kind_value b"

definition less_rsp_kind :: "rsp_kind \<Rightarrow> rsp_kind \<Rightarrow> bool" where
  "less_rsp_kind a b \<longleftrightarrow> rsp_kind_value a < rsp_kind_value b"

instance
  by standard (auto simp: less_eq_rsp_kind_def less_rsp_kind_def)

end

section \<open>Opcodes\<close>

text \<open>\<^verbatim>\<open>ReqOpcode\<close>, \<^verbatim>\<open>RspOpcode\<close> and \<^verbatim>\<open>DatOpcode\<close> wrap the raw integer; the properties are
  the bit fields of \<^verbatim>\<open>ReqOpcode.hh\<close>, \<^verbatim>\<open>RspOpcode.hh\<close> and \<^verbatim>\<open>DatOpcode.hh\<close>.\<close>

definition req_base :: "int \<Rightarrow> int" where
  "req_base raw = raw AND 0x3F"

definition req_variant_of :: "int \<Rightarrow> req_variant" where
  "req_variant_of raw =
     (if drop_bit 6 raw AND 0x1 = 1 then ReqVariant_V1 else ReqVariant_V0)"

definition req_v1 :: "int \<Rightarrow> bool" where
  "req_v1 raw \<longleftrightarrow> raw AND 0x40 \<noteq> 0"

definition rsp_code :: "int \<Rightarrow> int" where
  "rsp_code raw = raw AND 0x1F"

definition dat_code :: "int \<Rightarrow> int" where
  "dat_code raw = raw AND 0x0F"

record decoded_req =
  dreq_op :: int
  dreq_major :: req_major
  dreq_minor :: req_minor

record decoded_rsp =
  drsp_op :: int
  drsp_major :: rsp_major
  drsp_minor :: rsp_minor

record decoded_dat =
  ddat_op :: int
  ddat_major :: dat_major
  ddat_minor :: dat_minor

text \<open>The opcodes the DUT implements.\<close>

definition OPC_READNOSNP :: int where "OPC_READNOSNP = 0x04"
definition OPC_WRITENOSNP_FULL :: int where "OPC_WRITENOSNP_FULL = 0x1C"
definition OPC_WRITENOSNP_PTL :: int where "OPC_WRITENOSNP_PTL = 0x1D"

definition WRITE_NOSNP_OPCODES :: "int list" where
  "WRITE_NOSNP_OPCODES = [OPC_WRITENOSNP_FULL, OPC_WRITENOSNP_PTL]"

lemmas opcode_defs =
  OPC_READNOSNP_def OPC_WRITENOSNP_FULL_def OPC_WRITENOSNP_PTL_def WRITE_NOSNP_OPCODES_def

section \<open>Decoders\<close>

text \<open>
  The Python function fills in a \<^verbatim>\<open>DecodedReq\<close> that starts out reserved: an arm that assigns
  only the major kind (base 0x07 with the variant bit) leaves the minor kind reserved.
\<close>

definition req_kinds :: "int \<Rightarrow> bool \<Rightarrow> req_major \<times> req_minor" where
  "req_kinds b v1 =
     (if (0x28 \<le> b \<and> b \<le> 0x2F) \<or> (0x30 \<le> b \<and> b \<le> 0x37) then (ReqMajor_Atomic, ReqMinor_Atomic)
      else if b = 0x01 then
        (ReqMajor_Read, if v1 then ReqMinor_MakeReadUnique else ReqMinor_ReadShared)
      else if b = 0x02 then
        (if v1 then (ReqMajor_Write, ReqMinor_WriteEvict) else (ReqMajor_Read, ReqMinor_ReadClean))
      else if b = 0x03 then
        (if v1 then (ReqMajor_Write, ReqMinor_WriteUnique) else (ReqMajor_Read, ReqMinor_ReadOnce))
      else if b = 0x04 then
        (if v1 then (ReqMajor_Write, ReqMinor_WriteNoSnp) else (ReqMajor_Read, ReqMinor_ReadNoSnp))
      else if b = 0x07 then
        (if v1 then (ReqMajor_Maintenance, ReqMinor_ReservedOrUnsupported)
         else (ReqMajor_Read, ReqMinor_ReadUnique))
      else if b = 0x08 then (ReqMajor_Maintenance, ReqMinor_CleanShared)
      else if b = 0x09 then (ReqMajor_Maintenance, ReqMinor_CleanInvalid)
      else if b = 0x0A then (ReqMajor_Maintenance, ReqMinor_MakeInvalid)
      else if b = 0x0B then (ReqMajor_Maintenance, ReqMinor_CleanUnique)
      else if b = 0x0C then
        (ReqMajor_Maintenance,
         if v1 then ReqMinor_ReadPreferUnique else ReqMinor_MakeUnique)
      else if b = 0x0D then (ReqMajor_Maintenance, ReqMinor_Evict)
      else if b = 0x14 then
        (if v1 then (ReqMajor_Write, ReqMinor_WriteUnique) else (ReqMajor_DVM, ReqMinor_DVMOp))
      else if b = 0x15 then (ReqMajor_Write, ReqMinor_WriteEvict)
      else if b = 0x17 then (ReqMajor_Write, ReqMinor_WriteClean)
      else if b = 0x18 \<or> b = 0x19 then (ReqMajor_Write, ReqMinor_WriteUnique)
      else if b = 0x1B then (ReqMajor_Write, ReqMinor_WriteBack)
      else if b = 0x1C \<or> b = 0x1D then (ReqMajor_Write, ReqMinor_WriteNoSnp)
      else if b = 0x3A then (ReqMajor_Prefetch, ReqMinor_PrefetchTgt)
      else (ReqMajor_ReservedOrUnsupported, ReqMinor_ReservedOrUnsupported))"

definition decode_req :: "int \<Rightarrow> decoded_req" where
  "decode_req raw =
     (let (major, minor) = req_kinds (req_base raw) (req_v1 raw)
      in \<lparr>dreq_op = raw, dreq_major = major, dreq_minor = minor\<rparr>)"

definition RSP_DECODE :: "(int \<times> rsp_major \<times> rsp_minor) list" where
  "RSP_DECODE =
    [(0x00, RspMajor_Credit, RspMinor_RespLCrdReturn),
     (0x01, RspMajor_Snoop, RspMinor_SnpResp),
     (0x02, RspMajor_Completion, RspMinor_CompAck),
     (0x03, RspMajor_Retry, RspMinor_RetryAck),
     (0x04, RspMajor_Completion, RspMinor_Comp),
     (0x05, RspMajor_Completion, RspMinor_CompDBIDResp),
     (0x06, RspMajor_DBID, RspMinor_DBIDResp),
     (0x07, RspMajor_Credit, RspMinor_PCrdGrant),
     (0x08, RspMajor_Receipt, RspMinor_ReadReceipt),
     (0x09, RspMajor_Snoop, RspMinor_SnpRespFwded),
     (0x0A, RspMajor_Tag, RspMinor_TagMatch),
     (0x0B, RspMajor_Completion, RspMinor_RespSepData),
     (0x0C, RspMajor_Persist, RspMinor_Persist),
     (0x0D, RspMajor_Persist, RspMinor_CompPersist),
     (0x0E, RspMajor_DBID, RspMinor_DBIDRespOrd),
     (0x10, RspMajor_Stash, RspMinor_StashDone),
     (0x11, RspMajor_Stash, RspMinor_CompStashDone),
     (0x14, RspMajor_CMO, RspMinor_CompCMO)]"

definition decode_rsp :: "int \<Rightarrow> decoded_rsp" where
  "decode_rsp raw =
     (let (major, minor) =
        dget (map_of RSP_DECODE) (rsp_code raw)
          (RspMajor_ReservedOrUnsupported, RspMinor_ReservedOrUnsupported)
      in \<lparr>drsp_op = raw, drsp_major = major, drsp_minor = minor\<rparr>)"

definition DAT_DECODE :: "(int \<times> dat_major \<times> dat_minor) list" where
  "DAT_DECODE =
    [(0x0, DatMajor_Credit, DatMinor_DataLCrdReturn),
     (0x1, DatMajor_SnpRespData, DatMinor_SnpRespData),
     (0x2, DatMajor_WriteData, DatMinor_CopyBackWriteData),
     (0x3, DatMajor_WriteData, DatMinor_NonCopyBackWriteData),
     (0x4, DatMajor_CompletionData, DatMinor_CompData),
     (0x5, DatMajor_SnpRespData, DatMinor_SnpRespDataPtl),
     (0x6, DatMajor_SnpRespData, DatMinor_SnpRespDataFwded),
     (0x7, DatMajor_Cancel, DatMinor_WriteDataCancel),
     (0xB, DatMajor_CompletionData, DatMinor_DataSepResp),
     (0xC, DatMajor_CompletionData, DatMinor_NCBWrDataCompAck)]"

definition decode_dat :: "int \<Rightarrow> decoded_dat" where
  "decode_dat raw =
     (let (major, minor) =
        dget (map_of DAT_DECODE) (dat_code raw)
          (DatMajor_ReservedOrUnsupported, DatMinor_ReservedOrUnsupported)
      in \<lparr>ddat_op = raw, ddat_major = major, ddat_minor = minor\<rparr>)"

section \<open>Facts\<close>

lemma req_base_mod: "req_base raw = raw mod 64"
proof -
  have "raw AND mask 6 = raw mod 64" by (simp add: take_bit_eq_mod flip: take_bit_eq_mask)
  then show ?thesis by (simp add: req_base_def mask_numeral)
qed

lemma int_AND_power: "(x :: int) AND 2 ^ n = of_bool (bit x n) * 2 ^ n"
  by (rule bit_eqI) (auto simp: bit_simps)

lemma req_v1_bit: "req_v1 raw \<longleftrightarrow> bit raw 6"
  using int_AND_power [of raw 6] by (simp add: req_v1_def)

lemma mod_128_split: "(raw :: int) mod 128 = raw mod 64 + 64 * (raw div 64 mod 2)"
  using zmod_zmult2_eq [of 2 raw 64] by simp

lemma req_v1_mod: "req_v1 raw \<longleftrightarrow> 64 \<le> raw mod 128"
proof -
  have "0 \<le> raw mod 64" "raw mod 64 < 64" by simp_all
  then show ?thesis
    by (simp add: mod_128_split req_v1_bit bit_iff_odd odd_iff_mod_2_eq_one) linarith
qed

lemma req_base_mod128: "req_base raw = (if raw mod 128 < 64 then raw mod 128 else raw mod 128 - 64)"
proof -
  have "0 \<le> raw mod 64" "raw mod 64 < 64" "raw div 64 mod 2 = 0 \<or> raw div 64 mod 2 = 1"
    by auto
  then show ?thesis by (auto simp: req_base_mod mod_128_split)
qed

lemma req_variant_v1: "req_variant_of raw = ReqVariant_V1 \<longleftrightarrow> req_v1 raw"
  by (simp add: req_variant_of_def req_v1_bit and_one_eq bit_iff_odd_drop_bit odd_iff_mod_2_eq_one)

lemma req_base_range: "0 \<le> req_base raw \<and> req_base raw < 64"
  by (simp add: req_base_mod)

lemma dreq_major_decode: "dreq_major (decode_req raw) = fst (req_kinds (req_base raw) (req_v1 raw))"
  by (simp add: decode_req_def split: prod.split)

lemma dreq_minor_decode: "dreq_minor (decode_req raw) = snd (req_kinds (req_base raw) (req_v1 raw))"
  by (simp add: decode_req_def split: prod.split)

lemma req_kinds_read_nosnp:
  "req_kinds b v1 = (ReqMajor_Read, ReqMinor_ReadNoSnp) \<longleftrightarrow> b = 0x04 \<and> \<not> v1"
  unfolding req_kinds_def by (simp split: if_split)

lemma req_kinds_write_nosnp:
  "snd (req_kinds b v1) = ReqMinor_WriteNoSnp \<longleftrightarrow> b = 0x04 \<and> v1 \<or> b = 0x1C \<or> b = 0x1D"
  unfolding req_kinds_def by (simp split: if_split)

text \<open>
  \<^verbatim>\<open>decode_req\<close> names exactly the seven-bit opcode 0x04 ReadNoSnp, and exactly 0x1C, 0x1D,
  their variants 0x5C, 0x5D and WriteNoSnpZero (0x44) WriteNoSnp: the request opcodes the DUT
  implements and the one gem5 sends are all decoded to the kind the agent treats them as.
\<close>

theorem decode_req_nosnp:
  "(dreq_major (decode_req raw) = ReqMajor_Read \<and> dreq_minor (decode_req raw) = ReqMinor_ReadNoSnp
      \<longleftrightarrow> raw mod 128 = 0x04) \<and>
   (dreq_minor (decode_req raw) = ReqMinor_WriteNoSnp
      \<longleftrightarrow> raw mod 128 \<in> {0x44, 0x1C, 0x1D, 0x5C, 0x5D})"
proof -
  define m where "m = raw mod 128"
  have base: "req_base raw = (if m < 64 then m else m - 64)" and v1: "req_v1 raw \<longleftrightarrow> 64 \<le> m"
    by (simp_all add: m_def req_base_mod128 req_v1_mod)
  have "fst (req_kinds b v1) = ReqMajor_Read \<and> snd (req_kinds b v1) = ReqMinor_ReadNoSnp \<longleftrightarrow>
      b = 0x04 \<and> \<not> v1" for b v1
    using req_kinds_read_nosnp [of b v1] by (simp add: prod_eq_iff)
  then show ?thesis
    unfolding dreq_major_decode dreq_minor_decode req_kinds_write_nosnp base v1
    by (fold m_def) auto
qed

end
