(* ===== verification/Chi_Layout.thy ===== *)
theory Chi_Layout
  imports C2xm_Prelude
begin

text \<open>
  The wire layouts of \<^verbatim>\<open>chi_flit.py\<close> and the generic \<^verbatim>\<open>pack\<close> / \<^verbatim>\<open>unpack\<close>.  A layout is the
  Python tuple of (field name, lsb, width); \<open>layout_ok\<close> is the property of the four concrete layouts that
  makes packing invertible: the fields ascend without overlapping and fit the flit.  Under it
  \<open>unpack_pack\<close> gives every field back, cut to its width, and \<open>pack_unpack\<close> gives the word back,
  with its reserved bits cleared.
\<close>

type_synonym layout = "(string \<times> nat \<times> nat) list"
type_synonym fields = "string \<rightharpoonup> int"

section \<open>Packing\<close>

text \<open>\<^verbatim>\<open>_field_mask\<close>\<close>

definition field_mask :: "nat \<Rightarrow> int" where
  "field_mask width = push_bit width 1 - 1"

text \<open>The loop of \<^verbatim>\<open>pack\<close>; \<open>word\<close> is its accumulator.\<close>

fun pack_fields :: "layout \<Rightarrow> fields \<Rightarrow> int \<Rightarrow> int" where
  "pack_fields [] vals word = word"
| "pack_fields ((name, lsb, fwidth) # layout) vals word =
     (let value = dget vals name 0 AND field_mask fwidth
      in pack_fields layout vals (word OR push_bit lsb value))"

definition pack :: "layout \<Rightarrow> fields \<Rightarrow> nat \<Rightarrow> int" where
  "pack layout vals width = pack_fields layout vals 0 AND field_mask width"

text \<open>The dictionary comprehension of \<^verbatim>\<open>unpack\<close>: a later entry for the same name wins.\<close>

fun unpack_into :: "layout \<Rightarrow> int \<Rightarrow> fields \<Rightarrow> fields" where
  "unpack_into [] word d = d"
| "unpack_into ((name, lsb, fwidth) # layout) word d =
     unpack_into layout word (d(name \<mapsto> (drop_bit lsb word AND field_mask fwidth)))"

definition unpack :: "layout \<Rightarrow> int \<Rightarrow> fields" where
  "unpack layout word = unpack_into layout word Map.empty"

section \<open>Well-formed layouts\<close>

fun ascending :: "nat \<Rightarrow> layout \<Rightarrow> nat \<Rightarrow> bool" where
  "ascending k [] width \<longleftrightarrow> k \<le> width"
| "ascending k ((name, lsb, fwidth) # layout) width \<longleftrightarrow> k \<le> lsb \<and> ascending (lsb + fwidth) layout width"

definition layout_ok :: "layout \<Rightarrow> nat \<Rightarrow> bool" where
  "layout_ok layout width \<longleftrightarrow> distinct (map fst layout) \<and> ascending 0 layout width"

definition in_field :: "nat \<Rightarrow> string \<times> nat \<times> nat \<Rightarrow> bool" where
  "in_field i fld \<longleftrightarrow> fst (snd fld) \<le> i \<and> i < fst (snd fld) + snd (snd fld)"

text \<open>The bits some field of the layout covers.\<close>

definition covered :: "layout \<Rightarrow> nat \<Rightarrow> bool" where
  "covered layout i \<longleftrightarrow> (\<exists>fld \<in> set layout. in_field i fld)"

lemma field_mask_mask: "field_mask width = mask width"
  by (simp add: field_mask_def mask_eq_exp_minus_1)

lemma AND_field_mask: "x AND field_mask n = take_bit n x"
  by (simp add: field_mask_mask take_bit_eq_mask)

lemma ascending_in_field:
  "ascending k layout width \<Longrightarrow> fld \<in> set layout \<Longrightarrow> in_field i fld \<Longrightarrow> k \<le> i \<and> i < width"
proof (induction layout arbitrary: k)
  case (Cons a layout)
  obtain n l w where a: "a = (n, l, w)" by (cases a)
  show ?case
  proof (cases "fld = a")
    case True
    have "ascending m lay width \<Longrightarrow> m \<le> width" for m lay
      by (induction lay arbitrary: m) fastforce+
    with Cons.prems True a show ?thesis by (fastforce simp: in_field_def)
  next
    case False
    with Cons.prems a have "l + w \<le> i \<and> i < width" using Cons.IH [of "l + w"] by simp
    with Cons.prems a show ?thesis by simp
  qed
qed simp

lemma ascending_disjoint:
  assumes "ascending k layout width"
    and "fld \<in> set layout" "fld' \<in> set layout" "in_field i fld" "in_field i fld'"
    and "distinct (map fst layout)"
  shows "fld = fld'"
  using assms
proof (induction layout arbitrary: k)
  case (Cons a layout)
  obtain n l w where a: "a = (n, l, w)" by (cases a)
  have tail: "ascending (l + w) layout width" using Cons.prems a by simp
  have sep: "\<not> in_field i a" if "x \<in> set layout" "in_field i x" for x
    using ascending_in_field [OF tail that] a by (auto simp: in_field_def)
  show ?case
  proof (cases "fld = a \<or> fld' = a")
    case True
    then show ?thesis using Cons.prems sep [of fld] sep [of fld'] by auto
  next
    case False
    then show ?thesis using Cons.prems tail by (auto intro: Cons.IH [OF tail])
  qed
qed simp

section \<open>Bits of a packed word\<close>

lemma bit_pack_fields:
  "bit (pack_fields layout vals word) i \<longleftrightarrow>
     (bit word i \<or> (\<exists>(name, lsb, fwidth) \<in> set layout.
        lsb \<le> i \<and> i < lsb + fwidth \<and> bit (dget vals name 0) (i - lsb)))"
proof (induction layout vals word rule: pack_fields.induct)
  case (2 name lsb fwidth layout vals word)
  have "bit (push_bit lsb (dget vals name 0 AND field_mask fwidth)) i \<longleftrightarrow>
      lsb \<le> i \<and> i < lsb + fwidth \<and> bit (dget vals name 0) (i - lsb)"
    by (auto simp: AND_field_mask bit_simps)
  with 2 show ?case by (auto simp: bit_or_iff)
qed simp

lemma bit_pack:
  assumes "layout_ok layout width"
  shows "bit (pack layout vals width) i \<longleftrightarrow>
     (\<exists>(name, lsb, fwidth) \<in> set layout.
        lsb \<le> i \<and> i < lsb + fwidth \<and> bit (dget vals name 0) (i - lsb))"
proof -
  have "i < width" if "(name, lsb, fwidth) \<in> set layout" "lsb \<le> i" "i < lsb + fwidth"
    for name lsb fwidth
    using assms that ascending_in_field [of 0 layout width "(name, lsb, fwidth)" i]
    by (simp add: layout_ok_def in_field_def)
  then show ?thesis
    by (auto simp: pack_def AND_field_mask bit_take_bit_iff bit_pack_fields)
qed

lemma pack_range: "0 \<le> pack layout vals width \<and> pack layout vals width < 2 ^ width"
  by (simp add: pack_def AND_field_mask)

lemma pack_cong:
  "(\<And>name. name \<in> fst ` set layout \<Longrightarrow> dget vals name 0 = dget vals' name 0) \<Longrightarrow>
     pack layout vals width = pack layout vals' width"
proof -
  assume eq: "\<And>name. name \<in> fst ` set layout \<Longrightarrow> dget vals name 0 = dget vals' name 0"
  have "pack_fields layout vals word = pack_fields layout vals' word" for word
    using eq by (induction layout arbitrary: word) (force simp: Let_def)+
  then show ?thesis by (simp add: pack_def)
qed

text \<open>Values that agree on the bits a field keeps pack to the same word.\<close>

lemma pack_take_bit_cong:
  assumes "list_all (\<lambda>(name, lsb, fwidth).
      take_bit fwidth (dget vals name 0) = take_bit fwidth (dget vals' name 0)) layout"
  shows "pack layout vals width = pack layout vals' width"
proof -
  have "pack_fields layout vals word = pack_fields layout vals' word" for word
    using assms
    by (induction layout vals word rule: pack_fields.induct) (simp_all add: Let_def AND_field_mask)
  then show ?thesis by (simp add: pack_def)
qed

section \<open>Lookups in an unpacked word\<close>

lemma unpack_into_other: "name \<notin> fst ` set layout \<Longrightarrow> unpack_into layout word d name = d name"
  by (induction layout word d rule: unpack_into.induct) auto

lemma unpack_into_field:
  "distinct (map fst layout) \<Longrightarrow> (name, lsb, fwidth) \<in> set layout \<Longrightarrow>
     unpack_into layout word d name = Some (take_bit fwidth (drop_bit lsb word))"
proof (induction layout word d rule: unpack_into.induct)
  case (2 n l w layout word d)
  then show ?case
    by (cases "name = n") (auto simp: unpack_into_other AND_field_mask rev_image_eqI fun_upd_same simp del: fun_upd_apply)
qed simp

lemma unpack_field:
  "layout_ok layout width \<Longrightarrow> (name, lsb, fwidth) \<in> set layout \<Longrightarrow>
     unpack layout word name = Some (take_bit fwidth (drop_bit lsb word))"
  by (simp add: unpack_def layout_ok_def unpack_into_field)

lemma unpack_dom: "dom (unpack layout word) = fst ` set layout"
proof -
  have "dom (unpack_into layout word d) = dom d \<union> fst ` set layout" for d
    by (induction layout word d rule: unpack_into.induct) (auto simp del: fun_upd_apply)
  then show ?thesis by (simp add: unpack_def)
qed

section \<open>Round trips\<close>

lemma unpack_pack:
  assumes ok: "layout_ok layout width" and fld: "(name, lsb, fwidth) \<in> set layout"
  shows "unpack layout (pack layout vals width) name = Some (take_bit fwidth (dget vals name 0))"
proof -
  have "bit (pack layout vals width) (lsb + i) \<longleftrightarrow> bit (dget vals name 0) i" if "i < fwidth" for i
  proof -
    have uniq: "(n, l, w) = (name, lsb, fwidth)"
      if "(n, l, w) \<in> set layout" "l \<le> lsb + i" "lsb + i < l + w" for n l w
      using ascending_disjoint [of 0 layout width "(n, l, w)" "(name, lsb, fwidth)" "lsb + i"]
        ok fld that \<open>i < fwidth\<close> by (simp add: layout_ok_def in_field_def)
    show ?thesis (is "?l \<longleftrightarrow> ?r")
    proof
      assume ?l
      then obtain n l w where "(n, l, w) \<in> set layout" "l \<le> lsb + i" "lsb + i < l + w"
        "bit (dget vals n 0) (lsb + i - l)"
        unfolding bit_pack [OF ok] by blast
      with uniq [of n l w] show ?r by simp
    next
      assume ?r
      then have "case (name, lsb, fwidth) of (n, l, w) \<Rightarrow>
          l \<le> lsb + i \<and> lsb + i < l + w \<and> bit (dget vals n 0) (lsb + i - l)"
        using \<open>i < fwidth\<close> by simp
      then show ?l unfolding bit_pack [OF ok] using fld by blast
    qed
  qed
  then have "take_bit fwidth (drop_bit lsb (pack layout vals width)) =
      take_bit fwidth (dget vals name 0)"
    by (intro bit_eqI) (auto simp: bit_simps)
  then show ?thesis by (simp add: unpack_field [OF ok fld])
qed

text \<open>Packing back only the fields named in \<open>S\<close> keeps their bits and clears all others.\<close>

definition restricted :: "string set \<Rightarrow> layout \<Rightarrow> layout" where
  "restricted S layout = filter (\<lambda>fld. fst fld \<in> S) layout"

lemma bit_pack_unpack_restrict:
  assumes "layout_ok layout width"
  shows "bit (pack layout (unpack layout word |` S) width) i \<longleftrightarrow> covered (restricted S layout) i \<and> bit word i"
proof -
  have "bit (dget (unpack layout word |` S) name 0) (i - lsb) \<longleftrightarrow> name \<in> S \<and> bit word i"
    if "(name, lsb, fwidth) \<in> set layout" "lsb \<le> i" "i < lsb + fwidth" for name lsb fwidth
    using that
    by (cases "name \<in> S") (auto simp: dget_def unpack_field [OF assms that(1)] bit_simps)
  then have "(case fld of (name, lsb, fwidth) \<Rightarrow>
        lsb \<le> i \<and> i < lsb + fwidth \<and> bit (dget (unpack layout word |` S) name 0) (i - lsb)) \<longleftrightarrow>
      fst fld \<in> S \<and> in_field i fld \<and> bit word i" if "fld \<in> set layout" for fld
    using that by (cases fld) (auto simp: in_field_def)
  then have "bit (pack layout (unpack layout word |` S) width) i \<longleftrightarrow>
      (\<exists>fld \<in> set layout. fst fld \<in> S \<and> in_field i fld \<and> bit word i)"
    unfolding bit_pack [OF assms] by (intro bex_cong refl) blast
  then show ?thesis
    unfolding covered_def restricted_def by (simp only: set_filter) blast
qed

lemma bit_pack_restrict:
  assumes "layout_ok layout width" and "bit (pack layout (vals |` S) width) i"
  shows "covered (restricted S layout) i"
proof -
  obtain name lsb fwidth where fld: "(name, lsb, fwidth) \<in> set layout" "lsb \<le> i" "i < lsb + fwidth"
    and "bit (dget (vals |` S) name 0) (i - lsb)"
    using assms(2) unfolding bit_pack [OF assms(1)] by blast
  then have "name \<in> S" by (auto simp: dget_def restrict_map_def split: if_splits)
  with fld show ?thesis unfolding covered_def restricted_def in_field_def by force
qed

lemma bit_pack_unpack:
  assumes "layout_ok layout width"
  shows "bit (pack layout (unpack layout word) width) i \<longleftrightarrow> covered layout i \<and> bit word i"
  using bit_pack_unpack_restrict [OF assms, of word UNIV i] by (simp add: restricted_def restrict_map_def)

lemma pack_unpack:
  assumes "layout_ok layout width" and "\<And>i. bit word i \<Longrightarrow> covered layout i"
  shows "pack layout (unpack layout word) width = word"
  by (rule bit_eqI) (use assms in \<open>auto simp: bit_pack_unpack\<close>)

text \<open>The same two facts as total equations, for the simplifier.\<close>

lemma unpack_lookup:
  assumes "layout_ok layout width"
  shows "unpack layout word name =
     map_option (\<lambda>(lsb, fwidth). take_bit fwidth (drop_bit lsb word)) (map_of layout name)"
proof (cases "map_of layout name")
  case None
  then have "name \<notin> dom (unpack layout word)" by (simp add: unpack_dom map_of_eq_None_iff)
  with None show ?thesis by (simp add: domIff)
next
  case (Some a)
  then show ?thesis
    by (cases a) (auto simp: unpack_field [OF assms] dest: map_of_SomeD)
qed

lemma unpack_pack_lookup:
  assumes "layout_ok layout width"
  shows "unpack layout (pack layout vals width) name =
     map_option (\<lambda>(lsb, fwidth). take_bit fwidth (dget vals name 0)) (map_of layout name)"
proof (cases "map_of layout name")
  case None
  then show ?thesis by (simp add: unpack_lookup [OF assms])
next
  case (Some a)
  then show ?thesis
    by (cases a) (auto simp: unpack_pack [OF assms] dest: map_of_SomeD)
qed

section \<open>The four link layouts\<close>

definition RXREQ_LAYOUT :: layout where
  "RXREQ_LAYOUT =
    [(''qos'', 0, 4),
     (''tgtid'', 4, 11),
     (''srcid'', 15, 11),
     (''txnid'', 26, 12),
     (''return_nid'', 38, 11),
     (''return_txn_id'', 50, 12),
     (''opcode'', 62, 7),
     (''size'', 69, 3),
     (''addr'', 72, 48),
     (''non_secure'', 120, 1),
     (''allow_retry'', 122, 1),
     (''order'', 123, 2),
     (''memattr_ewa'', 129, 1),
     (''memattr_device'', 130, 1),
     (''memattr_cacheable'', 131, 1),
     (''memattr_allocate'', 132, 1),
     (''trace_tag'', 146, 1),
     (''user'', 158, 4)]"

definition RXREQ_WIDTH :: nat where "RXREQ_WIDTH = 172"

definition RXDAT_LAYOUT :: layout where
  "RXDAT_LAYOUT =
    [(''qos'', 0, 4),
     (''tgtid'', 4, 11),
     (''srcid'', 15, 11),
     (''txnid'', 26, 12),
     (''home_nid'', 38, 11),
     (''opcode'', 49, 4),
     (''resp_err'', 53, 2),
     (''resp'', 55, 3),
     (''data_source'', 58, 4),
     (''dbid'', 65, 12),
     (''ccid'', 77, 2),
     (''data_id'', 79, 2),
     (''trace_tag'', 93, 1),
     (''byte_enable'', 98, 32),
     (''data'', 130, 256)]"

definition RXDAT_WIDTH :: nat where "RXDAT_WIDTH = 426"

definition TXRSP_LAYOUT :: layout where
  "TXRSP_LAYOUT =
    [(''qos'', 0, 4),
     (''tgtid'', 4, 11),
     (''srcid'', 15, 11),
     (''txnid'', 26, 12),
     (''opcode'', 38, 5),
     (''resp_err'', 43, 2),
     (''resp'', 45, 3),
     (''forward_state'', 48, 3),
     (''cbusy'', 51, 3),
     (''dbid'', 54, 12),
     (''pcrdtype'', 66, 4),
     (''tag_op'', 70, 2),
     (''trace_tag'', 72, 1),
     (''data_event'', 73, 2)]"

definition TXRSP_WIDTH :: nat where "TXRSP_WIDTH = 75"

definition TXDAT_LAYOUT :: layout where
  "TXDAT_LAYOUT =
    [(''qos'', 0, 4),
     (''tgtid'', 4, 11),
     (''srcid'', 15, 11),
     (''txnid'', 26, 12),
     (''home_nid'', 38, 11),
     (''opcode'', 49, 4),
     (''resp_err'', 53, 2),
     (''resp'', 55, 3),
     (''data_source'', 58, 4),
     (''dbid'', 65, 12),
     (''ccid'', 77, 2),
     (''data_id'', 79, 2),
     (''trace_tag'', 93, 1),
     (''data'', 130, 256),
     (''data_check'', 386, 32),
     (''poison'', 418, 4),
     (''chunk_valid'', 422, 2)]"

definition TXDAT_WIDTH :: nat where "TXDAT_WIDTH = 426"

lemma layout_ok_rxreq [simp]: "layout_ok RXREQ_LAYOUT RXREQ_WIDTH"
  by (simp add: layout_ok_def RXREQ_LAYOUT_def RXREQ_WIDTH_def)

lemma layout_ok_rxdat [simp]: "layout_ok RXDAT_LAYOUT RXDAT_WIDTH"
  by (simp add: layout_ok_def RXDAT_LAYOUT_def RXDAT_WIDTH_def)

lemma layout_ok_txrsp [simp]: "layout_ok TXRSP_LAYOUT TXRSP_WIDTH"
  by (simp add: layout_ok_def TXRSP_LAYOUT_def TXRSP_WIDTH_def)

lemma layout_ok_txdat [simp]: "layout_ok TXDAT_LAYOUT TXDAT_WIDTH"
  by (simp add: layout_ok_def TXDAT_LAYOUT_def TXDAT_WIDTH_def)

lemmas rxreq_map_of = arg_cong [OF RXREQ_LAYOUT_def, of map_of]

lemmas rxdat_map_of = arg_cong [OF RXDAT_LAYOUT_def, of map_of]

lemmas txrsp_map_of = arg_cong [OF TXRSP_LAYOUT_def, of map_of]

lemmas txdat_map_of = arg_cong [OF TXDAT_LAYOUT_def, of map_of]

end
