(* ===== verification/Chi_Flit.thy ===== *)
theory Chi_Flit
  imports Chi_Opcodes Chi_Layout
begin

text \<open>
  The flit objects of \<^verbatim>\<open>chi_flit.py\<close>, their packers and unpackers for the four C2XM link
  channels, and the constructors of the two supported requests.  The data classes extend
  \<^verbatim>\<open>BaseFlit\<close>, as the records here extend \<open>base_flit\<close>; \<open>raw_req_default\<close> and its kin are the
  field defaults a constructor call starts from.  A subscript of the dictionary \<^verbatim>\<open>unpack\<close> returns
  may raise KeyError, so an unpacker is an \<^typ>\<open>'a option\<close>; that it never raises is proved.

  The locale \<open>wire_codec\<close> is the contract of a packer and unpacker pair: unpacking a packed flit gives the
  flit with every field cut to its wire width.  It is interpreted for RXREQ, RXDAT, TXRSP and TXDAT.
\<close>

section \<open>Flit objects\<close>

record base_flit =
  f_qos :: int
  f_srcid :: int
  f_tgtid :: int
  f_txnid :: int
  f_opcode :: int
  f_stage :: int

definition next_stage :: "'a base_flit_scheme \<Rightarrow> 'a base_flit_scheme" where
  "next_stage f = f\<lparr>f_stage := f_stage f + 1\<rparr>"

record raw_req = base_flit +
  rq_allow_retry :: int
  rq_addr :: int
  rq_size :: int
  rq_return_nid :: int
  rq_order :: int
  rq_pcrdtype :: int
  rq_memattr :: int
  rq_snpattr :: int
  rq_exp_comp_ack :: bool
  rq_trace_tag :: bool
  rq_src_type :: int
  rq_ldid :: int
  rq_hnf_dirty_victim :: bool
  rq_non_secure :: bool
  rq_user :: int
  rq_return_txn_id :: "int option"

definition raw_req_default :: raw_req where
  "raw_req_default =
     \<lparr>f_qos = 0, f_srcid = 0, f_tgtid = 0, f_txnid = 0, f_opcode = 0, f_stage = 0,
      rq_allow_retry = 0, rq_addr = 0, rq_size = 0, rq_return_nid = 0, rq_order = 0,
      rq_pcrdtype = 0, rq_memattr = 0, rq_snpattr = 0, rq_exp_comp_ack = False,
      rq_trace_tag = False, rq_src_type = 0, rq_ldid = 0, rq_hnf_dirty_victim = False,
      rq_non_secure = False, rq_user = 0, rq_return_txn_id = None\<rparr>"

definition is_read_no_snp :: "raw_req \<Rightarrow> bool" where
  "is_read_no_snp f \<longleftrightarrow> f_opcode f = OPC_READNOSNP"

definition is_write_no_snp :: "raw_req \<Rightarrow> bool" where
  "is_write_no_snp f \<longleftrightarrow> f_opcode f \<in> set WRITE_NOSNP_OPCODES"

record raw_rsp = base_flit +
  rs_dbid :: int
  rs_resp :: int
  rs_resp_err :: int
  rs_pcrdtype :: int
  rs_rsp_kind :: rsp_kind
  rs_origin_seq :: int
  rs_origin_cycle :: int
  rs_forward_state :: int
  rs_cbusy :: int
  rs_tag_op :: int
  rs_trace_tag :: bool
  rs_data_event :: int

definition raw_rsp_default :: raw_rsp where
  "raw_rsp_default =
     \<lparr>f_qos = 0, f_srcid = 0, f_tgtid = 0, f_txnid = 0, f_opcode = 0, f_stage = 0,
      rs_dbid = 0, rs_resp = 0, rs_resp_err = 0, rs_pcrdtype = 0,
      rs_rsp_kind = RspKind_MainPath, rs_origin_seq = 0, rs_origin_cycle = 0,
      rs_forward_state = 0, rs_cbusy = 0, rs_tag_op = 0, rs_trace_tag = False,
      rs_data_event = 0\<rparr>"

record raw_snp = base_flit +
  sn_addr :: int
  sn_size :: int

record raw_dat = base_flit +
  dt_last :: int
  dt_home_nid :: int
  dt_dbid :: int
  dt_data_id :: int
  dt_resp :: int
  dt_resp_err :: int
  dt_data_source :: int
  dt_ccid :: int
  dt_trace_tag :: bool
  dt_beat_offset :: int
  dt_byte_enable :: "int list"
  dt_chunk_valid :: "int list"
  dt_data :: "int list"

definition raw_dat_default :: raw_dat where
  "raw_dat_default =
     \<lparr>f_qos = 0, f_srcid = 0, f_tgtid = 0, f_txnid = 0, f_opcode = 0, f_stage = 0,
      dt_last = 0, dt_home_nid = 0, dt_dbid = 0, dt_data_id = 0, dt_resp = 0, dt_resp_err = 0,
      dt_data_source = 0, dt_ccid = 0, dt_trace_tag = False, dt_beat_offset = 0,
      dt_byte_enable = [], dt_chunk_valid = [], dt_data = []\<rparr>"

definition byte_length :: "raw_dat \<Rightarrow> nat" where
  "byte_length f = length (dt_data f)"

definition is_write_data :: "raw_dat \<Rightarrow> bool" where
  "is_write_data f \<longleftrightarrow> f_opcode f \<in> {0x2, 0x3}"

definition is_comp_data :: "raw_dat \<Rightarrow> bool" where
  "is_comp_data f \<longleftrightarrow> f_opcode f = 0x4"

record flit_id =
  XId :: int
  YId :: int
  PId :: int
  DId :: int

definition decode_flit_id :: "int \<Rightarrow> flit_id" where
  "decode_flit_id value =
     \<lparr>XId = drop_bit 7 value AND 0xF, YId = drop_bit 4 value AND 0x7,
      PId = drop_bit 2 value AND 0x3, DId = value AND 0x3\<rparr>"

section \<open>Byte lanes\<close>

text \<open>The loop of \<^verbatim>\<open>_bytes_to_int\<close>: \<open>i\<close> is the enumeration index, \<open>val\<close> the accumulator.\<close>

fun bytes_to_int_loop :: "nat \<Rightarrow> int list \<Rightarrow> int \<Rightarrow> int" where
  "bytes_to_int_loop i [] val = val"
| "bytes_to_int_loop i (b # bs) val =
     bytes_to_int_loop (Suc i) bs (val OR push_bit (8 * i) (b AND 0xFF))"

definition flit_bytes_to_int :: "int list \<Rightarrow> int" where
  "flit_bytes_to_int bs = bytes_to_int_loop 0 bs 0"

definition flit_int_to_bytes :: "int \<Rightarrow> nat \<Rightarrow> int list" where
  "flit_int_to_bytes value nbytes = map (\<lambda>i. drop_bit (8 * i) value AND 0xFF) [0..<nbytes]"

text \<open>The guard \<^verbatim>\<open>_bytes_to_int(x) if x else 0\<close> of the DAT packers.\<close>

definition lanes_or_zero :: "int list \<Rightarrow> int" where
  "lanes_or_zero bs = (if bs = [] then 0 else flit_bytes_to_int bs)"

section \<open>Packers and unpackers\<close>

definition rxreq_values :: "raw_req \<Rightarrow> fields" where
  "rxreq_values flit =
     (let memattr = rq_memattr flit AND 0xF in
      [''qos'' \<mapsto> f_qos flit,
       ''tgtid'' \<mapsto> f_tgtid flit,
       ''srcid'' \<mapsto> f_srcid flit,
       ''txnid'' \<mapsto> f_txnid flit,
       ''return_nid'' \<mapsto> rq_return_nid flit,
       ''return_txn_id'' \<mapsto> (case rq_return_txn_id flit of None \<Rightarrow> f_txnid flit | Some r \<Rightarrow> r),
       ''opcode'' \<mapsto> f_opcode flit,
       ''size'' \<mapsto> rq_size flit,
       ''addr'' \<mapsto> rq_addr flit,
       ''non_secure'' \<mapsto> of_bool (rq_non_secure flit),
       ''allow_retry'' \<mapsto> rq_allow_retry flit,
       ''order'' \<mapsto> rq_order flit,
       ''memattr_ewa'' \<mapsto> memattr AND 0x1,
       ''memattr_device'' \<mapsto> drop_bit 1 memattr AND 0x1,
       ''memattr_cacheable'' \<mapsto> drop_bit 2 memattr AND 0x1,
       ''memattr_allocate'' \<mapsto> drop_bit 3 memattr AND 0x1,
       ''trace_tag'' \<mapsto> of_bool (rq_trace_tag flit),
       ''user'' \<mapsto> rq_user flit])"

definition pack_rxreq :: "raw_req \<Rightarrow> int" where
  "pack_rxreq flit = pack RXREQ_LAYOUT (rxreq_values flit) RXREQ_WIDTH"

text \<open>The four attribute bits and the field \<^verbatim>\<open>memattr\<close> they make up.\<close>

definition memattr_join :: "int \<Rightarrow> int \<Rightarrow> int \<Rightarrow> int \<Rightarrow> int" where
  "memattr_join ewa device cacheable allocate =
     ewa OR push_bit 1 device OR push_bit 2 cacheable OR push_bit 3 allocate"

definition unpack_rxreq :: "int \<Rightarrow> raw_req option" where
  "unpack_rxreq word =
     (let f = unpack RXREQ_LAYOUT word in
      do {
        ewa \<leftarrow> f ''memattr_ewa'';
        device \<leftarrow> f ''memattr_device'';
        cacheable \<leftarrow> f ''memattr_cacheable'';
        allocate \<leftarrow> f ''memattr_allocate'';
        let memattr = memattr_join ewa device cacheable allocate;
        qos \<leftarrow> f ''qos'';
        tgtid \<leftarrow> f ''tgtid'';
        srcid \<leftarrow> f ''srcid'';
        txnid \<leftarrow> f ''txnid'';
        opcode \<leftarrow> f ''opcode'';
        return_nid \<leftarrow> f ''return_nid'';
        return_txn_id \<leftarrow> f ''return_txn_id'';
        allow_retry \<leftarrow> f ''allow_retry'';
        addr \<leftarrow> f ''addr'';
        sz \<leftarrow> f ''size'';
        order \<leftarrow> f ''order'';
        trace_tag \<leftarrow> f ''trace_tag'';
        non_secure \<leftarrow> f ''non_secure'';
        user \<leftarrow> f ''user'';
        Some (raw_req_default
          \<lparr>f_qos := qos, f_tgtid := tgtid, f_srcid := srcid, f_txnid := txnid,
           f_opcode := opcode, rq_return_nid := return_nid,
           rq_return_txn_id := Some return_txn_id, rq_allow_retry := allow_retry,
           rq_addr := addr, rq_size := sz, rq_order := order, rq_memattr := memattr,
           rq_trace_tag := (trace_tag \<noteq> 0), rq_non_secure := (non_secure \<noteq> 0),
           rq_user := user\<rparr>)
      })"

definition rxdat_values :: "raw_dat \<Rightarrow> fields" where
  "rxdat_values flit =
     (let data = lanes_or_zero (dt_data flit);
          byte_enable = lanes_or_zero (dt_byte_enable flit) in
      [''qos'' \<mapsto> f_qos flit,
       ''tgtid'' \<mapsto> f_tgtid flit,
       ''srcid'' \<mapsto> f_srcid flit,
       ''txnid'' \<mapsto> f_txnid flit,
       ''home_nid'' \<mapsto> dt_home_nid flit,
       ''opcode'' \<mapsto> f_opcode flit,
       ''resp_err'' \<mapsto> dt_resp_err flit,
       ''resp'' \<mapsto> dt_resp flit,
       ''data_source'' \<mapsto> dt_data_source flit,
       ''dbid'' \<mapsto> dt_dbid flit,
       ''ccid'' \<mapsto> dt_ccid flit,
       ''data_id'' \<mapsto> dt_data_id flit,
       ''trace_tag'' \<mapsto> of_bool (dt_trace_tag flit),
       ''byte_enable'' \<mapsto> byte_enable,
       ''data'' \<mapsto> data])"

definition pack_rxdat :: "raw_dat \<Rightarrow> int" where
  "pack_rxdat flit = pack RXDAT_LAYOUT (rxdat_values flit) RXDAT_WIDTH"

definition unpack_rxdat :: "int \<Rightarrow> raw_dat option" where
  "unpack_rxdat word =
     (let f = unpack RXDAT_LAYOUT word in
      do {
        qos \<leftarrow> f ''qos'';
        tgtid \<leftarrow> f ''tgtid'';
        srcid \<leftarrow> f ''srcid'';
        txnid \<leftarrow> f ''txnid'';
        home_nid \<leftarrow> f ''home_nid'';
        opcode \<leftarrow> f ''opcode'';
        resp_err \<leftarrow> f ''resp_err'';
        resp \<leftarrow> f ''resp'';
        data_source \<leftarrow> f ''data_source'';
        dbid \<leftarrow> f ''dbid'';
        ccid \<leftarrow> f ''ccid'';
        data_id \<leftarrow> f ''data_id'';
        trace_tag \<leftarrow> f ''trace_tag'';
        byte_enable \<leftarrow> f ''byte_enable'';
        data \<leftarrow> f ''data'';
        Some (raw_dat_default
          \<lparr>f_qos := qos, f_tgtid := tgtid, f_srcid := srcid, f_txnid := txnid,
           dt_home_nid := home_nid, f_opcode := opcode, dt_resp_err := resp_err,
           dt_resp := resp, dt_data_source := data_source, dt_dbid := dbid, dt_ccid := ccid,
           dt_data_id := data_id, dt_trace_tag := (trace_tag \<noteq> 0),
           dt_byte_enable := flit_int_to_bytes byte_enable 32,
           dt_data := flit_int_to_bytes data 32\<rparr>)
      })"

definition unpack_txrsp :: "int \<Rightarrow> raw_rsp option" where
  "unpack_txrsp word =
     (let f = unpack TXRSP_LAYOUT word in
      do {
        qos \<leftarrow> f ''qos'';
        tgtid \<leftarrow> f ''tgtid'';
        srcid \<leftarrow> f ''srcid'';
        txnid \<leftarrow> f ''txnid'';
        opcode \<leftarrow> f ''opcode'';
        dbid \<leftarrow> f ''dbid'';
        resp \<leftarrow> f ''resp'';
        resp_err \<leftarrow> f ''resp_err'';
        pcrdtype \<leftarrow> f ''pcrdtype'';
        forward_state \<leftarrow> f ''forward_state'';
        cbusy \<leftarrow> f ''cbusy'';
        tag_op \<leftarrow> f ''tag_op'';
        trace_tag \<leftarrow> f ''trace_tag'';
        data_event \<leftarrow> f ''data_event'';
        Some (raw_rsp_default
          \<lparr>f_qos := qos, f_tgtid := tgtid, f_srcid := srcid, f_txnid := txnid,
           f_opcode := opcode, rs_dbid := dbid, rs_resp := resp, rs_resp_err := resp_err,
           rs_pcrdtype := pcrdtype, rs_forward_state := forward_state, rs_cbusy := cbusy,
           rs_tag_op := tag_op, rs_trace_tag := (trace_tag \<noteq> 0),
           rs_data_event := data_event\<rparr>)
      })"

definition txrsp_values :: "raw_rsp \<Rightarrow> fields" where
  "txrsp_values flit =
     [''qos'' \<mapsto> f_qos flit,
      ''tgtid'' \<mapsto> f_tgtid flit,
      ''srcid'' \<mapsto> f_srcid flit,
      ''txnid'' \<mapsto> f_txnid flit,
      ''opcode'' \<mapsto> f_opcode flit,
      ''resp_err'' \<mapsto> rs_resp_err flit,
      ''resp'' \<mapsto> rs_resp flit,
      ''forward_state'' \<mapsto> rs_forward_state flit,
      ''cbusy'' \<mapsto> rs_cbusy flit,
      ''dbid'' \<mapsto> rs_dbid flit,
      ''pcrdtype'' \<mapsto> rs_pcrdtype flit,
      ''tag_op'' \<mapsto> rs_tag_op flit,
      ''trace_tag'' \<mapsto> of_bool (rs_trace_tag flit),
      ''data_event'' \<mapsto> rs_data_event flit]"

definition pack_txrsp :: "raw_rsp \<Rightarrow> int" where
  "pack_txrsp flit = pack TXRSP_LAYOUT (txrsp_values flit) TXRSP_WIDTH"

definition unpack_txdat :: "int \<Rightarrow> raw_dat option" where
  "unpack_txdat word =
     (let f = unpack TXDAT_LAYOUT word in
      do {
        qos \<leftarrow> f ''qos'';
        tgtid \<leftarrow> f ''tgtid'';
        srcid \<leftarrow> f ''srcid'';
        txnid \<leftarrow> f ''txnid'';
        home_nid \<leftarrow> f ''home_nid'';
        opcode \<leftarrow> f ''opcode'';
        resp_err \<leftarrow> f ''resp_err'';
        resp \<leftarrow> f ''resp'';
        data_source \<leftarrow> f ''data_source'';
        dbid \<leftarrow> f ''dbid'';
        ccid \<leftarrow> f ''ccid'';
        data_id \<leftarrow> f ''data_id'';
        trace_tag \<leftarrow> f ''trace_tag'';
        data \<leftarrow> f ''data'';
        chunk_valid \<leftarrow> f ''chunk_valid'';
        Some (raw_dat_default
          \<lparr>f_qos := qos, f_tgtid := tgtid, f_srcid := srcid, f_txnid := txnid,
           dt_home_nid := home_nid, f_opcode := opcode, dt_resp_err := resp_err,
           dt_resp := resp, dt_data_source := data_source, dt_dbid := dbid, dt_ccid := ccid,
           dt_data_id := data_id, dt_trace_tag := (trace_tag \<noteq> 0),
           dt_data := flit_int_to_bytes data 32,
           dt_chunk_valid := flit_int_to_bytes chunk_valid 2\<rparr>)
      })"

definition txdat_values :: "raw_dat \<Rightarrow> fields" where
  "txdat_values flit =
     (let data = lanes_or_zero (dt_data flit);
          chunk_valid = lanes_or_zero (dt_chunk_valid flit) in
      [''qos'' \<mapsto> f_qos flit,
       ''tgtid'' \<mapsto> f_tgtid flit,
       ''srcid'' \<mapsto> f_srcid flit,
       ''txnid'' \<mapsto> f_txnid flit,
       ''home_nid'' \<mapsto> dt_home_nid flit,
       ''opcode'' \<mapsto> f_opcode flit,
       ''resp_err'' \<mapsto> dt_resp_err flit,
       ''resp'' \<mapsto> dt_resp flit,
       ''data_source'' \<mapsto> dt_data_source flit,
       ''dbid'' \<mapsto> dt_dbid flit,
       ''ccid'' \<mapsto> dt_ccid flit,
       ''data_id'' \<mapsto> dt_data_id flit,
       ''trace_tag'' \<mapsto> of_bool (dt_trace_tag flit),
       ''data'' \<mapsto> data,
       ''chunk_valid'' \<mapsto> chunk_valid])"

definition pack_txdat :: "raw_dat \<Rightarrow> int" where
  "pack_txdat flit = pack TXDAT_LAYOUT (txdat_values flit) TXDAT_WIDTH"

section \<open>Constructors of the supported requests\<close>

text \<open>The keyword parameters in the order of the Python signatures; \<^const>\<open>None\<close> is an omitted
  \<open>return_nid\<close> or \<open>byte_enable\<close>.\<close>

definition make_read_no_snp ::
  "int \<Rightarrow> int \<Rightarrow> int \<Rightarrow> int \<Rightarrow> int \<Rightarrow> int \<Rightarrow> int \<Rightarrow> int \<Rightarrow> int option \<Rightarrow> int \<Rightarrow> bool \<Rightarrow> raw_req"
where
  "make_read_no_snp txnid addr srcid tgtid sz qos order memattr return_nid allow_retry exp_comp_ack =
     raw_req_default
       \<lparr>f_qos := qos, f_srcid := srcid, f_tgtid := tgtid, f_txnid := txnid,
        f_opcode := OPC_READNOSNP, rq_addr := addr, rq_size := sz,
        rq_return_nid := (case return_nid of None \<Rightarrow> srcid | Some n \<Rightarrow> n),
        rq_order := order, rq_memattr := memattr, rq_allow_retry := allow_retry,
        rq_exp_comp_ack := exp_comp_ack\<rparr>"

definition make_write_no_snp ::
  "int \<Rightarrow> int \<Rightarrow> int \<Rightarrow> int \<Rightarrow> int \<Rightarrow> int \<Rightarrow> int \<Rightarrow> int \<Rightarrow> int option \<Rightarrow> int \<Rightarrow> bool \<Rightarrow> raw_req"
where
  "make_write_no_snp txnid addr srcid tgtid sz qos order memattr return_nid allow_retry partial =
     raw_req_default
       \<lparr>f_qos := qos, f_srcid := srcid, f_tgtid := tgtid, f_txnid := txnid,
        f_opcode := (if partial then OPC_WRITENOSNP_PTL else OPC_WRITENOSNP_FULL),
        rq_addr := addr, rq_size := sz,
        rq_return_nid := (case return_nid of None \<Rightarrow> srcid | Some n \<Rightarrow> n),
        rq_order := order, rq_memattr := memattr, rq_allow_retry := allow_retry\<rparr>"

definition make_write_data ::
  "int \<Rightarrow> int \<Rightarrow> int \<Rightarrow> int \<Rightarrow> int \<Rightarrow> int \<Rightarrow> int option \<Rightarrow> int \<Rightarrow> int \<Rightarrow> int \<Rightarrow> raw_dat"
where
  "make_write_data txnid data srcid tgtid data_id dbid byte_enable opcode resp last_flag =
     raw_dat_default
       \<lparr>f_qos := 0, f_srcid := srcid, f_tgtid := tgtid, f_txnid := txnid,
        f_opcode := opcode, dt_home_nid := tgtid, dt_data_id := data_id, dt_dbid := dbid,
        dt_resp := resp, dt_last := last_flag,
        dt_byte_enable :=
          flit_int_to_bytes (case byte_enable of None \<Rightarrow> push_bit 32 1 - 1 | Some m \<Rightarrow> m) 32,
        dt_data := flit_int_to_bytes data 32\<rparr>"

section \<open>Byte lanes and integers\<close>

lemma bit_bytes_to_int_loop:
  "bit (bytes_to_int_loop k bs val) i \<longleftrightarrow>
     (bit val i \<or> 8 * k \<le> i \<and> (i - 8 * k) div 8 < length bs \<and> bit (bs ! ((i - 8 * k) div 8)) (i mod 8))"
proof (induction k bs val rule: bytes_to_int_loop.induct)
  case (2 k b bs val)
  have mask: "b AND 0xFF = take_bit 8 b" by (simp add: take_bit_eq_mask mask_numeral)
  consider "i < 8 * k" | "8 * k \<le> i" "i < 8 * Suc k" | "8 * Suc k \<le> i" by linarith
  then show ?case
  proof cases
    case 2
    then obtain j where "i = 8 * k + j" "j < 8" by (metis add_less_cancel_left le_iff_add mult_Suc_right add.commute)
    then show ?thesis using "2.IH" by (auto simp: mask bit_simps)
  next
    case 3
    then have "(i - 8 * k) div 8 = Suc ((i - 8 * Suc k) div 8)" "\<not> i - 8 * k < 8"
      by (auto simp: le_div_geq)
    then show ?thesis using 3 "2.IH" by (auto simp: mask bit_simps)
  qed (use "2.IH" in \<open>auto simp: bit_simps\<close>)
qed simp

lemma bit_flit_bytes_to_int:
  "bit (flit_bytes_to_int bs) i \<longleftrightarrow> i div 8 < length bs \<and> bit (bs ! (i div 8)) (i mod 8)"
  by (simp add: flit_bytes_to_int_def bit_bytes_to_int_loop)

lemma lanes_or_zero_eq: "lanes_or_zero bs = flit_bytes_to_int bs"
  by (simp add: lanes_or_zero_def flit_bytes_to_int_def)

lemma length_flit_int_to_bytes [simp]: "length (flit_int_to_bytes v n) = n"
  by (simp add: flit_int_to_bytes_def)

lemma nth_flit_int_to_bytes [simp]:
  "i < n \<Longrightarrow> flit_int_to_bytes v n ! i = take_bit 8 (drop_bit (8 * i) v)"
  by (simp add: flit_int_to_bytes_def take_bit_eq_mask mask_numeral)

lemma flit_bytes_to_int_inverse: "flit_bytes_to_int (flit_int_to_bytes v n) = take_bit (8 * n) v"
proof (rule bit_eqI)
  fix i :: nat
  have "i div 8 < n \<longleftrightarrow> i < 8 * n" by (simp add: less_mult_imp_div_less div_less_iff_less_mult mult.commute)
  moreover have "8 * (i div 8) + i mod 8 = i" by simp
  ultimately show "bit (flit_bytes_to_int (flit_int_to_bytes v n)) i \<longleftrightarrow> bit (take_bit (8 * n) v) i"
    by (auto simp: bit_flit_bytes_to_int bit_simps)
qed

text \<open>Decoding a packed lane vector truncates or pads it to the beat, each lane cut to a byte.\<close>

definition beat_lanes :: "nat \<Rightarrow> int list \<Rightarrow> int list" where
  "beat_lanes n bs = map (take_bit 8) (take n bs) @ replicate (n - length bs) 0"

lemma flit_int_to_bytes_inverse: "flit_int_to_bytes (flit_bytes_to_int bs) n = beat_lanes n bs"
proof (rule nth_equalityI)
  show "length (flit_int_to_bytes (flit_bytes_to_int bs) n) = length (beat_lanes n bs)"
    by (simp add: beat_lanes_def)
next
  fix i assume "i < length (flit_int_to_bytes (flit_bytes_to_int bs) n)"
  then have i: "i < n" by simp
  have "take_bit 8 (drop_bit (8 * i) (flit_bytes_to_int bs)) = (if i < length bs then take_bit 8 (bs ! i) else 0)"
    by (rule bit_eqI) (auto simp: bit_simps bit_flit_bytes_to_int)
  then show "flit_int_to_bytes (flit_bytes_to_int bs) n ! i = beat_lanes n bs ! i"
    using i by (auto simp: beat_lanes_def nth_append)
qed

lemma beat_lanes_id: "length bs = n \<Longrightarrow> (\<And>b. b \<in> set bs \<Longrightarrow> 0 \<le> b \<and> b < 256) \<Longrightarrow> beat_lanes n bs = bs"
  by (auto simp: beat_lanes_def intro!: map_idI take_bit_small)

lemma flit_int_to_bytes_take_bit: "k \<ge> 8 * n \<Longrightarrow> flit_int_to_bytes (take_bit k v) n = flit_int_to_bytes v n"
  by (rule nth_equalityI) (auto intro!: bit_eqI simp: bit_simps)

lemma memattr_rejoin:
  fixes m :: int
  defines "a \<equiv> m AND 0xF"
  shows "memattr_join (take_bit 1 (a AND 1)) (take_bit 1 (drop_bit 1 a AND 1))
           (take_bit 1 (drop_bit 2 a AND 1)) (take_bit 1 (drop_bit 3 a AND 1)) = take_bit 4 m"
proof (rule bit_eqI)
  fix i :: nat
  have a: "a = take_bit 4 m" by (simp add: a_def take_bit_eq_mask mask_numeral)
  have one: "x AND 1 = take_bit 1 x" for x :: int by (simp add: take_bit_eq_mask)
  consider "i = 0" | "i = 1" | "i = 2" | "i = 3" | "4 \<le> i" by linarith
  then show "bit (memattr_join (take_bit 1 (a AND 1)) (take_bit 1 (drop_bit 1 a AND 1))
           (take_bit 1 (drop_bit 2 a AND 1)) (take_bit 1 (drop_bit 3 a AND 1))) i
       \<longleftrightarrow> bit (take_bit 4 m) i"
    unfolding a one memattr_join_def bit_or_iff bit_push_bit_iff_int bit_take_bit_iff bit_drop_bit_eq o_def
    by cases simp_all
qed

text \<open>The attribute bits an unpacked word yields, joined and split again.\<close>

lemma memattr_resplit:
  fixes a b c d :: int
  defines "m \<equiv> memattr_join (take_bit 1 a) (take_bit 1 b) (take_bit 1 c) (take_bit 1 d) AND 0xF"
  shows "take_bit 1 (m AND 1) = take_bit 1 a" and "take_bit 1 (drop_bit 1 m AND 1) = take_bit 1 b"
    and "take_bit 1 (drop_bit 2 m AND 1) = take_bit 1 c" and "take_bit 1 (drop_bit 3 m AND 1) = take_bit 1 d"
proof -
  have mask: "x AND 0xF = take_bit 4 x" for x :: int by (simp add: take_bit_eq_mask mask_numeral)
  have one: "x AND 1 = take_bit 1 x" for x :: int by (simp add: take_bit_eq_mask)
  note bits = m_def memattr_join_def mask one bit_or_iff bit_push_bit_iff_int bit_take_bit_iff bit_drop_bit_eq o_def
  show "take_bit 1 (m AND 1) = take_bit 1 a"
    by (rule bit_eqI) (unfold bits, auto)
  show "take_bit 1 (drop_bit 1 m AND 1) = take_bit 1 b"
    by (rule bit_eqI) (unfold bits, auto)
  show "take_bit 1 (drop_bit 2 m AND 1) = take_bit 1 c"
    by (rule bit_eqI) (unfold bits, auto)
  show "take_bit 1 (drop_bit 3 m AND 1) = take_bit 1 d"
    by (rule bit_eqI) (unfold bits, auto)
qed

section \<open>What the wire keeps of a flit\<close>

text \<open>\<open>rxreq_wire\<close> and its kin are the flit a channel delivers: every field of the layout cut to its
  width, every other field at its default.\<close>

definition rxreq_wire :: "raw_req \<Rightarrow> raw_req" where
  "rxreq_wire f = raw_req_default
     \<lparr>f_qos := take_bit 4 (f_qos f), f_tgtid := take_bit 11 (f_tgtid f),
      f_srcid := take_bit 11 (f_srcid f), f_txnid := take_bit 12 (f_txnid f),
      f_opcode := take_bit 7 (f_opcode f), rq_return_nid := take_bit 11 (rq_return_nid f),
      rq_return_txn_id := Some (take_bit 12
        (case rq_return_txn_id f of None \<Rightarrow> f_txnid f | Some r \<Rightarrow> r)),
      rq_allow_retry := take_bit 1 (rq_allow_retry f), rq_addr := take_bit 48 (rq_addr f),
      rq_size := take_bit 3 (rq_size f), rq_order := take_bit 2 (rq_order f),
      rq_memattr := take_bit 4 (rq_memattr f), rq_trace_tag := rq_trace_tag f,
      rq_non_secure := rq_non_secure f, rq_user := take_bit 4 (rq_user f)\<rparr>"

definition rxdat_wire :: "raw_dat \<Rightarrow> raw_dat" where
  "rxdat_wire f = raw_dat_default
     \<lparr>f_qos := take_bit 4 (f_qos f), f_tgtid := take_bit 11 (f_tgtid f),
      f_srcid := take_bit 11 (f_srcid f), f_txnid := take_bit 12 (f_txnid f),
      dt_home_nid := take_bit 11 (dt_home_nid f), f_opcode := take_bit 4 (f_opcode f),
      dt_resp_err := take_bit 2 (dt_resp_err f), dt_resp := take_bit 3 (dt_resp f),
      dt_data_source := take_bit 4 (dt_data_source f), dt_dbid := take_bit 12 (dt_dbid f),
      dt_ccid := take_bit 2 (dt_ccid f), dt_data_id := take_bit 2 (dt_data_id f),
      dt_trace_tag := dt_trace_tag f,
      dt_byte_enable := flit_int_to_bytes (take_bit 32 (flit_bytes_to_int (dt_byte_enable f))) 32,
      dt_data := beat_lanes 32 (dt_data f)\<rparr>"

definition txrsp_wire :: "raw_rsp \<Rightarrow> raw_rsp" where
  "txrsp_wire f = raw_rsp_default
     \<lparr>f_qos := take_bit 4 (f_qos f), f_tgtid := take_bit 11 (f_tgtid f),
      f_srcid := take_bit 11 (f_srcid f), f_txnid := take_bit 12 (f_txnid f),
      f_opcode := take_bit 5 (f_opcode f), rs_dbid := take_bit 12 (rs_dbid f),
      rs_resp := take_bit 3 (rs_resp f), rs_resp_err := take_bit 2 (rs_resp_err f),
      rs_pcrdtype := take_bit 4 (rs_pcrdtype f),
      rs_forward_state := take_bit 3 (rs_forward_state f), rs_cbusy := take_bit 3 (rs_cbusy f),
      rs_tag_op := take_bit 2 (rs_tag_op f), rs_trace_tag := rs_trace_tag f,
      rs_data_event := take_bit 2 (rs_data_event f)\<rparr>"

definition txdat_wire :: "raw_dat \<Rightarrow> raw_dat" where
  "txdat_wire f = raw_dat_default
     \<lparr>f_qos := take_bit 4 (f_qos f), f_tgtid := take_bit 11 (f_tgtid f),
      f_srcid := take_bit 11 (f_srcid f), f_txnid := take_bit 12 (f_txnid f),
      dt_home_nid := take_bit 11 (dt_home_nid f), f_opcode := take_bit 4 (f_opcode f),
      dt_resp_err := take_bit 2 (dt_resp_err f), dt_resp := take_bit 3 (dt_resp f),
      dt_data_source := take_bit 4 (dt_data_source f), dt_dbid := take_bit 12 (dt_dbid f),
      dt_ccid := take_bit 2 (dt_ccid f), dt_data_id := take_bit 2 (dt_data_id f),
      dt_trace_tag := dt_trace_tag f, dt_data := beat_lanes 32 (dt_data f),
      dt_chunk_valid := flit_int_to_bytes (take_bit 2 (flit_bytes_to_int (dt_chunk_valid f))) 2\<rparr>"

section \<open>The contract of a link codec\<close>

locale wire_codec =
  fixes pk :: "'f \<Rightarrow> int"
    and upk :: "int \<Rightarrow> 'f option"
    and wire :: "'f \<Rightarrow> 'f"
    and width :: nat
    and kept :: "nat \<Rightarrow> bool"
  assumes upk_pk: "upk (pk f) = Some (wire f)"
    and pk_range: "0 \<le> pk f \<and> pk f < 2 ^ width"
    and upk_total: "\<exists>f. upk w = Some f"
    and pk_upk: "upk w = Some f \<Longrightarrow> bit (pk f) i \<longleftrightarrow> kept i \<and> bit w i"
    and pk_kept: "bit (pk f) i \<Longrightarrow> kept i"
begin

lemma pk_wire: "pk (wire f) = pk f"
  by (rule bit_eqI) (use pk_upk [OF upk_pk] pk_kept in blast)

lemma wire_idem: "wire (wire f) = wire f"
  using upk_pk [of "wire f"] by (simp add: pk_wire upk_pk)

lemma pk_eq_iff: "pk f = pk g \<longleftrightarrow> wire f = wire g"
  by (metis option.inject pk_wire upk_pk)

lemma upk_wire: "upk w = Some f \<Longrightarrow> wire f = f \<Longrightarrow> upk (pk f) = Some f"
  by (simp add: upk_pk)

text \<open>A word with no bit outside the kept fields survives decoding and re-encoding.\<close>

lemma pk_upk_id: "upk w = Some f \<Longrightarrow> (\<And>i. bit w i \<Longrightarrow> kept i) \<Longrightarrow> pk f = w"
  by (rule bit_eqI) (use pk_upk in blast)

lemma map_pk_upk:
  assumes "\<And>i. bit w i \<Longrightarrow> kept i"
  shows "map_option pk (upk w) = Some w"
  using upk_total [of w] pk_upk_id [OF _ assms] by auto

end

lemma pack_kept: "layout_ok layout width \<Longrightarrow> bit (pack layout vals width) i \<Longrightarrow> covered layout i"
  by (force simp: bit_pack covered_def in_field_def)

lemma take_bit_bool [simp]: "take_bit (Suc 0) (of_bool b :: int) = of_bool b"
  by simp

lemmas codec_defs = Let_def lanes_or_zero_eq

lemma of_bool_mod_2 [simp]: "of_bool (x mod 2 = 1) = (x :: int) mod 2"
  by simp

lemma mod_2_AND_1 [simp]: "(x :: int) mod 2 AND 1 = x mod 2"
  by (simp add: and_one_eq)

subsection \<open>RXREQ\<close>

lemma unpack_pack_rxreq: "unpack_rxreq (pack_rxreq f) = Some (rxreq_wire f)"
  unfolding unpack_rxreq_def pack_rxreq_def
  by (simp add: unpack_pack_lookup [OF layout_ok_rxreq] rxreq_map_of rxreq_values_def Let_def
      dict_simps rxreq_wire_def memattr_rejoin [simplified])

lemma rxreq_repack:
  assumes "unpack_rxreq w = Some f"
  shows "pack_rxreq f = pack RXREQ_LAYOUT (unpack RXREQ_LAYOUT w) RXREQ_WIDTH"
proof -
  note fld = unpack_lookup [OF layout_ok_rxreq]
  have f: "f = raw_req_default
      \<lparr>f_qos := take_bit 4 w, f_tgtid := take_bit 11 (drop_bit 4 w),
       f_srcid := take_bit 11 (drop_bit 15 w), f_txnid := take_bit 12 (drop_bit 26 w),
       f_opcode := take_bit 7 (drop_bit 62 w), rq_return_nid := take_bit 11 (drop_bit 38 w),
       rq_return_txn_id := Some (take_bit 12 (drop_bit 50 w)),
       rq_allow_retry := take_bit 1 (drop_bit 122 w), rq_addr := take_bit 48 (drop_bit 72 w),
       rq_size := take_bit 3 (drop_bit 69 w), rq_order := take_bit 2 (drop_bit 123 w),
       rq_memattr := memattr_join (take_bit 1 (drop_bit 129 w)) (take_bit 1 (drop_bit 130 w))
         (take_bit 1 (drop_bit 131 w)) (take_bit 1 (drop_bit 132 w)),
       rq_trace_tag := (take_bit 1 (drop_bit 146 w) \<noteq> 0),
       rq_non_secure := (take_bit 1 (drop_bit 120 w) \<noteq> 0),
       rq_user := take_bit 4 (drop_bit 158 w)\<rparr>"
    using assms unfolding unpack_rxreq_def by (simp add: fld rxreq_map_of Let_def)
  show ?thesis
    unfolding pack_rxreq_def f
    by (rule pack_take_bit_cong)
      (simp add: fld rxreq_map_of RXREQ_LAYOUT_def [THEN arg_cong, of "list_all P" for P] Let_def
        dict_simps rxreq_values_def memattr_resplit [simplified])
qed

lemma unpack_rxreq_total: "\<exists>f. unpack_rxreq w = Some f"
  unfolding unpack_rxreq_def
  by (simp add: unpack_lookup [OF layout_ok_rxreq] rxreq_map_of Let_def)

interpretation rxreq: wire_codec pack_rxreq unpack_rxreq rxreq_wire RXREQ_WIDTH "covered RXREQ_LAYOUT"
proof
  show "0 \<le> pack_rxreq f \<and> pack_rxreq f < 2 ^ RXREQ_WIDTH" for f
    unfolding pack_rxreq_def by (rule pack_range)
  show "bit (pack_rxreq f) i \<longleftrightarrow> covered RXREQ_LAYOUT i \<and> bit w i" if "unpack_rxreq w = Some f" for w f i
    by (simp add: rxreq_repack [OF that] bit_pack_unpack)
  show "covered RXREQ_LAYOUT i" if "bit (pack_rxreq f) i" for f i
    using pack_kept [OF layout_ok_rxreq] that unfolding pack_rxreq_def by blast
qed (rule unpack_pack_rxreq unpack_rxreq_total)+

subsection \<open>RXDAT\<close>

lemma unpack_pack_rxdat: "unpack_rxdat (pack_rxdat f) = Some (rxdat_wire f)"
  unfolding unpack_rxdat_def pack_rxdat_def
  by (simp add: unpack_pack_lookup [OF layout_ok_rxdat] rxdat_map_of rxdat_values_def Let_def
      dict_simps rxdat_wire_def lanes_or_zero_eq flit_int_to_bytes_take_bit flit_int_to_bytes_inverse)

lemma rxdat_repack:
  assumes "unpack_rxdat w = Some f"
  shows "pack_rxdat f = pack RXDAT_LAYOUT (unpack RXDAT_LAYOUT w) RXDAT_WIDTH"
proof -
  note fld = unpack_lookup [OF layout_ok_rxdat]
  have f: "f = raw_dat_default
      \<lparr>f_qos := take_bit 4 w, f_tgtid := take_bit 11 (drop_bit 4 w),
       f_srcid := take_bit 11 (drop_bit 15 w), f_txnid := take_bit 12 (drop_bit 26 w),
       dt_home_nid := take_bit 11 (drop_bit 38 w), f_opcode := take_bit 4 (drop_bit 49 w),
       dt_resp_err := take_bit 2 (drop_bit 53 w), dt_resp := take_bit 3 (drop_bit 55 w),
       dt_data_source := take_bit 4 (drop_bit 58 w), dt_dbid := take_bit 12 (drop_bit 65 w),
       dt_ccid := take_bit 2 (drop_bit 77 w), dt_data_id := take_bit 2 (drop_bit 79 w),
       dt_trace_tag := (take_bit 1 (drop_bit 93 w) \<noteq> 0),
       dt_byte_enable := flit_int_to_bytes (take_bit 32 (drop_bit 98 w)) 32,
       dt_data := flit_int_to_bytes (take_bit 256 (drop_bit 130 w)) 32\<rparr>"
    using assms unfolding unpack_rxdat_def by (simp add: fld rxdat_map_of Let_def)
  show ?thesis
    unfolding pack_rxdat_def f
    by (rule pack_take_bit_cong)
      (simp add: fld rxdat_map_of RXDAT_LAYOUT_def [THEN arg_cong, of "list_all P" for P] Let_def
        dict_simps rxdat_values_def lanes_or_zero_eq flit_bytes_to_int_inverse)
qed

lemma unpack_rxdat_total: "\<exists>f. unpack_rxdat w = Some f"
  unfolding unpack_rxdat_def
  by (simp add: unpack_lookup [OF layout_ok_rxdat] rxdat_map_of Let_def)

interpretation rxdat: wire_codec pack_rxdat unpack_rxdat rxdat_wire RXDAT_WIDTH "covered RXDAT_LAYOUT"
proof
  show "0 \<le> pack_rxdat f \<and> pack_rxdat f < 2 ^ RXDAT_WIDTH" for f
    unfolding pack_rxdat_def by (rule pack_range)
  show "bit (pack_rxdat f) i \<longleftrightarrow> covered RXDAT_LAYOUT i \<and> bit w i" if "unpack_rxdat w = Some f" for w f i
    by (simp add: rxdat_repack [OF that] bit_pack_unpack)
  show "covered RXDAT_LAYOUT i" if "bit (pack_rxdat f) i" for f i
    using pack_kept [OF layout_ok_rxdat] that unfolding pack_rxdat_def by blast
qed (rule unpack_pack_rxdat unpack_rxdat_total)+

subsection \<open>TXRSP\<close>

lemma unpack_pack_txrsp: "unpack_txrsp (pack_txrsp f) = Some (txrsp_wire f)"
  unfolding unpack_txrsp_def pack_txrsp_def
  by (simp add: unpack_pack_lookup [OF layout_ok_txrsp] txrsp_map_of txrsp_values_def Let_def
      dict_simps txrsp_wire_def)

lemma txrsp_repack:
  assumes "unpack_txrsp w = Some f"
  shows "pack_txrsp f = pack TXRSP_LAYOUT (unpack TXRSP_LAYOUT w) TXRSP_WIDTH"
proof -
  note fld = unpack_lookup [OF layout_ok_txrsp]
  have f: "f = raw_rsp_default
      \<lparr>f_qos := take_bit 4 w, f_tgtid := take_bit 11 (drop_bit 4 w),
       f_srcid := take_bit 11 (drop_bit 15 w), f_txnid := take_bit 12 (drop_bit 26 w),
       f_opcode := take_bit 5 (drop_bit 38 w), rs_dbid := take_bit 12 (drop_bit 54 w),
       rs_resp := take_bit 3 (drop_bit 45 w), rs_resp_err := take_bit 2 (drop_bit 43 w),
       rs_pcrdtype := take_bit 4 (drop_bit 66 w),
       rs_forward_state := take_bit 3 (drop_bit 48 w), rs_cbusy := take_bit 3 (drop_bit 51 w),
       rs_tag_op := take_bit 2 (drop_bit 70 w),
       rs_trace_tag := (take_bit 1 (drop_bit 72 w) \<noteq> 0),
       rs_data_event := take_bit 2 (drop_bit 73 w)\<rparr>"
    using assms unfolding unpack_txrsp_def by (simp add: fld txrsp_map_of Let_def)
  show ?thesis
    unfolding pack_txrsp_def f
    by (rule pack_take_bit_cong)
      (simp add: fld txrsp_map_of TXRSP_LAYOUT_def [THEN arg_cong, of "list_all P" for P] Let_def
        dict_simps txrsp_values_def)
qed

lemma unpack_txrsp_total: "\<exists>f. unpack_txrsp w = Some f"
  unfolding unpack_txrsp_def
  by (simp add: unpack_lookup [OF layout_ok_txrsp] txrsp_map_of Let_def)

interpretation txrsp: wire_codec pack_txrsp unpack_txrsp txrsp_wire TXRSP_WIDTH "covered TXRSP_LAYOUT"
proof
  show "0 \<le> pack_txrsp f \<and> pack_txrsp f < 2 ^ TXRSP_WIDTH" for f
    unfolding pack_txrsp_def by (rule pack_range)
  show "bit (pack_txrsp f) i \<longleftrightarrow> covered TXRSP_LAYOUT i \<and> bit w i" if "unpack_txrsp w = Some f" for w f i
    by (simp add: txrsp_repack [OF that] bit_pack_unpack)
  show "covered TXRSP_LAYOUT i" if "bit (pack_txrsp f) i" for f i
    using pack_kept [OF layout_ok_txrsp] that unfolding pack_txrsp_def by blast
qed (rule unpack_pack_txrsp unpack_txrsp_total)+

subsection \<open>TXDAT\<close>

text \<open>The unpacker reads neither \<open>data_check\<close> nor \<open>poison\<close>, and the packer writes them as zero.\<close>

definition txdat_kept :: "string set" where
  "txdat_kept = - {''data_check'', ''poison''}"

lemma unpack_pack_txdat: "unpack_txdat (pack_txdat f) = Some (txdat_wire f)"
  unfolding unpack_txdat_def pack_txdat_def
  by (simp add: unpack_pack_lookup [OF layout_ok_txdat] txdat_map_of txdat_values_def Let_def
      dict_simps txdat_wire_def lanes_or_zero_eq flit_int_to_bytes_take_bit flit_int_to_bytes_inverse)

lemma txdat_repack:
  assumes "unpack_txdat w = Some f"
  shows "pack_txdat f = pack TXDAT_LAYOUT (unpack TXDAT_LAYOUT w |` txdat_kept) TXDAT_WIDTH"
proof -
  note fld = unpack_lookup [OF layout_ok_txdat]
  have f: "f = raw_dat_default
      \<lparr>f_qos := take_bit 4 w, f_tgtid := take_bit 11 (drop_bit 4 w),
       f_srcid := take_bit 11 (drop_bit 15 w), f_txnid := take_bit 12 (drop_bit 26 w),
       dt_home_nid := take_bit 11 (drop_bit 38 w), f_opcode := take_bit 4 (drop_bit 49 w),
       dt_resp_err := take_bit 2 (drop_bit 53 w), dt_resp := take_bit 3 (drop_bit 55 w),
       dt_data_source := take_bit 4 (drop_bit 58 w), dt_dbid := take_bit 12 (drop_bit 65 w),
       dt_ccid := take_bit 2 (drop_bit 77 w), dt_data_id := take_bit 2 (drop_bit 79 w),
       dt_trace_tag := (take_bit 1 (drop_bit 93 w) \<noteq> 0),
       dt_data := flit_int_to_bytes (take_bit 256 (drop_bit 130 w)) 32,
       dt_chunk_valid := flit_int_to_bytes (take_bit 2 (drop_bit 422 w)) 2\<rparr>"
    using assms unfolding unpack_txdat_def by (simp add: fld txdat_map_of Let_def)
  show ?thesis
    unfolding pack_txdat_def f
    by (rule pack_take_bit_cong)
      (simp add: fld txdat_map_of TXDAT_LAYOUT_def [THEN arg_cong, of "list_all P" for P] Let_def
        dict_simps txdat_values_def lanes_or_zero_eq flit_bytes_to_int_inverse txdat_kept_def
        restrict_map_def)
qed

lemma unpack_txdat_total: "\<exists>f. unpack_txdat w = Some f"
  unfolding unpack_txdat_def
  by (simp add: unpack_lookup [OF layout_ok_txdat] txdat_map_of Let_def)

interpretation txdat: wire_codec pack_txdat unpack_txdat txdat_wire TXDAT_WIDTH
  "covered (restricted txdat_kept TXDAT_LAYOUT)"
proof
  show "0 \<le> pack_txdat f \<and> pack_txdat f < 2 ^ TXDAT_WIDTH" for f
    unfolding pack_txdat_def by (rule pack_range)
  show "bit (pack_txdat f) i \<longleftrightarrow> covered (restricted txdat_kept TXDAT_LAYOUT) i \<and> bit w i"
    if "unpack_txdat w = Some f" for w f i
    by (simp add: txdat_repack [OF that] bit_pack_unpack_restrict)
  show "covered (restricted txdat_kept TXDAT_LAYOUT) i" if "bit (pack_txdat f) i" for f i
  proof -
    have "pack_txdat f = pack TXDAT_LAYOUT (txdat_values f |` txdat_kept) TXDAT_WIDTH"
      unfolding pack_txdat_def
      by (rule arg_cong [of _ _ "\<lambda>v. pack TXDAT_LAYOUT v TXDAT_WIDTH"])
        (auto simp: txdat_values_def txdat_kept_def restrict_map_def Let_def fun_eq_iff)
    with that show ?thesis using bit_pack_restrict [OF layout_ok_txdat] by metis
  qed
qed (rule unpack_pack_txdat unpack_txdat_total)+

section \<open>Properties\<close>

text \<open>
  C32. Packing and unpacking agree on every channel: unpacking a packed flit never raises KeyError
  and gives the flit with each field cut to its wire width and the fields the wire does not carry
  at their defaults.
\<close>

theorem link_codecs_roundtrip:
  "unpack_rxreq (pack_rxreq rq) = Some (rxreq_wire rq) \<and>
   unpack_rxdat (pack_rxdat rd) = Some (rxdat_wire rd) \<and>
   unpack_txrsp (pack_txrsp tr) = Some (txrsp_wire tr) \<and>
   unpack_txdat (pack_txdat td) = Some (txdat_wire td)"
  by (intro conjI rxreq.upk_pk rxdat.upk_pk txrsp.upk_pk txdat.upk_pk)

text \<open>
  Every flit sampled on a link is decoded (no KeyError), and a sampled word whose reserved bits
  are clear is rebuilt exactly by the packer: the monitor's decoding loses nothing the layout names
  (on TXDAT, nothing but \<open>data_check\<close> and \<open>poison\<close>, which the flit objects do not carry).
\<close>

theorem link_words_roundtrip:
  assumes "\<And>i. bit rxreq_w i \<Longrightarrow> covered RXREQ_LAYOUT i"
    and "\<And>i. bit rxdat_w i \<Longrightarrow> covered RXDAT_LAYOUT i"
    and "\<And>i. bit txrsp_w i \<Longrightarrow> covered TXRSP_LAYOUT i"
    and "\<And>i. bit txdat_w i \<Longrightarrow> covered (restricted txdat_kept TXDAT_LAYOUT) i"
  shows "map_option pack_rxreq (unpack_rxreq rxreq_w) = Some rxreq_w \<and>
         map_option pack_rxdat (unpack_rxdat rxdat_w) = Some rxdat_w \<and>
         map_option pack_txrsp (unpack_txrsp txrsp_w) = Some txrsp_w \<and>
         map_option pack_txdat (unpack_txdat txdat_w) = Some txdat_w"
  using rxreq.map_pk_upk [OF assms(1)] rxdat.map_pk_upk [OF assms(2)]
    txrsp.map_pk_upk [OF assms(3)] txdat.map_pk_upk [OF assms(4)] by blast

text \<open>The witness: the words of one packed flit per channel.\<close>

theorem link_words_roundtrip_witness:
  "let rq = pack_rxreq (make_read_no_snp 7 0x1000 1 0 6 0 0 0 None 1 False);
       rd = pack_rxdat (make_write_data 7 0xABCD 1 0 2 5 None 3 0 0);
       tr = pack_txrsp (raw_rsp_default\<lparr>f_txnid := 7, f_opcode := 6, rs_dbid := 7\<rparr>);
       td = pack_txdat (raw_dat_default\<lparr>f_txnid := 7, f_opcode := 4, dt_data := [1, 2, 3]\<rparr>)
   in map_option pack_rxreq (unpack_rxreq rq) = Some rq \<and>
      map_option pack_rxdat (unpack_rxdat rd) = Some rd \<and>
      map_option pack_txrsp (unpack_txrsp tr) = Some tr \<and>
      map_option pack_txdat (unpack_txdat td) = Some td"
  unfolding Let_def
  by (rule link_words_roundtrip) (fact rxreq.pk_kept rxdat.pk_kept txrsp.pk_kept txdat.pk_kept)+

end
