(* ===== verification/Chi_Txn.thy ===== *)
theory Chi_Txn
  imports Chi_Flit
begin

text \<open>
  The transactions of \<^verbatim>\<open>chi_txn.py\<close>.  \<^verbatim>\<open>ChiTxn\<close> is a record that the three subclasses extend,
  and \<open>txn\<close> is the tagged union a queue of transactions holds.  The properties say which requests
  \<^verbatim>\<open>txn_from_req\<close> accepts and that \<^verbatim>\<open>required_data_ids\<close> names exactly the 32-byte halves of
  the cache line an aligned transfer touches.
\<close>

definition TXN_ID_MODULO :: int where "TXN_ID_MODULO = push_bit 5 1"
definition CACHE_LINE_BYTES :: nat where "CACHE_LINE_BYTES = 64"
definition DAT_BEAT_BYTES :: nat where "DAT_BEAT_BYTES = 32"

text \<open>\<^verbatim>\<open>1 << int(size)\<close> raises ValueError on a negative shift count.\<close>

definition size_to_bytes :: "int \<Rightarrow> int result" where
  "size_to_bytes sz = (if sz < 0 then Inl ValueError else Inr (push_bit (nat sz) 1))"

definition required_data_ids :: "int \<Rightarrow> int \<Rightarrow> int list" where
  "required_data_ids addr sz =
     (if sz \<ge> 6 then [0, 2] else [if drop_bit 5 addr AND 0x1 \<noteq> 0 then 2 else 0])"

record chi_txn =
  t_txn_id :: int
  t_addr :: int
  t_opcode :: int
  t_size :: int
  t_qos :: int
  t_src_id :: int
  t_tgt_id :: int
  t_return_nid :: int
  t_order :: int
  t_memattr :: int
  t_allow_retry :: int
  t_trace_tag :: bool
  t_user :: int
  t_non_secure :: bool
  t_raw_flit :: "raw_req option"

definition txn_nbytes :: "'a chi_txn_scheme \<Rightarrow> int result" where
  "txn_nbytes t = size_to_bytes (t_size t)"

definition txn_is_read :: "'a chi_txn_scheme \<Rightarrow> bool" where
  "txn_is_read t \<longleftrightarrow> t_opcode t = OPC_READNOSNP"

definition txn_is_write :: "'a chi_txn_scheme \<Rightarrow> bool" where
  "txn_is_write t \<longleftrightarrow> t_opcode t \<in> set WRITE_NOSNP_OPCODES"

record chi_read_txn = chi_txn +
  rd_comp_data :: "raw_dat list"
  rd_expected_beats :: int

definition read_complete :: "chi_read_txn \<Rightarrow> bool" where
  "read_complete t \<longleftrightarrow> int (length (rd_comp_data t)) \<ge> rd_expected_beats t"

record chi_write_txn = chi_txn +
  wr_partial :: bool
  wr_pending_data_ids :: "int list"
  wr_write_data :: "raw_dat list"
  wr_dbid :: "int option"

definition data_complete :: "chi_write_txn \<Rightarrow> bool" where
  "data_complete t \<longleftrightarrow> wr_pending_data_ids t = []"

record chi_data_txn = chi_txn +
  wd_data :: "raw_dat list"

text \<open>A transaction object: a read, a write or a write-data transaction.\<close>

datatype txn = ReadTxn chi_read_txn | WriteTxn chi_write_txn | DataTxn chi_data_txn

text \<open>The field values \<^verbatim>\<open>txn_from_req\<close> hands to either constructor.\<close>

definition read_txn_from :: "raw_req \<Rightarrow> int \<Rightarrow> chi_read_txn" where
  "read_txn_from f beats =
     \<lparr>t_txn_id = f_txnid f, t_addr = rq_addr f, t_opcode = f_opcode f, t_size = rq_size f,
      t_qos = f_qos f, t_src_id = f_srcid f, t_tgt_id = f_tgtid f,
      t_return_nid = rq_return_nid f, t_order = rq_order f, t_memattr = rq_memattr f,
      t_allow_retry = rq_allow_retry f, t_trace_tag = rq_trace_tag f, t_user = rq_user f,
      t_non_secure = rq_non_secure f, t_raw_flit = Some f,
      rd_comp_data = [], rd_expected_beats = beats\<rparr>"

definition write_txn_from :: "raw_req \<Rightarrow> bool \<Rightarrow> int list \<Rightarrow> chi_write_txn" where
  "write_txn_from f partial ids =
     \<lparr>t_txn_id = f_txnid f, t_addr = rq_addr f, t_opcode = f_opcode f, t_size = rq_size f,
      t_qos = f_qos f, t_src_id = f_srcid f, t_tgt_id = f_tgtid f,
      t_return_nid = rq_return_nid f, t_order = rq_order f, t_memattr = rq_memattr f,
      t_allow_retry = rq_allow_retry f, t_trace_tag = rq_trace_tag f, t_user = rq_user f,
      t_non_secure = rq_non_secure f, t_raw_flit = Some f,
      wr_partial = partial, wr_pending_data_ids = ids, wr_write_data = [], wr_dbid = None\<rparr>"

definition data_txn_default :: chi_data_txn where
  "data_txn_default =
     \<lparr>t_txn_id = 0, t_addr = 0, t_opcode = 0, t_size = 6, t_qos = 0, t_src_id = 0,
      t_tgt_id = 0, t_return_nid = 0, t_order = 0, t_memattr = 0, t_allow_retry = 0,
      t_trace_tag = False, t_user = 0, t_non_secure = False, t_raw_flit = None, wd_data = []\<rparr>"

definition txn_from_req :: "raw_req \<Rightarrow> txn result" where
  "txn_from_req f =
     (if is_read_no_snp f then
        and_then (size_to_bytes (rq_size f)) (\<lambda>nbytes.
          Inr (ReadTxn (read_txn_from f (max 1 (nbytes div int DAT_BEAT_BYTES)))))
      else if is_write_no_snp f then
        Inr (WriteTxn (write_txn_from f (f_opcode f = 0x1D)
          (required_data_ids (rq_addr f) (rq_size f))))
      else Inl ValueError)"

section \<open>Accepted requests\<close>

lemma size_to_bytes_pow: "0 \<le> sz \<Longrightarrow> size_to_bytes sz = Inr (2 ^ nat sz)"
  by (simp add: size_to_bytes_def)

lemma txn_from_req_read:
  "is_read_no_snp f \<Longrightarrow> 0 \<le> rq_size f \<Longrightarrow>
     txn_from_req f = Inr (ReadTxn (read_txn_from f (max 1 (2 ^ nat (rq_size f) div 32))))"
  by (simp add: txn_from_req_def size_to_bytes_pow DAT_BEAT_BYTES_def)

lemma read_not_write: "is_read_no_snp f \<Longrightarrow> \<not> is_write_no_snp f"
  by (simp add: is_read_no_snp_def is_write_no_snp_def opcode_defs)

lemma txn_from_req_write:
  "is_write_no_snp f \<Longrightarrow>
     txn_from_req f = Inr (WriteTxn (write_txn_from f (f_opcode f = 0x1D)
       (required_data_ids (rq_addr f) (rq_size f))))"
  using read_not_write [of f] by (auto simp: txn_from_req_def)

text \<open>
  \<^verbatim>\<open>txn_from_req\<close> raises ValueError on exactly the requests the DUT does not implement (and on a
  read whose encoded size is negative), and the transaction it builds otherwise keeps the request
  flit the driver will put on the wire.
\<close>

theorem txn_from_req_accepts:
  "(txn_from_req f = Inl ValueError \<longleftrightarrow>
      f_opcode f \<notin> {0x04, 0x1C, 0x1D} \<or> f_opcode f = 0x04 \<and> rq_size f < 0) \<and>
   (case txn_from_req f of
      Inl e \<Rightarrow> e = ValueError
    | Inr (ReadTxn t) \<Rightarrow> f_opcode f = 0x04 \<and> t_raw_flit t = Some f \<and> t_txn_id t = f_txnid f \<and>
        rd_comp_data t = [] \<and> rd_expected_beats t = max 1 (2 ^ nat (rq_size f) div 32)
    | Inr (WriteTxn t) \<Rightarrow> f_opcode f \<in> {0x1C, 0x1D} \<and> t_raw_flit t = Some f \<and>
        t_txn_id t = f_txnid f \<and> (wr_partial t \<longleftrightarrow> f_opcode f = 0x1D) \<and>
        wr_pending_data_ids t = required_data_ids (rq_addr f) (rq_size f)
    | Inr (DataTxn t) \<Rightarrow> False)"
  by (auto simp: txn_from_req_def is_read_no_snp_def is_write_no_snp_def opcode_defs
      size_to_bytes_def DAT_BEAT_BYTES_def read_txn_from_def write_txn_from_def)

section \<open>Data beats of a write\<close>

text \<open>The 32-byte half of its cache line that a byte address lies in, and the half a data beat
  carries (\<open>data_id\<close> 0/1 the low one, 2/3 the high one).\<close>

definition line_half :: "int \<Rightarrow> int" where
  "line_half a = a div 32 mod 2"

definition beat_half :: "int \<Rightarrow> int" where
  "beat_half data_id = data_id div 2"

lemma required_data_ids_half:
  "required_data_ids addr sz = (if sz \<ge> 6 then [0, 2] else [2 * line_half addr])"
proof -
  have "drop_bit 5 addr AND 1 = line_half addr"
    by (simp add: and_one_eq line_half_def drop_bit_eq_div)
  moreover have "line_half addr = 0 \<or> line_half addr = 1" by (auto simp: line_half_def)
  ultimately show ?thesis by (auto simp: required_data_ids_def)
qed

lemma distinct_required_data_ids: "distinct (required_data_ids addr sz)"
  by (simp add: required_data_ids_half)

lemma aligned_same_half:
  fixes a k :: int and sz :: nat
  assumes "sz < 6" "a mod 2 ^ sz = 0" "0 \<le> k" "k < 2 ^ sz"
  shows "line_half (a + k) = line_half a"
proof -
  obtain q where a: "a = 2 ^ sz * q" using assms(2) by (auto elim: dvdE simp: mod_eq_0_iff_dvd)
  define c :: int where "c = 2 ^ (5 - sz)"
  have "(2 :: int) ^ 5 = 2 ^ sz * 2 ^ (5 - sz)"
    using assms(1) by (subst power_add [symmetric]) simp
  then have c: "(32 :: int) = 2 ^ sz * c" by (simp add: c_def)
  have "0 < c" by (simp add: c_def)
  have "(a + k) div 2 ^ sz = q" using a assms(3,4) by simp
  then have "(a + k) div 32 = q div c"
    unfolding c using \<open>0 < c\<close> by (simp add: zdiv_zmult2_eq)
  moreover have "a div 32 = q div c" unfolding c a using \<open>0 < c\<close> by (simp add: zdiv_zmult2_eq)
  ultimately show ?thesis by (simp add: line_half_def)
qed

text \<open>
  The data beats a write waits for are exactly the halves of the cache line that its bytes lie in, for
  every aligned transfer of up to a line: both halves for 64 bytes, else the one half that contains
  the transfer.
\<close>

theorem required_data_ids_halves:
  assumes "sz \<le> 6" and "addr mod 2 ^ sz = 0"
  shows "beat_half ` set (required_data_ids addr (int sz)) = line_half ` {addr ..< addr + 2 ^ sz}"
proof (cases "sz = 6")
  case True
  have "line_half addr = 0" "line_half (addr + 32) = 1"
    using assms(2) True by (auto simp: line_half_def elim!: dvdE simp: mod_eq_0_iff_dvd)
  then have "{0, 1} \<subseteq> line_half ` {addr ..< addr + 2 ^ sz}"
    using True by (force intro: image_eqI [of _ line_half addr] image_eqI [of _ line_half "addr + 32"])
  moreover have "line_half ` {addr ..< addr + 2 ^ sz} \<subseteq> {0, 1}" by (auto simp: line_half_def)
  ultimately show ?thesis using True by (auto simp: required_data_ids_half beat_half_def)
next
  case False
  then have "sz < 6" using assms(1) by simp
  have "line_half b = line_half addr" if "b \<in> {addr ..< addr + 2 ^ sz}" for b
    using aligned_same_half [OF \<open>sz < 6\<close> assms(2), of "b - addr"] that by simp
  moreover have "addr \<in> {addr ..< addr + 2 ^ sz}" by simp
  ultimately have "line_half ` {addr ..< addr + 2 ^ sz} = {line_half addr}" by blast
  then show ?thesis using \<open>sz < 6\<close> by (simp add: required_data_ids_half beat_half_def)
qed

theorem required_data_ids_halves_witness:
  "beat_half ` set (required_data_ids 0x1020 (int 5)) = line_half ` {0x1020 ..< 0x1020 + 2 ^ 5}"
  by (rule required_data_ids_halves) simp_all

end
