(* ===== verification/Gem5_Adaptor.thy ===== *)
theory Gem5_Adaptor
  imports Chi_Txn
begin

text \<open>
  The standalone adaptor of \<^verbatim>\<open>gem5_adaptor.py\<close>: it turns each CHI flit into zero or one transaction and
  keeps the live reads and writes by transaction id.  Its dictionaries are maps, for only
  lookups and assignments are made on them.  The TLM fifos it sits between belong to pyuvm;
  \<open>adaptor_step\<close> is what \<^verbatim>\<open>run_phase\<close> does with one flit taken from the input fifo, and its second component
  is what it puts to the driver, in order.

  A write object is shared between the dictionary and the queue in Python; only the dictionary's
  view changes later (the driver reads nothing but the request flit of a write), so the
  model keeps the changing copy in the dictionary.
\<close>

definition OPC_NCB_WRITE_DATA :: int where "OPC_NCB_WRITE_DATA = 0x3"
definition OPC_CB_WRITE_DATA :: int where "OPC_CB_WRITE_DATA = 0x2"

datatype flit = ReqFlit raw_req | DatFlit raw_dat | RspFlit raw_rsp | SnpFlit raw_snp

record adaptor =
  ad_writes :: "int \<rightharpoonup> chi_write_txn"
  ad_reads :: "int \<rightharpoonup> chi_read_txn"
  ad_converted :: int
  ad_dropped :: int

definition adaptor_init :: adaptor where
  "adaptor_init = \<lparr>ad_writes = Map.empty, ad_reads = Map.empty, ad_converted = 0, ad_dropped = 0\<rparr>"

definition adaptor_drop :: "adaptor \<Rightarrow> adaptor" where
  "adaptor_drop a = a\<lparr>ad_dropped := ad_dropped a + 1\<rparr>"

definition req_to_txn :: "adaptor \<Rightarrow> raw_req \<Rightarrow> adaptor \<times> txn list" where
  "req_to_txn a f =
     (case txn_from_req f of
        Inl _ \<Rightarrow> (adaptor_drop a, [])
      | Inr (ReadTxn t) \<Rightarrow> (a\<lparr>ad_reads := (ad_reads a)(t_txn_id t \<mapsto> t)\<rparr>, [ReadTxn t])
      | Inr (WriteTxn t) \<Rightarrow> (a\<lparr>ad_writes := (ad_writes a)(t_txn_id t \<mapsto> t)\<rparr>, [WriteTxn t])
      | Inr (DataTxn t) \<Rightarrow> (a, [DataTxn t]))"

definition write_add_data :: "chi_write_txn \<Rightarrow> raw_dat \<Rightarrow> chi_write_txn" where
  "write_add_data w f =
     w\<lparr>wr_write_data := wr_write_data w @ [f],
       wr_pending_data_ids := remove1 (dt_data_id f) (wr_pending_data_ids w)\<rparr>"

definition dat_to_txn :: "adaptor \<Rightarrow> raw_dat \<Rightarrow> adaptor \<times> txn list" where
  "dat_to_txn a f =
     (if f_opcode f \<notin> {OPC_NCB_WRITE_DATA, OPC_CB_WRITE_DATA} then (adaptor_drop a, [])
      else case ad_writes a (f_txnid f) of
        None \<Rightarrow>
          (a, [DataTxn (data_txn_default
                 \<lparr>t_txn_id := f_txnid f, t_opcode := f_opcode f, wd_data := [f]\<rparr>)])
      | Some w \<Rightarrow>
          (a\<lparr>ad_writes := (ad_writes a)(f_txnid f \<mapsto> write_add_data w f)\<rparr>,
           [DataTxn (data_txn_default
              \<lparr>t_txn_id := t_txn_id w, t_addr := t_addr w, t_opcode := f_opcode f,
               t_size := t_size w, t_qos := t_qos w, t_src_id := t_src_id w,
               t_tgt_id := t_tgt_id w, wd_data := [f]\<rparr>)]))"

fun to_transactions :: "adaptor \<Rightarrow> flit \<Rightarrow> adaptor \<times> txn list" where
  "to_transactions a (ReqFlit f) = req_to_txn a f"
| "to_transactions a (DatFlit f) = dat_to_txn a f"
| "to_transactions a _ = (adaptor_drop a, [])"

text \<open>One turn of \<^verbatim>\<open>run_phase\<close>: every transaction of the flit is put to the driver and counted.\<close>

definition adaptor_step :: "adaptor \<Rightarrow> flit \<Rightarrow> adaptor \<times> txn list" where
  "adaptor_step a f =
     (let (a', txns) = to_transactions a f
      in (a'\<lparr>ad_converted := ad_converted a' + int (length txns)\<rparr>, txns))"

fun adaptor_run :: "adaptor \<Rightarrow> flit list \<Rightarrow> adaptor \<times> txn list" where
  "adaptor_run a [] = (a, [])"
| "adaptor_run a (f # fs) =
     (let (a', txns) = adaptor_step a f; (a'', rest) = adaptor_run a' fs in (a'', txns @ rest))"

definition complete_read :: "adaptor \<Rightarrow> int \<Rightarrow> raw_dat \<Rightarrow> adaptor \<times> chi_read_txn option" where
  "complete_read a txn_id f =
     (case ad_reads a txn_id of
        None \<Rightarrow> (a, None)
      | Some r \<Rightarrow>
          let r' = r\<lparr>rd_comp_data := rd_comp_data r @ [f]\<rparr>
          in (a\<lparr>ad_reads := (ad_reads a)(txn_id \<mapsto> r')\<rparr>, Some r'))"

section \<open>Every flit is converted or dropped\<close>

lemma adaptor_drop_sel [simp]:
  "ad_writes (adaptor_drop a) = ad_writes a" "ad_reads (adaptor_drop a) = ad_reads a"
  "ad_converted (adaptor_drop a) = ad_converted a" "ad_dropped (adaptor_drop a) = ad_dropped a + 1"
  by (simp_all add: adaptor_drop_def)

lemma adaptor_step_counts:
  "adaptor_step a f = (a', txns) \<Longrightarrow>
     length txns \<le> 1 \<and> ad_converted a' = ad_converted a + int (length txns) \<and>
     ad_dropped a' = ad_dropped a + (if txns = [] then 1 else 0)"
  by (cases f)
    (auto simp: adaptor_step_def req_to_txn_def dat_to_txn_def Let_def
      split: sum.splits txn.splits option.splits if_splits)

lemma adaptor_run_counts:
  "adaptor_run a fs = (a', txns) \<Longrightarrow>
     ad_converted a' = ad_converted a + int (length txns) \<and>
     ad_converted a' + ad_dropped a' = ad_converted a + ad_dropped a + int (length fs)"
proof (induction fs arbitrary: a a' txns)
  case (Cons f fs)
  obtain a1 t1 where s: "adaptor_step a f = (a1, t1)" by (cases "adaptor_step a f")
  obtain a2 t2 where r: "adaptor_run a1 fs = (a2, t2)" by (cases "adaptor_run a1 fs")
  have "length t1 \<le> 1" "t1 = [] \<or> length t1 = 1" using adaptor_step_counts [OF s] by (auto simp: le_Suc_eq)
  then show ?case using adaptor_step_counts [OF s] Cons.IH [OF r] Cons.prems s r by auto
qed simp

text \<open>
  No flit is lost or duplicated by the adaptor: whatever the flits, each is either converted into
  exactly one transaction handed to the driver or counted as dropped.
\<close>

theorem adaptor_conserves_flits:
  "case adaptor_run adaptor_init fs of (a, txns) \<Rightarrow>
     ad_converted a = int (length txns) \<and> ad_converted a + ad_dropped a = int (length fs)"
  using adaptor_run_counts [of adaptor_init fs]
  by (auto simp: adaptor_init_def split: prod.splits)

section \<open>Completion of a write\<close>

definition is_ncb_data :: "flit \<Rightarrow> bool" where
  "is_ncb_data f \<longleftrightarrow> (case f of DatFlit d \<Rightarrow> True | _ \<Rightarrow> False)"

text \<open>The write data flits for transaction \<open>t\<close> among a list of flits, in order.\<close>

fun write_flits :: "int \<Rightarrow> flit list \<Rightarrow> raw_dat list" where
  "write_flits t [] = []"
| "write_flits t (DatFlit d # fs) =
     (if f_opcode d \<in> {OPC_NCB_WRITE_DATA, OPC_CB_WRITE_DATA} \<and> f_txnid d = t
      then d # write_flits t fs else write_flits t fs)"
| "write_flits t (_ # fs) = write_flits t fs"

lemma adaptor_step_writes:
  assumes "is_ncb_data f" and "ad_writes a t = Some w"
  shows "ad_writes (fst (adaptor_step a f)) t = Some (fold (\<lambda>d w. write_add_data w d) (write_flits t [f]) w)"
proof (cases f)
  case (DatFlit d)
  then show ?thesis using assms(2)
    by (cases "ad_writes a (f_txnid d)")
      (auto simp: adaptor_step_def dat_to_txn_def Let_def split: prod.splits)
qed (use assms(1) in \<open>simp_all add: is_ncb_data_def\<close>)

lemma write_flits_append: "write_flits t (fs @ gs) = write_flits t fs @ write_flits t gs"
  by (induction t fs rule: write_flits.induct) auto

lemma adaptor_run_writes:
  "list_all is_ncb_data fs \<Longrightarrow> ad_writes a t = Some w \<Longrightarrow>
     ad_writes (fst (adaptor_run a fs)) t = Some (fold (\<lambda>d w. write_add_data w d) (write_flits t fs) w)"
proof (induction fs arbitrary: a w)
  case (Cons f fs)
  have "ad_writes (fst (adaptor_step a f)) t =
      Some (fold (\<lambda>d w. write_add_data w d) (write_flits t [f]) w)"
    using Cons.prems by (intro adaptor_step_writes) auto
  then have "ad_writes (fst (adaptor_run (fst (adaptor_step a f)) fs)) t =
      Some (fold (\<lambda>d w. write_add_data w d) (write_flits t [f] @ write_flits t fs) w)"
    using Cons by simp
  then show ?case by (simp add: split_beta Let_def flip: write_flits_append)
qed simp

lemma fold_write_add_data:
  "distinct (wr_pending_data_ids w) \<Longrightarrow>
     wr_write_data (fold (\<lambda>d w. write_add_data w d) ds w) = wr_write_data w @ ds \<and>
     set (wr_pending_data_ids (fold (\<lambda>d w. write_add_data w d) ds w)) =
       set (wr_pending_data_ids w) - dt_data_id ` set ds"
  by (induction ds arbitrary: w) (auto simp: write_add_data_def)

text \<open>
  A write request and its data: after the adaptor has taken a supported write request, any sequence of data
  flits (of this or other transactions, repeated or in any order) leaves the live write holding
  exactly its own data flits in order, and it counts as complete exactly when every half of the line it
  needs has arrived.
\<close>

theorem adaptor_write_completion:
  assumes "is_write_no_snp f" and "list_all is_ncb_data ds"
  shows "\<exists>w. ad_writes (fst (adaptor_run a (ReqFlit f # ds))) (f_txnid f) = Some w \<and>
     wr_write_data w = write_flits (f_txnid f) ds \<and>
     (data_complete w \<longleftrightarrow>
        set (required_data_ids (rq_addr f) (rq_size f)) \<subseteq> dt_data_id ` set (write_flits (f_txnid f) ds))"
proof -
  define w where "w = write_txn_from f (f_opcode f = 0x1D) (required_data_ids (rq_addr f) (rq_size f))"
  have start: "ad_writes (fst (adaptor_step a (ReqFlit f))) (f_txnid f) = Some w"
    using assms(1)
    by (simp add: adaptor_step_def req_to_txn_def txn_from_req_write w_def Let_def write_txn_from_def)
  have w: "wr_pending_data_ids w = required_data_ids (rq_addr f) (rq_size f)" "wr_write_data w = []"
    by (simp_all add: w_def write_txn_from_def)
  let ?w = "fold (\<lambda>d w. write_add_data w d) (write_flits (f_txnid f) ds) w"
  have "ad_writes (fst (adaptor_run a (ReqFlit f # ds))) (f_txnid f) = Some ?w"
    using adaptor_run_writes [OF assms(2) start] by (simp add: split_beta Let_def)
  moreover have "data_complete ?w \<longleftrightarrow> set (wr_pending_data_ids ?w) = {}"
    by (simp add: data_complete_def)
  ultimately show ?thesis
    using fold_write_add_data [of w "write_flits (f_txnid f) ds"] w distinct_required_data_ids
    by (auto simp: Diff_eq_empty_iff)
qed

text \<open>The witness: a 64-byte write and its two beats, the second sent twice, with a stray beat of
  another transaction between them.\<close>

theorem adaptor_write_completion_witness:
  "let f = make_write_no_snp 0 0x2000 1 0 6 0 0 0 None 1 False;
       b = (\<lambda>t d. DatFlit (make_write_data t 0xAB 1 0 d 0 None 3 0 0));
       ds = [b 0 2, b 9 0, b 0 2, b 0 0]
   in \<exists>w. ad_writes (fst (adaptor_run adaptor_init (ReqFlit f # ds))) (f_txnid f) = Some w \<and>
        wr_write_data w = write_flits (f_txnid f) ds \<and> data_complete w"
proof -
  let ?f = "make_write_no_snp 0 0x2000 1 0 6 0 0 0 None 1 False"
  let ?b = "\<lambda>t d. DatFlit (make_write_data t 0xAB 1 0 d 0 None 3 0 0)"
  let ?ds = "[?b 0 2, ?b 9 0, ?b 0 2, ?b 0 0]"
  have "is_write_no_snp ?f"
    by (simp add: make_write_no_snp_def is_write_no_snp_def opcode_defs raw_req_default_def)
  moreover have "list_all is_ncb_data ?ds" by (simp add: is_ncb_data_def)
  moreover have "set (required_data_ids (rq_addr ?f) (rq_size ?f)) \<subseteq>
      dt_data_id ` set (write_flits (f_txnid ?f) ?ds)"
    by (simp add: make_write_no_snp_def make_write_data_def raw_req_default_def raw_dat_default_def
        required_data_ids_def OPC_NCB_WRITE_DATA_def)
  ultimately show ?thesis
    unfolding Let_def using adaptor_write_completion [of ?f ?ds adaptor_init] by auto
qed

end
