(* ===== verification/Cosim_Json.thy ===== *)
theory Cosim_Json
  imports C2xm_Prelude
begin

text \<open>
  The part of Python's \<^verbatim>\<open>json\<close> module that \<^verbatim>\<open>cosim_protocol.py\<close> uses: \<open>dumps\<close> with compact
  separators (and the default \<open>ensure_ascii\<close>) and \<open>loads\<close>.  A dictionary is an association list in
  insertion order; a float is held by its literal, which \<open>repr\<close> and \<open>float\<close> map to each other.
  Text is limited to code points below 256; the protocol's own keys and values are ASCII.

  \<open>loads\<close> is a recursive-descent parser with fuel; every call consumes a character first or is made
  once per character, so the length of the text is enough (\<open>loads_dumps\<close> uses no more).
\<close>

datatype json =
    JNull
  | JBool bool
  | JInt int
  | JFloat string
  | JStr string
  | JList "json list"
  | JObj "(string \<times> json) list"

type_synonym obj = "(string \<times> json) list"

section \<open>Printing\<close>

abbreviation code :: "char \<Rightarrow> nat" where "code c \<equiv> of_char c"

definition digit_char :: "nat \<Rightarrow> char" where
  "digit_char n = char_of (48 + n)"

definition is_digit :: "char \<Rightarrow> bool" where
  "is_digit c \<longleftrightarrow> 48 \<le> code c \<and> code c \<le> 57"

fun dec_nat :: "nat \<Rightarrow> string" where
  "dec_nat n = (if n < 10 then [digit_char n] else dec_nat (n div 10) @ [digit_char (n mod 10)])"

declare dec_nat.simps [simp del]

definition dec_int :: "int \<Rightarrow> string" where
  "dec_int i = (if i < 0 then CHR ''-'' # dec_nat (nat (- i)) else dec_nat (nat i))"

text \<open>Lower-case hexadecimal digits.\<close>

definition hex_char :: "nat \<Rightarrow> char" where
  "hex_char n = (if n < 10 then char_of (48 + n) else char_of (87 + n))"

definition hex_val :: "char \<Rightarrow> nat option" where
  "hex_val c =
     (let k = code c in
      if 48 \<le> k \<and> k \<le> 57 then Some (k - 48)
      else if 97 \<le> k \<and> k \<le> 102 then Some (k - 87)
      else if 65 \<le> k \<and> k \<le> 70 then Some (k - 55)
      else None)"

definition simple_escapes :: "(char \<times> char) list" where
  "simple_escapes =
     [(CHR 0x22, CHR 0x22), (CHR 0x5C, CHR 0x5C), (CHR 0x0A, CHR ''n''), (CHR 0x0D, CHR ''r''),
      (CHR 0x09, CHR ''t''), (CHR 0x0C, CHR ''f''), (CHR 0x08, CHR ''b'')]"

definition esc_char :: "char \<Rightarrow> string" where
  "esc_char c =
     (case map_of simple_escapes c of
        Some e \<Rightarrow> [CHR 0x5C, e]
      | None \<Rightarrow>
          if 32 \<le> code c \<and> code c \<le> 126 then [c]
          else [CHR 0x5C, CHR ''u'', CHR ''0'', CHR ''0'',
                hex_char (code c div 16), hex_char (code c mod 16)])"

definition dump_string :: "string \<Rightarrow> string" where
  "dump_string s = CHR 0x22 # concat (map esc_char s) @ [CHR 0x22]"

fun sep_by_comma :: "string list \<Rightarrow> string" where
  "sep_by_comma [] = []"
| "sep_by_comma [x] = x"
| "sep_by_comma (x # xs) = x @ CHR '','' # sep_by_comma xs"

fun dumps :: "json \<Rightarrow> string" where
  "dumps JNull = ''null''"
| "dumps (JBool b) = (if b then ''true'' else ''false'')"
| "dumps (JInt i) = dec_int i"
| "dumps (JFloat l) = l"
| "dumps (JStr s) = dump_string s"
| "dumps (JList xs) = CHR ''['' # sep_by_comma (map dumps xs) @ '']''"
| "dumps (JObj kvs) =
     CHR ''{'' # sep_by_comma (map (\<lambda>(k, v). dump_string k @ CHR '':'' # dumps v) kvs) @ ''}''"

section \<open>Parsing\<close>

definition is_ws :: "char \<Rightarrow> bool" where
  "is_ws c \<longleftrightarrow> code c \<in> {32, 9, 10, 13}"

definition skip_ws :: "string \<Rightarrow> string" where
  "skip_ws s = dropWhile is_ws s"

definition undec :: "string \<Rightarrow> nat" where
  "undec s = fold (\<lambda>c n. 10 * n + (code c - 48)) s 0"

text \<open>The body of a string after its opening quote; control characters are rejected.\<close>

fun scan_string :: "string \<Rightarrow> (string \<times> string) option" where
  "scan_string [] = None"
| "scan_string (c # cs) =
     (if c = CHR 0x22 then Some ([], cs)
      else if c = CHR 0x5C then
        (case cs of
           [] \<Rightarrow> None
         | e # es \<Rightarrow>
             if e = CHR ''u'' then
               (case es of
                  a # b # x # y # r \<Rightarrow>
                    (case (hex_val a, hex_val b, hex_val x, hex_val y) of
                       (Some 0, Some 0, Some h, Some l) \<Rightarrow>
                         map_option (\<lambda>(s, r'). (char_of (16 * h + l) # s, r')) (scan_string r)
                     | _ \<Rightarrow> None)
                | _ \<Rightarrow> None)
             else if e = CHR ''/'' then map_option (\<lambda>(s, r'). (e # s, r')) (scan_string es)
             else
               (case map_of (map prod.swap simple_escapes) e of
                  Some c' \<Rightarrow> map_option (\<lambda>(s, r'). (c' # s, r')) (scan_string es)
                | None \<Rightarrow> None))
      else if code c < 32 then None
      else map_option (\<lambda>(s, r'). (c # s, r')) (scan_string cs))"

text \<open>A number: sign, integer part without a leading zero, optional fraction and exponent.\<close>

definition scan_frac :: "string \<Rightarrow> string \<times> string" where
  "scan_frac s =
     (case s of
        CHR ''.'' # d # r \<Rightarrow>
          if is_digit d then (CHR ''.'' # d # takeWhile is_digit r, dropWhile is_digit r) else ([], s)
      | _ \<Rightarrow> ([], s))"

definition scan_exp :: "string \<Rightarrow> string \<times> string" where
  "scan_exp s =
     (case s of
        e # g # r \<Rightarrow>
          if e \<noteq> CHR ''e'' \<and> e \<noteq> CHR ''E'' then ([], s)
          else if is_digit g then (e # g # takeWhile is_digit r, dropWhile is_digit r)
          else if (g = CHR ''+'' \<or> g = CHR ''-'') \<and> takeWhile is_digit r \<noteq> [] then
            (e # g # takeWhile is_digit r, dropWhile is_digit r)
          else ([], s)
      | _ \<Rightarrow> ([], s))"

definition scan_digits :: "string \<Rightarrow> (string \<times> string) option" where
  "scan_digits s =
     (case s of
        [] \<Rightarrow> None
      | c # r \<Rightarrow>
          if c = CHR ''0'' then Some ([c], r)
          else if is_digit c then Some (c # takeWhile is_digit r, dropWhile is_digit r)
          else None)"

definition scan_number :: "string \<Rightarrow> (json \<times> string) option" where
  "scan_number s =
     (let (sgn, s1) = (case s of CHR ''-'' # r \<Rightarrow> (''-'', r) | _ \<Rightarrow> ([], s)) in
      case scan_digits s1 of
        None \<Rightarrow> None
      | Some (ip, s2) \<Rightarrow>
          (let (fp, s3) = scan_frac s2; (ep, s4) = scan_exp s3 in
           if fp = [] \<and> ep = [] then
             Some (JInt (if sgn = [] then int (undec ip) else - int (undec ip)), s4)
           else Some (JFloat (sgn @ ip @ fp @ ep), s4)))"

definition json_constants :: "(string \<times> json) list" where
  "json_constants =
     [(''null'', JNull), (''true'', JBool True), (''false'', JBool False),
      (''NaN'', JFloat ''NaN''), (''Infinity'', JFloat ''Infinity''),
      (''-Infinity'', JFloat ''-Infinity'')]"

definition scan_constant :: "string \<Rightarrow> (json \<times> string) option" where
  "scan_constant s =
     map_option (\<lambda>(w, v). (v, drop (length w) s))
       (List.find (\<lambda>(w, v). take (length w) s = w) json_constants)"

text \<open>\<open>parse_elems\<close> and \<open>parse_members\<close> read a list and an object from their first element on; a later
  binding of a key replaces the earlier one in place.\<close>

fun parse_value :: "nat \<Rightarrow> string \<Rightarrow> (json \<times> string) option"
and parse_elems :: "nat \<Rightarrow> string \<Rightarrow> (json list \<times> string) option"
and parse_members :: "nat \<Rightarrow> obj \<Rightarrow> string \<Rightarrow> (obj \<times> string) option" where
  "parse_value 0 s = None"
| "parse_value (Suc n) s =
     (case s of
        [] \<Rightarrow> None
      | c # cs \<Rightarrow>
          if c = CHR 0x22 then map_option (\<lambda>(t, r). (JStr t, r)) (scan_string cs)
          else if c = CHR ''['' then
            (case skip_ws cs of
               CHR '']'' # r \<Rightarrow> Some (JList [], r)
             | t \<Rightarrow> map_option (\<lambda>(xs, r). (JList xs, r)) (parse_elems n t))
          else if c = CHR ''{'' then
            (case skip_ws cs of
               CHR ''}'' # r \<Rightarrow> Some (JObj [], r)
             | t \<Rightarrow> map_option (\<lambda>(kvs, r). (JObj kvs, r)) (parse_members n [] t))
          else (case scan_constant s of Some p \<Rightarrow> Some p | None \<Rightarrow> scan_number s))"
| "parse_elems 0 s = None"
| "parse_elems (Suc n) s =
     (case parse_value n s of
        None \<Rightarrow> None
      | Some (v, r) \<Rightarrow>
          (case skip_ws r of
             CHR '','' # r' \<Rightarrow> map_option (\<lambda>(vs, t). (v # vs, t)) (parse_elems n (skip_ws r'))
           | CHR '']'' # r' \<Rightarrow> Some ([v], r')
           | _ \<Rightarrow> None))"
| "parse_members 0 d s = None"
| "parse_members (Suc n) d s =
     (case s of
        CHR 0x22 # cs \<Rightarrow>
          (case scan_string cs of
             None \<Rightarrow> None
           | Some (k, r) \<Rightarrow>
               (case skip_ws r of
                  CHR '':'' # r1 \<Rightarrow>
                    (case parse_value n (skip_ws r1) of
                       None \<Rightarrow> None
                     | Some (v, r2) \<Rightarrow>
                         (case skip_ws r2 of
                            CHR '','' # r3 \<Rightarrow> parse_members n (AList.update k v d) (skip_ws r3)
                          | CHR ''}'' # r3 \<Rightarrow> Some (AList.update k v d, r3)
                          | _ \<Rightarrow> None))
                | _ \<Rightarrow> None))
      | _ \<Rightarrow> None)"

definition loads :: "string \<Rightarrow> json result" where
  "loads s =
     (case parse_value (length s + 1) (skip_ws s) of
        None \<Rightarrow> Inl ValueError
      | Some (v, r) \<Rightarrow> if skip_ws r = [] then Inr v else Inl ValueError)"

section \<open>Numbers and strings round trip\<close>

lemma is_digit_digit_char [simp]: "n < 10 \<Longrightarrow> is_digit (digit_char n)"
  by (simp add: is_digit_def digit_char_def)

lemma code_digit_char [simp]: "n < 10 \<Longrightarrow> code (digit_char n) = 48 + n"
  by (simp add: digit_char_def)

lemma dec_nat_digits: "list_all is_digit (dec_nat n) \<and> dec_nat n \<noteq> []"
proof (induction n rule: dec_nat.induct)
  case (1 n)
  then show ?case by (cases "n < 10") (simp_all add: dec_nat.simps [of n])
qed

lemma undec_snoc: "undec (s @ [c]) = 10 * undec s + (code c - 48)"
  by (simp add: undec_def)

lemma undec_dec_nat [simp]: "undec (dec_nat n) = n"
proof (induction n rule: dec_nat.induct)
  case (1 n)
  show ?case
  proof (cases "n < 10")
    case True
    then show ?thesis by (subst dec_nat.simps) (simp add: undec_def)
  next
    case False
    then show ?thesis using 1 by (subst dec_nat.simps) (simp add: undec_snoc)
  qed
qed

lemma digit_char_0:
  assumes "n < 10"
  shows "digit_char n = CHR ''0'' \<longleftrightarrow> n = 0"
proof -
  have "digit_char n = CHR ''0'' \<longleftrightarrow> code (digit_char n) = code CHR ''0''"
    by (simp only: of_char_eq_iff)
  then show ?thesis using assms by simp
qed

lemma dec_nat_lead: "\<exists>c cs. dec_nat n = c # cs \<and> is_digit c \<and> list_all is_digit cs \<and> (c = CHR ''0'' \<longrightarrow> n = 0 \<and> cs = [])"
proof (induction n rule: dec_nat.induct)
  case (1 n)
  show ?case
  proof (cases "n < 10")
    case True
    then show ?thesis by (subst dec_nat.simps) (simp add: digit_char_0)
  next
    case False
    then obtain c cs where "dec_nat (n div 10) = c # cs" "is_digit c" "list_all is_digit cs"
        "c = CHR ''0'' \<longrightarrow> n div 10 = 0 \<and> cs = []" using 1 by blast
    then show ?thesis using False by (subst dec_nat.simps) auto
  qed
qed

lemma takeWhile_digits: "list_all is_digit cs \<Longrightarrow> takeWhile is_digit cs = cs \<and> dropWhile is_digit cs = []"
  by (induction cs) auto

lemma scan_digits_dec_nat: "scan_digits (dec_nat n) = Some (dec_nat n, [])"
proof -
  obtain c cs where "dec_nat n = c # cs" "is_digit c" "list_all is_digit cs"
      "c = CHR ''0'' \<longrightarrow> n = 0 \<and> cs = []" using dec_nat_lead by blast
  then show ?thesis using takeWhile_digits [of cs] by (auto simp: scan_digits_def)
qed

lemma not_digit_chars [simp]:
  "\<not> is_digit CHR ''-''" "\<not> is_digit CHR ''+''" "\<not> is_digit CHR ''.''" "\<not> is_digit CHR ''e''"
  "\<not> is_digit CHR ''E''" "\<not> is_digit CHR '',''" "\<not> is_digit CHR '']''" "\<not> is_digit CHR ''}''"
  "\<not> is_digit CHR 0x22" "\<not> is_digit CHR ''[''" "\<not> is_digit CHR ''{''" "\<not> is_digit CHR ''I''"
  "\<not> is_digit CHR ''N''" "\<not> is_digit CHR ''n''" "\<not> is_digit CHR ''t''" "\<not> is_digit CHR ''f''"
  by (simp_all add: is_digit_def)

lemma scan_number_dec_int: "scan_number (dec_int i) = Some (JInt i, [])"
proof -
  obtain c cs where c: "dec_nat (nat i) = c # cs" "is_digit c" using dec_nat_lead by blast
  then have "c \<noteq> CHR ''-''" by auto
  then have "(case dec_nat (nat i) of CHR ''-'' # r \<Rightarrow> (''-'', r) | _ \<Rightarrow> ([], dec_nat (nat i)))
      = ([], dec_nat (nat i))"
    unfolding c by (simp split: char.split bool.split)
  then show ?thesis
    by (simp add: scan_number_def dec_int_def scan_digits_dec_nat scan_frac_def scan_exp_def)
qed

text \<open>What may follow a value inside an object or a list, or at the end of the text.\<close>

definition delimited :: "string \<Rightarrow> bool" where
  "delimited r \<longleftrightarrow> r = [] \<or> hd r \<in> {CHR '','', CHR '']'', CHR ''}''}"

lemma delimited_digits:
  assumes "delimited r"
  shows "takeWhile is_digit (s @ r) = takeWhile is_digit s" "dropWhile is_digit (s @ r) = dropWhile is_digit s @ r"
proof -
  have r: "takeWhile is_digit r = []" "dropWhile is_digit r = r"
    using assms by (cases r; auto simp: delimited_def)+
  show "takeWhile is_digit (s @ r) = takeWhile is_digit s" using r by (induction s) auto
  show "dropWhile is_digit (s @ r) = dropWhile is_digit s @ r" using r by (induction s) auto
qed

lemma delimited_Cons [simp]: "delimited (c # r) \<longleftrightarrow> c \<in> {CHR '','', CHR '']'', CHR ''}''}"
  by (simp add: delimited_def)

lemma scan_frac_append:
  assumes "delimited r"
  shows "scan_frac (s @ r) = (fst (scan_frac s), snd (scan_frac s) @ r)"
proof -
  have "scan_frac (c # t @ r) = (fst (scan_frac (c # t)), snd (scan_frac (c # t)) @ r)" for c t
  proof (cases "c = CHR ''.''")
    case True
    then show ?thesis using assms delimited_digits [OF assms]
      by (cases t; cases r) (auto simp: scan_frac_def)
  next
    case False
    then have "scan_frac (c # u) = ([], c # u)" for u
      by (simp add: scan_frac_def split: char.split bool.split list.split)
    then show ?thesis by simp
  qed
  moreover have "scan_frac r = ([], r)" using assms by (cases r) (auto simp: scan_frac_def)
  ultimately show ?thesis by (cases s) (simp_all add: scan_frac_def)
qed

lemma scan_exp_append:
  assumes "delimited r"
  shows "scan_exp (s @ r) = (fst (scan_exp s), snd (scan_exp s) @ r)"
proof -
  have two: "scan_exp (e # g # t @ r) = (fst (scan_exp (e # g # t)), snd (scan_exp (e # g # t)) @ r)"
    for e g t
    unfolding scan_exp_def by (simp add: delimited_digits [OF assms])
  have none: "scan_exp r = ([], r)"
    using assms by (cases r) (auto simp: scan_exp_def split: list.split)
  have one: "scan_exp (e # r) = ([], e # r)" for e
    using assms by (cases r) (auto simp: scan_exp_def)
  have short: "scan_exp [] = ([], [])" "scan_exp [e] = ([], [e])" for e
    by (simp_all add: scan_exp_def)
  consider "s = []" | e where "s = [e]" | e g t where "s = e # g # t"
    by (cases s; cases "tl s") auto
  then show ?thesis using two none one short by cases simp_all
qed

lemma scan_digits_append:
  assumes "delimited r" "scan_digits s = Some (x, t)"
  shows "scan_digits (s @ r) = Some (x, t @ r)"
  using assms delimited_digits [OF assms(1)]
  by (cases s) (auto simp: scan_digits_def split: if_splits)

lemma split_sign: "(case s of CHR ''-'' # r \<Rightarrow> (''-'', r) | _ \<Rightarrow> ([], s)) =
    (if s \<noteq> [] \<and> hd s = CHR ''-'' then (''-'', tl s) else ([], s))"
  by (cases s) (auto split: char.split bool.split)

lemma scan_number_append:
  assumes "delimited r" "scan_number s = Some (v, t)"
  shows "scan_number (s @ r) = Some (v, t @ r)"
proof -
  have "s \<noteq> []" using assms(2) by (auto simp: scan_number_def scan_digits_def)
  define q where "q = (s \<noteq> [] \<and> hd s = CHR ''-'')"
  define u where "u = (if q then tl s else s)"
  have u: "(if s @ r \<noteq> [] \<and> hd (s @ r) = CHR ''-'' then (''-'', tl (s @ r)) else ([], s @ r)) =
      ((if q then ''-'' else []), u @ r)"
    using \<open>s \<noteq> []\<close> by (auto simp: q_def u_def)
  have u': "(if s \<noteq> [] \<and> hd s = CHR ''-'' then (''-'', tl s) else ([], s)) =
      ((if q then ''-'' else []), u)"
    by (auto simp: q_def u_def)
  obtain ip s2 where d: "scan_digits u = Some (ip, s2)"
    using assms(2) unfolding scan_number_def split_sign u' by (auto split: option.splits)
  note d' = scan_digits_append [OF assms(1) d]
  show ?thesis
    using assms(2) unfolding scan_number_def split_sign u u'
    by (auto simp: d d' scan_frac_append [OF assms(1)] scan_exp_append [OF assms(1)] Let_def
        split: prod.splits if_splits)
qed

lemma scan_number_no_constant:
  assumes "scan_number s = Some x"
  shows "scan_constant s = None \<and> (\<exists>c t. s = c # t \<and> (is_digit c \<or> c = CHR ''-''))"
proof -
  have "s \<noteq> []" using assms by (auto simp: scan_number_def scan_digits_def)
  then obtain c t where s: "s = c # t" by (cases s) auto
  show ?thesis
  proof (cases "c = CHR ''-''")
    case True
    then obtain d u where "t = d # u" "is_digit d"
      using assms s by (cases t) (auto simp: scan_number_def scan_digits_def is_digit_def split: if_splits)
    then show ?thesis using s True by (auto simp: scan_constant_def json_constants_def)
  next
    case False
    have "is_digit c"
    proof (rule ccontr)
      assume "\<not> is_digit c"
      then have "scan_digits s = None" using s by (auto simp: scan_digits_def is_digit_def)
      then show False using assms False s unfolding scan_number_def split_sign by simp
    qed
    moreover from this have "c \<noteq> CHR ''n''" "c \<noteq> CHR ''t''" "c \<noteq> CHR ''f''" "c \<noteq> CHR ''N''" "c \<noteq> CHR ''I''"
      by (auto simp: is_digit_def)
    ultimately show ?thesis using s False by (simp add: scan_constant_def json_constants_def)
  qed
qed

lemma hex_val_hex_char [simp]: "n < 16 \<Longrightarrow> hex_val (hex_char n) = Some n"
  by (simp add: hex_val_def hex_char_def Let_def)

lemma code_less: "code c < 256"
  using of_char_mod_256 [of c] by (metis mod_less_divisor zero_less_numeral)

lemma scan_string_esc:
  "scan_string (esc_char c @ t) = map_option (\<lambda>(s, r). (c # s, r)) (scan_string t)"
proof (cases "map_of simple_escapes c")
  case (Some e)
  then have "(c, e) \<in> set simple_escapes" by (rule map_of_SomeD)
  then show ?thesis by (auto simp: simple_escapes_def esc_char_def split: option.splits)
next
  case None
  then have c: "c \<noteq> CHR 0x22" "c \<noteq> CHR 0x5C" by (auto simp: simple_escapes_def split: if_splits)
  show ?thesis
  proof (cases "32 \<le> code c \<and> code c \<le> 126")
    case True
    then show ?thesis using None c by (simp add: esc_char_def)
  next
    case False
    have "hex_val (hex_char (code c div 16)) = Some (code c div 16)"
      using code_less [of c] by (intro hex_val_hex_char less_mult_imp_div_less) simp
    moreover have "hex_val (hex_char (code c mod 16)) = Some (code c mod 16)"
      by (intro hex_val_hex_char) simp
    moreover have "hex_val CHR ''0'' = Some 0" by (simp add: hex_val_def)
    ultimately have "scan_string (CHR 0x5C # CHR ''u'' # CHR ''0'' # CHR ''0'' #
        hex_char (code c div 16) # hex_char (code c mod 16) # t) =
        map_option (\<lambda>(s, r). (c # s, r)) (scan_string t)"
      by simp
    moreover have "esc_char c @ t = CHR 0x5C # CHR ''u'' # CHR ''0'' # CHR ''0'' #
        hex_char (code c div 16) # hex_char (code c mod 16) # t"
      using None False by (auto simp: esc_char_def)
    ultimately show ?thesis by simp
  qed
qed

lemma scan_string_dump: "scan_string (concat (map esc_char s) @ CHR 0x22 # r) = Some (s, r)"
  by (induction s) (simp_all add: scan_string_esc)

section \<open>\<open>loads\<close> inverts \<open>dumps\<close>\<close>

text \<open>Values Python can hold: distinct keys, and floats whose literal is a JSON number with a fraction or an
  exponent.\<close>

fun json_ok :: "json \<Rightarrow> bool" where
  "json_ok (JFloat l) \<longleftrightarrow> scan_number l = Some (JFloat l, [])"
| "json_ok (JList xs) \<longleftrightarrow> list_all json_ok xs"
| "json_ok (JObj kvs) \<longleftrightarrow> distinct (map fst kvs) \<and> list_all (\<lambda>(k, v). json_ok v) kvs"
| "json_ok _ \<longleftrightarrow> True"

lemma scan_number_head:
  assumes "scan_number s = Some x"
  shows "\<exists>c t. s = c # t \<and> \<not> is_ws c \<and> c \<notin> {CHR '']'', CHR ''}'', CHR 0x22, CHR ''['', CHR ''{''}"
proof -
  obtain c t where "s = c # t" "is_digit c \<or> c = CHR ''-''"
    using scan_number_no_constant [OF assms] by blast
  moreover from this have "\<not> is_ws c" "c \<noteq> CHR '']''" "c \<noteq> CHR ''}''" "c \<noteq> CHR 0x22" "c \<noteq> CHR ''[''" "c \<noteq> CHR ''{''"
    by (auto simp: is_digit_def is_ws_def)
  ultimately show ?thesis by blast
qed

lemma dumps_head:
  assumes "json_ok v"
  shows "\<exists>c t. dumps v = c # t \<and> \<not> is_ws c \<and> c \<noteq> CHR '']'' \<and> c \<noteq> CHR ''}''"
proof (cases v)
  case (JInt i)
  then show ?thesis using scan_number_head [OF scan_number_dec_int, of i] by auto
next
  case (JFloat l)
  then show ?thesis using scan_number_head [of l] assms by auto
qed (simp_all add: is_ws_def dump_string_def)

lemma skip_ws_dumps [simp]: "json_ok v \<Longrightarrow> skip_ws (dumps v @ r) = dumps v @ r"
  using dumps_head [of v] by (auto simp: skip_ws_def)

lemma skip_ws_Cons [simp]:
  "skip_ws (CHR '','' # r) = CHR '','' # r" "skip_ws (CHR '']'' # r) = CHR '']'' # r"
  "skip_ws (CHR ''}'' # r) = CHR ''}'' # r" "skip_ws (CHR '':'' # r) = CHR '':'' # r"
  "skip_ws (CHR 0x22 # r) = CHR 0x22 # r" "skip_ws [] = []"
  by (simp_all add: skip_ws_def is_ws_def)

lemma parse_number:
  assumes "scan_number s = Some (v, [])" "delimited r" "0 < n"
  shows "parse_value n (s @ r) = Some (v, r)"
proof -
  note app = scan_number_append [OF assms(2,1)]
  obtain c t where "s @ r = c # t" "c \<notin> {CHR 0x22, CHR ''['', CHR ''{''}"
    using scan_number_head [OF app] by auto
  moreover from this have "scan_number (c # t) = Some (v, r)" "scan_constant (c # t) = None"
    using app scan_number_no_constant [OF app] by simp_all
  ultimately show ?thesis using assms(3) by (cases n) auto
qed

definition parses :: "json \<Rightarrow> bool" where
  "parses v \<longleftrightarrow> (\<forall>r n. delimited r \<longrightarrow> length (dumps v) \<le> n \<longrightarrow> parse_value n (dumps v @ r) = Some (v, r))"

lemma dumps_not_Nil: "json_ok v \<Longrightarrow> dumps v \<noteq> []"
  using dumps_head [of v] by auto

lemma parse_elems_dumps:
  assumes "xs \<noteq> []" "\<And>x. x \<in> set xs \<Longrightarrow> json_ok x \<and> parses x"
    "length (sep_by_comma (map dumps xs)) < n"
  shows "parse_elems n (sep_by_comma (map dumps xs) @ CHR '']'' # r) = Some (xs, r)"
  using assms
proof (induction xs arbitrary: n rule: list_nonempty_induct)
  case (single x)
  then obtain m where "n = Suc m" by (cases n) auto
  moreover have "parse_value m (dumps x @ CHR '']'' # r) = Some (x, CHR '']'' # r)"
    using single \<open>n = Suc m\<close> by (auto simp: parses_def)
  ultimately show ?case by simp
next
  case (cons x xs)
  then obtain m where n: "n = Suc m" by (cases n) auto
  obtain y ys where xs: "xs = y # ys" using cons.hyps by (cases xs) auto
  have len: "length (dumps x) + length (sep_by_comma (map dumps xs)) < m" and x: "parses x" "json_ok x"
    using cons.prems n xs dumps_not_Nil [of x] by auto
  let ?rest = "sep_by_comma (map dumps xs) @ CHR '']'' # r"
  have "parse_value m (dumps x @ CHR '','' # ?rest) = Some (x, CHR '','' # ?rest)"
    using x len by (auto simp: parses_def)
  moreover have "parse_elems m ?rest = Some (xs, r)" using cons.prems len by (intro cons.IH) auto
  moreover have "skip_ws ?rest = ?rest"
    using cons.prems(1) xs by (cases ys) simp_all
  ultimately show ?case by (simp add: n xs)
qed

lemma parse_members_dumps:
  assumes "kvs \<noteq> []" "\<And>k x. (k, x) \<in> set kvs \<Longrightarrow> json_ok x \<and> parses x"
    "distinct (map fst (d @ kvs))"
    "length (sep_by_comma (map (\<lambda>(k, v). dump_string k @ CHR '':'' # dumps v) kvs)) < n"
  shows "parse_members n d
      (sep_by_comma (map (\<lambda>(k, v). dump_string k @ CHR '':'' # dumps v) kvs) @ CHR ''}'' # r) =
      Some (d @ kvs, r)"
  using assms
proof (induction kvs arbitrary: n d rule: list_nonempty_induct)
  case (single p)
  obtain k x where p: "p = (k, x)" by (cases p)
  obtain m where n: "n = Suc m" using single by (cases n) auto
  have "parse_value m (dumps x @ CHR ''}'' # r) = Some (x, CHR ''}'' # r)"
    using single.prems n p by (auto simp: parses_def)
  moreover have "json_ok x" "k \<notin> fst ` set d" using single.prems p by auto
  ultimately show ?case
    by (simp add: p n dump_string_def scan_string_dump update_new)
next
  case (cons p kvs)
  obtain k x where p: "p = (k, x)" by (cases p)
  obtain m where n: "n = Suc m" using cons by (cases n) auto
  obtain q qs where kvs: "kvs = q # qs" using cons.hyps by (cases kvs) auto
  let ?out = "\<lambda>kvs. sep_by_comma (map (\<lambda>(k, v). dump_string k @ CHR '':'' # dumps v) kvs)"
  let ?rest = "?out kvs @ CHR ''}'' # r"
  have x: "json_ok x" "parses x" "k \<notin> fst ` set d" using cons.prems p by auto
  have len: "length (dumps x) + length (?out kvs) < m" using cons.prems(3) p n kvs by auto
  have "parse_value m (dumps x @ CHR '','' # ?rest) = Some (x, CHR '','' # ?rest)"
    using x len by (auto simp: parses_def)
  moreover have "parse_members m (d @ [(k, x)]) ?rest = Some ((d @ [(k, x)]) @ kvs, r)"
    using cons.prems len p by (intro cons.IH) auto
  moreover have "skip_ws ?rest = ?rest"
    using kvs by (cases q; cases qs) (simp_all add: dump_string_def)
  ultimately show ?case
    using x by (simp add: p n kvs dump_string_def scan_string_dump update_new)
qed

lemma case_not_bracket:
  "c \<noteq> CHR '']'' \<Longrightarrow> (case c # t of CHR '']'' # r \<Rightarrow> A r | u \<Rightarrow> B u) = B (c # t)"
  by (simp split: char.split bool.split)

lemma parse_value_elems:
  assumes "skip_ws cs = c # t" "c \<noteq> CHR '']''"
  shows "parse_value (Suc n) (CHR ''['' # cs) = map_option (\<lambda>(xs, r). (JList xs, r)) (parse_elems n (c # t))"
  using case_not_bracket [OF assms(2), where A = "\<lambda>r. Some (JList [], r)" and
      B = "\<lambda>t. map_option (\<lambda>(xs, r). (JList xs, r)) (parse_elems n t)"] assms(1)
  by simp

lemma number_parses:
  assumes "scan_number (dumps v) = Some (v, [])" "json_ok v"
  shows "parses v"
  unfolding parses_def
proof (intro allI impI)
  fix r n
  assume "delimited r" "length (dumps v) \<le> n"
  then show "parse_value n (dumps v @ r) = Some (v, r)"
    using dumps_not_Nil [OF assms(2)] by (intro parse_number [OF assms(1)]) (cases "dumps v"; simp)+
qed

lemma json_parses: "json_ok v \<Longrightarrow> parses v"
proof (induction v)
  case (JList xs)
  show ?case
  proof (cases "xs = []")
    case False
    have ok: "\<And>x. x \<in> set xs \<Longrightarrow> json_ok x \<and> parses x" using JList by (auto simp: list_all_iff)
    let ?out = "sep_by_comma (map dumps xs)"
    obtain c t where "?out = c # t" "\<not> is_ws c" "c \<noteq> CHR '']''"
      using False ok dumps_head [of "hd xs"] by (cases xs; cases "tl xs") auto
    then have "parse_value (Suc m) (CHR ''['' # ?out @ u) =
        map_option (\<lambda>(xs, r). (JList xs, r)) (parse_elems m (?out @ u))" for m u
      using parse_value_elems [of "?out @ u" c "t @ u" m] by (simp add: skip_ws_def)
    note elems = this parse_elems_dumps [OF False ok, simplified]
    show ?thesis
      unfolding parses_def
    proof (intro allI impI)
      fix r n
      assume "length (dumps (JList xs)) \<le> n"
      then obtain m where n: "n = Suc m" "length ?out < m" by (cases n) auto
      then show "parse_value n (dumps (JList xs) @ r) = Some (JList xs, r)"
        using elems(1) [of m "CHR '']'' # r"] elems(2) [of m r] n by (simp del: parse_value.simps)
    qed
  qed (auto simp: parses_def skip_ws_def is_ws_def dest!: Suc_le_D)
next
  case (JObj kvs)
  show ?case
  proof (cases "kvs = []")
    case False
    have ok: "\<And>k x. (k, x) \<in> set kvs \<Longrightarrow> json_ok x \<and> parses x" using JObj by (fastforce simp: list_all_iff)
    define out where "out = sep_by_comma (map (\<lambda>(k, v). dump_string k @ CHR '':'' # dumps v) kvs)"
    have "distinct (map fst ([] @ kvs))" using JObj.prems by simp
    then have members: "parse_members n [] (out @ CHR ''}'' # r) = Some (kvs, r)" if "length out < n" for n r
      using parse_members_dumps [OF False, of "[]" n r] ok that by (simp add: out_def)
    obtain t where t: "out = CHR 0x22 # t"
      using False unfolding out_def
      by (cases kvs; cases "tl kvs") (auto simp: dump_string_def split: prod.splits)
    have dump: "dumps (JObj kvs) = CHR ''{'' # out @ ''}''" by (simp add: out_def)
    show ?thesis
      unfolding parses_def
    proof (intro allI impI)
      fix r n
      assume "length (dumps (JObj kvs)) \<le> n"
      then obtain m where n: "n = Suc m" "length out < m" unfolding dump by (cases n) auto
      have "parse_members m [] (CHR 0x22 # t @ CHR ''}'' # r) = Some (kvs, r)"
        using members [OF n(2), of r] by (simp only: t append_Cons)
      then show "parse_value n (dumps (JObj kvs) @ r) = Some (JObj kvs, r)"
        unfolding dump n(1) t by simp
    qed
  qed (auto simp: parses_def skip_ws_def is_ws_def dest!: Suc_le_D)
next
  case (JInt i)
  show ?case by (rule number_parses) (simp_all add: scan_number_dec_int)
next
  case (JFloat l)
  then show ?case by (intro number_parses) simp_all
next
  case (JStr s)
  then show ?case by (auto simp: parses_def dump_string_def scan_string_dump dest!: Suc_le_D)
qed (auto simp: parses_def scan_constant_def json_constants_def dest!: Suc_le_D)

theorem loads_dumps:
  assumes "json_ok v"
  shows "loads (dumps v) = Inr v"
proof -
  have "parse_value (length (dumps v) + 1) (dumps v @ []) = Some (v, [])"
    using json_parses [OF assms] unfolding parses_def
    by (simp add: delimited_def del: parse_value.simps append_Nil2)
  then show ?thesis using skip_ws_dumps [OF assms, of "[]"] by (simp add: loads_def del: parse_value.simps)
qed

section \<open>The text is printable ASCII\<close>

definition printable :: "char \<Rightarrow> bool" where
  "printable c \<longleftrightarrow> 32 \<le> code c \<and> code c \<le> 126"

lemma printable_chars [simp]:
  "printable CHR ''.''" "printable CHR ''e''" "printable CHR ''E''" "printable CHR ''+''"
  "printable CHR ''-''" "printable CHR '',''" "printable CHR '':''" "printable CHR ''[''"
  "printable CHR '']''" "printable CHR ''{''" "printable CHR ''}''" "printable CHR 0x22"
  "printable CHR ''0''" "printable CHR ''n''" "printable CHR ''u''" "printable CHR ''l''"
  "printable CHR ''t''" "printable CHR ''r''" "printable CHR ''f''" "printable CHR ''a''"
  "printable CHR ''s''"
  by (simp_all add: printable_def)

lemma printable_digit: "is_digit c \<Longrightarrow> printable c"
  by (simp add: is_digit_def printable_def)

lemma printable_digits: "list_all is_digit s \<Longrightarrow> list_all printable s"
  by (auto simp: list_all_iff printable_digit)

lemma printable_takeWhile: "list_all printable (takeWhile is_digit s)"
  by (auto simp: list_all_iff printable_digit dest: set_takeWhileD)

lemma scan_parts_printable:
  "list_all printable (fst (scan_frac s))" "list_all printable (fst (scan_exp s))"
  "scan_digits s = Some (x, t) \<Longrightarrow> list_all printable x"
proof -
  show "list_all printable (fst (scan_frac s))"
    by (cases s; cases "tl s")
      (auto simp: scan_frac_def printable_takeWhile printable_digit
        split: char.split bool.split)
  show "list_all printable (fst (scan_exp s))"
    by (auto simp: scan_exp_def printable_takeWhile printable_digit
        split: list.split)
  show "scan_digits s = Some (x, t) \<Longrightarrow> list_all printable x"
    by (auto simp: scan_digits_def printable_takeWhile printable_digit
        split: list.splits if_splits)
qed

lemma float_printable: "scan_number s = Some (JFloat l, t) \<Longrightarrow> list_all printable l"
  unfolding scan_number_def split_sign
  by (auto simp: scan_parts_printable(3) Let_def
      split: if_splits option.splits prod.splits
      dest!: arg_cong [of "scan_frac _" _ fst] arg_cong [of "scan_exp _" _ fst]
      intro: scan_parts_printable subst [of _ _ "list_all printable"])

lemma hex_char_printable: "n < 16 \<Longrightarrow> printable (hex_char n)"
  by (auto simp: printable_def hex_char_def)

lemma esc_char_printable: "list_all printable (esc_char c)"
proof (cases "map_of simple_escapes c")
  case (Some e)
  then have "(c, e) \<in> set simple_escapes" by (rule map_of_SomeD)
  then show ?thesis by (auto simp: simple_escapes_def esc_char_def printable_def)
next
  case None
  have "code c div 16 < 16" using code_less [of c] by (intro less_mult_imp_div_less) simp
  then show ?thesis using None
    by (simp add: esc_char_def hex_char_printable) (simp add: printable_def)
qed

lemma dump_string_printable: "list_all printable (dump_string s)"
  by (induction s) (simp_all add: dump_string_def esc_char_printable)

lemma sep_by_comma_printable: "list_all (list_all printable) xs \<Longrightarrow> list_all printable (sep_by_comma xs)"
  by (induction xs rule: sep_by_comma.induct) auto

lemma dumps_printable: "json_ok v \<Longrightarrow> list_all printable (dumps v)"
proof (induction v)
  case (JInt i)
  have "list_all printable (dec_nat n)" for n using dec_nat_digits [of n] printable_digits by blast
  then show ?case by (simp add: dec_int_def)
next
  case (JList xs)
  then have "list_all (list_all printable) (map dumps xs)" by (auto simp: list_all_iff)
  from sep_by_comma_printable [OF this] show ?case by simp
next
  case (JObj kvs)
  then have "list_all (list_all printable) (map (\<lambda>(k, v). dump_string k @ CHR '':'' # dumps v) kvs)"
    using dump_string_printable by (fastforce simp: list_all_iff)
  from sep_by_comma_printable [OF this] show ?case by simp
qed (auto simp: float_printable dump_string_printable)

end
