(* ===== verification/Cosim_Protocol.thy ===== *)
theory Cosim_Protocol
  imports Cosim_Json
begin

text \<open>
  The wire protocol of \<^verbatim>\<open>cosim_protocol.py\<close>: one JSON object per newline-terminated line.  A dictionary
  of the code is an \<open>obj\<close>; its fields are read at the JSON type the protocol's table gives
  them (a Boolean counts as the integer 0 or 1, as in Python), so the accessors are total and a field of a
  different JSON type is outside the model.

  The theory also holds the contract of a line reader, the locale \<open>line_reader\<close>: the program has four
  readers of the same stream (\<^verbatim>\<open>MessageReader\<close>, the transport's thread, and the stand-ins of
  either side), and each delivers the lines of the bytes it receives, however they are cut into chunks.
\<close>

definition PROTOCOL_VERSION :: int where "PROTOCOL_VERSION = 1"

section \<open>Fields of a message\<close>

fun as_int :: "json \<Rightarrow> int" where
  "as_int (JInt i) = i"
| "as_int (JBool b) = of_bool b"
| "as_int _ = 0"

fun as_str :: "json \<Rightarrow> string" where
  "as_str (JStr s) = s"
| "as_str _ = []"

fun as_obj :: "json \<Rightarrow> obj" where
  "as_obj (JObj kvs) = kvs"
| "as_obj _ = []"

text \<open>Python's truth value of a JSON value.\<close>

fun truthy :: "json \<Rightarrow> bool" where
  "truthy JNull = False"
| "truthy (JBool b) = b"
| "truthy (JInt i) = (i \<noteq> 0)"
| "truthy (JFloat l) = list_ex (\<lambda>c. is_digit c \<and> c \<noteq> CHR ''0'') (takeWhile (\<lambda>c. c \<notin> {CHR ''e'', CHR ''E''}) l)"
| "truthy (JStr s) = (s \<noteq> [])"
| "truthy (JList xs) = (xs \<noteq> [])"
| "truthy (JObj kvs) = (kvs \<noteq> [])"

definition get_int :: "obj \<Rightarrow> string \<Rightarrow> int \<Rightarrow> int" where
  "get_int d k v = (case map_of d k of None \<Rightarrow> v | Some x \<Rightarrow> as_int x)"

definition get_str :: "obj \<Rightarrow> string \<Rightarrow> string \<Rightarrow> string" where
  "get_str d k v = (case map_of d k of None \<Rightarrow> v | Some x \<Rightarrow> as_str x)"

definition get_bool :: "obj \<Rightarrow> string \<Rightarrow> bool" where
  "get_bool d k = (case map_of d k of None \<Rightarrow> False | Some x \<Rightarrow> truthy x)"

definition get_obj :: "obj \<Rightarrow> string \<Rightarrow> obj" where
  "get_obj d k = (case map_of d k of None \<Rightarrow> [] | Some x \<Rightarrow> as_obj x)"

text \<open>\<open>d.get(k)\<close> and the subscripts \<open>d[k]\<close>, which raise KeyError.\<close>

definition opt_int :: "obj \<Rightarrow> string \<Rightarrow> int option" where
  "opt_int d k = map_option as_int (map_of d k)"

definition opt_str :: "obj \<Rightarrow> string \<Rightarrow> string option" where
  "opt_str d k = map_option as_str (map_of d k)"

definition item_int :: "obj \<Rightarrow> string \<Rightarrow> int result" where
  "item_int d k = (case map_of d k of None \<Rightarrow> Inl KeyError | Some x \<Rightarrow> Inr (as_int x))"

lemmas field_defs = get_int_def get_str_def get_bool_def get_obj_def opt_int_def opt_str_def item_int_def

section \<open>Bytes as hexadecimal text\<close>

definition hex_byte :: "byte \<Rightarrow> string" where
  "hex_byte b = [hex_char (unat b div 16), hex_char (unat b mod 16)]"

definition bytes_to_hex :: "byte list \<Rightarrow> string" where
  "bytes_to_hex bs = concat (map hex_byte bs)"

text \<open>\<open>bytes.fromhex\<close> skips white space between bytes.\<close>

definition is_space :: "char \<Rightarrow> bool" where
  "is_space c \<longleftrightarrow> code c = 32 \<or> 9 \<le> code c \<and> code c \<le> 13"

fun fromhex :: "string \<Rightarrow> byte list result" where
  "fromhex [] = Inr []"
| "fromhex (c # cs) =
     (if is_space c then fromhex cs
      else case cs of
        [] \<Rightarrow> Inl ValueError
      | d # ds \<Rightarrow>
          (case (hex_val c, hex_val d) of
             (Some h, Some l) \<Rightarrow>
               and_then (fromhex ds) (\<lambda>bs. Inr (word_of_nat (16 * h + l) # bs))
           | _ \<Rightarrow> Inl ValueError))"

text \<open>\<open>value or ""\<close> is the value itself for a string.\<close>

definition hex_to_bytes :: "string \<Rightarrow> byte list result" where
  "hex_to_bytes s = fromhex s"

lemma unat_byte: "unat (b :: byte) < 256"
  by (rule less_le_trans [OF unsigned_less]) simp

lemma hex_char_not_space [simp]: "n < 16 \<Longrightarrow> \<not> is_space (hex_char n)"
  by (auto simp: is_space_def hex_char_def)

lemma fromhex_bytes_to_hex [simp, pybytes]: "fromhex (bytes_to_hex bs) = Inr bs"
proof (induction bs)
  case (Cons b bs)
  have "unat b div 16 < 16" using unat_byte [of b] by (intro less_mult_imp_div_less) simp
  moreover have "(word_of_nat (16 * (unat b div 16) + unat b mod 16) :: byte) = b" by simp
  ultimately show ?case
    using Cons by (simp add: bytes_to_hex_def hex_byte_def del: mult_div_mod_eq of_nat_add of_nat_mult)
qed (simp add: bytes_to_hex_def)

lemma hex_to_bytes_to_hex [simp, pybytes]: "hex_to_bytes (bytes_to_hex bs) = Inr bs"
  by (simp add: hex_to_bytes_def)

lemma bytes_to_hex_inj: "bytes_to_hex bs = bytes_to_hex cs \<longleftrightarrow> bs = cs"
  by (metis fromhex_bytes_to_hex sum.inject(2))

lemma length_bytes_to_hex [simp, pybytes]: "length (bytes_to_hex bs) = 2 * length bs"
  by (induction bs) (simp_all add: bytes_to_hex_def hex_byte_def)

section \<open>Text as bytes\<close>

text \<open>UTF-8 for the code points below 256 that text is made of.\<close>

definition utf8_char :: "char \<Rightarrow> byte list" where
  "utf8_char c =
     (if code c < 128 then [word_of_nat (code c)]
      else [word_of_nat (0xC0 + code c div 64), word_of_nat (0x80 + code c mod 64)])"

definition utf8_encode :: "string \<Rightarrow> byte list" where
  "utf8_encode s = concat (map utf8_char s)"

fun utf8_decode :: "byte list \<Rightarrow> string result" where
  "utf8_decode [] = Inr []"
| "utf8_decode (b # bs) =
     (if unat b < 128 then and_then (utf8_decode bs) (\<lambda>s. Inr (char_of (unat b) # s))
      else case bs of
        [] \<Rightarrow> Inl ValueError
      | c # cs \<Rightarrow>
          if unat b \<in> {0xC2, 0xC3} \<and> 0x80 \<le> unat c \<and> unat c < 0xC0 then
            and_then (utf8_decode cs) (\<lambda>s. Inr (char_of ((unat b - 0xC0) * 64 + (unat c - 0x80)) # s))
          else Inl ValueError)"

lemma utf8_ascii:
  "list_all printable s \<Longrightarrow> utf8_encode s = map (\<lambda>c. word_of_nat (code c)) s"
  by (induction s) (auto simp: utf8_encode_def utf8_char_def printable_def)

lemma utf8_decode_encode: "list_all printable s \<Longrightarrow> utf8_decode (utf8_encode s) = Inr s"
proof (induction s)
  case (Cons c s)
  then have "unat (word_of_nat (code c) :: byte) = code c"
    by (simp add: unat_of_nat printable_def)
  with Cons show ?case by (simp add: utf8_encode_def utf8_char_def printable_def)
qed (simp add: utf8_encode_def)

section \<open>Messages\<close>

definition NL :: byte where "NL = 10"

definition encode_msg :: "json \<Rightarrow> byte list" where
  "encode_msg m = utf8_encode (dumps m @ [CHR 0x0A])"

definition decode_msg :: "byte list \<Rightarrow> json result" where
  "decode_msg line = and_then (utf8_decode line) loads"

lemma encode_msg_line:
  assumes "json_ok m"
  shows "\<exists>l. encode_msg m = l @ [NL] \<and> NL \<notin> set l \<and> l \<noteq> [] \<and> decode_msg l = Inr m"
proof -
  let ?l = "utf8_encode (dumps m)"
  have p: "list_all printable (dumps m)" using dumps_printable [OF assms] .
  have "NL \<notin> set ?l"
  proof
    assume "NL \<in> set ?l"
    then obtain c where "printable c" "(word_of_nat (code c) :: byte) = 10"
      using p by (auto simp: utf8_ascii NL_def list_all_iff)
    then have "unat (word_of_nat (code c) :: byte) = 10" by simp
    with \<open>printable c\<close> show False by (simp add: printable_def unat_of_nat)
  qed
  moreover have "encode_msg m = ?l @ [NL]"
    by (simp add: encode_msg_def utf8_encode_def utf8_char_def NL_def)
  moreover have "?l \<noteq> []" using p dumps_not_Nil [OF assms] by (simp add: utf8_ascii)
  moreover have "decode_msg ?l = Inr m"
    using utf8_decode_encode [OF p] loads_dumps [OF assms] by (simp add: decode_msg_def)
  ultimately show ?thesis by blast
qed

section \<open>Lines\<close>

text \<open>\<open>buf.split(b"\n", 1)\<close> of a buffer that has a newline, and the loop that drains a
  buffer of its complete lines, dropping the empty ones.\<close>

definition split_line :: "byte list \<Rightarrow> byte list \<times> byte list" where
  "split_line buf = (takeWhile (\<lambda>b. b \<noteq> NL) buf, tl (dropWhile (\<lambda>b. b \<noteq> NL) buf))"

lemma split_line_shorter: "NL \<in> set buf \<Longrightarrow> length (snd (split_line buf)) < length buf"
  by (induction buf) (auto simp: split_line_def length_dropWhile_le less_Suc_eq_le)

lemma split_line_append [simp]: "NL \<notin> set l \<Longrightarrow> split_line (l @ NL # r) = (l, r)"
  by (induction l) (auto simp: split_line_def)

lemma split_line_buffer: "NL \<in> set buf \<Longrightarrow> split_line (buf @ c) = (fst (split_line buf), snd (split_line buf) @ c)"
proof -
  assume "NL \<in> set buf"
  then obtain l r where "buf = l @ NL # r" "NL \<notin> set l" using split_list_first by metis
  then show ?thesis by simp
qed

function drain :: "byte list \<Rightarrow> byte list list \<times> byte list" where
  "drain buf =
     (if NL \<notin> set buf then ([], buf)
      else let (line, rest) = split_line buf; (ls, t) = drain rest
           in (if line = [] then ls else line # ls, t))"
  by pat_completeness auto
termination
  by (relation "measure length") (auto dest: split_line_shorter simp: prod_eq_iff)

declare drain.simps [simp del]

definition lines :: "byte list \<Rightarrow> byte list list" where
  "lines buf = fst (drain buf)"

lemma drain_short: "NL \<notin> set buf \<Longrightarrow> drain buf = ([], buf)"
  by (simp add: drain.simps)

lemma drain_line:
  "NL \<notin> set l \<Longrightarrow>
     drain (l @ NL # r) = ((if l = [] then lines r else l # lines r), snd (drain r))"
  by (subst drain.simps) (simp add: lines_def split: prod.split)

lemma drain_cases [case_names short line]:
  assumes "NL \<notin> set buf \<Longrightarrow> P" "\<And>l r. buf = l @ NL # r \<Longrightarrow> NL \<notin> set l \<Longrightarrow> length r < length buf \<Longrightarrow> P"
  shows P
proof (cases "NL \<in> set buf")
  case True
  then obtain l r where "buf = l @ NL # r" "NL \<notin> set l" using split_list_first by metis
  then show ?thesis using assms(2) by simp
qed (use assms in simp)

text \<open>Draining in two steps is draining at once: what is left of the first part is drained again with the
  second.\<close>

lemma drain_append:
  "drain (xs @ ys) = (lines xs @ lines (snd (drain xs) @ ys), snd (drain (snd (drain xs) @ ys)))"
proof (induction "length xs" arbitrary: xs rule: less_induct)
  case less
  show ?case
  proof (cases xs rule: drain_cases)
    case short
    then show ?thesis by (simp add: drain_short lines_def)
  next
    case (line l r)
    have IH: "drain (r @ ys) = (lines r @ lines (snd (drain r) @ ys), snd (drain (snd (drain r) @ ys)))"
      using less line by simp
    have a: "drain (l @ NL # r @ ys) =
        ((if l = [] then lines (r @ ys) else l # lines (r @ ys)), snd (drain (r @ ys)))"
      using line by (rule_tac drain_line) simp
    have "lines (r @ ys) = lines r @ lines (snd (drain r) @ ys)" using IH by (simp add: lines_def [of "r @ ys"])
    then show ?thesis
      using line a drain_line [of l r] by (simp add: IH lines_def [of "l @ NL # r"])
  qed
qed

lemma lines_append: "lines (xs @ ys) = lines xs @ lines (snd (drain xs) @ ys)"
  using drain_append [of xs ys] by (simp add: lines_def [of "xs @ ys"])

lemma lines_short [simp]: "NL \<notin> set buf \<Longrightarrow> lines buf = []"
  by (simp add: lines_def drain_short)

lemma lines_line: "NL \<notin> set l \<Longrightarrow> lines (l @ NL # r) = (if l = [] then lines r else l # lines r)"
  by (simp add: lines_def [of "l @ NL # r"] drain_line)

text \<open>The messages a byte stream carries, up to the first line that does not parse.\<close>

fun decode_lines :: "byte list list \<Rightarrow> json list" where
  "decode_lines [] = []"
| "decode_lines (l # ls) = (case decode_msg l of Inl e \<Rightarrow> [] | Inr m \<Rightarrow> m # decode_lines ls)"

lemma decode_lines_encoded:
  "list_all json_ok ms \<Longrightarrow>
     decode_lines (lines (concat (map encode_msg ms) @ r)) = ms @ decode_lines (lines r)"
proof (induction ms)
  case (Cons m ms)
  obtain l where "encode_msg m = l @ [NL]" "NL \<notin> set l" "l \<noteq> []" "decode_msg l = Inr m"
    using encode_msg_line [of m] Cons.prems by auto
  then show ?case using Cons by (simp add: lines_line)
qed simp

section \<open>The reader of a socket\<close>

text \<open>A socket is the list of what its \<open>recv\<close> calls return; an empty chunk, and the end of the list,
  is a peer that has closed.  \<open>read_line\<close> is the loop of \<^verbatim>\<open>MessageReader.read\<close>.\<close>

function read_line :: "byte list \<Rightarrow> byte list list \<Rightarrow> byte list option \<times> byte list \<times> byte list list" where
  "read_line buf chunks =
     (if NL \<notin> set buf then
        (case chunks of
           [] \<Rightarrow> (None, buf, [])
         | c # cs \<Rightarrow> if c = [] then (None, buf, c # cs) else read_line (buf @ c) cs)
      else
        let (line, rest) = split_line buf
        in if line = [] then read_line rest chunks else (Some line, rest, chunks))"
  by pat_completeness auto
termination
  by (relation "measures [\<lambda>(b, cs). length cs, \<lambda>(b, cs). length b]")
    (auto dest: split_line_shorter simp: prod_eq_iff)

declare read_line.simps [simp del]

definition reader_read :: "byte list \<times> byte list list \<Rightarrow> json option result \<times> byte list \<times> byte list list" where
  "reader_read s =
     (case read_line (fst s) (snd s) of
        (None, s') \<Rightarrow> (Inr None, s')
      | (Some line, s') \<Rightarrow> (and_then (decode_msg line) (\<lambda>m. Inr (Some m)), s'))"

text \<open>The bytes a socket will still deliver.\<close>

fun arriving :: "byte list list \<Rightarrow> byte list" where
  "arriving [] = []"
| "arriving (c # cs) = (if c = [] then [] else c @ arriving cs)"

lemma read_line_spec:
  "case read_line buf chunks of
     (None, buf', chunks') \<Rightarrow> lines (buf @ arriving chunks) = []
   | (Some l, buf', chunks') \<Rightarrow>
       lines (buf @ arriving chunks) = l # lines (buf' @ arriving chunks') \<and>
       length (buf' @ arriving chunks') < length (buf @ arriving chunks)"
proof (induction buf chunks rule: read_line.induct)
  case (1 buf chunks)
  show ?case
  proof (cases buf rule: drain_cases)
    case short
    show ?thesis
    proof (cases chunks)
      case Nil
      then show ?thesis using short by (simp add: read_line.simps)
    next
      case (Cons c cs)
      have "read_line buf (c # cs) = (if c = [] then (None, buf, c # cs) else read_line (buf @ c) cs)"
        using short by (subst read_line.simps) simp
      then show ?thesis using 1(1) [of c cs] short unfolding Cons
        by (cases "c = []") (auto split: prod.splits option.splits)
    qed
  next
    case (line l r)
    then have b: "NL \<in> set buf" "split_line buf = (l, r)" by simp_all
    show ?thesis
    proof (cases "l = []")
      case True
      then have "lines (buf @ arriving chunks) = lines (r @ arriving chunks)"
        using lines_line [of "[]" "r @ arriving chunks"] line by simp
      moreover have "read_line buf chunks = read_line r chunks"
        using b True by (simp add: read_line.simps [of buf chunks])
      ultimately show ?thesis using 1(2) [of "(l, r)" l r] b True line
        by (auto split: prod.splits option.splits)
    next
      case False
      then have "read_line buf chunks = (Some l, r, chunks)" using b by (simp add: read_line.simps [of buf chunks])
      then show ?thesis using False lines_line [of l "r @ arriving chunks"] line by simp
    qed
  qed
qed

section \<open>The contract of a line reader\<close>

text \<open>
  A reader of a stream: \<open>read\<close> returns a line or \<^const>\<open>None\<close> when no more will come, \<open>pending\<close> is the
  bytes buffered and still to arrive, and \<open>ready\<close> the states in which the reader keeps its promise.
\<close>

locale line_reader =
  fixes read :: "'s \<Rightarrow> byte list option \<times> 's"
    and pending :: "'s \<Rightarrow> byte list"
    and ready :: "'s \<Rightarrow> bool"
  assumes read_Some:
      "ready s \<Longrightarrow> read s = (Some l, s') \<Longrightarrow>
         lines (pending s) = l # lines (pending s') \<and> length (pending s') < length (pending s) \<and> ready s'"
    and read_None: "ready s \<Longrightarrow> read s = (None, s') \<Longrightarrow> lines (pending s) = []"

text \<open>Reading until the first \<^const>\<open>None\<close>; every line takes a byte at least, so the number of pending
  bytes is fuel enough.\<close>

fun read_all :: "('s \<Rightarrow> byte list option \<times> 's) \<Rightarrow> nat \<Rightarrow> 's \<Rightarrow> byte list list" where
  "read_all read 0 s = []"
| "read_all read (Suc n) s =
     (case read s of (None, s') \<Rightarrow> [] | (Some l, s') \<Rightarrow> l # read_all read n s')"

context line_reader begin

lemma read_all_lines: "ready s \<Longrightarrow> length (pending s) < n \<Longrightarrow> read_all read n s = lines (pending s)"
proof (induction n arbitrary: s)
  case (Suc n)
  show ?case
  proof (cases "read s")
    case (Pair r s')
    then show ?thesis using Suc read_Some [of s _ s'] read_None [of s s'] by (cases r) auto
  qed
qed simp

lemma read_all_messages:
  assumes "ready s" "list_all json_ok ms" "pending s = concat (map encode_msg ms)" "length (pending s) < n"
  shows "decode_lines (read_all read n s) = ms"
  using read_all_lines [OF assms(1,4)] decode_lines_encoded [OF assms(2), of "[]"] assms(3) by simp

end

interpretation message_reader: line_reader "\<lambda>(buf, chunks). read_line buf chunks"
  "\<lambda>(buf, chunks). buf @ arriving chunks" "\<lambda>_. True"
proof unfold_locales
  fix s :: "byte list \<times> byte list list" and l s'
  show "(case s of (buf, chunks) \<Rightarrow> read_line buf chunks) = (Some l, s') \<Longrightarrow>
      lines (case s of (buf, chunks) \<Rightarrow> buf @ arriving chunks) =
        l # lines (case s' of (buf, chunks) \<Rightarrow> buf @ arriving chunks) \<and>
      length (case s' of (buf, chunks) \<Rightarrow> buf @ arriving chunks) <
        length (case s of (buf, chunks) \<Rightarrow> buf @ arriving chunks) \<and> True"
    using read_line_spec [of "fst s" "snd s"] by (auto split: prod.splits)
  show "(case s of (buf, chunks) \<Rightarrow> read_line buf chunks) = (None, s') \<Longrightarrow>
      lines (case s of (buf, chunks) \<Rightarrow> buf @ arriving chunks) = []"
    using read_line_spec [of "fst s" "snd s"] by (auto split: prod.splits)
qed

text \<open>The calls of \<^verbatim>\<open>read\<close> up to the first that reports a closed peer or raises.\<close>

fun read_messages :: "nat \<Rightarrow> byte list \<times> byte list list \<Rightarrow> json list" where
  "read_messages 0 s = []"
| "read_messages (Suc n) s =
     (case reader_read s of (Inr (Some m), s') \<Rightarrow> m # read_messages n s' | _ \<Rightarrow> [])"

lemma read_messages_decode:
  "read_messages n s = decode_lines (read_all (\<lambda>(buf, chunks). read_line buf chunks) n s)"
proof (induction n arbitrary: s)
  case (Suc n)
  then show ?case
    by (cases "read_line (fst s) (snd s)")
      (auto simp: reader_read_def split_beta split: option.splits sum.splits)
qed simp

lemma arriving_nonempty: "[] \<notin> set chunks \<Longrightarrow> arriving chunks = concat chunks"
  by (induction chunks) auto



end
