(* ===== verification/Cosim_Transport.thy ===== *)
theory Cosim_Transport
  imports Complex_Main Chi_Flit Cosim_Protocol
begin

text \<open>
  The testbench side of the socket, \<^verbatim>\<open>cosim_transport.py\<close>: the conversion of flits to and from the
  names of the gem5 structures, and the transport with its two background threads.

  The threads share only queues with the rest of the program, so the transport is a state machine over their
  atomic actions: \<open>tr_step\<close> is one action of the reactor (send, poll, close), of the reader thread (one
  turn of its loop, with what \<^verbatim>\<open>recv\<close> did) or of the writer thread.  A run is any interleaving.
\<close>

section \<open>Flits as JSON\<close>

definition REQ_FIELDS :: "string list" where
  "REQ_FIELDS =
     [''qos'', ''srcid'', ''tgtid'', ''txnid'', ''opcode'',
      ''AllowRetry'', ''addr'', ''size'', ''ReturnNid'', ''order'', ''pcrdtype'',
      ''memattr'', ''snpattr'', ''expCompAck'', ''traceTag'', ''srcType'', ''ldid'']"

definition RSP_FIELDS :: "string list" where
  "RSP_FIELDS =
     [''qos'', ''srcid'', ''tgtid'', ''txnid'', ''opcode'',
      ''dbid'', ''resp'', ''respErr'', ''pcrdtype'', ''rspKind'']"

definition DAT_FIELDS :: "string list" where
  "DAT_FIELDS =
     [''qos'', ''srcid'', ''tgtid'', ''txnid'', ''opcode'',
      ''last'', ''HomeNID'', ''dbid'', ''dataid'', ''resp'', ''respErr'', ''beatOffset'',
      ''byteEnable'', ''chunkValid'', ''data'']"

definition DAT_BYTE_FIELDS :: "string list" where
  "DAT_BYTE_FIELDS = [''byteEnable'', ''chunkValid'', ''data'']"

definition req_to_json :: "raw_req \<Rightarrow> obj" where
  "req_to_json f =
     [(''qos'', JInt (f_qos f)),
      (''srcid'', JInt (f_srcid f)),
      (''tgtid'', JInt (f_tgtid f)),
      (''txnid'', JInt (f_txnid f)),
      (''opcode'', JInt (f_opcode f)),
      (''AllowRetry'', JInt (rq_allow_retry f)),
      (''addr'', JInt (rq_addr f)),
      (''size'', JInt (rq_size f)),
      (''ReturnNid'', JInt (rq_return_nid f)),
      (''order'', JInt (rq_order f)),
      (''pcrdtype'', JInt (rq_pcrdtype f)),
      (''memattr'', JInt (rq_memattr f)),
      (''snpattr'', JInt (rq_snpattr f)),
      (''expCompAck'', JBool (rq_exp_comp_ack f)),
      (''traceTag'', JBool (rq_trace_tag f)),
      (''srcType'', JInt (rq_src_type f)),
      (''ldid'', JInt (rq_ldid f))]"

definition req_from_json :: "obj \<Rightarrow> raw_req" where
  "req_from_json p =
     raw_req_default
       \<lparr>f_qos := get_int p ''qos'' 0,
        f_srcid := get_int p ''srcid'' 0,
        f_tgtid := get_int p ''tgtid'' 0,
        f_txnid := get_int p ''txnid'' 0,
        f_opcode := get_int p ''opcode'' 0,
        rq_allow_retry := get_int p ''AllowRetry'' 0,
        rq_addr := get_int p ''addr'' 0,
        rq_size := get_int p ''size'' 0,
        rq_return_nid := get_int p ''ReturnNid'' 0,
        rq_order := get_int p ''order'' 0,
        rq_pcrdtype := get_int p ''pcrdtype'' 0,
        rq_memattr := get_int p ''memattr'' 0,
        rq_snpattr := get_int p ''snpattr'' 0,
        rq_exp_comp_ack := get_bool p ''expCompAck'',
        rq_trace_tag := get_bool p ''traceTag'',
        rq_src_type := get_int p ''srcType'' 0,
        rq_ldid := get_int p ''ldid'' 0\<rparr>"

definition rsp_to_json :: "raw_rsp \<Rightarrow> obj" where
  "rsp_to_json f =
     [(''qos'', JInt (f_qos f)),
      (''srcid'', JInt (f_srcid f)),
      (''tgtid'', JInt (f_tgtid f)),
      (''txnid'', JInt (f_txnid f)),
      (''opcode'', JInt (f_opcode f)),
      (''dbid'', JInt (rs_dbid f)),
      (''resp'', JInt (rs_resp f)),
      (''respErr'', JInt (rs_resp_err f)),
      (''pcrdtype'', JInt (rs_pcrdtype f)),
      (''rspKind'', JInt (rsp_kind_value (rs_rsp_kind f)))]"

definition dat_to_json :: "raw_dat \<Rightarrow> obj result" where
  "dat_to_json f =
     and_then (bytes_of_ints (dt_byte_enable f)) (\<lambda>be.
     and_then (bytes_of_ints (dt_chunk_valid f)) (\<lambda>cv.
     and_then (bytes_of_ints (dt_data f)) (\<lambda>d.
     Inr
       [(''qos'', JInt (f_qos f)),
        (''srcid'', JInt (f_srcid f)),
        (''tgtid'', JInt (f_tgtid f)),
        (''txnid'', JInt (f_txnid f)),
        (''opcode'', JInt (f_opcode f)),
        (''last'', JInt (dt_last f)),
        (''HomeNID'', JInt (dt_home_nid f)),
        (''dbid'', JInt (dt_dbid f)),
        (''dataid'', JInt (dt_data_id f)),
        (''resp'', JInt (dt_resp f)),
        (''respErr'', JInt (dt_resp_err f)),
        (''beatOffset'', JInt (dt_beat_offset f)),
        (''byteEnable'', JStr (bytes_to_hex be)),
        (''chunkValid'', JStr (bytes_to_hex cv)),
        (''data'', JStr (bytes_to_hex d))])))"

text \<open>\<open>list(bytes)\<close>: a byte string as the list of its integers.\<close>

definition ints_of :: "byte list \<Rightarrow> int list" where
  "ints_of bs = map uint bs"

definition dat_from_json :: "obj \<Rightarrow> raw_dat result" where
  "dat_from_json p =
     and_then (hex_to_bytes (get_str p ''byteEnable'' [])) (\<lambda>be.
     and_then (hex_to_bytes (get_str p ''chunkValid'' [])) (\<lambda>cv.
     and_then (hex_to_bytes (get_str p ''data'' [])) (\<lambda>d.
     Inr (raw_dat_default
       \<lparr>f_qos := get_int p ''qos'' 0,
        f_srcid := get_int p ''srcid'' 0,
        f_tgtid := get_int p ''tgtid'' 0,
        f_txnid := get_int p ''txnid'' 0,
        f_opcode := get_int p ''opcode'' 0,
        dt_last := get_int p ''last'' 0,
        dt_home_nid := get_int p ''HomeNID'' 0,
        dt_dbid := get_int p ''dbid'' 0,
        dt_data_id := get_int p ''dataid'' 0,
        dt_resp := get_int p ''resp'' 0,
        dt_resp_err := get_int p ''respErr'' 0,
        dt_beat_offset := get_int p ''beatOffset'' 0,
        dt_byte_enable := ints_of be,
        dt_chunk_valid := ints_of cv,
        dt_data := ints_of d\<rparr>))))"

text \<open>What a flit keeps over the socket: the fields the tables name.\<close>

definition req_sent :: "raw_req \<Rightarrow> raw_req" where
  "req_sent f = f\<lparr>f_stage := 0, rq_hnf_dirty_victim := False, rq_non_secure := False, rq_user := 0,
     rq_return_txn_id := None\<rparr>"

definition dat_sent :: "raw_dat \<Rightarrow> raw_dat" where
  "dat_sent f = f\<lparr>f_stage := 0, dt_data_source := 0, dt_ccid := 0, dt_trace_tag := False\<rparr>"

lemma req_json_roundtrip: "req_from_json (req_to_json f) = req_sent f"
  by (simp add: req_from_json_def req_to_json_def req_sent_def raw_req_default_def get_int_def get_bool_def)

lemma dat_json_roundtrip: "dat_to_json f = Inr p \<Longrightarrow> dat_from_json p = Inr (dat_sent f)"
  by (auto simp: dat_from_json_def dat_to_json_def dat_sent_def raw_dat_default_def get_int_def get_str_def
      ints_of_def bytes_of_ints_inj)

lemma flit_json_ok:
  "json_ok (JObj (req_to_json f))" "json_ok (JObj (rsp_to_json g))"
  "dat_to_json h = Inr p \<Longrightarrow> json_ok (JObj p)"
  by (auto simp: req_to_json_def rsp_to_json_def dat_to_json_def)

section \<open>Connecting\<close>

text \<open>
  The retry loop of \<^verbatim>\<open>connect\<close>: \<open>up i\<close> says whether the server accepts the \<open>i\<close>-th attempt.  The waiting
  time is a multiple of 0.5, which a float holds exactly.  The result is the number of failed attempts.
\<close>

function connect_loop :: "(nat \<Rightarrow> bool) \<Rightarrow> rat \<Rightarrow> rat \<Rightarrow> nat \<Rightarrow> nat result" where
  "connect_loop up deadline waited i =
     (if up i then Inr i
      else if waited \<ge> deadline then Inl TimeoutError
      else connect_loop up deadline (waited + 1 / 2) (Suc i))"
  by pat_completeness auto
termination
proof (relation "measure (\<lambda>(up, deadline, waited, i). nat \<lceil>2 * (deadline - waited)\<rceil>)")
  fix up :: "nat \<Rightarrow> bool" and deadline waited :: rat and i :: nat
  assume "\<not> deadline \<le> waited"
  then have "0 < 2 * (deadline - waited)" by simp
  moreover have "\<lceil>2 * (deadline - (waited + 1 / 2))\<rceil> = \<lceil>2 * (deadline - waited)\<rceil> - 1"
    by (simp add: algebra_simps flip: ceiling_diff_one)
  ultimately show "((up, deadline, waited + 1 / 2, Suc i), up, deadline, waited, i)
      \<in> measure (\<lambda>(up, deadline, waited, i). nat \<lceil>2 * (deadline - waited)\<rceil>)"
    by simp
qed simp

declare connect_loop.simps [simp del]

definition transport_connect :: "(nat \<Rightarrow> bool) \<Rightarrow> rat \<Rightarrow> nat result" where
  "transport_connect up timeout_s = connect_loop up timeout_s 0 0"

section \<open>The threads\<close>

datatype thread = Running | Exited | Crashed

record transport =
  tr_connected :: bool
  tr_peer_closed :: bool
  tr_stop :: bool
  tr_rx_queue :: "json list"
  tr_tx_queue :: "json list"
  tr_buf :: "byte list"
  tr_reader :: thread
  tr_writer :: thread
  tr_written :: "byte list"

text \<open>The state \<^verbatim>\<open>connect\<close> leaves: both threads started, the bytes the writer has handed to the
  socket counted from here.\<close>

definition transport_connected :: transport where
  "transport_connected =
     \<lparr>tr_connected = True, tr_peer_closed = False, tr_stop = False, tr_rx_queue = [], tr_tx_queue = [],
      tr_buf = [], tr_reader = Running, tr_writer = Running, tr_written = []\<rparr>"

definition transport_send :: "json \<Rightarrow> transport \<Rightarrow> transport" where
  "transport_send m tr = tr\<lparr>tr_tx_queue := tr_tx_queue tr @ [m]\<rparr>"

definition transport_poll :: "transport \<Rightarrow> json option \<times> transport" where
  "transport_poll tr =
     (case tr_rx_queue tr of
        [] \<Rightarrow> (None, tr)
      | m # ms \<Rightarrow> (Some m, tr\<lparr>tr_rx_queue := ms\<rparr>))"

text \<open>\<^verbatim>\<open>close\<close> up to the pause that lets the writer flush, and after it.\<close>

definition close_begin :: "string \<Rightarrow> transport \<Rightarrow> transport" where
  "close_begin reason tr =
     (if \<not> tr_connected tr then tr
      else transport_send (JObj [(''t'', JStr ''bye''), (''reason'', JStr reason)]) tr)"

definition close_end :: "transport \<Rightarrow> transport" where
  "close_end tr = (if \<not> tr_connected tr then tr else tr\<lparr>tr_stop := True, tr_connected := False\<rparr>)"

text \<open>The inner loop of \<^verbatim>\<open>_reader_main\<close>: the complete lines of the buffer are parsed and queued; a
  ValueError is not caught and ends the thread (the last component is then false).\<close>

function rx_lines :: "byte list \<Rightarrow> json list \<Rightarrow> json list \<times> byte list \<times> bool" where
  "rx_lines buf q =
     (if NL \<in> set buf then
        (let (line, rest) = split_line buf in
         if line = [] then rx_lines rest q
         else case decode_msg line of
             Inl e \<Rightarrow> (q, rest, False)
           | Inr m \<Rightarrow> rx_lines rest (q @ [m]))
      else (q, buf, True))"
  by pat_completeness auto
termination
  by (relation "measure (\<lambda>(buf, q). length buf)") (auto dest: split_line_shorter simp: prod_eq_iff)

declare rx_lines.simps [simp del]

definition PEER_CLOSED :: json where
  "PEER_CLOSED = JObj [(''t'', JStr ''peer_closed'')]"

definition reader_exit :: "transport \<Rightarrow> transport" where
  "reader_exit tr =
     tr\<lparr>tr_reader := Exited, tr_peer_closed := True, tr_rx_queue := tr_rx_queue tr @ [PEER_CLOSED]\<rparr>"

text \<open>One turn of the reader's loop: \<open>Received []\<close> is a closed peer.\<close>

datatype recv_outcome = Received "byte list" | RecvOSError

definition reader_turn :: "recv_outcome \<Rightarrow> transport \<Rightarrow> transport" where
  "reader_turn ev tr =
     (if tr_reader tr \<noteq> Running then tr
      else if tr_stop tr then reader_exit tr
      else case ev of
          RecvOSError \<Rightarrow> reader_exit tr
        | Received [] \<Rightarrow> reader_exit tr
        | Received chunk \<Rightarrow>
            (case rx_lines (tr_buf tr @ chunk) (tr_rx_queue tr) of
               (q, buf, ok) \<Rightarrow>
                 tr\<lparr>tr_rx_queue := q, tr_buf := buf, tr_reader := (if ok then Running else Crashed)\<rparr>))"

text \<open>One turn of the writer's loop; \<open>ok\<close> is whether \<^verbatim>\<open>sendall\<close> succeeds.\<close>

definition writer_turn :: "bool \<Rightarrow> transport \<Rightarrow> transport" where
  "writer_turn ok tr =
     (if tr_writer tr \<noteq> Running then tr
      else if tr_stop tr then tr\<lparr>tr_writer := Exited\<rparr>
      else case tr_tx_queue tr of
          [] \<Rightarrow> tr
        | m # ms \<Rightarrow>
            if ok then tr\<lparr>tr_tx_queue := ms, tr_written := tr_written tr @ encode_msg m\<rparr>
            else tr\<lparr>tr_tx_queue := ms, tr_writer := Exited\<rparr>)"

datatype tr_event =
    Send json
  | Poll
  | CloseBegin string
  | CloseEnd
  | ReaderTurn recv_outcome
  | WriterTurn bool

text \<open>One action; the second component is the messages it hands to its caller.\<close>

fun tr_step :: "transport \<Rightarrow> tr_event \<Rightarrow> transport \<times> json list" where
  "tr_step tr (Send m) = (transport_send m tr, [])"
| "tr_step tr Poll = (let (r, tr') = transport_poll tr in (tr', case r of None \<Rightarrow> [] | Some m \<Rightarrow> [m]))"
| "tr_step tr (CloseBegin reason) = (close_begin reason tr, [])"
| "tr_step tr CloseEnd = (close_end tr, [])"
| "tr_step tr (ReaderTurn ev) = (reader_turn ev tr, [])"
| "tr_step tr (WriterTurn ok) = (writer_turn ok tr, [])"

fun tr_run :: "transport \<Rightarrow> tr_event list \<Rightarrow> transport \<times> json list" where
  "tr_run tr [] = (tr, [])"
| "tr_run tr (e # es) =
     (let (tr', out) = tr_step tr e; (tr'', out') = tr_run tr' es in (tr'', out @ out'))"

section \<open>What is sent\<close>

text \<open>The messages the reactor queues in a run, the one \<^verbatim>\<open>close\<close> adds included.\<close>

fun tr_run_sent :: "transport \<Rightarrow> tr_event list \<Rightarrow> json list" where
  "tr_run_sent tr [] = []"
| "tr_run_sent tr (e # es) =
     (case e of
        Send m \<Rightarrow> [m]
      | CloseBegin r \<Rightarrow>
          if tr_connected tr then [JObj [(''t'', JStr ''bye''), (''reason'', JStr r)]] else []
      | _ \<Rightarrow> []) @ tr_run_sent (fst (tr_step tr e)) es"

definition tx_stream :: "transport \<Rightarrow> byte list" where
  "tx_stream tr = tr_written tr @ concat (map encode_msg (tr_tx_queue tr))"

lemma reader_turn_tx [simp]:
  "tr_tx_queue (reader_turn ev tr) = tr_tx_queue tr" "tr_written (reader_turn ev tr) = tr_written tr"
  by (auto simp: reader_turn_def reader_exit_def split: recv_outcome.split list.split prod.split)

lemma tr_step_tx:
  assumes "e \<noteq> WriterTurn False"
  shows "tx_stream (fst (tr_step tr e)) = tx_stream tr @ concat (map encode_msg (tr_run_sent tr [e]))"
  using assms
  by (cases e)
    (auto simp: tx_stream_def transport_send_def transport_poll_def close_begin_def close_end_def
      writer_turn_def split: list.split)

lemma tr_run_tx:
  "WriterTurn False \<notin> set es \<Longrightarrow>
     tx_stream (fst (tr_run tr es)) = tx_stream tr @ concat (map encode_msg (tr_run_sent tr es))"
proof (induction es arbitrary: tr)
  case (Cons e es)
  then have "e \<noteq> WriterTurn False" by auto
  then show ?case using tr_step_tx [of e tr] Cons by (simp add: split_beta Let_def)
qed simp

section \<open>What is received\<close>

lemma rx_lines_spec:
  "rx_lines buf q = (q', buf', ok) \<Longrightarrow>
     q' = q @ decode_lines (lines buf) \<and>
     (ok \<longrightarrow> buf' = snd (drain buf) \<and> length (decode_lines (lines buf)) = length (lines buf)) \<and>
     (\<not> ok \<longrightarrow> length (decode_lines (lines buf)) < length (lines buf))"
proof (induction buf q arbitrary: q' buf' ok rule: rx_lines.induct)
  case (1 buf q)
  show ?case
  proof (cases buf rule: drain_cases)
    case short
    then have "rx_lines buf q = (q, buf, True)" by (simp add: rx_lines.simps)
    then show ?thesis using 1 short by (simp add: drain_short)
  next
    case (line l r)
    have b: "NL \<in> set buf" "split_line buf = (l, r)" using line by simp_all
    have step: "rx_lines buf q =
        (if l = [] then rx_lines r q
         else case decode_msg l of Inl e \<Rightarrow> (q, r, False) | Inr m \<Rightarrow> rx_lines r (q @ [m]))"
      by (subst rx_lines.simps) (simp add: b)
    consider "l = []" | e where "l \<noteq> []" "decode_msg l = Inl e" | m where "l \<noteq> []" "decode_msg l = Inr m"
      by (cases "decode_msg l") auto
    then show ?thesis
    proof cases
      case 1: 1
      then show ?thesis using "1.IH"(1) [of "(l, r)" l r] b step line "1.prems"
        using lines_line [of "[]" r] drain_line [of "[]" r] by simp
    qed (use "1.IH"(2) [of "(l, r)" l r] b step line "1.prems" in
        \<open>simp_all add: lines_line drain_line\<close>)
  qed
qed

text \<open>The chunks the reader thread receives in a run, and the runs in which the connection stays up.\<close>

fun chunk_of :: "tr_event \<Rightarrow> byte list" where
  "chunk_of (ReaderTurn (Received c)) = c"
| "chunk_of _ = []"

fun stays_up :: "tr_event \<Rightarrow> bool" where
  "stays_up (ReaderTurn ev) \<longleftrightarrow> (\<exists>c cs. ev = Received (c # cs))"
| "stays_up CloseEnd \<longleftrightarrow> False"
| "stays_up _ \<longleftrightarrow> True"

text \<open>The state the reader is in after the bytes \<open>bs\<close>.\<close>

definition reader_has :: "transport \<Rightarrow> byte list \<Rightarrow> bool" where
  "reader_has tr bs \<longleftrightarrow>
     \<not> tr_stop tr \<and> \<not> tr_peer_closed tr \<and> tr_reader tr \<noteq> Exited \<and>
     (tr_reader tr = Running \<longleftrightarrow> length (decode_lines (lines bs)) = length (lines bs)) \<and>
     (tr_reader tr = Running \<longrightarrow> tr_buf tr = snd (drain bs))"

lemma length_decode_lines: "length (decode_lines ls) \<le> length ls"
  by (induction ls) (auto split: sum.split)

lemma decode_lines_append:
  "decode_lines (xs @ ys) =
     (if length (decode_lines xs) = length xs then decode_lines xs @ decode_lines ys else decode_lines xs)"
  by (induction xs) (simp_all split: sum.split)

lemma reader_turn_has:
  assumes "reader_has tr bs" "c \<noteq> []"
    and q: "polled @ tr_rx_queue tr = decode_lines (lines bs)"
  shows "reader_has (reader_turn (Received c) tr) (bs @ c) \<and>
    polled @ tr_rx_queue (reader_turn (Received c) tr) = decode_lines (lines (bs @ c))"
proof (cases "tr_reader tr = Running")
  case True
  obtain q' buf' ok where r: "rx_lines (tr_buf tr @ c) (tr_rx_queue tr) = (q', buf', ok)"
    by (metis prod_cases3)
  have t: "reader_turn (Received c) tr =
      tr\<lparr>tr_rx_queue := q', tr_buf := buf', tr_reader := (if ok then Running else Crashed)\<rparr>"
    using assms True r by (cases c) (auto simp: reader_turn_def reader_has_def)
  have l: "lines (bs @ c) = lines bs @ lines (tr_buf tr @ c)" "snd (drain (bs @ c)) = snd (drain (tr_buf tr @ c))"
    using assms(1) True lines_append [of bs c] drain_append [of bs c] by (simp_all add: reader_has_def)
  have all: "length (decode_lines (lines bs)) = length (lines bs)"
    using assms(1) True by (simp add: reader_has_def)
  show ?thesis
    using rx_lines_spec [OF r] assms(1) all True q
    by (cases ok) (auto simp: t l decode_lines_append reader_has_def simp flip: append_assoc)
next
  case False
  then have "reader_turn (Received c) tr = tr" by (simp add: reader_turn_def)
  moreover have "length (decode_lines (lines bs)) \<noteq> length (lines bs)"
    using assms(1) False by (simp add: reader_has_def)
  ultimately show ?thesis
    using assms(1) False q length_decode_lines [of "lines bs"]
      length_decode_lines [of "lines (snd (drain bs) @ c)"] lines_append [of bs c]
    by (auto simp: reader_has_def decode_lines_append)
qed

lemma other_step_has:
  assumes "\<And>ev. e \<noteq> ReaderTurn ev" "e \<noteq> CloseEnd"
  shows "reader_has (fst (tr_step tr e)) bs = reader_has tr bs \<and>
    snd (tr_step tr e) @ tr_rx_queue (fst (tr_step tr e)) = tr_rx_queue tr"
  using assms
  by (cases e)
    (auto simp: reader_has_def transport_send_def transport_poll_def close_begin_def writer_turn_def
      split: list.split)

lemma tr_run_rx:
  assumes "list_all stays_up es" "reader_has tr bs" "polled @ tr_rx_queue tr = decode_lines (lines bs)"
  shows "reader_has (fst (tr_run tr es)) (bs @ concat (map chunk_of es)) \<and>
    polled @ snd (tr_run tr es) @ tr_rx_queue (fst (tr_run tr es)) =
      decode_lines (lines (bs @ concat (map chunk_of es)))"
  using assms
proof (induction es arbitrary: tr bs polled)
  case (Cons e es)
  let ?tr = "fst (tr_step tr e)" and ?out = "snd (tr_step tr e)"
  have step: "reader_has ?tr (bs @ chunk_of e) \<and>
      (polled @ ?out) @ tr_rx_queue ?tr = decode_lines (lines (bs @ chunk_of e))"
  proof (cases "\<exists>ev. e = ReaderTurn ev")
    case True
    then obtain c cs where "e = ReaderTurn (Received (c # cs))" using Cons.prems(1) by auto
    then show ?thesis using reader_turn_has [OF Cons.prems(2) _ Cons.prems(3), of "c # cs"] by simp
  next
    case False
    then have "chunk_of e = []" "e \<noteq> CloseEnd" using Cons.prems(1) by (cases e; auto)+
    then show ?thesis using other_step_has [of e tr bs] False Cons.prems(2,3) by auto
  qed
  show ?case
    using Cons.IH [of ?tr "bs @ chunk_of e" "polled @ ?out"] step Cons.prems(1)
    by (simp add: split_beta Let_def)
qed simp

section \<open>Properties\<close>

lemma reader_has_start: "reader_has transport_connected []"
  by (simp add: reader_has_def transport_connected_def drain_short)

text \<open>
  Reception, for every interleaving of the reactor with the two threads while the connection stays up: what the
  reactor has polled and what still waits in the queue are together exactly the messages of the bytes received so
  far, in order, up to the first line that does not parse; and the reader thread runs on exactly while every line
  has parsed.
\<close>

theorem transport_receives:
  assumes "list_all stays_up es"
  shows "let (tr, polled) = tr_run transport_connected es; ls = lines (concat (map chunk_of es)) in
     polled @ tr_rx_queue tr = decode_lines ls \<and> \<not> tr_peer_closed tr \<and>
     (tr_reader tr = Running \<longleftrightarrow> length (decode_lines ls) = length ls)"
  using tr_run_rx [OF assms reader_has_start, of "[]"]
  by (simp add: reader_has_def transport_connected_def split_beta)

text \<open>The witness: two messages in three chunks, polled between and after; the second line is malformed.\<close>

theorem transport_receives_witness:
  "let es = [ReaderTurn (Received [0x7B, 0x7D]), Poll, ReaderTurn (Received [0x0A, 0x0A]), Poll,
             Send JNull, ReaderTurn (Received [0x7D, 0x0A]), Poll];
       (tr, polled) = tr_run transport_connected es in
     polled @ tr_rx_queue tr = decode_lines [[0x7B, 0x7D], [0x7D]] \<and> tr_reader tr = Crashed"
proof -
  let ?es = "[ReaderTurn (Received [0x7B, 0x7D]), Poll, ReaderTurn (Received [0x0A, 0x0A]), Poll,
             Send JNull, ReaderTurn (Received [0x7D, 0x0A]), Poll]"
  have l: "lines (concat (map chunk_of ?es)) = [[0x7B, 0x7D], [0x7D]]"
    using lines_line [of "[0x7B, 0x7D]" "[0x0A, 0x7D, 0x0A]"] lines_line [of "[]" "[0x7D, 0x0A]"]
      lines_line [of "[0x7D]" "[]"] by (simp add: NL_def)
  have "decode_msg [0x7B, 0x7D] = Inr (JObj [])" "decode_msg [0x7D] = Inl ValueError" by code_simp+
  then have n: "length (decode_lines [[0x7B, 0x7D], [0x7D]]) \<noteq> length [[0x7B, 0x7D], [0x7D :: byte]]" by simp
  have up: "list_all stays_up ?es" by simp
  obtain tr polled where run: "tr_run transport_connected ?es = (tr, polled)"
    by (cases "tr_run transport_connected ?es")
  have "polled @ tr_rx_queue tr = decode_lines [[0x7B, 0x7D], [0x7D]]" "tr_reader tr \<noteq> Running"
    using transport_receives [OF up] n unfolding l run Let_def by simp_all
  moreover have "tr_reader tr \<noteq> Exited"
    using tr_run_rx [OF up reader_has_start, of "[]"] unfolding run
    by (simp add: reader_has_def transport_connected_def)
  ultimately show ?thesis unfolding Let_def run by (cases "tr_reader tr") simp_all
qed

text \<open>
  Transmission: in any interleaving without a socket error, once the writer has emptied its queue, a
  \<^verbatim>\<open>MessageReader\<close> at the other end of the socket reads exactly the messages the reactor sent, in the order it
  sent them, however the bytes are cut into chunks.
\<close>

theorem transport_transmits:
  assumes "list_all json_ok (tr_run_sent transport_connected es)" and "WriterTurn False \<notin> set es"
    and "tr_tx_queue (fst (tr_run transport_connected es)) = []"
    and "concat chunks = tr_written (fst (tr_run transport_connected es))" and "[] \<notin> set chunks"
    and "length (concat chunks) < n"
  shows "read_messages n ([], chunks) = tr_run_sent transport_connected es"
proof -
  have "concat chunks = concat (map encode_msg (tr_run_sent transport_connected es))"
    using tr_run_tx [OF assms(2), of transport_connected] assms(3,4)
    by (simp add: tx_stream_def transport_connected_def)
  then show ?thesis
    using message_reader.read_all_messages [of _ "([], chunks)" n] assms(1,5,6)
    by (simp add: read_messages_decode arriving_nonempty)
qed

theorem transport_transmits_witness:
  "let m = JObj [(''t'', JStr ''ack''), (''cycle'', JInt 100)];
       es = [Send m, WriterTurn True, Send JNull, CloseBegin ''tb done'', WriterTurn True, WriterTurn True, CloseEnd];
       w = tr_written (fst (tr_run transport_connected es))
   in read_messages (length w + 1) ([], [w]) =
        [m, JNull, JObj [(''t'', JStr ''bye''), (''reason'', JStr ''tb done'')]]"
proof -
  let ?m = "JObj [(''t'', JStr ''ack''), (''cycle'', JInt 100)]"
  let ?es = "[Send ?m, WriterTurn True, Send JNull, CloseBegin ''tb done'', WriterTurn True, WriterTurn True, CloseEnd]"
  note run = transport_connected_def transport_send_def close_begin_def writer_turn_def close_end_def
  let ?w = "tr_written (fst (tr_run transport_connected ?es))"
  have s: "tr_run_sent transport_connected ?es =
      [?m, JNull, JObj [(''t'', JStr ''bye''), (''reason'', JStr ''tb done'')]]"
    by (simp add: run)
  have "?w \<noteq> []" using encode_msg_line [of JNull] by (auto simp: run)
  moreover have "tr_tx_queue (fst (tr_run transport_connected ?es)) = []" by (simp add: run)
  ultimately show ?thesis
    using transport_transmits [of ?es "[?w]" "length ?w + 1"] s unfolding Let_def by simp
qed

text \<open>
  A line that does not parse ends reception for good and in silence: after it, whatever arrives, nothing is
  queued any more, neither a message nor the notice that the peer has closed, so a runtime that waits for a
  message from its peer is not told.
\<close>

theorem malformed_line_silences_reader:
  assumes "tr_reader tr = Crashed"
  shows "let (tr', polled) = tr_run tr es in
     polled @ tr_rx_queue tr' = tr_rx_queue tr \<and> tr_peer_closed tr' = tr_peer_closed tr \<and> tr_reader tr' = Crashed"
proof -
  have step: "snd (tr_step tr e) @ tr_rx_queue (fst (tr_step tr e)) = tr_rx_queue tr \<and>
      tr_peer_closed (fst (tr_step tr e)) = tr_peer_closed tr \<and> tr_reader (fst (tr_step tr e)) = Crashed"
    if "tr_reader tr = Crashed" for tr e
    using that
    by (cases e) (auto simp: transport_send_def transport_poll_def close_begin_def close_end_def
        writer_turn_def reader_turn_def split: list.split)
  show ?thesis
    using assms
  proof (induction es arbitrary: tr)
    case (Cons e es)
    show ?case using step [OF Cons.prems, of e] Cons.IH [of "fst (tr_step tr e)"]
      by (auto simp: split_beta Let_def)
  qed simp
qed

theorem malformed_line_silences_reader_witness:
  "let tr = fst (tr_run transport_connected [ReaderTurn (Received [0x7D, 0x0A])]);
       (tr', polled) = tr_run tr [ReaderTurn (Received [0x7B, 0x7D, 0x0A]), Poll, ReaderTurn (Received []), Poll]
   in polled @ tr_rx_queue tr' = [] \<and> \<not> tr_peer_closed tr'"
proof -
  let ?tr = "fst (tr_run transport_connected [ReaderTurn (Received [0x7D, 0x0A])])"
  have "decode_msg [0x7D] = Inl ValueError" by code_simp
  moreover have "split_line [0x7D, 0x0A] = ([0x7D], [])" by code_simp
  ultimately have "rx_lines [0x7D, 0x0A] [] = ([], [], False)"
    by (subst rx_lines.simps) (simp add: NL_def)
  then have "tr_reader ?tr = Crashed" "tr_rx_queue ?tr = []" "\<not> tr_peer_closed ?tr"
    by (simp_all add: reader_turn_def transport_connected_def)
  then show ?thesis
    using malformed_line_silences_reader [of ?tr
        "[ReaderTurn (Received [0x7B, 0x7D, 0x0A]), Poll, ReaderTurn (Received []), Poll]"]
    unfolding Let_def by (simp only: split_beta) simp
qed

text \<open>
  Flits over the socket: the payloads have exactly the fields of the protocol tables, in order; a request and a
  data flit are restored with every field the tables name; and \<^verbatim>\<open>dat_to_json\<close> fails, with ValueError, exactly
  when a byte vector holds something that is not a byte.
\<close>

theorem flit_json_roundtrip:
  "map fst (req_to_json f) = REQ_FIELDS \<and> req_from_json (req_to_json f) = req_sent f \<and>
   map fst (rsp_to_json g) = RSP_FIELDS \<and>
   (case dat_to_json h of
      Inl e \<Rightarrow> e = ValueError \<and> \<not> (set (dt_byte_enable h @ dt_chunk_valid h @ dt_data h) \<subseteq> {0 ..< 256})
    | Inr p \<Rightarrow> set (dt_byte_enable h @ dt_chunk_valid h @ dt_data h) \<subseteq> {0 ..< 256} \<and>
        map fst p = DAT_FIELDS \<and> dat_from_json p = Inr (dat_sent h))"
proof -
  have b: "(case bytes_of_ints xs of Inl e \<Rightarrow> e = ValueError \<and> \<not> set xs \<subseteq> {0 ..< 256} | Inr bs \<Rightarrow> set xs \<subseteq> {0 ..< 256})"
    for xs
    by (induction xs) (auto split: sum.splits)
  have "case dat_to_json h of
      Inl e \<Rightarrow> e = ValueError \<and> \<not> (set (dt_byte_enable h @ dt_chunk_valid h @ dt_data h) \<subseteq> {0 ..< 256})
    | Inr p \<Rightarrow> set (dt_byte_enable h @ dt_chunk_valid h @ dt_data h) \<subseteq> {0 ..< 256} \<and> map fst p = DAT_FIELDS"
    using b [of "dt_byte_enable h"] b [of "dt_chunk_valid h"] b [of "dt_data h"]
    by (cases "bytes_of_ints (dt_byte_enable h)"; cases "bytes_of_ints (dt_chunk_valid h)";
        cases "bytes_of_ints (dt_data h)") (auto simp: dat_to_json_def DAT_FIELDS_def)
  moreover have "map fst (req_to_json f) = REQ_FIELDS" "map fst (rsp_to_json g) = RSP_FIELDS"
    by (simp_all add: req_to_json_def rsp_to_json_def REQ_FIELDS_def RSP_FIELDS_def)
  ultimately show ?thesis
    using dat_json_roundtrip [of h] by (auto simp: req_json_roundtrip split: sum.splits)
qed

end
