(* ===== verification/Txn_Mapper.thy ===== *)
theory Txn_Mapper
  imports Chi_Flit
begin

text \<open>
  The mirror of the DUT's transaction pool, \<^verbatim>\<open>TxnIdMapper\<close> of \<^verbatim>\<open>snf_agent.py\<close>, with the latency
  statistics and the size conversion beside it.  \<^verbatim>\<open>records\<close> is an association list in insertion
  order, for \<^verbatim>\<open>find_write\<close> returns the first match; \<open>update_record\<close> is an assignment to a field of a
  record the dictionary holds.

  The locale \<open>fresh_ids\<close> is the contract of an allocator of identifiers; the pool slots are one, the
  memory broker's request ids another.
\<close>

definition POOL_SLOTS :: int where "POOL_SLOTS = 32"
definition READ_ID_BASE :: int where "READ_ID_BASE = 32"
definition RELEASE_MARGIN_CYCLES :: int where "RELEASE_MARGIN_CYCLES = 8"

section \<open>Latency statistics\<close>

record txn_stats =
  ts_count :: int
  ts_total :: int
  ts_min :: "int option"
  ts_max :: int

definition txn_stats_init :: txn_stats where
  "txn_stats_init = \<lparr>ts_count = 0, ts_total = 0, ts_min = None, ts_max = 0\<rparr>"

definition stats_add :: "txn_stats \<Rightarrow> int \<Rightarrow> txn_stats" where
  "stats_add s cycles =
     s\<lparr>ts_count := ts_count s + 1,
       ts_total := ts_total s + cycles,
       ts_min := (case ts_min s of None \<Rightarrow> Some cycles | Some m \<Rightarrow> Some (if cycles < m then cycles else m)),
       ts_max := (if cycles > ts_max s then cycles else ts_max s)\<rparr>"

section \<open>Sizes\<close>

text \<open>\<open>n.bit_length()\<close> of a number that is not negative (of a negative one it is that of its absolute
  value).\<close>

fun bit_length_nat :: "nat \<Rightarrow> nat" where
  "bit_length_nat n = (if n = 0 then 0 else Suc (bit_length_nat (n div 2)))"

declare bit_length_nat.simps [simp del]

definition bit_length :: "int \<Rightarrow> nat" where
  "bit_length n = bit_length_nat (nat \<bar>n\<bar>)"

definition bytes_size_to_log2 :: "int \<Rightarrow> int \<Rightarrow> int result" where
  "bytes_size_to_log2 size_bytes line_bytes =
     (let size_bytes = (if size_bytes = 0 then line_bytes else size_bytes);
          log2 = bit_length (size_bytes - 1)
      in if push_bit log2 1 \<noteq> size_bytes \<or> log2 > 6 then Inl ValueError else Inr (int log2))"

section \<open>Records\<close>

datatype txn_kind = KRead | KWrite

record txn_record =
  r_wire_id :: int
  r_kind :: txn_kind
  r_gem5_srcid :: int
  r_gem5_txnid :: int
  r_addr :: int
  r_size_bytes :: int
  r_qos :: int
  r_orig_req :: "raw_req option"
  r_start_cycle :: int
  r_fwd_dbid :: int
  r_beats_left :: int
  r_next_dataid :: int

record txn_mapper =
  m_records :: "(int \<times> txn_record) list"
  m_cycle :: int
  m_pending_release :: "(int \<times> int) list"
  m_next_read_id :: int
  m_alloc_failed :: int

definition mapper_init :: txn_mapper where
  "mapper_init = \<lparr>m_records = [], m_cycle = 0, m_pending_release = [], m_next_read_id = READ_ID_BASE, m_alloc_failed = 0\<rparr>"

text \<open>The release loop of \<^verbatim>\<open>on_cycle\<close>: the entries at the head of the queue that are due.\<close>

fun release_due :: "int \<Rightarrow> (int \<times> int) list \<Rightarrow> (int \<times> txn_record) list \<Rightarrow> (int \<times> int) list \<times> (int \<times> txn_record) list" where
  "release_due cycle [] recs = ([], recs)"
| "release_due cycle ((due, wire_id) # q) recs =
     (if due \<le> cycle then release_due cycle q (AList.delete wire_id recs) else ((due, wire_id) # q, recs))"

definition mapper_on_cycle :: "txn_mapper \<Rightarrow> txn_mapper" where
  "mapper_on_cycle m =
     (let cycle = m_cycle m + 1; (q, recs) = release_due cycle (m_pending_release m) (m_records m)
      in m\<lparr>m_cycle := cycle, m_pending_release := q, m_records := recs\<rparr>)"

definition line_addr :: "int \<Rightarrow> int" where
  "line_addr a = a AND NOT 0x3F"

definition pool_hazard_addrs :: "txn_mapper \<Rightarrow> int list" where
  "pool_hazard_addrs m = [line_addr (r_addr r). (k, r) \<leftarrow> m_records m, r_wire_id r < POOL_SLOTS]"

text \<open>The lowest slot in \<open>range(POOL_SLOTS)\<close> that no record uses.\<close>

definition free_slot :: "txn_mapper \<Rightarrow> int option" where
  "free_slot m = List.find (\<lambda>slot. map_of (m_records m) slot = None) [0..POOL_SLOTS - 1]"

text \<open>\<open>mk wire_id\<close> is the record the keyword arguments of \<^verbatim>\<open>alloc\<close> describe.\<close>

definition mapper_alloc :: "txn_kind \<Rightarrow> bool \<Rightarrow> (int \<Rightarrow> txn_record) \<Rightarrow> txn_mapper \<Rightarrow> txn_record option \<times> txn_mapper" where
  "mapper_alloc kind dependent mk m =
     (if kind = KRead \<and> \<not> dependent then
        let wire_id = m_next_read_id m;
            next = (if wire_id + 1 \<ge> 4096 then READ_ID_BASE else wire_id + 1);
            r = (mk wire_id)\<lparr>r_wire_id := wire_id, r_kind := kind\<rparr>
        in (Some r, m\<lparr>m_next_read_id := next, m_records := AList.update wire_id r (m_records m)\<rparr>)
      else
        case free_slot m of
          None \<Rightarrow> (None, m\<lparr>m_alloc_failed := m_alloc_failed m + 1\<rparr>)
        | Some wire_id \<Rightarrow>
            let r = (mk wire_id)\<lparr>r_wire_id := wire_id, r_kind := kind\<rparr>
            in (Some r, m\<lparr>m_records := AList.update wire_id r (m_records m)\<rparr>))"

definition mapper_release :: "int \<Rightarrow> int \<Rightarrow> txn_mapper \<Rightarrow> txn_mapper" where
  "mapper_release wire_id margin m =
     (if map_of (m_records m) wire_id \<noteq> None
      then m\<lparr>m_pending_release := m_pending_release m @ [(m_cycle m + margin, wire_id)]\<rparr> else m)"

definition by_wire_id :: "txn_mapper \<Rightarrow> int \<Rightarrow> txn_record option" where
  "by_wire_id m wire_id = map_of (m_records m) wire_id"

definition find_write :: "txn_mapper \<Rightarrow> int \<Rightarrow> int \<Rightarrow> txn_record option" where
  "find_write m srcid txnid =
     map_option snd (List.find
       (\<lambda>(k, r). r_kind r = KWrite \<and> r_gem5_srcid r = srcid \<and> r_gem5_txnid r = txnid) (m_records m))"

definition in_flight :: "txn_mapper \<Rightarrow> int" where
  "in_flight m = int (length (m_records m))"

definition update_record :: "int \<Rightarrow> (txn_record \<Rightarrow> txn_record) \<Rightarrow> txn_mapper \<Rightarrow> txn_mapper" where
  "update_record wire_id f m =
     m\<lparr>m_records := map (\<lambda>(k, r). (k, if k = wire_id then f r else r)) (m_records m)\<rparr>"

section \<open>Sizes and statistics\<close>

lemma bit_length_pred_pow: "bit_length_nat (2 ^ k - 1) = k"
proof (induction k)
  case (Suc k)
  obtain m where "(2 :: nat) ^ k = Suc m" by (metis not0_implies_Suc power_not_zero zero_neq_numeral)
  then have "(2 ^ Suc k - 1) div 2 = (2 :: nat) ^ k - 1" "(2 :: nat) ^ Suc k - 1 \<noteq> 0" by simp_all
  then show ?case using Suc by (subst bit_length_nat.simps) simp
qed (simp add: bit_length_nat.simps)

lemma bit_length_pred: "bit_length ((2 :: int) ^ k - 1) = k"
proof -
  have "nat ((2 :: int) ^ k - 1) = 2 ^ k - 1" by (simp add: nat_diff_distrib nat_power_eq)
  then show ?thesis using bit_length_pred_pow [of k] by (simp add: bit_length_def)
qed

text \<open>
  Sizes: \<^verbatim>\<open>bytes_size_to_log2\<close> accepts exactly the powers of two up to a whole 64-byte line (and 0, which means
  the line), returns their logarithm, and raises ValueError on every other size.
\<close>

theorem size_to_log2_spec:
  "(bytes_size_to_log2 s 64 = Inr k \<longleftrightarrow> 0 \<le> k \<and> k \<le> 6 \<and> (s = 2 ^ nat k \<or> s = 0 \<and> k = 6)) \<and>
   (bytes_size_to_log2 s 64 = Inl e \<longleftrightarrow> e = ValueError \<and> s \<notin> {0, 1, 2, 4, 8, 16, 32, 64})"
proof -
  define sz where "sz = (if s = 0 then 64 else s)"
  have d: "bytes_size_to_log2 s 64 =
      (if 2 ^ bit_length (sz - 1) \<noteq> sz \<or> bit_length (sz - 1) > 6 then Inl ValueError
       else Inr (int (bit_length (sz - 1))))"
    by (simp add: bytes_size_to_log2_def sz_def Let_def)
  have "bytes_size_to_log2 s 64 = Inr k \<longleftrightarrow> 0 \<le> k \<and> k \<le> 6 \<and> sz = 2 ^ nat k" for k
    using bit_length_pred by (auto simp: d)
  moreover have "sz = 2 ^ nat k \<longleftrightarrow> s = 2 ^ nat k \<or> s = 0 \<and> k = 6" if "0 \<le> k" "k \<le> 6" for k
  proof -
    have "(64 :: int) = 2 ^ nat k \<longleftrightarrow> nat k = 6"
      using power_inject_exp [of "2 :: int" 6 "nat k"] by auto
    then show ?thesis using that by (auto simp: sz_def)
  qed
  ultimately have ok: "bytes_size_to_log2 s 64 = Inr k \<longleftrightarrow> 0 \<le> k \<and> k \<le> 6 \<and> (s = 2 ^ nat k \<or> s = 0 \<and> k = 6)" for k
    by blast
  have "(\<exists>k. bytes_size_to_log2 s 64 = Inr k) \<longleftrightarrow> s \<in> {0, 1, 2, 4, 8, 16, 32, 64}"
  proof
    assume "\<exists>k. bytes_size_to_log2 s 64 = Inr k"
    then obtain k where k: "0 \<le> k" "k \<le> 6" "s = 2 ^ nat k \<or> s = 0" unfolding ok by blast
    then have "nat k \<in> {0, 1, 2, 3, 4, 5, 6}" by auto
    with k show "s \<in> {0, 1, 2, 4, 8, 16, 32, 64}" by auto
  next
    assume "s \<in> {0, 1, 2, 4, 8, 16, 32, 64}"
    moreover have "{..6 :: nat} = {0, 1, 2, 3, 4, 5, 6}" by auto
    then have "{1, 2, 4, 8, 16, 32, 64 :: int} = (\<lambda>i. 2 ^ i) ` {..6}" by simp
    ultimately consider "s = 0" | i where "s = 2 ^ i" "i \<le> 6" by auto
    then show "\<exists>k. bytes_size_to_log2 s 64 = Inr k"
    proof cases
      case 1
      then show ?thesis unfolding ok by (intro exI [of _ 6]) simp
    next
      case (2 i)
      then show ?thesis unfolding ok by (intro exI [of _ "int i"]) simp
    qed
  qed
  moreover have "bytes_size_to_log2 s 64 = Inl e \<longleftrightarrow> e = ValueError \<and> (\<nexists>k. bytes_size_to_log2 s 64 = Inr k)"
    by (auto simp: d)
  ultimately show ?thesis using ok by simp
qed

lemma stats_add_sel:
  "ts_count (stats_add s c) = ts_count s + 1" "ts_total (stats_add s c) = ts_total s + c"
  "ts_min (stats_add s c) = Some (case ts_min s of None \<Rightarrow> c | Some m \<Rightarrow> min c m)"
  "ts_max (stats_add s c) = max c (ts_max s)"
  by (auto simp: stats_add_def min_def max_def split: option.split)

text \<open>
  Latency statistics: after any sequence of completions the counters are the number, the sum, the minimum and
  the maximum of the latencies added.
\<close>

theorem txn_stats_summary:
  "let s = fold (\<lambda>c s. stats_add s c) cs txn_stats_init in
     ts_count s = int (length cs) \<and> ts_total s = sum_list cs \<and>
     ts_min s = (if cs = [] then None else Some (Min (set cs))) \<and> ts_max s = Max (insert 0 (set cs))"
proof (induction cs rule: rev_induct)
  case (snoc c cs)
  define s where "s = fold (\<lambda>c s. stats_add s c) cs txn_stats_init"
  have e: "fold (\<lambda>c s. stats_add s c) (cs @ [c]) txn_stats_init = stats_add s c" by (simp add: s_def)
  have "ts_count s = int (length cs)" "ts_total s = sum_list cs" "ts_max s = Max (insert 0 (set cs))"
      "ts_min s = (if cs = [] then None else Some (Min (set cs)))"
    using snoc [folded s_def, unfolded Let_def] by blast+
  then show ?case
    unfolding e Let_def
    by (cases "cs = []") (simp_all add: stats_add_sel insert_commute [of 0 c])
qed (simp add: txn_stats_init_def)

section \<open>The allocator contract\<close>

text \<open>
  An allocator of identifiers: \<open>alloc\<close> returns one that is not live and makes just that one live, or refuses and
  changes nothing that is live.  \<open>ok\<close> is its invariant.
\<close>

locale fresh_ids =
  fixes alloc :: "'s \<Rightarrow> 'k option \<times> 's" and live :: "'s \<Rightarrow> 'k set" and ok :: "'s \<Rightarrow> bool"
  assumes alloc_fresh: "ok s \<Longrightarrow> alloc s = (Some k, s') \<Longrightarrow> k \<notin> live s \<and> live s' = insert k (live s) \<and> ok s'"
    and alloc_refused: "ok s \<Longrightarrow> alloc s = (None, s') \<Longrightarrow> live s' = live s \<and> ok s'"

text \<open>\<open>n\<close> allocations in a row: the identifiers obtained, and the state after them.\<close>

fun alloc_many :: "('s \<Rightarrow> 'k option \<times> 's) \<Rightarrow> nat \<Rightarrow> 's \<Rightarrow> 'k list \<times> 's" where
  "alloc_many alloc 0 s = ([], s)"
| "alloc_many alloc (Suc n) s =
     (case alloc s of
        (None, s') \<Rightarrow> alloc_many alloc n s'
      | (Some k, s') \<Rightarrow> (let (ks, t) = alloc_many alloc n s' in (k # ks, t)))"

context fresh_ids begin

lemma alloc_many_fresh:
  "ok s \<Longrightarrow> alloc_many alloc n s = (ks, t) \<Longrightarrow>
     distinct ks \<and> set ks \<inter> live s = {} \<and> live t = set ks \<union> live s \<and> ok t"
proof (induction n arbitrary: s ks)
  case (Suc n)
  obtain r s' where a: "alloc s = (r, s')" by (cases "alloc s")
  show ?case
  proof (cases r)
    case None
    then show ?thesis using Suc.IH [of s' ks] Suc.prems a alloc_refused [of s s'] by auto
  next
    case (Some k)
    obtain ks' t' where m: "alloc_many alloc n s' = (ks', t')" by (cases "alloc_many alloc n s'")
    then show ?thesis using Suc.IH [of s' ks'] Suc.prems a Some alloc_fresh [of s k s'] by auto
  qed
qed simp

end

section \<open>The invariant of the mapper\<close>

definition record_ok :: "int \<Rightarrow> txn_record \<Rightarrow> bool" where
  "record_ok k r \<longleftrightarrow> r_wire_id r = k \<and> 0 \<le> k \<and> k < 4096 \<and> (k < POOL_SLOTS \<or> r_kind r = KRead)"

definition mapper_ok :: "txn_mapper \<Rightarrow> bool" where
  "mapper_ok m \<longleftrightarrow>
     distinct (map fst (m_records m)) \<and> (\<forall>(k, r) \<in> set (m_records m). record_ok k r) \<and>
     READ_ID_BASE \<le> m_next_read_id m \<and> m_next_read_id m < 4096 \<and>
     (\<forall>(due, k) \<in> set (m_pending_release m). due \<le> m_cycle m + RELEASE_MARGIN_CYCLES)"

lemmas mapper_consts = POOL_SLOTS_def READ_ID_BASE_def RELEASE_MARGIN_CYCLES_def

lemma mapper_okD:
  assumes "mapper_ok m" "map_of (m_records m) k = Some r"
  shows "record_ok k r"
  using assms map_of_SomeD [OF assms(2)] by (auto simp: mapper_ok_def)

lemma release_due_subset:
  "release_due c q recs = (q', recs') \<Longrightarrow>
     set q' \<subseteq> set q \<and> set recs' \<subseteq> set recs \<and> (distinct (map fst recs) \<longrightarrow> distinct (map fst recs'))"
proof (induction c q recs rule: release_due.induct)
  case (2 cycle due wire_id q recs)
  show ?case
  proof (cases "due \<le> cycle")
    case True
    then have "set q' \<subseteq> set q \<and> set recs' \<subseteq> set (AList.delete wire_id recs) \<and>
        (distinct (map fst (AList.delete wire_id recs)) \<longrightarrow> distinct (map fst recs'))"
      using 2 by simp
    then show ?thesis using set_delete_subset [of wire_id recs] distinct_delete_keys [of recs wire_id] by auto
  qed (use "2.prems" in auto)
qed simp

lemma release_due_frees:
  "release_due c q recs = (q', recs') \<Longrightarrow>
     q = takeWhile (\<lambda>(due, k). due \<le> c) q @ q' \<and>
     map_of recs' k = (if k \<in> snd ` set (takeWhile (\<lambda>(due, k). due \<le> c) q) then None else map_of recs k)"
proof (induction c q recs rule: release_due.induct)
  case (2 cycle due wire_id q recs)
  then show ?case
    by (cases "due \<le> cycle"; cases "k = wire_id") (auto simp: map_of_delete)
qed simp

lemma mapper_ok_init: "mapper_ok mapper_init"
  by (simp add: mapper_ok_def mapper_init_def mapper_consts)

lemma mapper_ok_on_cycle:
  assumes "mapper_ok m"
  shows "mapper_ok (mapper_on_cycle m)"
proof -
  obtain q recs where "release_due (m_cycle m + 1) (m_pending_release m) (m_records m) = (q, recs)"
    by (metis surj_pair)
  with release_due_subset [OF this] assms show ?thesis
    by (fastforce simp: mapper_ok_def mapper_on_cycle_def)
qed

lemma find_SomeD: "List.find P xs = Some x \<Longrightarrow> P x \<and> x \<in> set xs"
  by (auto simp: find_Some_iff)

lemma mapper_ok_alloc:
  assumes "mapper_ok m"
  shows "mapper_ok (snd (mapper_alloc kind dep mk m))"
proof -
  have up: "distinct (map fst (AList.update k r (m_records m))) \<and>
      (\<forall>(k', r') \<in> set (AList.update k r (m_records m)). record_ok k' r')" if "record_ok k r" for k r
    using assms that set_update_subset [of k r "m_records m"]
    by (auto simp: mapper_ok_def intro!: distinct_update)
  show ?thesis
  proof (cases "kind = KRead \<and> \<not> dep")
    case True
    have "record_ok (m_next_read_id m) ((mk (m_next_read_id m))\<lparr>r_wire_id := m_next_read_id m, r_kind := kind\<rparr>)"
      using assms True by (simp add: record_ok_def mapper_ok_def mapper_consts)
    from up [OF this] show ?thesis
      using assms True by (auto simp: mapper_alloc_def mapper_ok_def Let_def mapper_consts)
  next
    case False
    show ?thesis
    proof (cases "free_slot m")
      case (Some k)
      then have "0 \<le> k" "k < POOL_SLOTS" using find_SomeD [of _ _ k] by (fastforce simp: free_slot_def)+
      then have "record_ok k ((mk k)\<lparr>r_wire_id := k, r_kind := kind\<rparr>)"
        by (simp add: record_ok_def mapper_consts)
      from up [OF this] show ?thesis using assms False Some
        by (auto simp: mapper_alloc_def mapper_ok_def Let_def)
    qed (use assms False in \<open>auto simp: mapper_alloc_def mapper_ok_def\<close>)
  qed
qed

lemma mapper_ok_release:
  "mapper_ok m \<Longrightarrow> margin \<le> RELEASE_MARGIN_CYCLES \<Longrightarrow> mapper_ok (mapper_release k margin m)"
  by (auto simp: mapper_ok_def mapper_release_def)

lemma mapper_ok_update:
  assumes "mapper_ok m" "\<And>r. r_wire_id (f r) = r_wire_id r" "\<And>r. r_kind (f r) = r_kind r"
  shows "mapper_ok (update_record k f m)"
proof -
  have "map fst (m_records (update_record k f m)) = map fst (m_records m)"
    by (simp add: update_record_def split_beta comp_def)
  moreover have f: "record_ok j (f r) = record_ok j r" for j r using assms(2,3) by (simp add: record_ok_def)
  have "\<forall>(k, r) \<in> set (m_records (update_record k f m)). record_ok k r"
    using assms(1) f by (auto simp: mapper_ok_def update_record_def)
  ultimately show ?thesis using assms(1) by (simp add: mapper_ok_def) (simp add: update_record_def)
qed

lemma map_of_update_record:
  "map_of (m_records (update_record k f m)) k' =
     map_option (\<lambda>r. if k' = k then f r else r) (map_of (m_records m) k')"
proof -
  have "map_of (map (\<lambda>(k', r). (k', if k' = k then f r else r)) recs) k' =
      map_option (\<lambda>r. if k' = k then f r else r) (map_of recs k')" for recs
    by (induction recs) auto
  then show ?thesis by (simp add: update_record_def)
qed

section \<open>Runs of the mapper\<close>

datatype mapper_op =
    OnCycle
  | Alloc txn_kind bool "int \<Rightarrow> txn_record"
  | Release int int
  | Update int "txn_record \<Rightarrow> txn_record"

fun mapper_step :: "mapper_op \<Rightarrow> txn_mapper \<Rightarrow> txn_mapper" where
  "mapper_step OnCycle m = mapper_on_cycle m"
| "mapper_step (Alloc kind dep mk) m = snd (mapper_alloc kind dep mk m)"
| "mapper_step (Release k margin) m = mapper_release k margin m"
| "mapper_step (Update k f) m = update_record k f m"

text \<open>The calls the agent makes: margins 0 and 8, and updates of a record that keep its identity.\<close>

fun op_ok :: "mapper_op \<Rightarrow> bool" where
  "op_ok (Release k margin) \<longleftrightarrow> margin \<in> {0, RELEASE_MARGIN_CYCLES}"
| "op_ok (Update k f) \<longleftrightarrow> (\<forall>r. r_wire_id (f r) = r_wire_id r \<and> r_kind (f r) = r_kind r)"
| "op_ok _ \<longleftrightarrow> True"

lemma mapper_ok_step: "mapper_ok m \<Longrightarrow> op_ok oper \<Longrightarrow> mapper_ok (mapper_step oper m)"
  by (cases oper)
    (auto simp: mapper_ok_on_cycle mapper_ok_alloc mapper_ok_update mapper_consts intro!: mapper_ok_release)

lemma mapper_ok_run: "mapper_ok m \<Longrightarrow> list_all op_ok ops \<Longrightarrow> mapper_ok (fold mapper_step ops m)"
  by (induction ops arbitrary: m) (auto simp: mapper_ok_step)

text \<open>
  C33. The pool invariant: whatever the sequence of allocations, releases, updates and clock cycles, every record is
  filed under its own wire id, the id fits the 12 bits of the wire, a write sits in one of the 32 pool slots,
  and the slots 0..31 and the ids of independent reads never overlap.
\<close>

theorem mapper_invariant:
  assumes "list_all op_ok ops"
  shows "let m = fold mapper_step ops mapper_init in
     distinct (map fst (m_records m)) \<and> 32 \<le> m_next_read_id m \<and> m_next_read_id m < 4096 \<and>
     (\<forall>(k, r) \<in> set (m_records m). r_wire_id r = k \<and> 0 \<le> k \<and> k < 4096 \<and> (r_kind r = KWrite \<longrightarrow> k < 32))"
  using mapper_ok_run [OF mapper_ok_init assms]
  by (auto simp: mapper_ok_def record_ok_def mapper_consts Let_def)

definition demo_record :: "int \<Rightarrow> txn_record" where
  "demo_record k =
     \<lparr>r_wire_id = k, r_kind = KRead, r_gem5_srcid = 0x90, r_gem5_txnid = 7, r_addr = 0x80000000, r_size_bytes = 64,
      r_qos = 0, r_orig_req = None, r_start_cycle = 0, r_fwd_dbid = 0, r_beats_left = 2, r_next_dataid = 0\<rparr>"

theorem mapper_invariant_witness:
  "let m = fold mapper_step [Alloc KWrite False demo_record, Alloc KRead False demo_record, Release 0 8, OnCycle,
       Alloc KRead True demo_record, Update 32 (\<lambda>r. r\<lparr>r_beats_left := 1\<rparr>)] mapper_init
   in distinct (map fst (m_records m)) \<and> 32 \<le> m_next_read_id m"
proof -
  let ?ops = "[Alloc KWrite False demo_record, Alloc KRead False demo_record, Release 0 8, OnCycle,
       Alloc KRead True demo_record, Update 32 (\<lambda>r. r\<lparr>r_beats_left := 1\<rparr>)]"
  have "list_all op_ok ?ops" by (simp add: RELEASE_MARGIN_CYCLES_def)
  from mapper_invariant [OF this] show ?thesis unfolding Let_def by blast
qed

section \<open>Pool slots\<close>

definition live_ids :: "txn_mapper \<Rightarrow> int set" where
  "live_ids m = fst ` set (m_records m)"

lemma not_live: "map_of (m_records m) k = None \<longleftrightarrow> k \<notin> live_ids m"
  by (simp add: live_ids_def map_of_eq_None_iff)

definition alloc_slot :: "(int \<Rightarrow> txn_record) \<Rightarrow> txn_mapper \<Rightarrow> int option \<times> txn_mapper" where
  "alloc_slot mk m = (let (r, m') = mapper_alloc KWrite False mk m in (map_option r_wire_id r, m'))"

lemma free_slot_Some:
  assumes "free_slot m = Some k"
  shows "0 \<le> k \<and> k < 32 \<and> k \<notin> live_ids m \<and> (\<forall>j. 0 \<le> j \<and> j < k \<longrightarrow> j \<in> live_ids m)"
proof -
  obtain i where i: "i < length [0..31 :: int]" "[0..31] ! i \<notin> live_ids m" "k = [0..31] ! i"
      "\<forall>j < i. [0..31] ! j \<in> live_ids m"
    using assms unfolding free_slot_def find_Some_iff not_live by (auto simp: mapper_consts not_live)
  then have k: "k = int i" "i < 32" by (simp_all add: nth_upto)
  have "j \<in> live_ids m" if "0 \<le> j" "j < k" for j
    using i(4) that k by (auto simp: nth_upto dest!: spec [of _ "nat j"])
  then show ?thesis using i k by auto
qed

lemma free_slot_None: "free_slot m = None \<longleftrightarrow> {0 ..< 32} \<subseteq> live_ids m"
  by (auto simp: free_slot_def find_None_iff not_live mapper_consts)

lemma alloc_pool_None:
  "kind = KWrite \<or> dep \<Longrightarrow> free_slot m = None \<Longrightarrow>
     mapper_alloc kind dep mk m = (None, m\<lparr>m_alloc_failed := m_alloc_failed m + 1\<rparr>)"
  by (auto simp: mapper_alloc_def)

lemma alloc_pool_Some:
  fixes mk :: "int \<Rightarrow> txn_record"
  assumes "kind = KWrite \<or> dep" "free_slot m = Some k"
  defines "r \<equiv> (mk k)\<lparr>r_wire_id := k, r_kind := kind\<rparr>"
  shows "mapper_alloc kind dep mk m = (Some r, m\<lparr>m_records := m_records m @ [(k, r)]\<rparr>)"
proof -
  have "AList.update k r (m_records m) = m_records m @ [(k, r)]"
    using free_slot_Some [OF assms(2)] by (intro update_new) (simp add: live_ids_def)
  then show ?thesis using assms by (auto simp: mapper_alloc_def Let_def)
qed

text \<open>
  Pool allocation mirrors the DUT's allocator: a write, or a read that depends on an address in the pool, takes
  the lowest of the 32 slots no record holds and is refused only when all of them are held; every other record is
  left as it is.
\<close>

theorem pool_alloc_lowest_free:
  assumes "kind = KWrite \<or> dependent"
  shows "case mapper_alloc kind dependent mk m of
      (None, m') \<Rightarrow> {0 ..< 32} \<subseteq> live_ids m \<and> m_records m' = m_records m
    | (Some r, m') \<Rightarrow> r_wire_id r \<in> {0 ..< 32} - live_ids m \<and> {0 ..< r_wire_id r} \<subseteq> live_ids m \<and>
        r_kind r = kind \<and> m_records m' = m_records m @ [(r_wire_id r, r)]"
proof (cases "free_slot m")
  case None
  then show ?thesis using alloc_pool_None [OF assms None] free_slot_None by simp
next
  case (Some k)
  then show ?thesis using alloc_pool_Some [OF assms Some] free_slot_Some [OF Some] by auto
qed

theorem pool_alloc_lowest_free_witness:
  "case mapper_alloc KWrite False demo_record mapper_init of
     (None, m') \<Rightarrow> False
   | (Some r, m') \<Rightarrow> r_wire_id r \<in> {0 ..< 32} \<and> m_records m' = [(r_wire_id r, r)]"
proof -
  have "live_ids mapper_init = {}" "m_records mapper_init = []" by (simp_all add: live_ids_def mapper_init_def)
  then show ?thesis using pool_alloc_lowest_free [of KWrite False mapper_init demo_record]
    by (auto split: prod.splits option.splits)
qed

interpretation pool: fresh_ids "alloc_slot mk" live_ids mapper_ok for mk
proof unfold_locales
  fix m m' k
  assume ok: "mapper_ok m"
  then have ok': "mapper_ok (snd (alloc_slot mk m))"
    using mapper_ok_alloc by (simp add: alloc_slot_def split_beta)
  show "k \<notin> live_ids m \<and> live_ids m' = insert k (live_ids m) \<and> mapper_ok m'" if "alloc_slot mk m = (Some k, m')"
  proof (cases "free_slot m")
    case None
    then show ?thesis using that by (simp add: alloc_slot_def alloc_pool_None)
  next
    case (Some j)
    then show ?thesis using that ok' free_slot_Some [OF Some]
      by (auto simp: alloc_slot_def alloc_pool_Some live_ids_def)
  qed
  show "live_ids m' = live_ids m \<and> mapper_ok m'" if "alloc_slot mk m = (None, m')"
    using that ok' by (cases "free_slot m") (auto simp: alloc_slot_def alloc_pool_None alloc_pool_Some live_ids_def)
qed

lemma alloc_slot_keeps: "alloc_slot mk m = (r, m') \<Longrightarrow> live_ids m \<subseteq> live_ids m'"
  by (cases "free_slot m") (auto simp: alloc_slot_def alloc_pool_None alloc_pool_Some live_ids_def)

lemma alloc_many_keeps: "alloc_many (alloc_slot mk) n m = (ks, m') \<Longrightarrow> live_ids m \<subseteq> live_ids m'"
proof (induction n arbitrary: m ks m')
  case (Suc n)
  obtain r m1 where a: "alloc_slot mk m = (r, m1)" by (cases "alloc_slot mk m")
  obtain ks1 m2 where m: "alloc_many (alloc_slot mk) n m1 = (ks1, m2)" by (cases "alloc_many (alloc_slot mk) n m1")
  show ?case using Suc.IH [OF m] Suc.prems m a alloc_slot_keeps [OF a] by (cases r) auto
qed simp

lemma alloc_many_full:
  "alloc_many (alloc_slot mk) n m = (ks, m') \<Longrightarrow>
     set ks \<subseteq> {0 ..< 32} \<and> length ks \<le> n \<and> (length ks < n \<longrightarrow> {0 ..< 32} \<subseteq> live_ids m')"
proof (induction n arbitrary: m ks m')
  case (Suc n)
  obtain r m1 where a: "alloc_slot mk m = (r, m1)" by (cases "alloc_slot mk m")
  obtain ks1 m2 where m: "alloc_many (alloc_slot mk) n m1 = (ks1, m2)" by (cases "alloc_many (alloc_slot mk) n m1")
  note IH = Suc.IH [OF m] and keeps = alloc_slot_keeps [OF a] alloc_many_keeps [OF m]
  show ?case
  proof (cases "free_slot m")
    case None
    then have "r = None" "{0 ..< 32} \<subseteq> live_ids m"
      using a free_slot_None by (auto simp: alloc_slot_def alloc_pool_None)
    then show ?thesis using Suc.prems a m IH keeps by auto
  next
    case (Some k)
    then have "r = Some k" using a by (auto simp: alloc_slot_def alloc_pool_Some)
    then show ?thesis using Suc.prems a m IH free_slot_Some [OF Some] by auto
  qed
qed simp

text \<open>
  A burst of writes: from any state of the mapper, \<open>n\<close> allocations in a row give distinct slots of the pool that
  nothing held before, and as many as were asked for unless all 32 slots end up taken.
\<close>

theorem pool_burst:
  assumes "mapper_ok m" and "alloc_many (alloc_slot mk) n m = (slots, m')"
  shows "distinct slots \<and> set slots \<inter> live_ids m = {} \<and> set slots \<subseteq> {0 ..< 32} \<and> mapper_ok m' \<and>
    (length slots = n \<or> {0 ..< 32} \<subseteq> live_ids m')"
  using pool.alloc_many_fresh [OF assms] alloc_many_full [OF assms(2)] by auto

theorem pool_burst_witness:
  "let (slots, m') = alloc_many (alloc_slot demo_record) 40 mapper_init in
     distinct slots \<and> set slots \<subseteq> {0 ..< 32} \<and> {0 ..< 32} \<subseteq> live_ids m'"
proof -
  obtain slots m' where a: "alloc_many (alloc_slot demo_record) 40 mapper_init = (slots, m')"
    by (cases "alloc_many (alloc_slot demo_record) 40 mapper_init")
  note b = pool_burst [OF mapper_ok_init a]
  then have "length slots \<le> card {0 ..< 32 :: int}" by (metis card_mono distinct_card finite_atLeastLessThan_int)
  then show ?thesis using b a by auto
qed

section \<open>Release\<close>

fun is_on_cycle :: "mapper_op \<Rightarrow> bool" where
  "is_on_cycle OnCycle \<longleftrightarrow> True"
| "is_on_cycle _ \<longleftrightarrow> False"

definition cycles_in :: "mapper_op list \<Rightarrow> int" where
  "cycles_in ops = int (length (filter is_on_cycle ops))"

fun releases_of :: "int \<Rightarrow> mapper_op \<Rightarrow> bool" where
  "releases_of k (Release k' margin) \<longleftrightarrow> k' = k"
| "releases_of k _ \<longleftrightarrow> False"

definition due_now :: "txn_mapper \<Rightarrow> (int \<times> int) list" where
  "due_now m = takeWhile (\<lambda>(due, k). due \<le> m_cycle m + 1) (m_pending_release m)"

lemma on_cycle_effect:
  "m_cycle (mapper_on_cycle m) = m_cycle m + 1"
  "m_pending_release m = due_now m @ m_pending_release (mapper_on_cycle m)"
  "k \<in> live_ids (mapper_on_cycle m) \<longleftrightarrow> k \<in> live_ids m \<and> k \<notin> snd ` set (due_now m)"
proof -
  obtain q recs where r: "release_due (m_cycle m + 1) (m_pending_release m) (m_records m) = (q, recs)"
    by (metis surj_pair)
  then have e: "mapper_on_cycle m = m\<lparr>m_cycle := m_cycle m + 1, m_pending_release := q, m_records := recs\<rparr>"
    by (simp add: mapper_on_cycle_def)
  show "m_cycle (mapper_on_cycle m) = m_cycle m + 1" by (simp add: e)
  show "m_pending_release m = due_now m @ m_pending_release (mapper_on_cycle m)"
    using release_due_frees [OF r] by (simp add: e due_now_def)
  show "k \<in> live_ids (mapper_on_cycle m) \<longleftrightarrow> k \<in> live_ids m \<and> k \<notin> snd ` set (due_now m)"
    using release_due_frees [OF r, of k] not_live [of m k] not_live [of "mapper_on_cycle m" k]
    by (simp add: e due_now_def) metis
qed

lemma due_now_due: "(d, k) \<in> set (due_now m) \<Longrightarrow> d \<le> m_cycle m + 1 \<and> (d, k) \<in> set (m_pending_release m)"
  by (auto simp: due_now_def dest: set_takeWhileD)

lemma live_update [simp]: "live_ids (update_record k f m) = live_ids m"
  by (force simp: live_ids_def update_record_def)

lemma live_release [simp]: "live_ids (mapper_release k margin m) = live_ids m"
  by (simp add: live_ids_def mapper_release_def)

lemma alloc_effect:
  "live_ids m \<subseteq> live_ids (snd (mapper_alloc kind dep mk m))"
  "m_pending_release (snd (mapper_alloc kind dep mk m)) = m_pending_release m"
  "m_cycle (snd (mapper_alloc kind dep mk m)) = m_cycle m"
  by (auto simp: mapper_alloc_def live_ids_def Let_def dom_update split: option.split)

lemma step_pending:
  assumes "\<not> is_on_cycle oper"
  shows "m_cycle (mapper_step oper m) = m_cycle m" "live_ids m \<subseteq> live_ids (mapper_step oper m)"
    "\<exists>q. m_pending_release (mapper_step oper m) = m_pending_release m @ q \<and>
        (\<not> releases_of k oper \<longrightarrow> k \<notin> snd ` set q)"
proof -
  show "m_cycle (mapper_step oper m) = m_cycle m"
    using assms by (cases oper) (simp_all add: alloc_effect(3) mapper_release_def update_record_def)
  show "live_ids m \<subseteq> live_ids (mapper_step oper m)"
    using assms by (cases oper) (simp_all add: alloc_effect(1))
  show "\<exists>q. m_pending_release (mapper_step oper m) = m_pending_release m @ q \<and>
      (\<not> releases_of k oper \<longrightarrow> k \<notin> snd ` set q)"
    using assms by (cases oper) (simp_all add: alloc_effect(2) mapper_release_def update_record_def)
qed

lemma cycles_in_Cons [simp]: "cycles_in (oper # ops) = (if is_on_cycle oper then 1 else 0) + cycles_in ops"
  by (simp add: cycles_in_def)

lemma is_on_cycle_iff: "is_on_cycle oper \<longleftrightarrow> oper = OnCycle"
  by (cases oper) auto

lemma held_until_due:
  "k \<in> live_ids m \<Longrightarrow> (\<And>d. (d, k) \<in> set (m_pending_release m) \<Longrightarrow> due \<le> d) \<Longrightarrow>
     \<not> list_ex (releases_of k) ops \<Longrightarrow> m_cycle m + cycles_in ops < due \<Longrightarrow>
     k \<in> live_ids (fold mapper_step ops m)"
proof (induction ops arbitrary: m)
  case (Cons oper ops)
  have nonneg: "0 \<le> cycles_in ops" by (simp add: cycles_in_def)
  let ?m = "mapper_step oper m"
  have "k \<in> live_ids ?m \<and> (\<forall>d. (d, k) \<in> set (m_pending_release ?m) \<longrightarrow> due \<le> d) \<and>
      m_cycle ?m + cycles_in ops < due"
  proof (cases "is_on_cycle oper")
    case True
    then have "k \<notin> snd ` set (due_now m)" using Cons.prems(2,4) nonneg due_now_due [where k = k and m = m] by force
    then show ?thesis
      using True Cons.prems on_cycle_effect(1,2) [of m] on_cycle_effect(3) [of k m]
        by (auto simp: is_on_cycle_iff)
  next
    case False
    obtain q where "m_pending_release ?m = m_pending_release m @ q" "k \<notin> snd ` set q"
      using step_pending(3) [OF False, of m k] Cons.prems(3) by auto
    then show ?thesis using Cons.prems step_pending(1,2) [OF False, of m] False by force
  qed
  then show ?case using Cons.IH [of ?m] Cons.prems(3) by simp
qed simp

definition due_queue :: "txn_mapper \<Rightarrow> int \<Rightarrow> int \<Rightarrow> bool" where
  "due_queue m due k \<longleftrightarrow>
     (\<exists>q1 q2. m_pending_release m = q1 @ (due, k) # q2 \<and> (\<forall>(d, j) \<in> set q1. d \<le> due))"

lemma due_queue_on_cycle:
  assumes "due_queue m due k"
  shows "k \<notin> live_ids (mapper_on_cycle m) \<or> due_queue (mapper_on_cycle m) due k \<and> m_cycle m + 1 < due"
proof -
  obtain q1 q2 where q: "m_pending_release m = q1 @ (due, k) # q2" "\<forall>(d, j) \<in> set q1. d \<le> due"
    using assms by (auto simp: due_queue_def)
  let ?P = "\<lambda>(d, j). d \<le> m_cycle m + 1"
  show ?thesis
  proof (cases "(\<forall>x \<in> set q1. ?P x) \<and> due \<le> m_cycle m + 1")
    case True
    then have "k \<in> snd ` set (due_now m)" by (simp add: q due_now_def)
    then show ?thesis using on_cycle_effect(3) [of k m] by simp
  next
    case False
    have "\<exists>p1. q1 @ (due, k) # q2 = due_now m @ p1 @ (due, k) # q2 \<and> set p1 \<subseteq> set q1"
    proof (cases "\<forall>x \<in> set q1. ?P x")
      case True
      then show ?thesis using False by (auto simp: due_now_def q)
    next
      case False
      then have "due_now m = takeWhile ?P q1" by (auto simp: due_now_def q takeWhile_append1)
      then show ?thesis by (intro exI [of _ "dropWhile ?P q1"]) (auto dest: set_dropWhileD)
    qed
    then obtain p1 where p1: "m_pending_release (mapper_on_cycle m) = p1 @ (due, k) # q2" "set p1 \<subseteq> set q1"
      using on_cycle_effect(2) [of m] q(1) by (metis same_append_eq)
    then have "due_queue (mapper_on_cycle m) due k"
      using q(2) unfolding due_queue_def by blast
    moreover have "m_cycle m + 1 < due" using False q(2) by fastforce
    ultimately show ?thesis by simp
  qed
qed

lemma due_queue_step:
  assumes "due_queue m due k" "\<not> is_on_cycle oper"
  shows "due_queue (mapper_step oper m) due k"
proof -
  obtain q where "m_pending_release (mapper_step oper m) = m_pending_release m @ q"
    using step_pending(3) [OF assms(2)] by blast
  then show ?thesis using assms(1) unfolding due_queue_def by fastforce
qed

lemma freed_when_due:
  "due_queue m due k \<Longrightarrow> 0 < cycles_in ops \<Longrightarrow> due \<le> m_cycle m + cycles_in ops \<Longrightarrow>
     \<exists>i \<le> length ops. k \<notin> live_ids (fold mapper_step (take i ops) m)"
proof (induction ops arbitrary: m)
  case (Cons oper ops)
  show ?case
  proof (cases "k \<in> live_ids (mapper_step oper m)")
    case True
    have "due_queue (mapper_step oper m) due k \<and> (is_on_cycle oper \<longrightarrow> m_cycle m + 1 < due)"
    proof (cases "is_on_cycle oper")
      case False
      then show ?thesis using due_queue_step [OF Cons.prems(1) False] by simp
    qed (use due_queue_on_cycle [OF Cons.prems(1)] True in \<open>auto simp: is_on_cycle_iff\<close>)
    moreover have "m_cycle (mapper_step oper m) = m_cycle m + (if is_on_cycle oper then 1 else 0)"
      using step_pending(1) [of oper m] on_cycle_effect(1) [of m] by (auto simp: is_on_cycle_iff)
    ultimately obtain i where "i \<le> length ops" "k \<notin> live_ids (fold mapper_step (take i ops) (mapper_step oper m))"
      using Cons.IH [of "mapper_step oper m"] Cons.prems by (auto split: if_splits)
    then show ?thesis by (intro exI [of _ "Suc i"]) simp
  qed (auto intro: exI [of _ 1])
qed (simp add: cycles_in_def)

text \<open>
  C30. The release margin: a pool slot released with the 8-cycle margin stays taken through the next 7 clock cycles
  whatever else is allocated, released or updated meanwhile (so it is not handed out while the DUT may still hold
  the entry), and has been free at some point by the end of the 8th, even if entries with another margin wait in front of
  it in the release queue.
\<close>

theorem release_margin_exact:
  assumes "mapper_ok m" and "k \<in> live_ids m" and "k \<notin> snd ` set (m_pending_release m)"
    and "\<not> list_ex (releases_of k) ops"
  shows "(cycles_in ops < 8 \<longrightarrow> k \<in> live_ids (fold mapper_step ops (mapper_release k RELEASE_MARGIN_CYCLES m))) \<and>
    (8 \<le> cycles_in ops \<longrightarrow>
      (\<exists>i \<le> length ops. k \<notin> live_ids (fold mapper_step (take i ops) (mapper_release k RELEASE_MARGIN_CYCLES m))))"
proof -
  let ?m = "mapper_release k RELEASE_MARGIN_CYCLES m"
  have pend: "m_pending_release ?m = m_pending_release m @ [(m_cycle m + 8, k)]" and "m_cycle ?m = m_cycle m"
    using assms(2) not_live [of m k] by (auto simp: mapper_release_def RELEASE_MARGIN_CYCLES_def)
  moreover have "(d, k) \<in> set (m_pending_release ?m) \<Longrightarrow> m_cycle m + 8 \<le> d" for d
    using assms(3) by (force simp: pend)
  moreover have "due_queue ?m (m_cycle m + 8) k"
    using assms(1) pend by (auto simp: due_queue_def mapper_ok_def RELEASE_MARGIN_CYCLES_def)
  ultimately show ?thesis
    using held_until_due [of k ?m "m_cycle m + 8" ops] freed_when_due [of ?m "m_cycle m + 8" k ops] assms(2,4)
    by auto
qed

text \<open>The witness: slot 0 is released and another slot, released without a margin, waits behind it.\<close>

theorem release_margin_exact_witness:
  "let m = mapper_release 0 RELEASE_MARGIN_CYCLES (mapper_step (Alloc KWrite False demo_record) mapper_init);
       ops = [Alloc KWrite False demo_record, Release 1 0]
   in 0 \<in> live_ids (fold mapper_step (ops @ replicate 7 OnCycle) m) \<and>
      (\<exists>i \<le> 10. 0 \<notin> live_ids (fold mapper_step (take i (ops @ replicate 8 OnCycle)) m))"
proof -
  let ?m = "mapper_step (Alloc KWrite False demo_record) mapper_init"
  let ?ops = "[Alloc KWrite False demo_record, Release 1 0]"
  have ok: "mapper_ok ?m" by (intro mapper_ok_step mapper_ok_init) simp
  have "free_slot mapper_init = Some 0" by (simp add: free_slot_def mapper_init_def upto.simps POOL_SLOTS_def)
  then have live: "0 \<in> live_ids ?m" by (simp add: alloc_pool_Some live_ids_def)
  have pend: "0 \<notin> snd ` set (m_pending_release ?m)" by (simp add: alloc_effect(2) mapper_init_def)
  have "\<not> list_ex (releases_of 0) (?ops @ replicate n OnCycle)" for n by (induction n) auto
  note release_margin_exact [OF ok live pend this]
  from this [of 7] this [of 8] show ?thesis
    unfolding Let_def by (simp add: cycles_in_def)
qed

end
