(* ===== verification/Snf_Agent.thy ===== *)
theory Snf_Agent
  imports Txn_Mapper Chi_Txn Cosim_Transport
begin

text \<open>
  The SNF protocol agent of \<^verbatim>\<open>snf_agent.py\<close>: it rewrites the requests and write data gem5 sends into flits of
  the DUT's link, and the responses the DUT gives into the flits gem5 expects.  Its state is the record
  \<open>snf_agent\<close>; a handler is a function from the state to the state, and one that may raise (on malformed
  hexadecimal text or lanes that are not bytes) returns a result.  Messages sent through the installed callback are appended to
  \<open>ag_sent\<close>, and transactions for the driver to \<open>ag_txn_queue\<close>.
\<close>

definition GEM5_OPC_READNOSNP :: int where "GEM5_OPC_READNOSNP = 0x04"
definition GEM5_OPC_WRITENOSNP_FULL :: int where "GEM5_OPC_WRITENOSNP_FULL = 0x5C"
definition GEM5_OPC_NONCOPYBACK_WRITEDATA :: int where "GEM5_OPC_NONCOPYBACK_WRITEDATA = 0x03"
definition OPC_COMP :: int where "OPC_COMP = 0x4"
definition OPC_COMPDBIDRESP :: int where "OPC_COMPDBIDRESP = 0x5"
definition OPC_DBIDRESP :: int where "OPC_DBIDRESP = 0x6"
definition OPC_RETRYACK :: int where "OPC_RETRYACK = 0x3"
definition OPC_PCRDGRANT :: int where "OPC_PCRDGRANT = 0x7"
definition DATA_ID_LOW :: int where "DATA_ID_LOW = 0"
definition DATA_ID_HIGH :: int where "DATA_ID_HIGH = 2"

lemmas agent_opcodes = GEM5_OPC_READNOSNP_def GEM5_OPC_WRITENOSNP_FULL_def GEM5_OPC_NONCOPYBACK_WRITEDATA_def
  OPC_COMP_def OPC_COMPDBIDRESP_def OPC_DBIDRESP_def OPC_RETRYACK_def OPC_PCRDGRANT_def
  DATA_ID_LOW_def DATA_ID_HIGH_def

section \<open>State\<close>

record agent_counts =
  ac_req_in :: int
  ac_dat_in :: int
  ac_req_stalled :: int
  ac_dat_dropped :: int
  ac_rsp_out :: int
  ac_dat_out :: int
  ac_unsupported :: int

record snf_agent =
  ag_connected :: bool
  ag_snf_id :: int
  ag_dut_nodeid :: int
  ag_line_bytes :: int
  ag_mapper :: txn_mapper
  ag_txn_queue :: "txn list"
  ag_pending_reqs :: "(raw_req \<times> int) list"
  ag_read_stats :: txn_stats
  ag_write_stats :: txn_stats
  ag_retrying :: "txn_record list"
  ag_counts :: agent_counts
  ag_sent :: "json list"

definition agent_init :: snf_agent where
  "agent_init =
     \<lparr>ag_connected = False, ag_snf_id = 0, ag_dut_nodeid = 0, ag_line_bytes = 64, ag_mapper = mapper_init,
      ag_txn_queue = [], ag_pending_reqs = [], ag_read_stats = txn_stats_init,
      ag_write_stats = txn_stats_init, ag_retrying = [],
      ag_counts = \<lparr>ac_req_in = 0, ac_dat_in = 0, ac_req_stalled = 0, ac_dat_dropped = 0, ac_rsp_out = 0,
        ac_dat_out = 0, ac_unsupported = 0\<rparr>,
      ag_sent = []\<rparr>"

definition with_mapper :: "(txn_mapper \<Rightarrow> txn_mapper) \<Rightarrow> snf_agent \<Rightarrow> snf_agent" where
  "with_mapper f a = a\<lparr>ag_mapper := f (ag_mapper a)\<rparr>"

definition count :: "(agent_counts \<Rightarrow> agent_counts) \<Rightarrow> snf_agent \<Rightarrow> snf_agent" where
  "count f a = a\<lparr>ag_counts := f (ag_counts a)\<rparr>"

definition inc_unsupported :: "snf_agent \<Rightarrow> snf_agent" where
  "inc_unsupported = count (\<lambda>c. c\<lparr>ac_unsupported := ac_unsupported c + 1\<rparr>)"

definition send_to_gem5 :: "obj \<Rightarrow> snf_agent \<Rightarrow> snf_agent" where
  "send_to_gem5 msg a = (if ag_connected a then a\<lparr>ag_sent := ag_sent a @ [JObj msg]\<rparr> else a)"

definition agent_complete :: "txn_record \<Rightarrow> snf_agent \<Rightarrow> snf_agent" where
  "agent_complete r a =
     (let latency = m_cycle (ag_mapper a) - r_start_cycle r
      in if r_kind r = KRead then a\<lparr>ag_read_stats := stats_add (ag_read_stats a) latency\<rparr>
         else a\<lparr>ag_write_stats := stats_add (ag_write_stats a) latency\<rparr>)"

section \<open>Requests\<close>

definition req_from_payload :: "obj \<Rightarrow> raw_req" where
  "req_from_payload p =
     raw_req_default
       \<lparr>f_qos := get_int p ''qos'' 0,
        f_srcid := get_int p ''srcid'' 0,
        f_tgtid := get_int p ''tgtid'' 0,
        f_txnid := get_int p ''txnid'' 0,
        f_opcode := get_int p ''opcode'' 0,
        rq_allow_retry := get_int p ''AllowRetry'' 0,
        rq_addr := get_int p ''addr'' 0,
        rq_size := get_int p ''size'' 0,
        rq_return_nid := get_int p ''ReturnNid'' 0,
        rq_order := get_int p ''order'' 0,
        rq_pcrdtype := get_int p ''pcrdtype'' 0,
        rq_memattr := get_int p ''memattr'' 0,
        rq_snpattr := get_int p ''snpattr'' 0,
        rq_trace_tag := get_bool p ''traceTag''\<rparr>"

text \<open>The flit the agent drives for a request it has a record for.\<close>

definition wire_req :: "snf_agent \<Rightarrow> raw_req \<Rightarrow> int \<Rightarrow> int \<Rightarrow> int \<Rightarrow> raw_req" where
  "wire_req a req opcode size_log2 wire_id =
     raw_req_default
       \<lparr>f_qos := f_qos req,
        f_srcid := f_srcid req,
        f_tgtid := ag_dut_nodeid a,
        f_txnid := wire_id,
        f_opcode := opcode,
        rq_addr := rq_addr req,
        rq_size := size_log2,
        rq_return_nid := (if rq_return_nid req \<noteq> 0 then rq_return_nid req else f_srcid req),
        rq_return_txn_id := Some wire_id,
        rq_order := 0,
        rq_memattr := 0,
        rq_allow_retry := 1,
        rq_trace_tag := rq_trace_tag req\<rparr>"

definition issue_record :: "raw_req \<Rightarrow> int \<Rightarrow> int \<Rightarrow> int \<Rightarrow> txn_record" where
  "issue_record req size_bytes arrival wire_id =
     \<lparr>r_wire_id = wire_id, r_kind = KRead, r_gem5_srcid = f_srcid req, r_gem5_txnid = f_txnid req,
      r_addr = rq_addr req, r_size_bytes = size_bytes, r_qos = f_qos req, r_orig_req = Some req,
      r_start_cycle = arrival, r_fwd_dbid = 0, r_beats_left = max 1 (size_bytes div int DAT_BEAT_BYTES),
      r_next_dataid = 0\<rparr>"

text \<open>\<open>_issue_req\<close>: False when the request must wait for a pool slot.\<close>

definition issue_req :: "raw_req \<Rightarrow> int \<Rightarrow> snf_agent \<Rightarrow> bool \<times> snf_agent" where
  "issue_req req arrival a =
     (case bytes_size_to_log2 (rq_size req) (ag_line_bytes a) of
        Inl e \<Rightarrow> (True, inc_unsupported a)
      | Inr size_log2 \<Rightarrow>
          if f_opcode req \<notin> {GEM5_OPC_WRITENOSNP_FULL, GEM5_OPC_READNOSNP} then (True, inc_unsupported a)
          else
            let (opcode, kind) =
                  (if f_opcode req = GEM5_OPC_WRITENOSNP_FULL then (OPC_WRITENOSNP_FULL, KWrite)
                   else (OPC_READNOSNP, KRead));
                size_bytes = push_bit (nat size_log2) 1;
                dependent = (line_addr (rq_addr req) \<in> set (pool_hazard_addrs (ag_mapper a)));
                (r, m) = mapper_alloc kind dependent (issue_record req size_bytes arrival) (ag_mapper a);
                a = a\<lparr>ag_mapper := m\<rparr>
            in case r of
                None \<Rightarrow> (False, a)
              | Some record \<Rightarrow>
                  (case txn_from_req (wire_req a req opcode size_log2 (r_wire_id record)) of
                     Inl e \<Rightarrow> (True, inc_unsupported (with_mapper (mapper_release (r_wire_id record) 0) a))
                   | Inr txn \<Rightarrow> (True, a\<lparr>ag_txn_queue := ag_txn_queue a @ [txn]\<rparr>)))"

text \<open>\<open>_retry_pending\<close>: the queued requests are issued in order until one has to wait.\<close>

fun retry_loop :: "(raw_req \<times> int) list \<Rightarrow> snf_agent \<Rightarrow> (raw_req \<times> int) list \<times> snf_agent" where
  "retry_loop [] a = ([], a)"
| "retry_loop ((req, arrival) # rest) a =
     (let (issued, a') = issue_req req arrival a
      in if issued then retry_loop rest a'
         else ((req, arrival) # rest, count (\<lambda>c. c\<lparr>ac_req_stalled := ac_req_stalled c + 1\<rparr>) a'))"

definition retry_pending :: "snf_agent \<Rightarrow> snf_agent" where
  "retry_pending a = (let (q, a') = retry_loop (ag_pending_reqs a) a in a'\<lparr>ag_pending_reqs := q\<rparr>)"

definition handle_gem5_req :: "obj \<Rightarrow> snf_agent \<Rightarrow> snf_agent" where
  "handle_gem5_req p a =
     (let req = req_from_payload p;
          a = count (\<lambda>c. c\<lparr>ac_req_in := ac_req_in c + 1\<rparr>) a
      in retry_pending (a\<lparr>ag_pending_reqs := ag_pending_reqs a @ [(req, m_cycle (ag_mapper a))]\<rparr>))"

definition agent_on_cycle :: "snf_agent \<Rightarrow> snf_agent" where
  "agent_on_cycle a = retry_pending (with_mapper mapper_on_cycle a)"

text \<open>One transaction of \<^verbatim>\<open>run_phase\<close>: the head of the queue goes to the driver.\<close>

definition agent_next_txn :: "snf_agent \<Rightarrow> txn option \<times> snf_agent" where
  "agent_next_txn a =
     (case ag_txn_queue a of
        [] \<Rightarrow> (None, a)
      | t # ts \<Rightarrow> (Some t, a\<lparr>ag_txn_queue := ts\<rparr>))"

section \<open>Write data\<close>

definition dat_from_payload :: "obj \<Rightarrow> raw_dat result" where
  "dat_from_payload p =
     and_then (fromhex (get_str p ''data'' [])) (\<lambda>data.
     and_then (fromhex (let be = get_str p ''byteEnable'' [] in
         if be \<noteq> [] then be else concat (replicate 64 ''ff''))) (\<lambda>be.
     Inr (raw_dat_default
       \<lparr>f_qos := get_int p ''qos'' 0,
        f_srcid := get_int p ''srcid'' 0,
        f_tgtid := get_int p ''tgtid'' 0,
        f_txnid := get_int p ''txnid'' 0,
        f_opcode := get_int p ''opcode'' 0,
        dt_dbid := get_int p ''dbid'' 0,
        dt_data := ints_of data,
        dt_byte_enable := ints_of be\<rparr>)))"

definition split_write_data :: "txn_record \<Rightarrow> byte list \<Rightarrow> (int \<times> byte list) list" where
  "split_write_data r data =
     (if length data > DAT_BEAT_BYTES then
        [(DATA_ID_LOW, slice data 0 DAT_BEAT_BYTES),
         (DATA_ID_HIGH, slice data DAT_BEAT_BYTES (DAT_BEAT_BYTES * 2))]
      else
        [(if drop_bit 5 (r_addr r) AND 1 \<noteq> 0 then DATA_ID_HIGH else DATA_ID_LOW, ljust0 DAT_BEAT_BYTES data)])"

definition wire_dat :: "snf_agent \<Rightarrow> raw_dat \<Rightarrow> txn_record \<Rightarrow> int \<times> byte list \<Rightarrow> raw_dat" where
  "wire_dat a flit r = (\<lambda>(data_id, beat).
     raw_dat_default
       \<lparr>f_qos := f_qos flit,
        f_srcid := f_srcid flit,
        f_tgtid := ag_dut_nodeid a,
        f_txnid := r_wire_id r,
        f_opcode := GEM5_OPC_NONCOPYBACK_WRITEDATA,
        dt_home_nid := r_gem5_srcid r,
        dt_data_id := data_id,
        dt_dbid := dt_dbid flit,
        dt_resp := 0,
        dt_last := 0,
        dt_byte_enable := replicate DAT_BEAT_BYTES 0xFF,
        dt_data := ints_of beat\<rparr>)"

definition write_data_txn :: "snf_agent \<Rightarrow> raw_dat \<Rightarrow> txn_record \<Rightarrow> raw_dat \<Rightarrow> chi_data_txn" where
  "write_data_txn a flit r wire =
     data_txn_default
       \<lparr>t_txn_id := r_wire_id r,
        t_addr := r_addr r,
        t_opcode := f_opcode wire,
        t_size := int (bit_length (r_size_bytes r - 1)),
        t_qos := f_qos flit,
        t_src_id := f_srcid flit,
        t_tgt_id := ag_dut_nodeid a,
        wd_data := [wire]\<rparr>"

text \<open>A ValueError of the hexadecimal fields is not caught and ends the dispatcher that made the call.\<close>

definition handle_gem5_dat :: "obj \<Rightarrow> snf_agent \<Rightarrow> snf_agent result" where
  "handle_gem5_dat p a =
     (let a = count (\<lambda>c. c\<lparr>ac_dat_in := ac_dat_in c + 1\<rparr>) a in
      and_then (dat_from_payload p) (\<lambda>flit.
        case find_write (ag_mapper a) (f_srcid flit) (f_txnid flit) of
          None \<Rightarrow> Inr (count (\<lambda>c. c\<lparr>ac_dat_dropped := ac_dat_dropped c + 1\<rparr>) a)
        | Some r \<Rightarrow>
            and_then (bytes_of_ints (dt_data flit)) (\<lambda>data.
              Inr (a\<lparr>ag_txn_queue := ag_txn_queue a @
                map (\<lambda>beat. DataTxn (write_data_txn a flit r (wire_dat a flit r beat)))
                  (split_write_data r data)\<rparr>))))"

section \<open>Responses\<close>

definition flit_msg :: "string \<Rightarrow> obj \<Rightarrow> obj" where
  "flit_msg ch payload =
     [(''t'', JStr ''flit''), (''ch'', JStr ch), (''dir'', JStr ''t2g''), (''flit'', JObj payload)]"

definition rsp_payload :: "snf_agent \<Rightarrow> txn_record \<Rightarrow> int \<Rightarrow> obj" where
  "rsp_payload a r opcode =
     [(''qos'', JInt (r_qos r)),
      (''srcid'', JInt (ag_snf_id a)),
      (''tgtid'', JInt (r_gem5_srcid r)),
      (''txnid'', JInt (r_gem5_txnid r)),
      (''opcode'', JInt opcode),
      (''dbid'', JInt (r_fwd_dbid r)),
      (''resp'', JInt 1),
      (''respErr'', JInt 0),
      (''pcrdtype'', JInt 0),
      (''rspKind'', JInt 0)]"

definition send_rsp :: "txn_record \<Rightarrow> int \<Rightarrow> snf_agent \<Rightarrow> snf_agent" where
  "send_rsp r opcode a =
     send_to_gem5 (flit_msg ''rsp'' (rsp_payload a r opcode)) (count (\<lambda>c. c\<lparr>ac_rsp_out := ac_rsp_out c + 1\<rparr>) a)"

definition finish :: "txn_record \<Rightarrow> snf_agent \<Rightarrow> snf_agent" where
  "finish r a = with_mapper (mapper_release (r_wire_id r) RELEASE_MARGIN_CYCLES) (agent_complete r a)"

definition on_retry_ack :: "int \<Rightarrow> snf_agent \<Rightarrow> snf_agent" where
  "on_retry_ack wire_id a =
     (case by_wire_id (ag_mapper a) wire_id of
        None \<Rightarrow> a
      | Some r \<Rightarrow>
          (with_mapper (mapper_release (r_wire_id r) 0) a)\<lparr>ag_retrying := ag_retrying a @ [r]\<rparr>)"

definition on_pcrd_grant :: "snf_agent \<Rightarrow> snf_agent" where
  "on_pcrd_grant a =
     (case ag_retrying a of
        [] \<Rightarrow> a
      | r # rs \<Rightarrow>
          let a = a\<lparr>ag_retrying := rs\<rparr>
          in case r_orig_req r of
              None \<Rightarrow> a
            | Some req \<Rightarrow>
                retry_pending (a\<lparr>ag_pending_reqs := ag_pending_reqs a @ [(req, r_start_cycle r)]\<rparr>))"

definition on_txrsp :: "raw_rsp \<Rightarrow> snf_agent \<Rightarrow> snf_agent" where
  "on_txrsp flit a =
     (if f_opcode flit = OPC_RETRYACK then on_retry_ack (f_txnid flit) a
      else if f_opcode flit = OPC_PCRDGRANT then on_pcrd_grant a
      else case by_wire_id (ag_mapper a) (f_txnid flit) of
          None \<Rightarrow> a
        | Some r \<Rightarrow>
            if f_opcode flit \<in> {OPC_DBIDRESP, OPC_COMPDBIDRESP} then
              let set_dbid = (\<lambda>r. r\<lparr>r_fwd_dbid := r_wire_id r + 1\<rparr>);
                  a = with_mapper (update_record (f_txnid flit) set_dbid) a;
                  r = set_dbid r;
                  a = (if f_opcode flit = OPC_COMPDBIDRESP then finish r a else a)
              in send_rsp r (f_opcode flit) a
            else if f_opcode flit = OPC_COMP then send_rsp r (f_opcode flit) (finish r a)
            else a)"

definition dat_payload :: "snf_agent \<Rightarrow> txn_record \<Rightarrow> int \<Rightarrow> int \<Rightarrow> nat \<Rightarrow> byte list \<Rightarrow> obj" where
  "dat_payload a r last_flag dataid beat_len data =
     [(''qos'', JInt (r_qos r)),
      (''srcid'', JInt (ag_snf_id a)),
      (''tgtid'', JInt (r_gem5_srcid r)),
      (''txnid'', JInt (r_gem5_txnid r)),
      (''opcode'', JInt 0x4),
      (''last'', JInt last_flag),
      (''HomeNID'', JInt (r_gem5_srcid r)),
      (''dbid'', JInt 0),
      (''dataid'', JInt dataid),
      (''resp'', JInt 1),
      (''respErr'', JInt 0),
      (''beatOffset'', JInt (dataid * int DAT_BEAT_BYTES)),
      (''byteEnable'', JStr (bytes_to_hex (replicate beat_len 1))),
      (''chunkValid'', JStr (bytes_to_hex (replicate ((beat_len + 7) div 8) 1))),
      (''data'', JStr (bytes_to_hex data))]"

text \<open>The length of a beat: what is left of the request, between 0 and 32.\<close>

definition beat_length :: "txn_record \<Rightarrow> nat" where
  "beat_length r = nat (max 0 (min (int DAT_BEAT_BYTES) (r_size_bytes r - r_next_dataid r * int DAT_BEAT_BYTES)))"

definition on_txdat :: "raw_dat \<Rightarrow> snf_agent \<Rightarrow> snf_agent result" where
  "on_txdat flit a =
     (case by_wire_id (ag_mapper a) (f_txnid flit) of
        None \<Rightarrow> Inr a
      | Some r \<Rightarrow>
          if r_kind r \<noteq> KRead then Inr a
          else
            let dataid = r_next_dataid r;
                beat_len = beat_length r
            in and_then (bytes_of_ints (slice (dt_data flit) 0 DAT_BEAT_BYTES)) (\<lambda>beat.
                 let data = slice beat 0 beat_len;
                     advance = (\<lambda>r. r\<lparr>r_next_dataid := r_next_dataid r + 1, r_beats_left := r_beats_left r - 1\<rparr>);
                     a = with_mapper (update_record (f_txnid flit) advance) a;
                     r = advance r;
                     last_flag = (if r_beats_left r \<le> 0 then 1 else 0);
                     a = count (\<lambda>c. c\<lparr>ac_dat_out := ac_dat_out c + 1\<rparr>) a;
                     a = send_to_gem5 (flit_msg ''dat'' (dat_payload a r last_flag dataid beat_len data)) a
                 in Inr (if last_flag \<noteq> 0 then finish r a else a)))"

section \<open>Runs of the agent\<close>

text \<open>What can happen to the agent: the messages and flits it is called with, the clock, and the driver that takes
  a transaction.\<close>

datatype agent_event =
    GemReq obj
  | GemDat obj
  | TxRsp raw_rsp
  | TxDat raw_dat
  | ClockCycle
  | TakeTxn

fun agent_step :: "agent_event \<Rightarrow> snf_agent \<Rightarrow> snf_agent result" where
  "agent_step (GemReq p) a = Inr (handle_gem5_req p a)"
| "agent_step (GemDat p) a = handle_gem5_dat p a"
| "agent_step (TxRsp f) a = Inr (on_txrsp f a)"
| "agent_step (TxDat f) a = on_txdat f a"
| "agent_step ClockCycle a = Inr (agent_on_cycle a)"
| "agent_step TakeTxn a = Inr (snd (agent_next_txn a))"

fun agent_run :: "agent_event list \<Rightarrow> snf_agent \<Rightarrow> snf_agent result" where
  "agent_run [] a = Inr a"
| "agent_run (e # es) a = and_then (agent_step e a) (agent_run es)"

section \<open>What issuing a request does\<close>

definition supported :: "raw_req \<Rightarrow> snf_agent \<Rightarrow> bool" where
  "supported req a \<longleftrightarrow>
     f_opcode req \<in> {0x5C, 0x04} \<and> (\<exists>k. bytes_size_to_log2 (rq_size req) (ag_line_bytes a) = Inr k)"

definition issue_kind :: "raw_req \<Rightarrow> txn_kind" where
  "issue_kind req = (if f_opcode req = 0x5C then KWrite else KRead)"

definition issue_dependent :: "raw_req \<Rightarrow> snf_agent \<Rightarrow> bool" where
  "issue_dependent req a \<longleftrightarrow> line_addr (rq_addr req) \<in> set (pool_hazard_addrs (ag_mapper a))"

text \<open>The transaction that is queued for a request with the given logarithm of the size and wire id.\<close>

definition issue_txn :: "snf_agent \<Rightarrow> raw_req \<Rightarrow> int \<Rightarrow> int \<Rightarrow> txn" where
  "issue_txn a req k wire_id =
     (if f_opcode req = 0x5C then
        let w = wire_req a req 0x1C k wire_id in WriteTxn (write_txn_from w False (required_data_ids (rq_addr req) k))
      else ReadTxn (read_txn_from (wire_req a req 0x04 k wire_id) (max 1 (2 ^ nat k div 32))))"

lemma size_log2_range: "bytes_size_to_log2 s l = Inr k \<Longrightarrow> 0 \<le> k \<and> k \<le> 6"
  by (auto simp: bytes_size_to_log2_def Let_def split: if_splits)

lemma wire_req_sel [simp]:
  "f_opcode (wire_req a req opc k w) = opc" "rq_size (wire_req a req opc k w) = k"
  "rq_addr (wire_req a req opc k w) = rq_addr req" "f_txnid (wire_req a req opc k w) = w"
  by (simp_all add: wire_req_def)

lemma txn_from_wire:
  assumes "f_opcode req = 0x5C \<or> f_opcode req = 0x04" "0 \<le> k"
  shows "txn_from_req (wire_req a req (if f_opcode req = 0x5C then 0x1C else 0x04) k w) = Inr (issue_txn a req k w)"
  using assms txn_from_req_read [of "wire_req a req 0x04 k w"] txn_from_req_write [of "wire_req a req 0x1C k w"]
  by (auto simp: issue_txn_def Let_def is_read_no_snp_def is_write_no_snp_def opcode_defs)

lemma issue_req_cases [case_names unsupported stalled issued]:
  obtains
    "\<not> supported req a" "issue_req req arrival a = (True, inc_unsupported a)"
  | k m where "supported req a" "bytes_size_to_log2 (rq_size req) (ag_line_bytes a) = Inr k"
      "mapper_alloc (issue_kind req) (issue_dependent req a) (issue_record req (2 ^ nat k) arrival) (ag_mapper a) = (None, m)"
      "issue_req req arrival a = (False, a\<lparr>ag_mapper := m\<rparr>)"
  | k r m where "supported req a" "bytes_size_to_log2 (rq_size req) (ag_line_bytes a) = Inr k" "0 \<le> k" "k \<le> 6"
      "mapper_alloc (issue_kind req) (issue_dependent req a) (issue_record req (2 ^ nat k) arrival) (ag_mapper a) = (Some r, m)"
      "issue_req req arrival a =
         (True, a\<lparr>ag_mapper := m, ag_txn_queue := ag_txn_queue a @ [issue_txn a req k (r_wire_id r)]\<rparr>)"
proof (cases "supported req a")
  case False
  then have "issue_req req arrival a = (True, inc_unsupported a)"
    by (auto simp: issue_req_def supported_def agent_opcodes split: sum.split)
  then show ?thesis using False that(1) by blast
next
  case True
  then obtain k where k: "bytes_size_to_log2 (rq_size req) (ag_line_bytes a) = Inr k"
    and opc: "f_opcode req = 0x5C \<or> f_opcode req = 0x04" by (auto simp: supported_def)
  obtain r m where al: "mapper_alloc (issue_kind req) (issue_dependent req a) (issue_record req (2 ^ nat k) arrival)
      (ag_mapper a) = (r, m)" by (metis surj_pair)
  have e: "issue_req req arrival a =
      (case r of None \<Rightarrow> (False, a\<lparr>ag_mapper := m\<rparr>)
       | Some record \<Rightarrow>
          (case txn_from_req (wire_req (a\<lparr>ag_mapper := m\<rparr>) req (if f_opcode req = 0x5C then 0x1C else 0x04) k (r_wire_id record)) of
             Inl e \<Rightarrow> (True, inc_unsupported (with_mapper (mapper_release (r_wire_id record) 0) (a\<lparr>ag_mapper := m\<rparr>)))
           | Inr txn \<Rightarrow> (True, a\<lparr>ag_mapper := m, ag_txn_queue := ag_txn_queue a @ [txn]\<rparr>)))"
    using opc al
    by (auto simp: issue_req_def k agent_opcodes issue_kind_def issue_dependent_def Let_def opcode_defs
        split: prod.splits option.splits sum.splits)
  have w: "issue_txn (a\<lparr>ag_mapper := m\<rparr>) = issue_txn a" by (simp add: issue_txn_def wire_req_def fun_eq_iff)
  have k6: "0 \<le> k" "k \<le> 6" using size_log2_range [OF k] by simp_all
  show ?thesis
  proof (cases r)
    case None
    then show ?thesis using that(2) [OF True k] al e by simp
  next
    case (Some rec)
    then show ?thesis using that(3) [OF True k k6] al e by (simp add: w txn_from_wire [OF opc k6(1)])
  qed
qed

section \<open>The invariant of the agent\<close>

definition req_flit_ok :: "raw_req \<Rightarrow> bool" where
  "req_flit_ok f \<longleftrightarrow>
     0 \<le> f_txnid f \<and> f_txnid f < 4096 \<and> f_opcode f \<in> {0x04, 0x1C} \<and> 0 \<le> rq_size f \<and> rq_size f \<le> 6 \<and>
     rq_order f = 0 \<and> rq_memattr f = 0 \<and> rq_allow_retry f = 1 \<and> rq_return_txn_id f = Some (f_txnid f) \<and>
     (f_opcode f = 0x1C \<longrightarrow> f_txnid f < 32)"

fun txn_ok :: "txn \<Rightarrow> bool" where
  "txn_ok (ReadTxn t) \<longleftrightarrow> (\<exists>f. t_raw_flit t = Some f \<and> req_flit_ok f \<and> f_opcode f = 0x04)"
| "txn_ok (WriteTxn t) \<longleftrightarrow> (\<exists>f. t_raw_flit t = Some f \<and> req_flit_ok f \<and> f_opcode f = 0x1C)"
| "txn_ok (DataTxn t) \<longleftrightarrow>
     (\<exists>d. wd_data t = [d] \<and> 0 \<le> f_txnid d \<and> f_txnid d < 32 \<and> dt_data_id d \<in> {0, 2} \<and> length (dt_data d) \<le> 32)"

definition agent_ok :: "snf_agent \<Rightarrow> bool" where
  "agent_ok a \<longleftrightarrow> mapper_ok (ag_mapper a) \<and> ag_line_bytes a = 64 \<and> (\<forall>t \<in> set (ag_txn_queue a). txn_ok t)"

lemma alloc_record:
  assumes "mapper_ok m" "mapper_alloc kind dep mk m = (Some r, m')"
  shows "record_ok (r_wire_id r) r \<and> r_kind r = kind \<and> mapper_ok m' \<and> map_of (m_records m') (r_wire_id r) = Some r"
proof -
  have ok: "mapper_ok m'" using mapper_ok_alloc [OF assms(1), of kind dep mk] assms(2) by simp
  have "r_kind r = kind \<and> map_of (m_records m') (r_wire_id r) = Some r"
    using assms(2) by (auto simp: mapper_alloc_def Let_def map_of_update split: if_splits option.splits)
  then show ?thesis using mapper_okD [OF ok] ok by blast
qed

lemma issue_txn_ok:
  assumes "record_ok w r" "r_kind r = issue_kind req" "supported req a" "0 \<le> k" "k \<le> 6"
  shows "txn_ok (issue_txn a req k w)"
  using assms
  by (auto simp: issue_txn_def Let_def req_flit_ok_def record_ok_def issue_kind_def supported_def mapper_consts
      write_txn_from_def read_txn_from_def wire_req_def)

lemma agent_ok_simps [simp]:
  "agent_ok (count f a) = agent_ok a" "agent_ok (inc_unsupported a) = agent_ok a"
  "agent_ok (send_to_gem5 msg a) = agent_ok a" "agent_ok (agent_complete r a) = agent_ok a"
  "agent_ok (a\<lparr>ag_pending_reqs := q\<rparr>) = agent_ok a" "agent_ok (a\<lparr>ag_retrying := rs\<rparr>) = agent_ok a"
  by (simp_all add: agent_ok_def count_def inc_unsupported_def send_to_gem5_def agent_complete_def Let_def)

lemma agent_ok_mapper:
  "agent_ok a \<Longrightarrow> mapper_ok (f (ag_mapper a)) \<Longrightarrow> agent_ok (with_mapper f a)"
  by (simp add: agent_ok_def with_mapper_def)

lemma agent_ok_issue:
  assumes "agent_ok a"
  shows "agent_ok (snd (issue_req req arrival a))"
proof (cases rule: issue_req_cases [of req a arrival])
  case unsupported
  then show ?thesis using assms by simp
next
  case (stalled k m)
  then show ?thesis
    using assms mapper_ok_alloc [of "ag_mapper a" "issue_kind req" "issue_dependent req a" "issue_record req (2 ^ nat k) arrival"]
    by (simp add: agent_ok_def)
next
  case (issued k r m)
  then show ?thesis
    using assms alloc_record [OF _ issued(5)] issue_txn_ok [of "r_wire_id r" r req a k] by (auto simp: agent_ok_def)
qed

lemma agent_ok_retry_loop: "agent_ok a \<Longrightarrow> retry_loop q a = (q', a') \<Longrightarrow> agent_ok a'"
proof (induction q a arbitrary: q' a' rule: retry_loop.induct)
  case (2 req arrival rest a)
  then show ?case using agent_ok_issue [of a req arrival] by (auto split: prod.splits if_splits)
qed simp

lemma agent_ok_retry: "agent_ok a \<Longrightarrow> agent_ok (retry_pending a)"
  using agent_ok_retry_loop [of a "ag_pending_reqs a"] by (auto simp: retry_pending_def split: prod.splits)

lemma agent_ok_req: "agent_ok a \<Longrightarrow> agent_ok (handle_gem5_req p a)"
  by (simp add: handle_gem5_req_def Let_def agent_ok_retry)

lemma agent_ok_cycle: "agent_ok a \<Longrightarrow> agent_ok (agent_on_cycle a)"
  unfolding agent_on_cycle_def
  by (intro agent_ok_retry agent_ok_mapper mapper_ok_on_cycle) (simp_all add: agent_ok_def)

lemma find_write_SomeD:
  assumes "find_write m srcid txnid = Some r"
  shows "\<exists>k. (k, r) \<in> set (m_records m) \<and> r_kind r = KWrite \<and> r_gem5_srcid r = srcid \<and> r_gem5_txnid r = txnid"
  using assms by (auto simp: find_write_def dest!: find_SomeD)

lemma split_write_data_ok: "(d, beat) \<in> set (split_write_data r data) \<Longrightarrow> d \<in> {0, 2} \<and> length beat \<le> 32"
  by (auto simp: split_write_data_def agent_opcodes DAT_BEAT_BYTES_def split: if_splits)

lemma agent_ok_dat:
  assumes "agent_ok a" "handle_gem5_dat p a = Inr a'"
  shows "agent_ok a'"
proof -
  obtain flit where flit: "dat_from_payload p = Inr flit"
    using assms(2) by (auto simp: handle_gem5_dat_def Let_def)
  show ?thesis
  proof (cases "find_write (ag_mapper a) (f_srcid flit) (f_txnid flit)")
    case None
    then have "a' = count (\<lambda>c. c\<lparr>ac_dat_dropped := ac_dat_dropped c + 1\<rparr>)
        (count (\<lambda>c. c\<lparr>ac_dat_in := ac_dat_in c + 1\<rparr>) a)"
      using assms(2) flit by (simp add: handle_gem5_dat_def count_def)
    then show ?thesis using assms(1) by simp
  next
    case (Some r)
    then obtain k where "(k, r) \<in> set (m_records (ag_mapper a))" "r_kind r = KWrite"
      using find_write_SomeD by blast
    then have id: "0 \<le> r_wire_id r" "r_wire_id r < 32"
      using assms(1) by (fastforce simp: agent_ok_def mapper_ok_def record_ok_def mapper_consts)+
    obtain data where "ag_mapper a' = ag_mapper a" "ag_line_bytes a' = ag_line_bytes a"
      "ag_txn_queue a' = ag_txn_queue a @
         map (\<lambda>beat. DataTxn (write_data_txn a flit r (wire_dat a flit r beat))) (split_write_data r data)"
      using assms(2) flit Some
      by (auto simp: handle_gem5_dat_def count_def write_data_txn_def wire_dat_def fun_eq_iff)
    moreover have "txn_ok (DataTxn (write_data_txn a flit r (wire_dat a flit r beat)))"
      if "beat \<in> set (split_write_data r data)" for beat
      using split_write_data_ok [of "fst beat" "snd beat" r data] that id
      by (auto simp: write_data_txn_def wire_dat_def ints_of_def split_beta)
    ultimately show ?thesis using assms(1) by (auto simp: agent_ok_def)
  qed
qed

lemma agent_ok_finish: "agent_ok a \<Longrightarrow> agent_ok (finish r a)"
  unfolding finish_def
  by (intro agent_ok_mapper mapper_ok_release) (simp_all add: agent_ok_def agent_complete_def Let_def)

lemma agent_ok_send_rsp: "agent_ok (send_rsp r opcode a) = agent_ok a"
  by (simp add: send_rsp_def)

lemma agent_ok_update:
  "agent_ok a \<Longrightarrow> (\<And>r. r_wire_id (f r) = r_wire_id r) \<Longrightarrow> (\<And>r. r_kind (f r) = r_kind r) \<Longrightarrow>
     agent_ok (with_mapper (update_record k f) a)"
  by (intro agent_ok_mapper mapper_ok_update) (simp_all add: agent_ok_def)

lemma agent_ok_rsp:
  assumes "agent_ok a"
  shows "agent_ok (on_txrsp flit a)"
proof -
  have "agent_ok (on_retry_ack k a)" for k
    using assms mapper_ok_release [of "ag_mapper a" 0]
    by (auto simp: on_retry_ack_def agent_ok_def with_mapper_def RELEASE_MARGIN_CYCLES_def split: option.split)
  moreover have "agent_ok (on_pcrd_grant a)"
    using assms by (auto simp: on_pcrd_grant_def Let_def intro!: agent_ok_retry split: list.split option.split)
  moreover have "agent_ok (with_mapper (update_record k (\<lambda>r. r\<lparr>r_fwd_dbid := r_wire_id r + 1\<rparr>)) a)" for k
    using assms by (intro agent_ok_update) simp_all
  ultimately show ?thesis
    using assms by (auto simp: on_txrsp_def Let_def agent_ok_send_rsp agent_ok_finish split: option.split)
qed

lemma agent_ok_txdat:
  assumes "agent_ok a" "on_txdat flit a = Inr a'"
  shows "agent_ok a'"
proof -
  have "agent_ok (with_mapper (update_record k (\<lambda>r. r\<lparr>r_next_dataid := r_next_dataid r + 1, r_beats_left := r_beats_left r - 1\<rparr>)) a)" for k
    using assms by (intro agent_ok_update) simp_all
  then show ?thesis
    using assms by (auto simp: on_txdat_def Let_def agent_ok_finish split: option.splits if_splits)
qed

lemma agent_ok_take: "agent_ok a \<Longrightarrow> agent_ok (snd (agent_next_txn a))"
  by (auto simp: agent_ok_def agent_next_txn_def split: list.splits)

lemma agent_ok_step:
  assumes "agent_ok a" "agent_step e a = Inr a'"
  shows "agent_ok a'"
  using assms agent_ok_dat [of a _ a'] agent_ok_txdat [of a _ a']
  by (cases e) (auto simp: agent_ok_req agent_ok_rsp agent_ok_cycle agent_ok_take)

lemma agent_ok_run: "agent_ok a \<Longrightarrow> agent_run es a = Inr a' \<Longrightarrow> agent_ok a'"
  by (induction es arbitrary: a) (auto dest: agent_ok_step)

definition agent_start :: "int \<Rightarrow> int \<Rightarrow> snf_agent" where
  "agent_start snf_id nodeid = agent_init\<lparr>ag_connected := True, ag_snf_id := snf_id, ag_dut_nodeid := nodeid\<rparr>"

lemma agent_ok_start: "agent_ok (agent_start snf nid)"
  using mapper_ok_init by (simp add: agent_ok_def agent_start_def agent_init_def)

section \<open>Requests on the wire\<close>

text \<open>The request or data flit that the link delivers when the agent's flit is packed and unpacked.\<close>

definition req_survives :: "raw_req \<Rightarrow> bool" where
  "req_survives f \<longleftrightarrow>
     (\<exists>g. unpack_rxreq (pack_rxreq f) = Some g \<and> f_txnid g = f_txnid f \<and> rq_return_txn_id g = Some (f_txnid f) \<and>
        f_opcode g = f_opcode f \<and> rq_size g = rq_size f \<and> rq_order g = 0 \<and> rq_memattr g = 0 \<and> rq_allow_retry g = 1)"

definition dat_survives :: "raw_dat \<Rightarrow> bool" where
  "dat_survives d \<longleftrightarrow>
     (\<exists>g. unpack_rxdat (pack_rxdat d) = Some g \<and> f_txnid g = f_txnid d \<and> f_txnid g < 32 \<and>
        dt_data_id g = dt_data_id d)"

lemma req_ok_survives: "req_flit_ok f \<Longrightarrow> req_survives f"
  unfolding req_survives_def
  by (rule exI [of _ "rxreq_wire f"])
    (auto simp: rxreq.upk_pk rxreq_wire_def req_flit_ok_def raw_req_default_def take_bit_int_eq_self)

lemma dat_ok_survives:
  "0 \<le> f_txnid d \<Longrightarrow> f_txnid d < 32 \<Longrightarrow> dt_data_id d \<in> {0, 2} \<Longrightarrow> dat_survives d"
  unfolding dat_survives_def
  by (rule exI [of _ "rxdat_wire d"])
    (auto simp: rxdat.upk_pk rxdat_wire_def raw_dat_default_def take_bit_int_eq_self)

text \<open>
  C31. The wire id survives the link: in every run of the agent, whatever gem5 and the DUT send, every request it
  queues for the driver is a ReadNoSnp or WriteNoSnpFull whose transaction id (returned by the DUT in the response)
  and encoded size come out of the packed RXREQ word as they went in, with no ordering, EWA or static
  credit asked for; every data beat carries a pool slot and one of the two halves of the line.
\<close>

theorem agent_flits_survive_link:
  assumes "agent_run es (agent_start snf_id nodeid) = Inr a" and "t \<in> set (ag_txn_queue a)"
  shows "case t of
      ReadTxn r \<Rightarrow> \<exists>f. t_raw_flit r = Some f \<and> f_opcode f = OPC_READNOSNP \<and> req_survives f
    | WriteTxn w \<Rightarrow> \<exists>f. t_raw_flit w = Some f \<and> f_opcode f = OPC_WRITENOSNP_FULL \<and> f_txnid f < 32 \<and> req_survives f
    | DataTxn d \<Rightarrow> \<exists>f. wd_data d = [f] \<and> dat_survives f"
proof -
  have "txn_ok t" using agent_ok_run [OF agent_ok_start assms(1)] assms(2) by (simp add: agent_ok_def)
  then show ?thesis
    by (cases t) (auto simp: req_ok_survives dat_ok_survives opcode_defs req_flit_ok_def)
qed

text \<open>The witness: a whole-line write request from gem5, as the agent queues it.\<close>

definition demo_write :: obj where
  "demo_write = [(''srcid'', JInt 0x90), (''txnid'', JInt 0x40000000), (''opcode'', JInt 0x5C),
     (''addr'', JInt 0x80000040), (''size'', JInt 64)]"

lemma bit_length_63: "bit_length 63 = 6"
  by (simp add: bit_length_def bit_length_nat.simps)

lemma demo_write_run:
  "\<exists>w a. agent_run [GemReq demo_write] (agent_start 0x80 0) = Inr a \<and> ag_txn_queue a = [WriteTxn w] \<and>
     map_of (m_records (ag_mapper a)) 0 = Some ((issue_record (req_from_payload demo_write) 64 0 0)\<lparr>r_kind := KWrite\<rparr>) \<and>
     m_pending_release (ag_mapper a) = []"
proof -
  have sz: "bytes_size_to_log2 64 64 = Inr 6" by (simp add: bytes_size_to_log2_def bit_length_63)
  have "free_slot mapper_init = Some 0" by (simp add: free_slot_def mapper_init_def upto.simps POOL_SLOTS_def)
  then have al: "mapper_alloc KWrite d mk mapper_init =
      (Some ((mk 0)\<lparr>r_wire_id := 0, r_kind := KWrite\<rparr>), mapper_init\<lparr>m_records := [(0, (mk 0)\<lparr>r_wire_id := 0, r_kind := KWrite\<rparr>)]\<rparr>)"
    for d mk
    by (simp add: alloc_pool_Some) (simp add: mapper_init_def)
  show ?thesis
    by (simp add: demo_write_def handle_gem5_req_def Let_def req_from_payload_def get_int_def get_bool_def
        retry_pending_def issue_req_def agent_start_def agent_init_def count_def sz al agent_opcodes opcode_defs
        txn_from_req_def is_read_no_snp_def is_write_no_snp_def raw_req_default_def issue_record_def wire_req_def)
      (simp add: mapper_init_def)
qed

theorem agent_flits_survive_link_witness:
  "\<exists>a w f. agent_run [GemReq demo_write] (agent_start 0x80 0) = Inr a \<and> ag_txn_queue a = [WriteTxn w] \<and>
     t_raw_flit w = Some f \<and> req_survives f"
proof -
  obtain w a where "agent_run [GemReq demo_write] (agent_start 0x80 0) = Inr a" "ag_txn_queue a = [WriteTxn w]"
    using demo_write_run by blast
  then show ?thesis using agent_flits_survive_link [of "[GemReq demo_write]" "0x80" "0" a "WriteTxn w"] by auto
qed

section \<open>Order of issue\<close>

lemma issue_keeps:
  "ag_line_bytes (snd (issue_req req arrival a)) = ag_line_bytes a"
  "ag_pending_reqs (snd (issue_req req arrival a)) = ag_pending_reqs a"
  by (cases rule: issue_req_cases [of req a arrival];
      simp add: inc_unsupported_def count_def)+

text \<open>The flit of a queued request.\<close>

fun request_flit :: "txn \<Rightarrow> raw_req option" where
  "request_flit (ReadTxn t) = t_raw_flit t"
| "request_flit (WriteTxn t) = t_raw_flit t"
| "request_flit (DataTxn t) = None"

text \<open>Whether a queued transaction is the one the agent makes of a request.\<close>

definition carries :: "raw_req \<Rightarrow> txn \<Rightarrow> bool" where
  "carries req t \<longleftrightarrow>
     (\<exists>f. request_flit t = Some f \<and> rq_addr f = rq_addr req \<and> f_srcid f = f_srcid req \<and> f_qos f = f_qos req \<and>
        f_opcode f = (if f_opcode req = 0x5C then OPC_WRITENOSNP_FULL else OPC_READNOSNP) \<and>
        rq_trace_tag f = rq_trace_tag req \<and>
        rq_return_nid f = (if rq_return_nid req \<noteq> 0 then rq_return_nid req else f_srcid req))"

lemma carries_issue_txn: "carries req (issue_txn a req k w)"
  by (auto simp: carries_def issue_txn_def Let_def write_txn_from_def read_txn_from_def wire_req_def opcode_defs)

lemma supported_cong: "ag_line_bytes a' = ag_line_bytes a \<Longrightarrow> supported req a' = supported req a"
  by (simp add: supported_def)

lemma retry_loop_order:
  "retry_loop q a = (q', a') \<Longrightarrow>
     \<exists>n ts. n \<le> length q \<and> q' = drop n q \<and> ag_txn_queue a' = ag_txn_queue a @ ts \<and>
       list_all2 carries (filter (\<lambda>req. supported req a) (map fst (take n q))) ts \<and>
       (n < length q \<longrightarrow> {0 ..< 32} \<subseteq> live_ids (ag_mapper a') \<and> supported (fst (q ! n)) a)"
proof (induction q a arbitrary: q' a' rule: retry_loop.induct)
  case (2 req arrival rest a)
  show ?case
  proof (cases rule: issue_req_cases [of req a arrival])
    case unsupported
    let ?a = "inc_unsupported a"
    obtain n ts where "n \<le> length rest" "q' = drop n rest" "ag_txn_queue a' = ag_txn_queue ?a @ ts"
        "list_all2 carries (filter (\<lambda>req. supported req ?a) (map fst (take n rest))) ts"
        "n < length rest \<longrightarrow> {0 ..< 32} \<subseteq> live_ids (ag_mapper a') \<and> supported (fst (rest ! n)) ?a"
      using 2 unsupported by fastforce
    moreover have "ag_txn_queue ?a = ag_txn_queue a" "supported r ?a = supported r a" for r
      by (simp_all add: inc_unsupported_def count_def supported_def)
    ultimately show ?thesis using unsupported by (intro exI [of _ "Suc n"] exI [of _ ts]) simp
  next
    case (stalled k m)
    then have "{0 ..< 32} \<subseteq> live_ids m"
    proof (cases "free_slot (ag_mapper a)")
      case None
      moreover from this have "live_ids m = live_ids (ag_mapper a)"
        using stalled(3) by (auto simp: mapper_alloc_def Let_def live_ids_def split: if_splits)
      ultimately show ?thesis using free_slot_None by simp
    next
      case (Some j)
      then show ?thesis using stalled(3) by (simp add: mapper_alloc_def Let_def split: if_splits)
    qed
    then show ?thesis using 2 stalled by (intro exI [of _ 0] exI [of _ "[]"]) (auto simp: count_def)
  next
    case (issued k r m)
    let ?t = "issue_txn a req k (r_wire_id r)"
    let ?a = "a\<lparr>ag_mapper := m, ag_txn_queue := ag_txn_queue a @ [?t]\<rparr>"
    obtain n ts where "n \<le> length rest" "q' = drop n rest" "ag_txn_queue a' = ag_txn_queue ?a @ ts"
        "list_all2 carries (filter (\<lambda>req. supported req ?a) (map fst (take n rest))) ts"
        "n < length rest \<longrightarrow> {0 ..< 32} \<subseteq> live_ids (ag_mapper a') \<and> supported (fst (rest ! n)) ?a"
      using 2 issued by fastforce
    moreover have "supported r ?a = supported r a" for r by (simp add: supported_def)
    ultimately show ?thesis using issued(1) carries_issue_txn
      by (intro exI [of _ "Suc n"] exI [of _ "?t # ts"]) simp
  qed
qed simp

text \<open>
  Requests are issued in arrival order: a pass over the waiting requests takes a prefix of the queue, and for each
  supported request of that prefix, in order, queues exactly one transaction for the driver with the request's
  address, requester, opcode and return node; unsupported ones give none; the pass stops
  early only when all 32 modelled pool slots are taken.
\<close>

theorem requests_issued_in_order:
  "\<exists>n ts. n \<le> length (ag_pending_reqs a) \<and>
     ag_pending_reqs (retry_pending a) = drop n (ag_pending_reqs a) \<and>
     ag_txn_queue (retry_pending a) = ag_txn_queue a @ ts \<and>
     list_all2 carries (filter (\<lambda>req. supported req a) (map fst (take n (ag_pending_reqs a)))) ts \<and>
     (n = length (ag_pending_reqs a) \<or> {0 ..< 32} \<subseteq> live_ids (ag_mapper (retry_pending a)))"
proof -
  obtain q' a' where r: "retry_loop (ag_pending_reqs a) a = (q', a')"
    by (cases "retry_loop (ag_pending_reqs a) a")
  then have "retry_pending a = a'\<lparr>ag_pending_reqs := q'\<rparr>" by (simp add: retry_pending_def)
  then show ?thesis using retry_loop_order [OF r] by fastforce
qed

section \<open>Dependent reads\<close>

lemma line_addr_eq: "line_addr a = line_addr b \<longleftrightarrow> a div 64 = b div 64"
proof -
  have l: "line_addr c = 64 * (c div 64)" for c
    using AND_NOT_mask_eq [of c 6] minus_mod_eq_mult_div [of c 64] by (simp add: line_addr_def mask_eq_exp_minus_1)
  show ?thesis by (simp add: l)
qed

text \<open>
  C35. Reads and the pool: an issued read takes a pool slot exactly when a live pool entry lies in the same 64-byte
  line (the path on which the DUT allocates one), and otherwise the next id of the range 32..4095 that no pool
  slot can equal; a write always takes a pool slot.
\<close>

theorem read_takes_slot_iff_dependent:
  assumes "agent_ok a" and "issue_req req arrival a = (True, a')" and "ag_txn_queue a' = ag_txn_queue a @ [t]"
    and "request_flit t = Some f"
  shows "if f_opcode f = OPC_READNOSNP then
      (f_txnid f < 32 \<longleftrightarrow>
        (\<exists>(k, r) \<in> set (m_records (ag_mapper a)). k < 32 \<and> r_addr r div 64 = rq_addr req div 64)) \<and>
      (32 \<le> f_txnid f \<longrightarrow> f_txnid f = m_next_read_id (ag_mapper a))
    else f_txnid f < 32"
proof (cases rule: issue_req_cases [of req a arrival])
  case unsupported
  then show ?thesis using assms(2,3) by (simp add: inc_unsupported_def count_def)
next
  case (stalled k m)
  then show ?thesis using assms(2) by simp
next
  case (issued k r m)
  have mok: "mapper_ok (ag_mapper a)" using assms(1) by (simp add: agent_ok_def)
  have t: "t = issue_txn a req k (r_wire_id r)" using assms(2,3) issued(6) by auto
  have f: "f_txnid f = r_wire_id r" "f_opcode f = (if f_opcode req = 0x5C then 0x1C else 0x04)"
    using assms(4) by (auto simp: t issue_txn_def Let_def write_txn_from_def read_txn_from_def split: if_splits)
  have dep: "issue_dependent req a \<longleftrightarrow>
      (\<exists>(k, r) \<in> set (m_records (ag_mapper a)). k < 32 \<and> r_addr r div 64 = rq_addr req div 64)"
    using mok by (fastforce simp: issue_dependent_def pool_hazard_addrs_def mapper_ok_def record_ok_def mapper_consts line_addr_eq)
  show ?thesis
  proof (cases "issue_kind req = KRead \<and> \<not> issue_dependent req a")
    case True
    then have "r_wire_id r = m_next_read_id (ag_mapper a)" using issued(5) by (auto simp: mapper_alloc_def Let_def)
    moreover from this have "32 \<le> r_wire_id r" using mok by (simp add: mapper_ok_def mapper_consts)
    ultimately show ?thesis using True f dep by (auto simp: issue_kind_def opcode_defs split: if_splits)
  next
    case False
    then obtain j where "free_slot (ag_mapper a) = Some j" "r_wire_id r = j"
      using issued(5) by (auto simp: mapper_alloc_def Let_def split: option.splits if_splits)
    then have "r_wire_id r < 32" using free_slot_Some by blast
    then show ?thesis using False f dep by (auto simp: issue_kind_def opcode_defs split: if_splits)
  qed
qed

theorem read_takes_slot_iff_dependent_witness:
  "\<exists>a' t f. issue_req (req_from_payload demo_write) 0 (agent_start 0x80 0) = (True, a') \<and>
     ag_txn_queue a' = [t] \<and> request_flit t = Some f \<and> f_txnid f < 32"
proof -
  let ?a = "agent_start 0x80 0" and ?req = "req_from_payload demo_write"
  have "?req = req_from_payload demo_write" "rq_size ?req = 64" "f_opcode ?req = 0x5C"
    by (simp_all add: demo_write_def req_from_payload_def get_int_def)
  then have sup: "supported ?req ?a" "ag_txn_queue ?a = []"
    by (simp_all add: supported_def agent_start_def agent_init_def bytes_size_to_log2_def bit_length_63)
  have free: "free_slot (ag_mapper ?a) = Some 0"
    by (simp add: agent_start_def agent_init_def free_slot_def mapper_init_def upto.simps POOL_SLOTS_def)
  have "issue_kind ?req = KWrite" using \<open>f_opcode ?req = 0x5C\<close> by (simp add: issue_kind_def)
  then obtain a' t where i: "issue_req ?req 0 ?a = (True, a')" "ag_txn_queue a' = ag_txn_queue ?a @ [t]"
      "\<exists>f. request_flit t = Some f \<and> f_opcode f = 0x1C"
  proof (cases rule: issue_req_cases [of ?req ?a 0])
    case (issued k r m)
    then show ?thesis using that \<open>f_opcode ?req = 0x5C\<close>
      by (fastforce simp: issue_txn_def Let_def write_txn_from_def)
  qed (use sup free in \<open>simp_all add: alloc_pool_Some\<close>)
  then obtain f where f: "request_flit t = Some f" "f_opcode f = 0x1C" by blast
  have "f_txnid f < 32"
    using read_takes_slot_iff_dependent [OF agent_ok_start i(1,2) f(1)] f(2) by (simp add: opcode_defs)
  then show ?thesis using i f sup by auto
qed

section \<open>Write data\<close>

text \<open>
  C36. Write data: for a write of \<open>2 ^ k\<close> bytes, gem5's one data flit is split into exactly the beats
  \<^verbatim>\<open>required_data_ids\<close> asks for, in order, each of 32 lanes, and the beats put together are the data,
  padded with zeros to the 32 bytes of a beat.
\<close>

theorem split_write_data_required:
  assumes "length data = 2 ^ k" and "k \<le> 6"
  shows "map fst (split_write_data r data) = required_data_ids (r_addr r) (int k) \<and>
    (\<forall>(d, beat) \<in> set (split_write_data r data). length beat = 32) \<and>
    concat (map snd (split_write_data r data)) = ljust0 32 data"
proof (cases "k = 6")
  case True
  then have "length data = 64" using assms(1) by simp
  then show ?thesis using True
    by (auto simp: split_write_data_def DAT_BEAT_BYTES_def required_data_ids_def slice_def agent_opcodes)
next
  case False
  then have "(2 :: nat) ^ k \<le> 2 ^ 5" using assms(2) by (intro power_increasing) simp_all
  then show ?thesis using False assms
    by (auto simp: split_write_data_def DAT_BEAT_BYTES_def required_data_ids_def agent_opcodes)
qed

theorem split_write_data_required_witness:
  "map fst (split_write_data (demo_record 3) (replicate 64 0xAB)) = required_data_ids 0x80000000 6 \<and>
   concat (map snd (split_write_data (demo_record 3) (replicate 64 0xAB))) = replicate 64 0xAB"
  using split_write_data_required [of "replicate 64 0xAB" 6 "demo_record 3"] by (simp add: demo_record_def)

section \<open>What gem5 is told\<close>

lemma issue_sent: "ag_sent (snd (issue_req req arrival a)) = ag_sent a"
  by (cases rule: issue_req_cases [of req a arrival]) (simp_all add: inc_unsupported_def count_def)

lemma retry_loop_sent: "retry_loop q a = (q', a') \<Longrightarrow> ag_sent a' = ag_sent a"
proof (induction q a arbitrary: q' a' rule: retry_loop.induct)
  case (2 req arrival rest a)
  obtain issued a1 where i: "issue_req req arrival a = (issued, a1)" by (cases "issue_req req arrival a")
  then have "ag_sent a1 = ag_sent a" using issue_sent [of req arrival a] by simp
  then show ?case
    using "2.IH" [of "(True, a1)" True a1 q' a'] "2.prems" i by (cases issued) (simp_all add: count_def, auto)
qed simp

lemma retry_sent [simp]: "ag_sent (retry_pending a) = ag_sent a"
  using retry_loop_sent [of "ag_pending_reqs a" a] by (auto simp: retry_pending_def split: prod.split)

lemma retry_ack_sent: "ag_sent (on_retry_ack k a) = ag_sent a"
  by (simp add: on_retry_ack_def with_mapper_def split: option.split)

lemma pcrd_grant_sent: "ag_sent (on_pcrd_grant a) = ag_sent a"
  by (simp add: on_pcrd_grant_def Let_def split: list.split option.split)

lemma finish_sel [simp]:
  "ag_sent (finish r a) = ag_sent a" "ag_connected (finish r a) = ag_connected a"
  "ag_snf_id (finish r a) = ag_snf_id a"
  by (simp_all add: finish_def agent_complete_def with_mapper_def Let_def)

text \<open>
  C34. Responses, on every branch: the agent swallows RetryAck and PCrdGrant, responses for an id it does not know
  and opcodes it does not expect; for every DBIDResp, CompDBIDResp and Comp of a live transaction gem5 gets
  exactly one response, with the gem5 ids of the transaction, the RespSC and error fields gem5 insists on, and as dbid
  the wire id plus one (for a Comp, the dbid that was forwarded before).
\<close>

theorem responses_to_gem5:
  "ag_sent (on_txrsp f a) = ag_sent a @
     (if ag_connected a \<and> f_opcode f \<in> {OPC_COMP, OPC_DBIDRESP, OPC_COMPDBIDRESP} then
        (case by_wire_id (ag_mapper a) (f_txnid f) of
           None \<Rightarrow> []
         | Some r \<Rightarrow>
             [JObj (flit_msg ''rsp''
                [(''qos'', JInt (r_qos r)), (''srcid'', JInt (ag_snf_id a)), (''tgtid'', JInt (r_gem5_srcid r)),
                 (''txnid'', JInt (r_gem5_txnid r)), (''opcode'', JInt (f_opcode f)),
                 (''dbid'', JInt (if f_opcode f = OPC_COMP then r_fwd_dbid r else r_wire_id r + 1)),
                 (''resp'', JInt 1), (''respErr'', JInt 0), (''pcrdtype'', JInt 0), (''rspKind'', JInt 0)])])
      else [])"
proof -
  have rsp: "ag_sent (send_rsp r c a') = ag_sent a' @
      (if ag_connected a' then [JObj (flit_msg ''rsp'' (rsp_payload a' r c))] else [])" for r c a'
    by (simp add: send_rsp_def send_to_gem5_def count_def rsp_payload_def)
  consider "f_opcode f = OPC_RETRYACK" | "f_opcode f = OPC_PCRDGRANT"
    | "f_opcode f \<notin> {OPC_RETRYACK, OPC_PCRDGRANT}" "by_wire_id (ag_mapper a) (f_txnid f) = None"
    | r where "f_opcode f \<notin> {OPC_RETRYACK, OPC_PCRDGRANT}" "by_wire_id (ag_mapper a) (f_txnid f) = Some r"
    by (cases "by_wire_id (ag_mapper a) (f_txnid f)") auto
  then show ?thesis
  proof cases
    case (4 r)
    then show ?thesis by (auto simp: on_txrsp_def Let_def rsp with_mapper_def rsp_payload_def agent_opcodes)
  qed (simp_all add: on_txrsp_def retry_ack_sent pcrd_grant_sent agent_opcodes)
qed

section \<open>A live write is left alone\<close>

text \<open>Slot \<open>k\<close> holds the record \<open>r\<close> and no release of it is queued.\<close>

definition held :: "txn_mapper \<Rightarrow> int \<Rightarrow> txn_record \<Rightarrow> bool" where
  "held m k r \<longleftrightarrow> map_of (m_records m) k = Some r \<and> k \<notin> snd ` set (m_pending_release m)"

lemma held_alloc:
  assumes "mapper_ok m" "held m k r" "k < 32"
  shows "held (snd (mapper_alloc kind dep mk m)) k r"
proof -
  have "k \<in> live_ids m" using assms(2) not_live [of m k] by (auto simp: held_def)
  then have "free_slot m \<noteq> Some k" using free_slot_Some by blast
  moreover have "m_next_read_id m \<noteq> k" using assms(1,3) by (auto simp: mapper_ok_def mapper_consts)
  ultimately show ?thesis
    using assms(2) by (auto simp: held_def mapper_alloc_def Let_def map_of_update split: option.split)
qed

lemma held_cycle:
  assumes "held m k r"
  shows "held (mapper_on_cycle m) k r"
proof -
  obtain q recs where rd: "release_due (m_cycle m + 1) (m_pending_release m) (m_records m) = (q, recs)"
    by (metis surj_pair)
  have "map_of recs k = Some r"
    using release_due_frees [OF rd, of k] assms by (auto simp: held_def dest!: set_takeWhileD)
  then show ?thesis using assms rd release_due_subset [OF rd] by (auto simp: held_def mapper_on_cycle_def)
qed

lemma held_release: "held m k r \<Longrightarrow> j \<noteq> k \<Longrightarrow> held (mapper_release j margin m) k r"
  by (auto simp: held_def mapper_release_def)

lemma held_update: "held m k r \<Longrightarrow> j \<noteq> k \<Longrightarrow> held (update_record j f m) k r"
  using map_of_update_record [of j f m k] by (simp add: held_def) (simp add: update_record_def)

lemma held_issue:
  assumes "agent_ok a" "held (ag_mapper a) k r" "k < 32"
  shows "held (ag_mapper (snd (issue_req req arrival a))) k r"
proof -
  have ok: "mapper_ok (ag_mapper a)" using assms(1) by (simp add: agent_ok_def)
  show ?thesis
  proof (cases rule: issue_req_cases [of req a arrival])
    case unsupported
    then show ?thesis using assms by (simp add: inc_unsupported_def count_def)
  next
    case (stalled j m)
    then have "held m k r" using held_alloc [OF ok assms(2,3)] by (metis snd_conv)
    then show ?thesis using stalled(4) by simp
  next
    case (issued j r' m)
    then have "held m k r" using held_alloc [OF ok assms(2,3)] by (metis snd_conv)
    then show ?thesis using issued(6) by simp
  qed
qed

lemma held_retry_loop:
  "retry_loop q a = (q', a') \<Longrightarrow> agent_ok a \<Longrightarrow> held (ag_mapper a) k r \<Longrightarrow> k < 32 \<Longrightarrow>
     held (ag_mapper a') k r"
proof (induction q a arbitrary: q' a' rule: retry_loop.induct)
  case (2 req arrival rest a)
  obtain issued a1 where i: "issue_req req arrival a = (issued, a1)" by (cases "issue_req req arrival a")
  have "held (ag_mapper a1) k r" "agent_ok a1"
    using held_issue [OF "2.prems"(2-4), of req arrival] agent_ok_issue [OF "2.prems"(2), of req arrival] i by simp_all
  then show ?case
    using "2.IH" [of "(True, a1)" True a1 q' a'] "2.prems" i by (cases issued) (simp_all add: count_def, auto)
qed simp

lemma held_retry:
  assumes "agent_ok a" "held (ag_mapper a) k r" "k < 32"
  shows "held (ag_mapper (retry_pending a)) k r"
proof -
  obtain q' a' where l: "retry_loop (ag_pending_reqs a) a = (q', a')" by (cases "retry_loop (ag_pending_reqs a) a")
  then show ?thesis using held_retry_loop [OF l assms] by (simp add: retry_pending_def)
qed

text \<open>The events that do not address the slot \<open>k\<close>.\<close>

fun elsewhere :: "int \<Rightarrow> agent_event \<Rightarrow> bool" where
  "elsewhere k (TxRsp f) \<longleftrightarrow> f_txnid f \<noteq> k"
| "elsewhere k (TxDat f) \<longleftrightarrow> f_txnid f \<noteq> k"
| "elsewhere k _ \<longleftrightarrow> True"

lemma mapper_sel [simp]:
  "ag_mapper (count f a) = ag_mapper a" "ag_mapper (send_to_gem5 msg a) = ag_mapper a"
  "ag_mapper (with_mapper g a) = g (ag_mapper a)" "ag_mapper (agent_complete r a) = ag_mapper a"
  "ag_mapper (send_rsp r opc a) = ag_mapper a"
  "ag_mapper (finish r a) = mapper_release (r_wire_id r) RELEASE_MARGIN_CYCLES (ag_mapper a)"
  by (simp_all add: count_def send_to_gem5_def with_mapper_def agent_complete_def send_rsp_def finish_def Let_def)

lemma by_wire_id_key: "agent_ok a \<Longrightarrow> by_wire_id (ag_mapper a) j = Some r \<Longrightarrow> r_wire_id r = j"
  using mapper_okD [of "ag_mapper a" j r] by (simp add: agent_ok_def by_wire_id_def record_ok_def)

lemma held_rsp:
  assumes "agent_ok a" "held (ag_mapper a) k r" "k < 32" "f_txnid f \<noteq> k"
  shows "held (ag_mapper (on_txrsp f a)) k r"
proof (cases "by_wire_id (ag_mapper a) (f_txnid f)")
  case None
  have "held (ag_mapper (on_pcrd_grant a)) k r"
    using assms by (auto simp: on_pcrd_grant_def Let_def intro!: held_retry split: list.split option.split)
  then show ?thesis using assms None by (simp add: on_txrsp_def on_retry_ack_def)
next
  case (Some s)
  have "held (ag_mapper (on_pcrd_grant a)) k r"
    using assms by (auto simp: on_pcrd_grant_def Let_def intro!: held_retry split: list.split option.split)
  moreover have "r_wire_id s \<noteq> k" using by_wire_id_key [OF assms(1) Some] assms(4) by simp
  ultimately show ?thesis
    using assms Some
    by (auto simp: on_txrsp_def on_retry_ack_def Let_def intro!: held_release held_update)
qed

lemma held_txdat:
  assumes "agent_ok a" "held (ag_mapper a) k r" "f_txnid f \<noteq> k" "on_txdat f a = Inr a'"
  shows "held (ag_mapper a') k r"
proof (cases "by_wire_id (ag_mapper a) (f_txnid f)")
  case None
  then show ?thesis using assms by (simp add: on_txdat_def)
next
  case (Some s)
  have "r_wire_id s \<noteq> k" using by_wire_id_key [OF assms(1) Some] assms(3) by simp
  then show ?thesis
    using assms Some
    by (auto simp: on_txdat_def Let_def intro!: held_release held_update split: if_splits)
qed

lemma dat_mapper: "handle_gem5_dat p a = Inr a' \<Longrightarrow> ag_mapper a' = ag_mapper a"
  by (auto simp: handle_gem5_dat_def Let_def split: option.splits)

lemma held_step:
  assumes "agent_ok a" "held (ag_mapper a) k r" "k < 32" "elsewhere k e" "agent_step e a = Inr a'"
  shows "held (ag_mapper a') k r"
proof (cases e)
  case (GemReq p)
  then show ?thesis using assms by (auto simp: handle_gem5_req_def Let_def intro!: held_retry)
next
  case (GemDat p)
  then show ?thesis using assms by (simp add: dat_mapper)
next
  case (TxRsp f)
  then show ?thesis using assms held_rsp by auto
next
  case (TxDat f)
  then show ?thesis using assms held_txdat by auto
next
  case ClockCycle
  have "agent_ok (with_mapper mapper_on_cycle a)"
    using assms(1) by (intro agent_ok_mapper mapper_ok_on_cycle) (simp_all add: agent_ok_def)
  then show ?thesis
    using ClockCycle assms by (auto simp: agent_on_cycle_def intro!: held_retry held_cycle)
next
  case TakeTxn
  then show ?thesis using assms by (auto simp: agent_next_txn_def split: list.splits)
qed

lemma held_run:
  "agent_ok a \<Longrightarrow> held (ag_mapper a) k r \<Longrightarrow> k < 32 \<Longrightarrow> list_all (elsewhere k) es \<Longrightarrow>
     agent_run es a = Inr a' \<Longrightarrow> held (ag_mapper a') k r"
proof (induction es arbitrary: a)
  case (Cons e es)
  then obtain a1 where "agent_step e a = Inr a1" "agent_run es a1 = Inr a'" by auto
  then show ?case using Cons held_step [of a k r e a1] agent_ok_step [of a e a1] by auto
qed simp

text \<open>What gem5 has been told is never taken back, and the agent's identity does not change.\<close>

definition same_peer :: "snf_agent \<Rightarrow> snf_agent \<Rightarrow> bool" where
  "same_peer a a' \<longleftrightarrow> ag_connected a' = ag_connected a \<and> ag_snf_id a' = ag_snf_id a \<and> (\<exists>ms. ag_sent a' = ag_sent a @ ms)"

lemma same_peer_refl [simp]: "same_peer a a"
  by (simp add: same_peer_def)

lemma same_peer_trans: "same_peer a b \<Longrightarrow> same_peer b c \<Longrightarrow> same_peer a c"
  by (auto simp: same_peer_def)

lemma same_peer_simps [simp]:
  "same_peer a (count f b) = same_peer a b" "same_peer a (inc_unsupported b) = same_peer a b"
  "same_peer a (with_mapper g b) = same_peer a b" "same_peer a (agent_complete r b) = same_peer a b"
  "same_peer a (finish r b) = same_peer a b"
  "same_peer a (b\<lparr>ag_pending_reqs := q\<rparr>) = same_peer a b" "same_peer a (b\<lparr>ag_retrying := rs\<rparr>) = same_peer a b"
  "same_peer a (b\<lparr>ag_txn_queue := ts\<rparr>) = same_peer a b" "same_peer a (b\<lparr>ag_mapper := m\<rparr>) = same_peer a b"
  by (simp_all add: same_peer_def count_def inc_unsupported_def with_mapper_def agent_complete_def finish_def Let_def)

lemma same_peer_send: "same_peer a b \<Longrightarrow> same_peer a (send_to_gem5 msg b)"
  by (auto simp: same_peer_def send_to_gem5_def)

lemma same_peer_issue: "same_peer a (snd (issue_req req arrival a))"
  by (cases rule: issue_req_cases [of req a arrival]) simp_all

lemma same_peer_retry_loop: "retry_loop q a = (q', a') \<Longrightarrow> same_peer a a'"
proof (induction q a arbitrary: q' a' rule: retry_loop.induct)
  case (2 req arrival rest a)
  obtain issued a1 where i: "issue_req req arrival a = (issued, a1)" by (cases "issue_req req arrival a")
  then have "same_peer a a1" using same_peer_issue [of a req arrival] by simp
  then show ?case
    using "2.IH" [of "(True, a1)" True a1 q' a'] "2.prems" i same_peer_trans [of a a1 a']
    by (cases issued) auto
qed simp

lemma same_peer_retry: "same_peer a b \<Longrightarrow> same_peer a (retry_pending b)"
  using same_peer_retry_loop [of "ag_pending_reqs b" b] same_peer_trans
  by (fastforce simp: retry_pending_def split: prod.split)

lemma same_peer_rsp: "same_peer a (on_txrsp f a)"
  by (auto simp: on_txrsp_def on_retry_ack_def on_pcrd_grant_def Let_def send_rsp_def
      intro!: same_peer_send same_peer_retry split: option.split list.split)

lemma same_peer_step: "agent_step e a = Inr a' \<Longrightarrow> same_peer a a'"
proof (cases e)
  case (GemDat p)
  then show "agent_step e a = Inr a' \<Longrightarrow> same_peer a a'"
    by (auto simp: handle_gem5_dat_def Let_def split: option.splits)
next
  case (TxDat f)
  then show "agent_step e a = Inr a' \<Longrightarrow> same_peer a a'"
    by (auto simp: on_txdat_def Let_def intro!: same_peer_send split: option.splits if_splits)
qed (auto simp: same_peer_rsp handle_gem5_req_def agent_on_cycle_def agent_next_txn_def Let_def
    intro!: same_peer_retry split: list.split)

lemma same_peer_run: "agent_run es a = Inr a' \<Longrightarrow> same_peer a a'"
proof (induction es arbitrary: a)
  case (Cons e es)
  then show ?case using same_peer_step same_peer_trans by fastforce
qed simp

lemma agent_run_append: "agent_run (es @ es') a = and_then (agent_run es a) (agent_run es')"
proof (induction es arbitrary: a)
  case (Cons e es)
  then show ?case by (cases "agent_step e a") simp_all
qed simp

text \<open>
  C4. The write handshake, for every interleaving with other traffic: when the DUT grants a data buffer to a live
  write and later completes it, gem5 gets the DBIDResp and then the Comp, both with the ids of that write and with the
  same nonzero dbid; between them no other request, data, response or clock cycle can disturb the record, and
  afterwards the slot is queued for release 8 cycles later.
\<close>

theorem write_handshake:
  assumes "agent_ok a" and "ag_connected a" and "held (ag_mapper a) k r" and "k < 32"
    and "f_opcode dbidresp = OPC_DBIDRESP" and "f_txnid dbidresp = k" and "f_opcode finish_rsp = OPC_COMP" and "f_txnid finish_rsp = k"
    and "list_all (elsewhere k) es" and "agent_run (TxRsp dbidresp # es @ [TxRsp finish_rsp]) a = Inr a'"
  shows "let told = (\<lambda>opcode. JObj (flit_msg ''rsp''
      [(''qos'', JInt (r_qos r)), (''srcid'', JInt (ag_snf_id a)), (''tgtid'', JInt (r_gem5_srcid r)),
       (''txnid'', JInt (r_gem5_txnid r)), (''opcode'', JInt opcode), (''dbid'', JInt (k + 1)),
       (''resp'', JInt 1), (''respErr'', JInt 0), (''pcrdtype'', JInt 0), (''rspKind'', JInt 0)])) in
    k + 1 \<noteq> 0 \<and> (\<exists>ms. ag_sent a' = ag_sent a @ [told OPC_DBIDRESP] @ ms @ [told OPC_COMP]) \<and>
    (\<exists>q. m_pending_release (ag_mapper a') = q @ [(m_cycle (ag_mapper a') + 8, k)])"
proof -
  define told where "told opcode = JObj (flit_msg ''rsp''
      [(''qos'', JInt (r_qos r)), (''srcid'', JInt (ag_snf_id a)), (''tgtid'', JInt (r_gem5_srcid r)),
       (''txnid'', JInt (r_gem5_txnid r)), (''opcode'', JInt opcode), (''dbid'', JInt (k + 1)),
       (''resp'', JInt 1), (''respErr'', JInt 0), (''pcrdtype'', JInt 0), (''rspKind'', JInt 0)])" for opcode
  let ?r = "r\<lparr>r_fwd_dbid := k + 1\<rparr>"
  have r: "by_wire_id (ag_mapper a) k = Some r" using assms(3) by (simp add: held_def by_wire_id_def)
  have "record_ok k r" using assms(1,3) mapper_okD by (auto simp: agent_ok_def held_def)
  then have key: "r_wire_id r = k" "0 \<le> k" by (simp_all add: record_ok_def)
  let ?a1 = "on_txrsp dbidresp a"
  have a1: "?a1 = send_rsp ?r OPC_DBIDRESP (with_mapper (update_record k (\<lambda>r. r\<lparr>r_fwd_dbid := r_wire_id r + 1\<rparr>)) a)"
    using assms(5,6) r key by (simp add: on_txrsp_def Let_def agent_opcodes)
  have sent1: "ag_sent ?a1 = ag_sent a @ [told OPC_DBIDRESP]"
    using assms(2) by (simp add: a1 send_rsp_def send_to_gem5_def count_def with_mapper_def rsp_payload_def told_def)
  have peer1: "same_peer a ?a1" by (rule same_peer_rsp)
  have "held (ag_mapper ?a1) k ?r"
    using assms(3) map_of_update_record [of k _ "ag_mapper a" k] key
    by (simp add: a1 held_def) (simp add: update_record_def)
  moreover have "agent_ok ?a1" using assms(1) by (rule agent_ok_rsp)
  moreover obtain a2 where a2: "agent_run es ?a1 = Inr a2" "on_txrsp finish_rsp a2 = a'"
    using assms(10) by (auto simp: agent_run_append)
  ultimately have h2: "held (ag_mapper a2) k ?r" using held_run assms(4,9) by blast
  have peer2: "same_peer ?a1 a2" using same_peer_run [OF a2(1)] .
  have a': "a' = send_rsp ?r OPC_COMP (finish ?r a2)"
    using a2(2) assms(7,8) h2 by (auto simp: on_txrsp_def held_def by_wire_id_def agent_opcodes)
  obtain ms where "ag_sent a2 = ag_sent ?a1 @ ms" "ag_connected a2" "ag_snf_id a2 = ag_snf_id a"
    using peer1 peer2 assms(2) by (auto simp: same_peer_def)
  then have "ag_sent a' = ag_sent a @ [told OPC_DBIDRESP] @ ms @ [told OPC_COMP]"
    using sent1 by (simp add: a' send_rsp_def send_to_gem5_def count_def rsp_payload_def told_def finish_def
        agent_complete_def with_mapper_def Let_def)
  moreover have "m_pending_release (ag_mapper a') = m_pending_release (ag_mapper a2) @ [(m_cycle (ag_mapper a') + 8, k)]"
    using h2 key by (auto simp: a' mapper_release_def held_def RELEASE_MARGIN_CYCLES_def)
  ultimately show ?thesis using key(2) unfolding Let_def told_def [symmetric] by auto
qed

text \<open>The witness: the demonstration write, with a clock cycle and a stray response between its two responses.\<close>

theorem write_handshake_witness:
  "let rsp = (\<lambda>t opcode. TxRsp (raw_rsp_default\<lparr>f_txnid := t, f_opcode := opcode\<rparr>)) in
   \<exists>a a'. agent_run (rsp 0 OPC_DBIDRESP # [ClockCycle, rsp 5 OPC_COMP] @ [rsp 0 OPC_COMP]) a = Inr a' \<and>
     (\<exists>q. m_pending_release (ag_mapper a') = q @ [(m_cycle (ag_mapper a') + 8, 0)])"
proof -
  let ?rsp = "\<lambda>t opc. raw_rsp_default\<lparr>f_txnid := t, f_opcode := opc\<rparr>"
  let ?r = "(issue_record (req_from_payload demo_write) 64 0 0)\<lparr>r_kind := KWrite\<rparr>"
  obtain a where run: "agent_run [GemReq demo_write] (agent_start 0x80 0) = Inr a"
    and rec: "map_of (m_records (ag_mapper a)) 0 = Some ?r" "m_pending_release (ag_mapper a) = []"
    using demo_write_run by blast
  have ok: "agent_ok a" using agent_ok_run [OF agent_ok_start run] .
  have conn: "ag_connected a"
    using same_peer_run [OF run] by (simp add: same_peer_def agent_start_def)
  have held: "held (ag_mapper a) 0 ?r" using rec by (simp add: held_def)
  obtain a' where run': "agent_run (TxRsp (?rsp 0 OPC_DBIDRESP) # [ClockCycle, TxRsp (?rsp 5 OPC_COMP)] @ [TxRsp (?rsp 0 OPC_COMP)]) a = Inr a'"
    by simp
  have "list_all (elsewhere 0) [ClockCycle, TxRsp (?rsp 5 OPC_COMP)]" by simp
  from write_handshake [OF ok conn held _ _ _ _ _ this run'] show ?thesis
    unfolding Let_def using run' by (intro exI [of _ a] exI [of _ a']) simp
qed

section \<open>Read data\<close>

text \<open>One beat of a live read: what gem5 is sent and what becomes of the record.\<close>

lemma on_txdat_beat:
  assumes "by_wire_id (ag_mapper a) (f_txnid f) = Some r" "r_kind r = KRead"
    and "bytes_of_ints (slice (dt_data f) 0 32) = Inr beat"
  shows "\<exists>a'. on_txdat f a = Inr a' \<and>
     ag_sent a' = ag_sent a @ (if ag_connected a then
        [JObj (flit_msg ''dat'' (dat_payload a r (if r_beats_left r \<le> 1 then 1 else 0) (r_next_dataid r)
            (beat_length r) (slice beat 0 (beat_length r))))] else []) \<and>
     ag_connected a' = ag_connected a \<and> ag_snf_id a' = ag_snf_id a \<and>
     by_wire_id (ag_mapper a') (f_txnid f) =
       Some (r\<lparr>r_next_dataid := r_next_dataid r + 1, r_beats_left := r_beats_left r - 1\<rparr>)"
proof -
  have up: "by_wire_id (update_record k g m) k = map_option g (by_wire_id m k)" for k g m
    by (simp add: by_wire_id_def map_of_update_record)
  have rel: "by_wire_id (mapper_release j margin m) k = by_wire_id m k" for j margin m k
    by (simp add: by_wire_id_def mapper_release_def)
  have pay: "dat_payload b (r\<lparr>r_next_dataid := x, r_beats_left := y\<rparr>) l d n bs = dat_payload a r l d n bs"
    if "ag_snf_id b = ag_snf_id a" for b x y l d n bs
    using that by (simp add: dat_payload_def)
  show ?thesis
    using assms
    by (auto simp: on_txdat_def Let_def DAT_BEAT_BYTES_def up rel pay send_to_gem5_def count_def with_mapper_def
        finish_def agent_complete_def)
qed

end
