(* ===== verification/Fake_Ddr.thy ===== *)
theory Fake_Ddr
  imports C2xm_Prelude
begin

text \<open>
  The reference memory of \<^verbatim>\<open>fake_gem5.py\<close>: 4096-byte pages, created with a pattern when they are first
  touched (a read therefore changes the state), written byte by byte under a strobe.

  The locale \<open>byte_memory\<close> is the contract of such a memory against its abstraction, a function from
  addresses to bytes; what a client needs (a read returns what was last written) is proved in it once.
\<close>

section \<open>The contract of a byte memory\<close>

text \<open>\<open>put_bytes f a bs\<close> is the abstract write: where the strobe is on, the byte at \<open>a + i\<close> becomes
  the \<open>i\<close>-th of the data.\<close>

fun put_bytes :: "(int \<Rightarrow> byte) \<Rightarrow> int \<Rightarrow> (byte \<times> bool) list \<Rightarrow> int \<Rightarrow> byte" where
  "put_bytes f a [] = f"
| "put_bytes f a ((b, s) # bs) = put_bytes (if s then f(a := b) else f) (a + 1) bs"

definition bytes_at :: "(int \<Rightarrow> byte) \<Rightarrow> int \<Rightarrow> nat \<Rightarrow> byte list" where
  "bytes_at f a n = map (\<lambda>i. f (a + int i)) [0 ..< n]"

lemma put_bytes_nth:
  "put_bytes f a bs x =
     (if a \<le> x \<and> x < a + int (length bs) \<and> snd (bs ! nat (x - a)) then fst (bs ! nat (x - a)) else f x)"
proof (induction bs arbitrary: f a x)
  case (Cons p bs)
  obtain b s where p: "p = (b, s)" by (cases p)
  show ?case
  proof (cases "x = a")
    case True
    then show ?thesis by (simp add: p Cons)
  next
    case False
    then have "nat (x - a) = Suc (nat (x - (a + 1)))" if "a \<le> x" using that by simp
    then show ?thesis using False by (auto simp: p Cons)
  qed
qed auto

lemma length_bytes_at [simp]: "length (bytes_at f a n) = n"
  by (simp add: bytes_at_def)

lemma bytes_at_put:
  "list_all snd bs \<Longrightarrow> bytes_at (put_bytes f a bs) a (length bs) = map fst bs"
  by (rule nth_equalityI) (auto simp: bytes_at_def put_bytes_nth list_all_length)

lemma bytes_at_put_disjoint:
  assumes "a + int (length bs) \<le> x \<or> x + int n \<le> a"
  shows "bytes_at (put_bytes f a bs) x n = bytes_at f x n"
  using assms by (auto simp: bytes_at_def put_bytes_nth)

locale byte_memory =
  fixes rd :: "'s \<Rightarrow> int \<Rightarrow> nat \<Rightarrow> byte list \<times> 's"
    and wr :: "'s \<Rightarrow> int \<Rightarrow> (byte \<times> bool) list \<Rightarrow> 's"
    and abs :: "'s \<Rightarrow> int \<Rightarrow> byte"
    and ok :: "'s \<Rightarrow> bool"
  assumes rd_abs: "ok s \<Longrightarrow> fst (rd s a n) = bytes_at (abs s) a n"
    and rd_keeps: "ok s \<Longrightarrow> abs (snd (rd s a n)) = abs s"
    and rd_ok: "ok s \<Longrightarrow> ok (snd (rd s a n))"
    and wr_abs: "ok s \<Longrightarrow> abs (wr s a bs) = put_bytes (abs s) a bs"
    and wr_ok: "ok s \<Longrightarrow> ok (wr s a bs)"
begin

lemma read_after_write:
  "ok s \<Longrightarrow> list_all snd bs \<Longrightarrow> fst (rd (wr s a bs) a (length bs)) = map fst bs"
  by (simp add: rd_abs wr_ok wr_abs bytes_at_put)

lemma read_elsewhere:
  "ok s \<Longrightarrow> a + int (length bs) \<le> x \<or> x + int n \<le> a \<Longrightarrow> fst (rd (wr s a bs) x n) = fst (rd s x n)"
  by (simp add: rd_abs wr_ok wr_abs bytes_at_put_disjoint)

lemma read_twice: "ok s \<Longrightarrow> fst (rd (snd (rd s a n)) x k) = fst (rd s x k)"
  by (simp add: rd_abs rd_ok rd_keeps)

end

section \<open>The model\<close>

definition ddr_pattern :: "int \<Rightarrow> nat \<Rightarrow> byte list" where
  "ddr_pattern addr n = map (\<lambda>i. word_of_int ((addr * 2654435761 + int i * 40503) AND 0xFF)) [0 ..< n]"

type_synonym fake_ddr = "int \<rightharpoonup> byte list"

definition PAGE_SIZE :: int where "PAGE_SIZE = 4096"

definition page_base :: "int \<Rightarrow> int" where
  "page_base addr = addr AND NOT (PAGE_SIZE - 1)"

definition page_off :: "int \<Rightarrow> nat" where
  "page_off addr = nat (addr AND (PAGE_SIZE - 1))"

definition ddr_page :: "int \<Rightarrow> fake_ddr \<Rightarrow> byte list \<times> fake_ddr" where
  "ddr_page addr ddr =
     (case ddr (page_base addr) of
        None \<Rightarrow> let page = ddr_pattern (page_base addr) (nat PAGE_SIZE) in (page, ddr(page_base addr \<mapsto> page))
      | Some page \<Rightarrow> (page, ddr))"

lemma page_off_less: "page_off addr < 4096"
proof -
  have "addr AND 4095 = addr mod 4096"
    using take_bit_eq_mask [of 12 addr] by (simp add: take_bit_eq_mod mask_eq_exp_minus_1)
  then show ?thesis by (simp add: page_off_def PAGE_SIZE_def)
qed

text \<open>The loop of \<^verbatim>\<open>read\<close>; \<open>n\<close> is what is left to read at \<open>addr\<close>.\<close>

function ddr_read_loop :: "int \<Rightarrow> nat \<Rightarrow> fake_ddr \<Rightarrow> byte list \<times> fake_ddr" where
  "ddr_read_loop addr n ddr =
     (if n = 0 then ([], ddr)
      else
        let (page, ddr') = ddr_page addr ddr;
            off = page_off addr;
            k = min (nat PAGE_SIZE - off) n;
            (rest, ddr'') = ddr_read_loop (addr + int k) (n - k) ddr'
        in (slice page off (off + k) @ rest, ddr''))"
  by pat_completeness auto

termination
  by (relation "measure (\<lambda>(addr, n, ddr). n)") (use page_off_less in \<open>auto simp: PAGE_SIZE_def\<close>)

declare ddr_read_loop.simps [simp del]

text \<open>\<open>bytearray(n)\<close> of a negative number raises ValueError.\<close>

definition ddr_read :: "int \<Rightarrow> int \<Rightarrow> fake_ddr \<Rightarrow> (byte list \<times> fake_ddr) result" where
  "ddr_read addr n ddr = (if n < 0 then Inl ValueError else Inr (ddr_read_loop addr (nat n) ddr))"

fun ddr_write_loop :: "int \<Rightarrow> (byte \<times> byte) list \<Rightarrow> fake_ddr \<Rightarrow> fake_ddr" where
  "ddr_write_loop addr [] ddr = ddr"
| "ddr_write_loop addr ((b, s) # bs) ddr =
     ddr_write_loop (addr + 1) bs
       (if s \<noteq> 0 then
          let (page, ddr') = ddr_page addr ddr in ddr'(page_base addr \<mapsto> page[page_off addr := b])
        else ddr)"

definition ddr_write :: "int \<Rightarrow> byte list \<Rightarrow> byte list \<Rightarrow> fake_ddr \<Rightarrow> fake_ddr" where
  "ddr_write addr data strb ddr =
     (let strb = (if strb = [] \<or> length strb \<noteq> length data then replicate (length data) 1 else strb)
      in ddr_write_loop addr (zip data strb) ddr)"

section \<open>Refinement\<close>

definition ddr_byte :: "fake_ddr \<Rightarrow> int \<Rightarrow> byte" where
  "ddr_byte ddr a =
     (case ddr (page_base a) of
        None \<Rightarrow> ddr_pattern (page_base a) (nat PAGE_SIZE) ! page_off a
      | Some page \<Rightarrow> page ! page_off a)"

definition ddr_ok :: "fake_ddr \<Rightarrow> bool" where
  "ddr_ok ddr \<longleftrightarrow> (\<forall>b page. ddr b = Some page \<longrightarrow> length page = 4096)"

lemma page_eqs: "page_base a = a - a mod 4096" "int (page_off a) = a mod 4096"
proof -
  have "a AND 4095 = a mod 4096"
    using take_bit_eq_mask [of 12 a] by (simp add: take_bit_eq_mod mask_eq_exp_minus_1)
  then show "int (page_off a) = a mod 4096" by (simp add: page_off_def PAGE_SIZE_def)
  show "page_base a = a - a mod 4096"
    using AND_NOT_mask_eq [of a 12] by (simp add: page_base_def PAGE_SIZE_def mask_eq_exp_minus_1)
qed

lemma page_within: "i < 4096 - page_off a \<Longrightarrow> page_base (a + int i) = page_base a \<and> page_off (a + int i) = page_off a + i"
proof -
  assume i: "i < 4096 - page_off a"
  then have "a mod 4096 + int i < 4096" using page_eqs(2) [of a] by linarith
  then have "(a + int i) mod 4096 = a mod 4096 + int i"
    by (simp add: mod_add_left_eq [symmetric, of a] mod_pos_pos_trivial)
  then show ?thesis using page_eqs(1) [of "a + int i"] page_eqs(1) [of a] page_eqs(2) [of "a + int i"] page_eqs(2) [of a]
    by (auto simp flip: of_nat_eq_iff)
qed

lemma length_ddr_pattern [simp]: "length (ddr_pattern a n) = n"
  by (simp add: ddr_pattern_def)

lemma page_base_idem: "page_base (page_base a) = page_base a"
  by (simp add: page_eqs(1))

lemma ddr_page_spec:
  assumes "ddr_ok ddr" "ddr_page a ddr = (page, ddr')"
  shows "length page = 4096" "ddr_ok ddr'" "ddr_byte ddr' = ddr_byte ddr" "ddr' (page_base a) = Some page"
    "page_base x = page_base a \<Longrightarrow> page ! page_off x = ddr_byte ddr x"
proof -
  consider p where "ddr (page_base a) = Some p" "page = p" "ddr' = ddr"
    | "ddr (page_base a) = None" "page = ddr_pattern (page_base a) 4096" "ddr' = ddr(page_base a \<mapsto> page)"
    using assms(2) by (auto simp: ddr_page_def PAGE_SIZE_def Let_def split: option.splits)
  then have "length page = 4096 \<and> ddr_ok ddr' \<and> ddr_byte ddr' = ddr_byte ddr \<and> ddr' (page_base a) = Some page \<and>
      (page_base x = page_base a \<longrightarrow> page ! page_off x = ddr_byte ddr x)"
  proof cases
    case 1
    then show ?thesis using assms(1) by (auto simp: ddr_ok_def ddr_byte_def)
  next
    case 2
    then show ?thesis using assms(1) by (auto simp: ddr_ok_def ddr_byte_def fun_eq_iff PAGE_SIZE_def)
  qed
  then show "length page = 4096" "ddr_ok ddr'" "ddr_byte ddr' = ddr_byte ddr" "ddr' (page_base a) = Some page"
    "page_base x = page_base a \<Longrightarrow> page ! page_off x = ddr_byte ddr x"
    by blast+
qed

lemma bytes_at_split: "k \<le> n \<Longrightarrow> bytes_at f a n = bytes_at f a k @ bytes_at f (a + int k) (n - k)"
  by (rule nth_equalityI) (auto simp: bytes_at_def nth_append)

lemma ddr_read_loop_spec:
  "ddr_ok ddr \<Longrightarrow> ddr_read_loop a n ddr = (bs, ddr') \<Longrightarrow>
     bs = bytes_at (ddr_byte ddr) a n \<and> ddr_ok ddr' \<and> ddr_byte ddr' = ddr_byte ddr"
proof (induction a n ddr arbitrary: bs ddr' rule: ddr_read_loop.induct)
  case (1 a n ddr)
  show ?case
  proof (cases "n = 0")
    case True
    then show ?thesis using "1.prems" by (simp add: ddr_read_loop.simps bytes_at_def)
  next
    case False
    obtain page d1 where pg: "ddr_page a ddr = (page, d1)" by (cases "ddr_page a ddr")
    let ?k = "min (4096 - page_off a) n"
    obtain rest d2 where r: "ddr_read_loop (a + int ?k) (n - ?k) d1 = (rest, d2)"
      by (cases "ddr_read_loop (a + int ?k) (n - ?k) d1")
    note spec = ddr_page_spec [OF "1.prems"(1) pg]
    have IH: "rest = bytes_at (ddr_byte d1) (a + int ?k) (n - ?k) \<and> ddr_ok d2 \<and> ddr_byte d2 = ddr_byte d1"
      using "1.IH" [of "(page, d1)" page d1 "page_off a" ?k rest d2] False pg r spec(2)
      by (simp add: PAGE_SIZE_def)
    have "bs = slice page (page_off a) (page_off a + ?k) @ rest" "ddr' = d2"
      using "1.prems"(2) False pg r by (simp_all add: ddr_read_loop.simps [of a n] Let_def PAGE_SIZE_def)
    moreover have "slice page (page_off a) (page_off a + ?k) = bytes_at (ddr_byte ddr) a ?k"
    proof (rule nth_equalityI)
      fix i
      assume "i < length (slice page (page_off a) (page_off a + ?k))"
      then have i: "i < ?k" "i < 4096 - page_off a" using spec(1) page_off_less [of a] by auto
      have "page ! (page_off a + i) = ddr_byte ddr (a + int i)"
        using spec(5) [of "a + int i"] page_within [OF i(2)] by simp
      then show "slice page (page_off a) (page_off a + ?k) ! i = bytes_at (ddr_byte ddr) a ?k ! i"
        using i spec(1) by (simp add: nth_slice bytes_at_def)
    qed (use spec(1) page_off_less [of a] in simp)
    ultimately show ?thesis using IH spec(3) bytes_at_split [of ?k n "ddr_byte ddr" a] by simp
  qed
qed

lemma ddr_write_byte:
  assumes "ddr_ok ddr" "ddr_page a ddr = (page, ddr')"
  shows "ddr_ok (ddr'(page_base a \<mapsto> page[page_off a := b])) \<and>
    ddr_byte (ddr'(page_base a \<mapsto> page[page_off a := b])) = (ddr_byte ddr)(a := b)"
proof -
  note spec = ddr_page_spec [OF assms]
  have "ddr_byte (ddr'(page_base a \<mapsto> page[page_off a := b])) x = ((ddr_byte ddr)(a := b)) x" for x
  proof (cases "page_base x = page_base a")
    case True
    have "x = a \<longleftrightarrow> page_off x = page_off a"
      using True page_eqs(1) [of x] page_eqs(1) [of a] page_eqs(2) [of x] page_eqs(2) [of a] by linarith
    then show ?thesis
      using True spec(1) spec(5) [OF True] page_off_less [of a] by (auto simp: ddr_byte_def nth_list_update)
  next
    case False
    then have "x \<noteq> a" by auto
    then show ?thesis using False spec(3) [THEN fun_cong, of x] by (simp add: ddr_byte_def)
  qed
  then show ?thesis using spec(1,2) by (auto simp: ddr_ok_def)
qed

lemma ddr_write_loop_spec:
  "ddr_ok ddr \<Longrightarrow>
     ddr_ok (ddr_write_loop a bs ddr) \<and>
     ddr_byte (ddr_write_loop a bs ddr) = put_bytes (ddr_byte ddr) a (map (\<lambda>(b, s). (b, s \<noteq> 0)) bs)"
proof (induction a bs ddr rule: ddr_write_loop.induct)
  case (2 a b s bs ddr)
  then show ?case using ddr_write_byte [of ddr a _ _ b]
    by (cases "ddr_page a ddr") (auto simp: Let_def)
qed simp

definition strobe_byte :: "bool \<Rightarrow> byte" where
  "strobe_byte s = (if s then 1 else 0)"

lemma strobe_byte_on [simp]: "strobe_byte s = 0 \<longleftrightarrow> \<not> s"
  by (simp add: strobe_byte_def)

interpretation fake_ddr: byte_memory "\<lambda>ddr a n. ddr_read_loop a n ddr"
  "\<lambda>ddr a bs. ddr_write_loop a (map (\<lambda>(b, s). (b, strobe_byte s)) bs) ddr" ddr_byte ddr_ok
proof unfold_locales
  fix ddr :: fake_ddr and a :: int and n :: nat and bs :: "(byte \<times> bool) list"
  assume ok: "ddr_ok ddr"
  obtain out ddr' where r: "ddr_read_loop a n ddr = (out, ddr')" by (cases "ddr_read_loop a n ddr")
  show "fst (ddr_read_loop a n ddr) = bytes_at (ddr_byte ddr) a n"
    "ddr_byte (snd (ddr_read_loop a n ddr)) = ddr_byte ddr" "ddr_ok (snd (ddr_read_loop a n ddr))"
    using ddr_read_loop_spec [OF ok r] by (simp_all add: r)
  have "map (\<lambda>(b, s). (b, s \<noteq> 0)) (map (\<lambda>(b, s). (b, strobe_byte s)) bs) = bs"
    by (induction bs) auto
  then show "ddr_byte (ddr_write_loop a (map (\<lambda>(b, s). (b, strobe_byte s)) bs) ddr) = put_bytes (ddr_byte ddr) a bs"
    "ddr_ok (ddr_write_loop a (map (\<lambda>(b, s). (b, strobe_byte s)) bs) ddr)"
    using ddr_write_loop_spec [OF ok, of a "map (\<lambda>(b, s). (b, strobe_byte s)) bs"] by simp_all
qed

section \<open>Properties\<close>

lemma ddr_write_as_memory:
  "ddr_write a data strb ddr =
     ddr_write_loop a (zip data (if strb = [] \<or> length strb \<noteq> length data then replicate (length data) 1 else strb)) ddr"
  by (simp add: ddr_write_def Let_def)

lemma ddr_write_full:
  assumes "strb = [] \<or> length strb \<noteq> length data \<or> (0 :: byte) \<notin> set strb" "ddr_ok ddr"
  shows "ddr_ok (ddr_write a data strb ddr) \<and> ddr_byte (ddr_write a data strb ddr) = put_bytes (ddr_byte ddr) a (map (\<lambda>b. (b, True)) data)"
proof -
  let ?s = "if strb = [] \<or> length strb \<noteq> length data then replicate (length data) 1 else strb"
  have "length ?s = length data" "0 \<notin> set ?s" using assms(1) by auto
  then have "map (\<lambda>(b, s). (b, s \<noteq> 0)) (zip data ?s) = map (\<lambda>b. (b, True)) data"
    by (intro nth_equalityI) (auto simp: in_set_conv_nth)
  then show ?thesis using ddr_write_loop_spec [OF assms(2), of a "zip data ?s"]
    by (simp only: ddr_write_as_memory)
qed

text \<open>
  The reference DDR is a byte memory: after data is written with every strobe on (or none given), reading the
  same bytes returns the data, and reading any disjoint range returns what it did before, page boundaries
  and the lazy creation of pages notwithstanding.
\<close>

theorem fake_ddr_read_after_write:
  assumes "ddr_ok ddr" and "strb = [] \<or> 0 \<notin> set strb" and "x + int n \<le> a \<or> a + int (length data) \<le> x"
  shows "(\<exists>ddr'. ddr_read a (int (length data)) (ddr_write a data strb ddr) = Inr (data, ddr')) \<and>
    (\<exists>bs ddr1 ddr2. ddr_read x (int n) ddr = Inr (bs, ddr1) \<and>
       ddr_read x (int n) (ddr_write a data strb ddr) = Inr (bs, ddr2))"
proof -
  let ?bs = "map (\<lambda>b. (b, True)) data"
  have w: "ddr_ok (ddr_write a data strb ddr)" "ddr_byte (ddr_write a data strb ddr) = put_bytes (ddr_byte ddr) a ?bs"
    using ddr_write_full [OF _ assms(1)] assms(2) by blast+
  have "fst (ddr_read_loop a (length data) (ddr_write a data strb ddr)) = data"
    using fake_ddr.rd_abs [OF w(1)] w(2) bytes_at_put [of ?bs "ddr_byte ddr" a] by (simp add: list_all_length comp_def)
  moreover have "fst (ddr_read_loop x n (ddr_write a data strb ddr)) = fst (ddr_read_loop x n ddr)"
    using fake_ddr.rd_abs [OF w(1)] fake_ddr.rd_abs [OF assms(1)] w(2) bytes_at_put_disjoint [of a ?bs x n "ddr_byte ddr"] assms(3)
    by auto
  ultimately show ?thesis unfolding ddr_read_def by (simp add: prod_eq_iff)
qed

text \<open>The witness: eight bytes across the boundary of two pages.\<close>

theorem fake_ddr_read_after_write_witness:
  "\<exists>ddr'. ddr_read 0x80000FFC 8 (ddr_write 0x80000FFC [1, 2, 3, 4, 5, 6, 7, 8] [] Map.empty) = Inr ([1, 2, 3, 4, 5, 6, 7, 8], ddr')"
  using fake_ddr_read_after_write [of Map.empty "[]" 0 4 "0x80000FFC" "[1, 2, 3, 4, 5, 6, 7, 8]"]
  by (simp add: ddr_ok_def)

text \<open>
  Strobes: a byte whose strobe is zero keeps its old value, the others take the new one.
\<close>

theorem fake_ddr_strobe:
  assumes "ddr_ok ddr" and "length strb = length data" and "strb \<noteq> []"
  shows "\<exists>old ddr1 ddr2. ddr_read a (int (length data)) ddr = Inr (old, ddr1) \<and>
     ddr_read a (int (length data)) (ddr_write a data strb ddr) =
       Inr (map (\<lambda>i. if strb ! i \<noteq> 0 then data ! i else old ! i) [0 ..< length data], ddr2)"
proof -
  have w: "ddr_ok (ddr_write a data strb ddr)"
      "ddr_byte (ddr_write a data strb ddr) = put_bytes (ddr_byte ddr) a (map (\<lambda>(b, s). (b, s \<noteq> 0)) (zip data strb))"
    using ddr_write_loop_spec [OF assms(1), of a "zip data strb"] assms(2,3) by (simp_all add: ddr_write_as_memory)
  have "fst (ddr_read_loop a (length data) (ddr_write a data strb ddr)) =
      map (\<lambda>i. if strb ! i \<noteq> 0 then data ! i else bytes_at (ddr_byte ddr) a (length data) ! i) [0 ..< length data]"
    using fake_ddr.rd_abs [OF w(1)] assms(2) by (auto simp: w(2) bytes_at_def put_bytes_nth)
  then show ?thesis
    using fake_ddr.rd_abs [OF assms(1), of a "length data"] unfolding ddr_read_def
    by (metis (no_types) int_ops(1) nat_int not_less of_nat_0_le_iff prod.collapse)
qed

theorem fake_ddr_strobe_witness:
  "\<exists>old ddr1 ddr2. ddr_read 0 2 Map.empty = Inr (old, ddr1) \<and>
     ddr_read 0 2 (ddr_write 0 [7, 9] [0, 0xFF] Map.empty) = Inr ([old ! 0, 9], ddr2)"
  using fake_ddr_strobe [of Map.empty "[0, 0xFF]" "[7, 9]" 0] by (simp add: ddr_ok_def upt_rec)

end
