(* ===== verification/Hnf_Checker.thy ===== *)
theory Hnf_Checker
  imports Fake_Ddr Cosim_Protocol
begin

text \<open>
  The acceptance contract of the gem5 home node, \<^verbatim>\<open>HnfChecker\<close> of \<^verbatim>\<open>fake_gem5.py\<close>: what a response or a
  data flit must look like for each phase of a read or a write.  A violation raises
  \<^verbatim>\<open>ContractError\<close>; the text of the message is left out, except that formatting a missing field as a hexadecimal
  number raises TypeError before the intended error, and malformed hexadecimal data ValueError.
  The state change made before an exception is kept, for the caller catches \<^verbatim>\<open>ContractError\<close> and still holds
  the checker.
\<close>

datatype check_error = ContractError | Raised pyerr

type_synonym 's check = "check_error option \<times> 's"

definition LINE_BYTES :: int where "LINE_BYTES = 64"
definition BEAT_BYTES :: int where "BEAT_BYTES = 32"

datatype write_phase = WaitDbid | WaitData | WaitComp | PhaseDone

record hnf_read =
  hr_addr :: int
  hr_size :: int
  hr_beats_expected :: int
  hr_beats :: int
  hr_data :: "byte list"
  hr_done :: bool

record hnf_write =
  hw_addr :: int
  hw_size :: int
  hw_dbid :: "int option"
  hw_phase :: write_phase
  hw_done :: bool

record hnf_checker =
  hc_snf_id :: int
  hc_hnf_id :: int
  hc_ddr :: fake_ddr
  hc_reads :: "int \<rightharpoonup> hnf_read"
  hc_writes :: "int \<rightharpoonup> hnf_write"
  hc_completed_reads :: int
  hc_completed_writes :: int

definition checker_init :: "int \<Rightarrow> int \<Rightarrow> fake_ddr \<Rightarrow> hnf_checker" where
  "checker_init snf hnf ddr =
     \<lparr>hc_snf_id = snf, hc_hnf_id = hnf, hc_ddr = ddr, hc_reads = Map.empty, hc_writes = Map.empty,
      hc_completed_reads = 0, hc_completed_writes = 0\<rparr>"

definition expect_read :: "int \<Rightarrow> int \<Rightarrow> int \<Rightarrow> hnf_checker \<Rightarrow> hnf_checker" where
  "expect_read txnid addr sz c =
     c\<lparr>hc_reads := (hc_reads c)(txnid \<mapsto>
        \<lparr>hr_addr = addr, hr_size = sz, hr_beats_expected = (sz + BEAT_BYTES - 1) div BEAT_BYTES,
         hr_beats = 0, hr_data = [], hr_done = False\<rparr>)\<rparr>"

definition expect_write :: "int \<Rightarrow> int \<Rightarrow> int \<Rightarrow> hnf_checker \<Rightarrow> hnf_checker" where
  "expect_write txnid addr sz c =
     c\<lparr>hc_writes := (hc_writes c)(txnid \<mapsto>
        \<lparr>hw_addr = addr, hw_size = sz, hw_dbid = None, hw_phase = WaitDbid, hw_done = False\<rparr>)\<rparr>"

definition write_ready_for_data :: "int \<Rightarrow> hnf_checker \<Rightarrow> hnf_write option" where
  "write_ready_for_data txnid c =
     (case hc_writes c txnid of
        None \<Rightarrow> None
      | Some w \<Rightarrow> if hw_phase w = WaitData then Some w else None)"

definition put_write :: "int \<Rightarrow> hnf_write \<Rightarrow> hnf_checker \<Rightarrow> hnf_checker" where
  "put_write txnid w c = c\<lparr>hc_writes := (hc_writes c)(txnid \<mapsto> w)\<rparr>"

definition put_read :: "int \<Rightarrow> hnf_read \<Rightarrow> hnf_checker \<Rightarrow> hnf_checker" where
  "put_read txnid r c = c\<lparr>hc_reads := (hc_reads c)(txnid \<mapsto> r)\<rparr>"

definition complete_write :: "hnf_checker \<Rightarrow> hnf_checker" where
  "complete_write c = c\<lparr>hc_completed_writes := hc_completed_writes c + 1\<rparr>"

text \<open>The field checks at the head of \<^verbatim>\<open>on_rsp\<close>: the first that fails.\<close>

definition rsp_field_error :: "obj \<Rightarrow> hnf_checker \<Rightarrow> check_error option" where
  "rsp_field_error flit c =
     (if opt_int flit ''srcid'' \<noteq> Some (hc_snf_id c) then
        Some (if opt_int flit ''srcid'' = None then Raised TypeError else ContractError)
      else if opt_int flit ''tgtid'' \<noteq> Some (hc_hnf_id c) then
        Some (if opt_int flit ''tgtid'' = None then Raised TypeError else ContractError)
      else if opt_int flit ''resp'' \<noteq> Some 1 then Some ContractError
      else if opt_int flit ''respErr'' \<noteq> Some 0 then Some ContractError
      else if opt_int flit ''pcrdtype'' \<noteq> Some 0 then Some ContractError
      else None)"

definition hnf_on_rsp :: "obj \<Rightarrow> hnf_checker \<Rightarrow> hnf_checker check" where
  "hnf_on_rsp flit c =
     (case rsp_field_error flit c of
        Some e \<Rightarrow> (Some e, c)
      | None \<Rightarrow>
          let txnid = get_int flit ''txnid'' 0; opcode = get_int flit ''opcode'' 0
          in case hc_writes c txnid of
              None \<Rightarrow> (Some ContractError, c)
            | Some w \<Rightarrow>
                if opcode \<in> {0x06, 0x05} then
                  if hw_phase w \<noteq> WaitDbid then (Some ContractError, c)
                  else if get_int flit ''dbid'' 0 = 0 then (Some ContractError, c)
                  else
                    let w = w\<lparr>hw_dbid := opt_int flit ''dbid''\<rparr>
                    in if opcode = 0x05 then
                         (None, complete_write (put_write txnid (w\<lparr>hw_phase := PhaseDone, hw_done := True\<rparr>) c))
                       else (None, put_write txnid (w\<lparr>hw_phase := WaitData\<rparr>) c)
                else if opcode = 0x04 then
                  if hw_phase w \<noteq> WaitComp then (Some ContractError, c)
                  else if opt_int flit ''dbid'' \<noteq> hw_dbid w then (Some ContractError, c)
                  else (None, complete_write (put_write txnid (w\<lparr>hw_done := True\<rparr>) c))
                else (Some ContractError, c))"

text \<open>The fixed fields a CompData flit must have, in the order they are checked.\<close>

definition dat_wants :: "hnf_checker \<Rightarrow> (string \<times> int) list" where
  "dat_wants c =
     [(''srcid'', hc_snf_id c), (''tgtid'', hc_hnf_id c), (''HomeNID'', hc_hnf_id c), (''dbid'', 0),
      (''resp'', 1), (''respErr'', 0)]"

definition all_ones :: "byte list \<Rightarrow> bool" where
  "all_ones bs \<longleftrightarrow> list_all (\<lambda>b. b = 1) bs"

text \<open>The checks of \<^verbatim>\<open>on_dat\<close> up to the bookkeeping: the first that fails, or the beat's data.\<close>

definition dat_check :: "obj \<Rightarrow> hnf_read \<Rightarrow> hnf_checker \<Rightarrow> check_error + byte list" where
  "dat_check flit r c =
     (if hr_done r then Inl ContractError
      else if opt_int flit ''opcode'' \<noteq> Some 0x4 then
        Inl (if opt_int flit ''opcode'' = None then Raised TypeError else ContractError)
      else if list_ex (\<lambda>(field, want). opt_int flit field \<noteq> Some want) (dat_wants c) then Inl ContractError
      else
        let dataid = get_int flit ''dataid'' 0;
            want_len = min BEAT_BYTES (hr_size r - dataid * BEAT_BYTES)
        in if dataid \<noteq> hr_beats r then Inl ContractError
           else if opt_int flit ''beatOffset'' \<noteq> Some (dataid * BEAT_BYTES) then Inl ContractError
           else case fromhex (get_str flit ''data'' []) of
               Inl e \<Rightarrow> Inl (Raised e)
             | Inr data \<Rightarrow>
                 if int (length data) \<noteq> want_len then Inl ContractError
                 else case fromhex (get_str flit ''byteEnable'' []) of
                     Inl e \<Rightarrow> Inl (Raised e)
                   | Inr be \<Rightarrow>
                       if int (length be) \<noteq> want_len \<or> \<not> all_ones be then Inl ContractError
                       else case fromhex (get_str flit ''chunkValid'' []) of
                           Inl e \<Rightarrow> Inl (Raised e)
                         | Inr cv \<Rightarrow>
                             if int (length cv) \<noteq> (want_len + 7) div 8 \<or> \<not> all_ones cv then Inl ContractError
                             else Inr data)"

definition hnf_on_dat :: "obj \<Rightarrow> hnf_checker \<Rightarrow> hnf_checker check" where
  "hnf_on_dat flit c =
     (let txnid = get_int flit ''txnid'' 0
      in case hc_reads c txnid of
          None \<Rightarrow> (Some ContractError, c)
        | Some r \<Rightarrow>
            (case dat_check flit r c of
               Inl e \<Rightarrow> (Some e, c)
             | Inr data \<Rightarrow>
                 let r = r\<lparr>hr_beats := hr_beats r + 1, hr_data := hr_data r @ data\<rparr>;
                     is_last = (hr_beats r = hr_beats_expected r);
                     c = put_read txnid r c
                 in if get_bool flit ''last'' \<noteq> is_last then (Some ContractError, c)
                    else if \<not> is_last then (None, c)
                    else
                      let c = put_read txnid (r\<lparr>hr_done := True\<rparr>) c;
                          c = c\<lparr>hc_completed_reads := hc_completed_reads c + 1\<rparr>
                      in case ddr_read (hr_addr r) (hr_size r) (hc_ddr c) of
                          Inl e \<Rightarrow> (Some (Raised e), c)
                        | Inr (golden, ddr) \<Rightarrow>
                            let c = c\<lparr>hc_ddr := ddr\<rparr>
                            in if hr_data r \<noteq> golden then (Some ContractError, c) else (None, c)))"

section \<open>What the checker accepts\<close>

lemma all_ones_replicate [simp]: "all_ones (replicate n 1)"
  by (simp add: all_ones_def list_all_iff)

lemma rsp_field_ok:
  "rsp_field_error flit c = None \<longleftrightarrow>
     opt_int flit ''srcid'' = Some (hc_snf_id c) \<and> opt_int flit ''tgtid'' = Some (hc_hnf_id c) \<and>
     opt_int flit ''resp'' = Some 1 \<and> opt_int flit ''respErr'' = Some 0 \<and> opt_int flit ''pcrdtype'' = Some 0"
  by (simp add: rsp_field_error_def)

text \<open>
  What the home node accepts as a response, and what it does then: a response is accepted exactly when its ids and
  its resp, respErr and pcrdtype fields are right and it is a DBIDResp or CompDBIDResp with a nonzero dbid for a write that
  waits for one, or a Comp with the dbid of that write's DBIDResp for one whose data was sent; the write
  then moves to the next phase, every other write is untouched, and a rejected response changes nothing.
\<close>

theorem hnf_rsp_contract:
  "let txnid = get_int flit ''txnid'' 0; opcode = get_int flit ''opcode'' 0; (err, c') = hnf_on_rsp flit c in
     (err = None \<longleftrightarrow>
        rsp_field_error flit c = None \<and>
        (\<exists>w. hc_writes c txnid = Some w \<and>
           (opcode \<in> {0x05, 0x06} \<and> hw_phase w = WaitDbid \<and> get_int flit ''dbid'' 0 \<noteq> 0 \<or>
            opcode = 0x04 \<and> hw_phase w = WaitComp \<and> opt_int flit ''dbid'' = hw_dbid w))) \<and>
     (if err = None then
        (\<exists>w'. c' = (if opcode = 0x06 then c else complete_write c)\<lparr>hc_writes := (hc_writes c)(txnid \<mapsto> w')\<rparr> \<and>
           (if opcode = 0x06 then hw_phase w' = WaitData \<and> hw_dbid w' = opt_int flit ''dbid'' else hw_done w'))
      else c' = c)"
proof -
  have "complete_write (put_write t w c) = (complete_write c)\<lparr>hc_writes := (hc_writes c)(t \<mapsto> w)\<rparr>" for t w
    by (simp add: complete_write_def put_write_def)
  then show ?thesis
    by (auto simp: hnf_on_rsp_def Let_def put_write_def split: option.splits)
qed

text \<open>
  A Comp is accepted again after the write has completed: the checker leaves the phase at \<^verbatim>\<open>wait_comp\<close>, so the same
  Comp counts as a second completed write (reads, in contrast, are checked for data after completion).
\<close>

theorem hnf_duplicate_comp_accepted:
  assumes "hnf_on_rsp flit c = (None, c')" and "get_int flit ''opcode'' 0 = 0x04"
  shows "\<exists>c''. hnf_on_rsp flit c' = (None, c'') \<and> hc_completed_writes c'' = hc_completed_writes c + 2"
proof -
  let ?t = "get_int flit ''txnid'' 0"
  have f: "rsp_field_error flit c = None" using assms(1) by (auto simp: hnf_on_rsp_def split: option.splits)
  obtain w where w: "hc_writes c ?t = Some w" "hw_phase w = WaitComp" "opt_int flit ''dbid'' = hw_dbid w"
      "c' = complete_write (put_write ?t (w\<lparr>hw_done := True\<rparr>) c)"
    using assms f by (auto simp: hnf_on_rsp_def Let_def split: option.splits if_splits)
  have "rsp_field_error flit c' = None"
    using f by (simp add: w(4) rsp_field_ok complete_write_def put_write_def)
  moreover have "hc_writes c' ?t = Some (w\<lparr>hw_done := True\<rparr>)" by (simp add: w(4) complete_write_def put_write_def)
  ultimately show ?thesis
    using w(2,3) assms(2) by (simp add: hnf_on_rsp_def) (simp add: w(4) complete_write_def put_write_def)
qed

definition demo_rsp :: "int \<Rightarrow> int \<Rightarrow> obj" where
  "demo_rsp opcode dbid =
     [(''srcid'', JInt 0x80), (''tgtid'', JInt 0x90), (''txnid'', JInt 0x40000000), (''opcode'', JInt opcode),
      (''dbid'', JInt dbid), (''resp'', JInt 1), (''respErr'', JInt 0), (''pcrdtype'', JInt 0)]"

theorem hnf_duplicate_comp_accepted_witness:
  "let w = \<lparr>hw_addr = 0, hw_size = 64, hw_dbid = Some 1, hw_phase = WaitComp, hw_done = False\<rparr>;
       c = put_write 0x40000000 w (checker_init 0x80 0x90 Map.empty);
       c' = snd (hnf_on_rsp (demo_rsp 0x04 1) c)
   in \<exists>c''. hnf_on_rsp (demo_rsp 0x04 1) c' = (None, c'') \<and> hc_completed_writes c'' = 2"
proof -
  let ?w = "\<lparr>hw_addr = 0, hw_size = 64, hw_dbid = Some 1, hw_phase = WaitComp, hw_done = False\<rparr>"
  let ?c = "put_write 0x40000000 ?w (checker_init 0x80 0x90 Map.empty)"
  obtain c' where c': "hnf_on_rsp (demo_rsp 0x04 1) ?c = (None, c')"
    by (simp add: hnf_on_rsp_def rsp_field_error_def demo_rsp_def put_write_def checker_init_def opt_int_def get_int_def)
  have "get_int (demo_rsp 0x04 1) ''opcode'' 0 = 0x04" by (simp add: demo_rsp_def get_int_def)
  from hnf_duplicate_comp_accepted [OF c' this] c' show ?thesis
    unfolding Let_def by (simp add: put_write_def checker_init_def)
qed

text \<open>
  C37. Soundness of the read check: when the last beat of a read is accepted, the data of all its beats is exactly what the
  reference DDR holds at the address and size of the request, and the read counts as completed; from then on any
  further data for it is refused.
\<close>

theorem hnf_read_check_sound:
  assumes "hnf_on_dat flit c = (None, c')" and "hc_reads c' (get_int flit ''txnid'' 0) = Some r" and "hr_done r"
    and "ddr_ok (hc_ddr c)" and "get_int later ''txnid'' 0 = get_int flit ''txnid'' 0"
  shows "hr_data r = bytes_at (ddr_byte (hc_ddr c)) (hr_addr r) (nat (hr_size r)) \<and> 0 \<le> hr_size r \<and>
    hr_beats r = hr_beats_expected r \<and> hc_completed_reads c' = hc_completed_reads c + 1 \<and>
    hnf_on_dat later c' = (Some ContractError, c')"
proof -
  let ?t = "get_int flit ''txnid'' 0"
  obtain r0 data where r0: "hc_reads c ?t = Some r0" "dat_check flit r0 c = Inr data"
    using assms(1) by (auto simp: hnf_on_dat_def Let_def split: option.splits sum.splits)
  let ?r = "r0\<lparr>hr_beats := hr_beats r0 + 1, hr_data := hr_data r0 @ data\<rparr>"
  have nd: "\<not> hr_done r0" using r0(2) by (auto simp: dat_check_def split: if_splits)
  have last: "hr_beats r0 + 1 = hr_beats_expected r0"
    using assms(1,2,3) r0 nd by (auto simp: hnf_on_dat_def Let_def put_read_def split: if_splits)
  then obtain golden ddr where g: "ddr_read (hr_addr r0) (hr_size r0) (hc_ddr c) = Inr (golden, ddr)"
      "hr_data r0 @ data = golden" "r = ?r\<lparr>hr_done := True\<rparr>" "hc_completed_reads c' = hc_completed_reads c + 1"
    using assms(1,2,3) r0 nd
    by (auto simp: hnf_on_dat_def Let_def put_read_def split: if_splits sum.splits prod.splits)
  have "0 \<le> hr_size r0" "golden = bytes_at (ddr_byte (hc_ddr c)) (hr_addr r0) (nat (hr_size r0))"
    using g(1) fake_ddr.rd_abs [OF assms(4), of "hr_addr r0" "nat (hr_size r0)"] by (auto simp: ddr_read_def split: if_splits)
  moreover have "hnf_on_dat later c' = (Some ContractError, c')"
    using assms(2,3,5) by (simp add: hnf_on_dat_def dat_check_def)
  ultimately show ?thesis using g last by simp
qed

text \<open>The witness: a one-byte read of a fresh memory.\<close>

definition demo_dat :: "int \<Rightarrow> obj" where
  "demo_dat last_flag =
     [(''srcid'', JInt 0x80), (''tgtid'', JInt 0x90), (''HomeNID'', JInt 0x90), (''txnid'', JInt 1),
      (''opcode'', JInt 0x4), (''dbid'', JInt 0), (''resp'', JInt 1), (''respErr'', JInt 0), (''dataid'', JInt 0),
      (''beatOffset'', JInt 0), (''last'', JInt last_flag), (''data'', JStr ''00''), (''byteEnable'', JStr ''01''),
      (''chunkValid'', JStr ''01'')]"

theorem hnf_read_check_sound_witness:
  "let c = expect_read 1 0 1 (checker_init 0x80 0x90 Map.empty) in
   \<exists>c' r. hnf_on_dat (demo_dat 1) c = (None, c') \<and> hc_reads c' 1 = Some r \<and> hr_data r = [0] \<and>
     hnf_on_dat (demo_dat 0) c' = (Some ContractError, c')"
proof -
  let ?c = "expect_read 1 0 1 (checker_init 0x80 0x90 Map.empty)"
  have ok: "ddr_ok (hc_ddr ?c)" by (simp add: ddr_ok_def expect_read_def checker_init_def)
  obtain bs ddr where l: "ddr_read_loop 0 (Suc 0) Map.empty = (bs, ddr)" by (cases "ddr_read_loop 0 (Suc 0) Map.empty")
  have "ddr_byte Map.empty 0 = 0" by (simp add: ddr_byte_def page_base_def page_off_def PAGE_SIZE_def ddr_pattern_def)
  then have "bs = [0]"
    using fake_ddr.rd_abs [OF ok, of 0 "Suc 0"] l by (simp add: expect_read_def checker_init_def bytes_at_def)
  then have g: "ddr_read 0 1 Map.empty = Inr ([0], ddr)" using l by (simp add: ddr_read_def)
  have hex: "fromhex ''00'' = Inr [0]" "fromhex ''01'' = Inr [1]" by code_simp+
  obtain c' r where c': "hnf_on_dat (demo_dat 1) ?c = (None, c')" "hc_reads c' 1 = Some r" "hr_done r"
    by (simp add: hnf_on_dat_def dat_check_def dat_wants_def demo_dat_def get_int_def get_str_def get_bool_def opt_int_def
        expect_read_def checker_init_def BEAT_BYTES_def hex all_ones_def g put_read_def del: fromhex.simps)
  have t: "get_int (demo_dat b) ''txnid'' 0 = 1" for b by (simp add: demo_dat_def get_int_def)
  have r: "hr_addr r = 0" "hr_size r = 1"
    using c' by (auto simp: hnf_on_dat_def dat_check_def dat_wants_def demo_dat_def get_int_def get_str_def get_bool_def
        opt_int_def expect_read_def checker_init_def BEAT_BYTES_def hex all_ones_def g put_read_def simp del: fromhex.simps)
  from hnf_read_check_sound [OF c'(1) _ c'(3) ok, of "demo_dat 0"] show ?thesis
    unfolding Let_def using c' r \<open>ddr_byte Map.empty 0 = 0\<close>
    by (simp add: t bytes_at_def) (simp add: expect_read_def checker_init_def)
qed

end
