(* ===== verification/Fake_Gem5.thy ===== *)
theory Fake_Gem5
  imports Hnf_Checker
begin

text \<open>
  The gem5 side of the co-simulation as \<^verbatim>\<open>FakeGem5\<close> of \<^verbatim>\<open>fake_gem5.py\<close> plays it: the buffered line
  reader with its deadline, the message handler, the scenarios and the quantum barrier.

  The outside world is an argument: what the turns of the receive loop see (\<open>recv_turn\<close>), what each call of
  \<^verbatim>\<open>_recv_line\<close> returns (\<open>incoming\<close>), and at each turn of the main loop whether the wall clock has passed the
  deadline.  A list that runs out is a call that is still waiting.  Sending always succeeds; printing is left out.
\<close>

definition OPC_NONCOPYBACK_WRITEDATA :: int where "OPC_NONCOPYBACK_WRITEDATA = 0x03"

datatype scenario = SRead | SWrite | SMixed | SBypass | SAll

record gem5_args =
  ga_snf_id :: int
  ga_hnf_id :: int
  ga_quantum :: int
  ga_clk_ns :: string
  ga_scenario :: scenario
  ga_reads :: int
  ga_writes :: int

text \<open>The DDR is the checker's \<^const>\<open>hc_ddr\<close>, which the two objects share; \<open>fg_sent\<close> is what was sent.\<close>

record fake_gem5 =
  fg_args :: gem5_args
  fg_checker :: hnf_checker
  fg_outbox :: "obj list"
  fg_next_read_txn :: int
  fg_next_write_txn :: int
  fg_sync_cycle :: int
  fg_syncs :: int
  fg_scenario_done :: bool
  fg_write_verify :: "(int \<times> int \<times> byte list) list"
  fg_hello_acked :: bool
  fg_acked :: bool
  fg_remote_bye :: "string option"
  fg_pending_write_data :: "int option list"
  fg_bypass_verify_addr :: "int option"
  fg_bypass_verify_data :: "byte list option"
  fg_bypass_read_done :: bool
  fg_bypass_write_done :: bool
  fg_bypass_read_pkt :: "int option"
  fg_bypass_write_pkt :: "int option"
  fg_sent :: "obj list"

definition fake_gem5_init :: "gem5_args \<Rightarrow> fake_gem5" where
  "fake_gem5_init args =
     \<lparr>fg_args = args, fg_checker = checker_init (ga_snf_id args) (ga_hnf_id args) Map.empty, fg_outbox = [],
      fg_next_read_txn = 1, fg_next_write_txn = 0x40000000, fg_sync_cycle = 0, fg_syncs = 0,
      fg_scenario_done = False, fg_write_verify = [], fg_hello_acked = False, fg_acked = False,
      fg_remote_bye = None, fg_pending_write_data = [], fg_bypass_verify_addr = None,
      fg_bypass_verify_data = None, fg_bypass_read_done = False, fg_bypass_write_done = False,
      fg_bypass_read_pkt = None, fg_bypass_write_pkt = None, fg_sent = []\<rparr>"

definition fg_send :: "obj \<Rightarrow> fake_gem5 \<Rightarrow> fake_gem5" where
  "fg_send msg g = g\<lparr>fg_sent := fg_sent g @ [msg]\<rparr>"

definition hello_msg :: "gem5_args \<Rightarrow> obj" where
  "hello_msg args =
     [(''t'', JStr ''hello''), (''ver'', JInt PROTOCOL_VERSION), (''quantum_cycles'', JInt (ga_quantum args)),
      (''clk_period_ns'', JFloat (ga_clk_ns args)), (''snf_id'', JInt (ga_snf_id args)),
      (''hnf_id'', JInt (ga_hnf_id args))]"

definition fg_serve :: "fake_gem5 \<Rightarrow> fake_gem5" where
  "fg_serve g = fg_send (hello_msg (fg_args g)) g"

section \<open>Receiving a line\<close>

text \<open>
  One turn of the loop of \<^verbatim>\<open>_recv_line\<close> after the buffer was looked at: the deadline has passed, \<^verbatim>\<open>recv\<close> timed out, or it
  returned a chunk, empty when the peer has closed.  A blank line is dropped and the turn goes on to receive even when
  the buffer holds another line.
\<close>

datatype recv_turn = Expired | RecvTimeout | Chunk "byte list"

datatype received = RNone | RClosed | RLine "byte list" | RWaiting

function recv_line :: "bool \<Rightarrow> byte list \<Rightarrow> recv_turn list \<Rightarrow> received \<times> byte list \<times> recv_turn list" where
  "recv_line timeout rbuf turns =
     (let (line, rest) = split_line rbuf
      in if NL \<in> set rbuf \<and> line \<noteq> [] then (RLine line, rest, turns)
         else
           let rbuf = (if NL \<in> set rbuf then rest else rbuf)
           in case turns of
               [] \<Rightarrow> (RWaiting, rbuf, [])
             | Expired # ts \<Rightarrow> if timeout then (RNone, rbuf, ts) else recv_line timeout rbuf ts
             | RecvTimeout # ts \<Rightarrow> if timeout then recv_line timeout rbuf ts else (RNone, rbuf, ts)
             | Chunk c # ts \<Rightarrow> if c = [] then (RClosed, rbuf, ts) else recv_line timeout (rbuf @ c) ts)"
  by pat_completeness auto
termination by (relation "measure (\<lambda>(t, b, ts). length ts)") auto

declare recv_line.simps [simp del]

section \<open>Messages\<close>

text \<open>What a call of \<^verbatim>\<open>_recv_line\<close> gives its caller: \<^const>\<open>None\<close> or a message.\<close>

type_synonym incoming = "obj option"

definition closed_msg :: obj where
  "closed_msg = [(''t'', JStr ''peer_closed'')]"

definition fg_upd_ddr :: "fake_ddr \<Rightarrow> fake_gem5 \<Rightarrow> fake_gem5" where
  "fg_upd_ddr ddr g = g\<lparr>fg_checker := (fg_checker g)\<lparr>hc_ddr := ddr\<rparr>\<rparr>"

definition fg_ddr :: "fake_gem5 \<Rightarrow> fake_ddr" where
  "fg_ddr g = hc_ddr (fg_checker g)"

definition maybe_react :: "obj \<Rightarrow> fake_gem5 \<Rightarrow> fake_gem5" where
  "maybe_react flit g =
     (if opt_int flit ''opcode'' \<noteq> Some 0x06 then g
      else g\<lparr>fg_pending_write_data := fg_pending_write_data g @ [opt_int flit ''txnid'']\<rparr>)"

text \<open>The flit branch; the line printed after the check formats the txnid, which must not be missing.\<close>

definition handle_flit :: "obj \<Rightarrow> fake_gem5 \<Rightarrow> fake_gem5 check" where
  "handle_flit msg g =
     (let flit = get_obj msg ''flit'';
          check = (if opt_str msg ''ch'' = Some ''rsp'' then Some hnf_on_rsp
                   else if opt_str msg ''ch'' = Some ''dat'' then Some hnf_on_dat else None)
      in case check of
          None \<Rightarrow> (None, maybe_react flit g)
        | Some on \<Rightarrow>
            (case on flit (fg_checker g) of
               (Some e, c) \<Rightarrow> (Some e, g\<lparr>fg_checker := c\<rparr>)
             | (None, c) \<Rightarrow>
                 if opt_int flit ''txnid'' = None then (Some (Raised TypeError), g\<lparr>fg_checker := c\<rparr>)
                 else (None, maybe_react flit (g\<lparr>fg_checker := c\<rparr>))))"

definition handle_mem_read :: "obj \<Rightarrow> obj list \<Rightarrow> fake_gem5 \<Rightarrow> (obj list \<times> fake_gem5) check" where
  "handle_mem_read msg out g =
     (case and_then (item_int msg ''addr'') (\<lambda>addr. and_then (item_int msg ''len'') (\<lambda>n. ddr_read addr n (fg_ddr g))) of
        Inl e \<Rightarrow> (Some (Raised e), out, g)
      | Inr (data, ddr) \<Rightarrow>
          (case item_int msg ''id'' of
             Inl e \<Rightarrow> (Some (Raised e), out, fg_upd_ddr ddr g)
           | Inr ident \<Rightarrow>
               (None,
                out @ [[(''t'', JStr ''mem_data''), (''id'', JInt ident), (''data'', JStr (bytes_to_hex data)),
                        (''resp'', JInt 0)]],
                fg_upd_ddr ddr g)))"

definition handle_mem_write :: "obj \<Rightarrow> obj list \<Rightarrow> fake_gem5 \<Rightarrow> (obj list \<times> fake_gem5) check" where
  "handle_mem_write msg out g =
     (case and_then (item_int msg ''addr'') (\<lambda>addr.
           and_then (fromhex (get_str msg ''data'' [])) (\<lambda>data.
           and_then (fromhex (get_str msg ''strb'' [])) (\<lambda>strb. Inr (ddr_write addr data strb (fg_ddr g))))) of
        Inl e \<Rightarrow> (Some (Raised e), out, g)
      | Inr ddr \<Rightarrow>
          (case item_int msg ''id'' of
             Inl e \<Rightarrow> (Some (Raised e), out, fg_upd_ddr ddr g)
           | Inr ident \<Rightarrow>
               (None, out @ [[(''t'', JStr ''mem_resp''), (''id'', JInt ident), (''resp'', JInt 0)]], fg_upd_ddr ddr g)))"

text \<open>Before the bypass scenario has run, a response without a packet id equals the unset id, and
  \<^verbatim>\<open>len(None)\<close> raises TypeError.\<close>

definition handle_bypass_resp :: "obj \<Rightarrow> fake_gem5 \<Rightarrow> fake_gem5 check" where
  "handle_bypass_resp msg g =
     (if get_int msg ''resp'' 0 \<noteq> 0 then (Some ContractError, g)
      else if opt_int msg ''pkt'' = fg_bypass_read_pkt g then
        case fromhex (get_str msg ''data'' []) of
          Inl e \<Rightarrow> (Some (Raised e), g)
        | Inr got \<Rightarrow>
            (case (fg_bypass_verify_addr g, fg_bypass_verify_data g) of
               (Some addr, Some data) \<Rightarrow>
                 let (golden, ddr) = ddr_read_loop addr (length data) (fg_ddr g);
                     g = fg_upd_ddr ddr g
                 in if got \<noteq> golden then (Some ContractError, g) else (None, g\<lparr>fg_bypass_read_done := True\<rparr>)
             | _ \<Rightarrow> (Some (Raised TypeError), g))
      else if opt_int msg ''pkt'' = fg_bypass_write_pkt g then (None, g\<lparr>fg_bypass_write_done := True\<rparr>)
      else (None, g))"

definition keep_out :: "obj list \<Rightarrow> fake_gem5 check \<Rightarrow> (obj list \<times> fake_gem5) check" where
  "keep_out out r = (fst r, out, snd r)"

text \<open>\<^verbatim>\<open>handle(msg, quantum_msgs)\<close>: the exception raised, if any, the queue of answers and the state.\<close>

definition fg_handle :: "obj \<Rightarrow> obj list \<Rightarrow> fake_gem5 \<Rightarrow> (obj list \<times> fake_gem5) check" where
  "fg_handle msg out g =
     (let kind = opt_str msg ''t''
      in if kind = Some ''hello_ack'' then (None, out, g\<lparr>fg_hello_acked := True\<rparr>)
         else if kind = Some ''flit'' then keep_out out (handle_flit msg g)
         else if kind = Some ''mem_read'' then handle_mem_read msg out g
         else if kind = Some ''mem_write'' then handle_mem_write msg out g
         else if kind = Some ''bypass_resp'' then keep_out out (handle_bypass_resp msg g)
         else if kind = Some ''ack'' then (None, out, g\<lparr>fg_acked := True\<rparr>)
         else if kind = Some ''bye'' then (None, out, g\<lparr>fg_remote_bye := Some (get_str msg ''reason'' [])\<rparr>)
         else if kind = Some ''peer_closed'' then (None, out, g\<lparr>fg_remote_bye := Some ''peer closed''\<rparr>)
         else (None, out, g))"

section \<open>Scenarios\<close>

definition SCENARIO_BASE :: int where "SCENARIO_BASE = 0x80000000"

definition fg_req :: "gem5_args \<Rightarrow> int \<Rightarrow> int \<Rightarrow> int \<Rightarrow> int \<Rightarrow> obj" where
  "fg_req args txnid addr opcode retry =
     [(''qos'', JInt 0), (''srcid'', JInt (ga_hnf_id args)), (''tgtid'', JInt (ga_snf_id args)),
      (''txnid'', JInt txnid), (''opcode'', JInt opcode), (''AllowRetry'', JInt retry),
      (''addr'', JInt addr), (''size'', JInt LINE_BYTES), (''ReturnNid'', JInt (ga_hnf_id args)),
      (''order'', JInt 0), (''pcrdtype'', JInt 0), (''memattr'', JInt 0), (''snpattr'', JInt 0),
      (''expCompAck'', JBool False), (''traceTag'', JBool False), (''srcType'', JInt 0), (''ldid'', JInt 0)]"

definition fg_read_req :: "gem5_args \<Rightarrow> int \<Rightarrow> int \<Rightarrow> obj" where
  "fg_read_req args txnid addr = fg_req args txnid addr 0x04 0"

definition fg_write_req :: "gem5_args \<Rightarrow> int \<Rightarrow> int \<Rightarrow> obj" where
  "fg_write_req args txnid addr = fg_req args txnid addr 0x5C 1"

definition g2t_flit :: "string \<Rightarrow> obj \<Rightarrow> obj" where
  "g2t_flit ch flit = [(''t'', JStr ''flit''), (''ch'', JStr ch), (''dir'', JStr ''g2t''), (''flit'', JObj flit)]"

definition fg_enqueue :: "obj \<Rightarrow> fake_gem5 \<Rightarrow> fake_gem5" where
  "fg_enqueue msg g = g\<lparr>fg_outbox := fg_outbox g @ [msg]\<rparr>"

definition scenario_read :: "nat \<Rightarrow> fake_gem5 \<Rightarrow> fake_gem5" where
  "scenario_read i g =
     (let txn = fg_next_read_txn g; addr = SCENARIO_BASE + int i * LINE_BYTES
      in fg_enqueue (g2t_flit ''req'' (fg_read_req (fg_args g) txn addr))
           (g\<lparr>fg_next_read_txn := txn + 1, fg_checker := expect_read txn addr LINE_BYTES (fg_checker g)\<rparr>))"

definition scenario_write :: "nat \<Rightarrow> fake_gem5 \<Rightarrow> fake_gem5" where
  "scenario_write i g =
     (let txn = fg_next_write_txn g; addr = SCENARIO_BASE + 0x10000 + int i * LINE_BYTES
      in fg_enqueue (g2t_flit ''req'' (fg_write_req (fg_args g) txn addr))
           (g\<lparr>fg_next_write_txn := txn + 1, fg_checker := expect_write txn addr LINE_BYTES (fg_checker g),
              fg_write_verify := AList.update txn (addr, ddr_pattern (addr + 0x1234) (nat LINE_BYTES)) (fg_write_verify g)\<rparr>))"

definition scenario_bypass :: "fake_gem5 \<Rightarrow> fake_gem5" where
  "scenario_bypass g =
     (let addr = SCENARIO_BASE + 0x20000; data = ddr_pattern (addr + 99) 32
      in g\<lparr>fg_bypass_verify_addr := Some addr, fg_bypass_verify_data := Some data,
           fg_bypass_write_pkt := Some 1, fg_bypass_read_pkt := Some 2,
           fg_outbox := fg_outbox g @
             [[(''t'', JStr ''bypass_write''), (''pkt'', JInt 1), (''addr'', JInt addr),
               (''data'', JStr (bytes_to_hex data)), (''strb'', JStr (concat (replicate 32 ''01'')))],
              [(''t'', JStr ''bypass_read''), (''pkt'', JInt 2), (''addr'', JInt addr), (''len'', JInt 32)]]\<rparr>)"

definition run_scenario :: "fake_gem5 \<Rightarrow> fake_gem5" where
  "run_scenario g =
     (let name = ga_scenario (fg_args g);
          g = (if name \<in> {SRead, SAll, SMixed}
               then fold scenario_read [0 ..< nat (if name \<noteq> SMixed then ga_reads (fg_args g) else 3)] g else g);
          g = (if name \<in> {SWrite, SAll, SMixed}
               then fold scenario_write [0 ..< nat (if name \<noteq> SMixed then ga_writes (fg_args g) else 2)] g else g)
      in if name = SBypass then scenario_bypass g else g)"

section \<open>The quantum barrier\<close>

definition opt_json :: "int option \<Rightarrow> json" where
  "opt_json v = (case v of None \<Rightarrow> JNull | Some i \<Rightarrow> JInt i)"

definition fg_write_data :: "gem5_args \<Rightarrow> int \<Rightarrow> int option \<Rightarrow> byte list \<Rightarrow> obj" where
  "fg_write_data args txnid dbid data =
     [(''qos'', JInt 0), (''srcid'', JInt (ga_hnf_id args)), (''tgtid'', JInt (ga_snf_id args)),
      (''txnid'', JInt txnid), (''opcode'', JInt OPC_NONCOPYBACK_WRITEDATA), (''last'', JInt 1),
      (''HomeNID'', JInt (ga_hnf_id args)), (''dbid'', opt_json dbid), (''dataid'', JInt 0), (''resp'', JInt 0),
      (''respErr'', JInt 0), (''beatOffset'', JInt 0), (''byteEnable'', JStr (concat (replicate 64 ''01''))),
      (''chunkValid'', JStr (concat (replicate 8 ''01''))), (''data'', JStr (bytes_to_hex data))]"

text \<open>The write data of one pending DBIDResp; both tables are subscripted, so an unknown transaction raises KeyError.\<close>

definition flush_one :: "int option \<Rightarrow> fake_gem5 \<Rightarrow> fake_gem5 result" where
  "flush_one txnid g =
     (case txnid of
        None \<Rightarrow> Inl KeyError
      | Some t \<Rightarrow>
          (case hc_writes (fg_checker g) t of
             None \<Rightarrow> Inl KeyError
           | Some w \<Rightarrow>
               let g = g\<lparr>fg_checker := put_write t (w\<lparr>hw_phase := WaitComp\<rparr>) (fg_checker g)\<rparr>
               in (case map_of (fg_write_verify g) t of
                     None \<Rightarrow> Inl KeyError
                   | Some (addr, data) \<Rightarrow>
                       Inr (fg_enqueue (g2t_flit ''dat'' (fg_write_data (fg_args g) t (hw_dbid w) data)) g))))"

fun flush_write_data :: "int option list \<Rightarrow> fake_gem5 \<Rightarrow> fake_gem5 result" where
  "flush_write_data [] g = Inr (g\<lparr>fg_pending_write_data := []\<rparr>)"
| "flush_write_data (t # ts) g = and_then (flush_one t g) (flush_write_data ts)"

definition sync_msg :: "int \<Rightarrow> obj" where
  "sync_msg cycle = [(''t'', JStr ''sync''), (''cycle'', JInt cycle), (''tick'', JInt cycle)]"

definition send_outbox :: "fake_gem5 \<Rightarrow> fake_gem5" where
  "send_outbox g = (fold fg_send (fg_outbox g) g)\<lparr>fg_outbox := []\<rparr>"

datatype quantum_end = QAcked | QWaiting | QFailed check_error

fun quantum_loop :: "incoming list \<Rightarrow> obj list \<Rightarrow> fake_gem5 \<Rightarrow> quantum_end \<times> obj list \<times> fake_gem5 \<times> incoming list" where
  "quantum_loop [] out g = ((if fg_acked g then QAcked else QWaiting), out, g, [])"
| "quantum_loop (i # ins) out g =
     (if fg_acked g then (QAcked, out, g, i # ins)
      else case i of
          None \<Rightarrow> (QFailed ContractError, out, g, ins)
        | Some msg \<Rightarrow>
            (case fg_handle msg out g of
               (Some e, out, g) \<Rightarrow> (QFailed e, out, g, ins)
             | (None, out, g) \<Rightarrow> quantum_loop ins out g))"

fun verify_writes :: "(int \<times> int \<times> byte list) list \<Rightarrow> fake_gem5 \<Rightarrow> fake_gem5 check" where
  "verify_writes [] g = (None, g)"
| "verify_writes ((txn, addr, data) # ws) g =
     (let (got, ddr) = ddr_read_loop addr (nat LINE_BYTES) (fg_ddr g); g = fg_upd_ddr ddr g
      in if got \<noteq> data then (Some ContractError, g) else verify_writes ws g)"

text \<open>How a turn of the main loop ends: it goes on, returns an exit code, raises, or still waits for a message.\<close>

datatype turn_end = TGo | TReturn int | TRaise check_error | TWaiting

definition fg_complete :: "fake_gem5 \<Rightarrow> bool" where
  "fg_complete g \<longleftrightarrow>
     hc_completed_reads (fg_checker g) = int (card (dom (hc_reads (fg_checker g)))) \<and>
     hc_completed_writes (fg_checker g) = int (card (dom (hc_writes (fg_checker g)))) \<and>
     (ga_scenario (fg_args g) \<noteq> SBypass \<or> fg_bypass_read_done g \<and> fg_bypass_write_done g)"

definition verify_bypass :: "fake_gem5 \<Rightarrow> fake_gem5 check" where
  "verify_bypass g =
     (case (ga_scenario (fg_args g) = SBypass, fg_bypass_verify_addr g) of
        (True, Some addr) \<Rightarrow>
          (let (got, ddr) = ddr_read_loop addr 32 (fg_ddr g); g = fg_upd_ddr ddr g
           in if Some got \<noteq> fg_bypass_verify_data g then (Some ContractError, g) else (None, g))
      | _ \<Rightarrow> (None, g))"

text \<open>The end of a turn, once the peer has acknowledged the quantum.\<close>

definition turn_tail :: "fake_gem5 \<Rightarrow> turn_end \<times> fake_gem5" where
  "turn_tail g =
     (case fg_remote_bye g of
        Some reason \<Rightarrow> (TReturn (if reason \<noteq> ''peer closed'' then 0 else 1), g)
      | None \<Rightarrow>
          if fg_complete g then
            case verify_writes (fg_write_verify g) g of
              (Some e, g) \<Rightarrow> (TRaise e, g)
            | (None, g) \<Rightarrow>
                (case verify_bypass g of
                   (Some e, g) \<Rightarrow> (TRaise e, g)
                 | (None, g) \<Rightarrow> (TGo, g\<lparr>fg_scenario_done := True\<rparr>))
          else (TGo, g))"

definition main_turn :: "bool \<Rightarrow> incoming list \<Rightarrow> fake_gem5 \<Rightarrow> turn_end \<times> fake_gem5 \<times> incoming list" where
  "main_turn expired ins g =
     (if expired then (TRaise ContractError, g, ins)
      else case flush_write_data (fg_pending_write_data g) g of
          Inl e \<Rightarrow> (TRaise (Raised e), g, ins)
        | Inr g \<Rightarrow>
            let g = (fg_send (sync_msg (fg_sync_cycle g)) (send_outbox g))\<lparr>fg_acked := False\<rparr>
            in case quantum_loop ins [] g of
                (QWaiting, out, g, ins) \<Rightarrow> (TWaiting, g, ins)
              | (QFailed e, out, g, ins) \<Rightarrow> (TRaise e, g, ins)
              | (QAcked, out, g, ins) \<Rightarrow>
                  let g = fold fg_send out g;
                      g = g\<lparr>fg_sync_cycle := fg_sync_cycle g + ga_quantum (fg_args g), fg_syncs := fg_syncs g + 1\<rparr>;
                      (r, g) = turn_tail g
                  in (r, g, ins))"

text \<open>Exit code 0 or 1, an exception nobody catches, or still running; every turn reads the clock once.\<close>

datatype verdict = Exit int | Crash check_error | StillRunning

definition bye_msg :: "string \<Rightarrow> obj" where
  "bye_msg reason = [(''t'', JStr ''bye''), (''reason'', JStr reason)]"

fun main_loop :: "bool list \<Rightarrow> incoming list \<Rightarrow> fake_gem5 \<Rightarrow> verdict \<times> fake_gem5" where
  "main_loop [] ins g =
     (if fg_scenario_done g then (Exit 0, fg_send (bye_msg ''workload exit'') g) else (StillRunning, g))"
| "main_loop (expired # clock) ins g =
     (if fg_scenario_done g then (Exit 0, fg_send (bye_msg ''workload exit'') g)
      else case main_turn expired ins g of
               (TGo, g, ins) \<Rightarrow> main_loop clock ins g
             | (TReturn n, g, ins) \<Rightarrow> (Exit n, g)
             | (TRaise ContractError, g, ins) \<Rightarrow> (Exit 1, fg_send (bye_msg ''contract'') g)
             | (TRaise (Raised e), g, ins) \<Rightarrow> (Crash (Raised e), g)
             | (TWaiting, g, ins) \<Rightarrow> (StillRunning, g))"

text \<open>The loop that waits for \<^verbatim>\<open>hello_ack\<close>; its answers go to the outbox.\<close>

fun hello_loop :: "incoming list \<Rightarrow> fake_gem5 \<Rightarrow> verdict option \<times> fake_gem5 \<times> incoming list" where
  "hello_loop [] g = ((if fg_hello_acked g then None else Some StillRunning), g, [])"
| "hello_loop (i # ins) g =
     (if fg_hello_acked g then (None, g, i # ins)
      else case i of
          None \<Rightarrow> (Some (Exit 1), g, ins)
        | Some msg \<Rightarrow>
            if opt_str msg ''t'' \<in> {Some ''peer_closed'', Some ''bye''} then (Some (Exit 1), g, ins)
            else case fg_handle msg (fg_outbox g) g of
                (Some e, out, g) \<Rightarrow> (Some (Crash e), g, ins)
              | (None, out, g) \<Rightarrow> hello_loop ins (g\<lparr>fg_outbox := out\<rparr>))"

definition fg_run :: "bool list \<Rightarrow> incoming list \<Rightarrow> fake_gem5 \<Rightarrow> verdict \<times> fake_gem5" where
  "fg_run clock ins g =
     (case hello_loop ins (fg_serve g) of
        (Some v, g, ins) \<Rightarrow> (v, g)
      | (None, g, ins) \<Rightarrow> main_loop clock ins (run_scenario g))"

section \<open>The reader\<close>

text \<open>The bytes the turns still bring, and a stream without blank lines.\<close>

fun turn_bytes :: "recv_turn list \<Rightarrow> byte list" where
  "turn_bytes [] = []"
| "turn_bytes (Chunk c # ts) = c @ turn_bytes ts"
| "turn_bytes (_ # ts) = turn_bytes ts"

definition no_blank :: "byte list \<Rightarrow> bool" where
  "no_blank bs \<longleftrightarrow> successively (\<lambda>a b. a \<noteq> NL \<or> b \<noteq> NL) (NL # bs)"

definition reader_quiet :: "byte list \<times> recv_turn list \<Rightarrow> bool" where
  "reader_quiet s \<longleftrightarrow> Expired \<notin> set (snd s) \<and> Chunk [] \<notin> set (snd s) \<and> no_blank (fst s @ turn_bytes (snd s))"

definition recv_line_opt :: "byte list \<times> recv_turn list \<Rightarrow> byte list option \<times> byte list \<times> recv_turn list" where
  "recv_line_opt s = (case recv_line True (fst s) (snd s) of (RLine l, s') \<Rightarrow> (Some l, s') | (_, s') \<Rightarrow> (None, s'))"

lemma no_blank_line: "no_blank (l @ NL # r) \<Longrightarrow> l \<noteq> [] \<and> no_blank r"
  by (cases l) (auto simp: no_blank_def successively_append_iff successively_Cons)

lemma recv_line_buffered:
  "NL \<notin> set l \<Longrightarrow> l \<noteq> [] \<Longrightarrow> recv_line t (l @ NL # r) ts = (RLine l, r, ts)"
  by (simp add: recv_line.simps [of _ "l @ NL # r"])

lemma recv_line_quiet:
  "reader_quiet (buf, ts) \<Longrightarrow>
     (case recv_line True buf ts of
        (RLine l, s') \<Rightarrow>
          lines (buf @ turn_bytes ts) = l # lines (fst s' @ turn_bytes (snd s')) \<and>
          length (fst s' @ turn_bytes (snd s')) < length (buf @ turn_bytes ts) \<and> reader_quiet s'
      | _ \<Rightarrow> lines (buf @ turn_bytes ts) = [])"
proof (induction ts arbitrary: buf)
  case Nil
  show ?case
  proof (cases buf rule: drain_cases)
    case short
    then show ?thesis by (simp add: recv_line.simps [of _ buf] split_beta)
  next
    case (line l r)
    then show ?thesis using recv_line_buffered [of l True r "[]"] Nil lines_line [of l r] no_blank_line [of l r]
      by (auto simp: reader_quiet_def)
  qed
next
  case (Cons t us)
  show ?case
  proof (cases buf rule: drain_cases)
    case short
    show ?thesis
    proof (cases t)
      case RecvTimeout
      then have "recv_line True buf (t # us) = recv_line True buf us"
        using short RecvTimeout by (subst recv_line.simps) (simp add: split_beta)
      moreover have "reader_quiet (buf, us)" using Cons.prems RecvTimeout by (simp add: reader_quiet_def)
      ultimately show ?thesis using Cons.IH [of buf] RecvTimeout by (simp only: turn_bytes.simps)
    next
      case (Chunk c)
      then have "recv_line True buf (t # us) = recv_line True (buf @ c) us"
        using short Cons.prems Chunk by (subst recv_line.simps) (auto simp: split_beta reader_quiet_def)
      moreover have "reader_quiet (buf @ c, us)" using Cons.prems Chunk by (simp add: reader_quiet_def)
      ultimately show ?thesis using Cons.IH [of "buf @ c"] Chunk by (simp only: turn_bytes.simps append_assoc)
    qed (use Cons.prems in \<open>simp add: reader_quiet_def\<close>)
  next
    case (line l r)
    then show ?thesis
      using recv_line_buffered [of l True r "t # us"] Cons.prems lines_line [of l "r @ turn_bytes (t # us)"]
        no_blank_line [of l "r @ turn_bytes (t # us)"]
      by (auto simp: reader_quiet_def)
  qed
qed

interpretation gem5_reader: line_reader recv_line_opt "\<lambda>(buf, ts). buf @ turn_bytes ts" reader_quiet
proof unfold_locales
  fix s :: "byte list \<times> recv_turn list" and l s'
  assume q: "reader_quiet s"
  show "recv_line_opt s = (Some l, s') \<Longrightarrow>
      lines (case s of (buf, ts) \<Rightarrow> buf @ turn_bytes ts) = l # lines (case s' of (buf, ts) \<Rightarrow> buf @ turn_bytes ts) \<and>
      length (case s' of (buf, ts) \<Rightarrow> buf @ turn_bytes ts) < length (case s of (buf, ts) \<Rightarrow> buf @ turn_bytes ts) \<and>
      reader_quiet s'"
    using recv_line_quiet [of "fst s" "snd s"] q
    by (auto simp: recv_line_opt_def split_beta split: prod.splits received.splits)
  show "recv_line_opt s = (None, s') \<Longrightarrow> lines (case s of (buf, ts) \<Rightarrow> buf @ turn_bytes ts) = []"
    using recv_line_quiet [of "fst s" "snd s"] q
    by (auto simp: recv_line_opt_def split_beta split: prod.splits received.splits)
qed

lemma no_blank_messages: "list_all json_ok ms \<Longrightarrow> no_blank (concat (map encode_msg ms))"
proof (induction ms)
  case (Cons m ms)
  obtain l where l: "encode_msg m = l @ [NL]" "NL \<notin> set l" "l \<noteq> []"
    using encode_msg_line [of m] Cons.prems by auto
  then have "successively (\<lambda>a b. a \<noteq> NL \<or> b \<noteq> NL) l"
    by (auto simp: successively_conv_nth in_set_conv_nth)
  moreover have "hd l \<noteq> NL" "last l \<noteq> NL" using l(2,3) by (metis list.set_sel(1), metis last_in_set)
  ultimately show ?case
    using l Cons by (cases l) (auto simp: no_blank_def successively_append_iff successively_Cons)
qed (simp add: no_blank_def)

text \<open>
  The stand-in's reader delivers: whatever messages the testbench encodes, however its socket cuts them into
  chunks and however often \<^verbatim>\<open>recv\<close> times out in between, successive calls of \<^verbatim>\<open>_recv_line\<close>
  within their deadline return exactly these messages, in order.
\<close>

theorem gem5_reader_delivers:
  assumes "list_all json_ok ms" and "turn_bytes turns = concat (map encode_msg ms)"
    and "Expired \<notin> set turns" and "Chunk [] \<notin> set turns" and "length (turn_bytes turns) < n"
  shows "decode_lines (read_all recv_line_opt n ([], turns)) = ms"
  using gem5_reader.read_all_messages [of "([], turns)" ms n] assms no_blank_messages [OF assms(1)]
  by (simp add: reader_quiet_def)

theorem gem5_reader_delivers_witness:
  "let ms = [JObj [(''t'', JStr ''hello_ack'')], JObj [(''t'', JStr ''ack'')]];
       bs = concat (map encode_msg ms)
   in decode_lines (read_all recv_line_opt (length bs + 1) ([], [RecvTimeout, Chunk [hd bs], RecvTimeout, Chunk (tl bs)])) = ms"
proof -
  let ?ms = "[JObj [(''t'', JStr ''hello_ack'')], JObj [(''t'', JStr ''ack'')]]"
  let ?bs = "concat (map encode_msg ?ms)"
  have ok: "list_all json_ok ?ms" by simp
  then obtain l where "encode_msg (hd ?ms) = l @ [NL]" "l \<noteq> []" using encode_msg_line [of "hd ?ms"] by auto
  then have "?bs = hd ?bs # tl ?bs" "tl ?bs \<noteq> []" by (cases l; simp)+
  then show ?thesis
    unfolding Let_def by (intro gem5_reader_delivers [OF ok]) (auto simp del: encode_msg_def)
qed

section \<open>What the handler keeps\<close>

text \<open>The part of the state that no message changes.\<close>

definition fg_fixed :: "fake_gem5 \<Rightarrow> gem5_args \<times> bool \<times> (int \<times> int \<times> byte list) list \<times> int \<times> int \<times> int option \<times> byte list option" where
  "fg_fixed g = (fg_args g, fg_scenario_done g, fg_write_verify g, fg_sync_cycle g, fg_syncs g,
     fg_bypass_verify_addr g, fg_bypass_verify_data g)"

definition fg_keeps :: "fake_gem5 \<Rightarrow> fake_gem5 \<Rightarrow> bool" where
  "fg_keeps g g' \<longleftrightarrow> fg_fixed g' = fg_fixed g \<and> (ddr_ok (fg_ddr g) \<longrightarrow> ddr_ok (fg_ddr g'))"

lemma fg_keeps_refl [simp]: "fg_keeps g g"
  by (simp add: fg_keeps_def)

lemma fg_keeps_trans: "fg_keeps g g' \<Longrightarrow> fg_keeps g' g'' \<Longrightarrow> fg_keeps g g''"
  by (simp add: fg_keeps_def)

lemma ddr_read_ok: "ddr_ok ddr \<Longrightarrow> ddr_read a n ddr = Inr (bs, ddr') \<Longrightarrow> ddr_ok ddr' \<and> ddr_byte ddr' = ddr_byte ddr"
  using ddr_read_loop_spec [of ddr a "nat n" bs ddr'] by (auto simp: ddr_read_def split: if_splits)

lemma ddr_write_ok: "ddr_ok ddr \<Longrightarrow> ddr_ok (ddr_write a data strb ddr)"
  by (simp add: ddr_write_as_memory ddr_write_loop_spec)

lemma hnf_on_rsp_ddr: "hc_ddr (snd (hnf_on_rsp flit c)) = hc_ddr c"
  by (simp add: hnf_on_rsp_def Let_def complete_write_def put_write_def split: option.split)

lemma hnf_on_dat_ddr: "ddr_ok (hc_ddr c) \<Longrightarrow> ddr_ok (hc_ddr (snd (hnf_on_dat flit c)))"
  by (auto simp: hnf_on_dat_def Let_def put_read_def dest: ddr_read_ok split: option.split sum.split prod.split)

lemma handle_flit_keeps: "fg_keeps g (snd (handle_flit msg g))"
  using hnf_on_rsp_ddr [of "get_obj msg ''flit''" "fg_checker g"] hnf_on_dat_ddr [of "fg_checker g" "get_obj msg ''flit''"]
  by (auto simp: handle_flit_def Let_def maybe_react_def fg_keeps_def fg_fixed_def fg_ddr_def split: option.split prod.splits)

lemma upd_ddr_keeps: "(ddr_ok (fg_ddr g) \<Longrightarrow> ddr_ok ddr) \<Longrightarrow> fg_keeps g (fg_upd_ddr ddr g)"
  by (simp add: fg_keeps_def fg_fixed_def fg_upd_ddr_def fg_ddr_def)

lemma handle_mem_read_keeps: "fg_keeps g (snd (snd (handle_mem_read msg out g)))"
proof (cases "item_int msg ''addr''")
  case (Inr a)
  show ?thesis
  proof (cases "and_then (item_int msg ''len'') (\<lambda>n. ddr_read a n (fg_ddr g))")
    case read: (Inr r)
    then have "ddr_ok (fg_ddr g) \<Longrightarrow> ddr_ok (snd r)" using ddr_read_ok [of "fg_ddr g" a] by (cases r) auto
    then show ?thesis
      using Inr read upd_ddr_keeps [of g "snd r"] unfolding handle_mem_read_def by (cases r) (simp split: sum.split)
  qed (simp add: handle_mem_read_def Inr)
qed (simp add: handle_mem_read_def)

lemma handle_mem_write_keeps: "fg_keeps g (snd (snd (handle_mem_write msg out g)))"
proof -
  let ?r = "and_then (item_int msg ''addr'') (\<lambda>addr. and_then (fromhex (get_str msg ''data'' [])) (\<lambda>data.
     and_then (fromhex (get_str msg ''strb'' [])) (\<lambda>strb. Inr (ddr_write addr data strb (fg_ddr g)))))"
  have ok: "ddr_ok (fg_ddr g) \<Longrightarrow> ?r = Inr ddr \<Longrightarrow> ddr_ok ddr" for ddr
    by (elim and_then_Inr) (auto simp: ddr_write_ok simp del: fromhex.simps)
  show ?thesis
  proof (cases ?r)
    case (Inr ddr)
    then show ?thesis using upd_ddr_keeps [of g ddr] ok [OF _ Inr] unfolding handle_mem_write_def
      by (simp only: sum.case) (simp split: sum.split)
  qed (simp add: handle_mem_write_def)
qed

lemma handle_bypass_resp_keeps: "fg_keeps g (snd (handle_bypass_resp msg g))"
  by (auto simp: handle_bypass_resp_def Let_def fg_keeps_def fg_fixed_def fg_upd_ddr_def fg_ddr_def
      dest: ddr_read_loop_spec split: sum.split prod.split option.split)

lemmas handle_parts = handle_flit_keeps handle_mem_read_keeps handle_mem_write_keeps handle_bypass_resp_keeps

lemma fg_handle_keeps: "fg_handle msg out g = (e, out', g') \<Longrightarrow> fg_keeps g g'"
proof -
  have fields: "fg_keeps g (g\<lparr>fg_hello_acked := True\<rparr>)" "fg_keeps g (g\<lparr>fg_acked := True\<rparr>)"
    "fg_keeps g (g\<lparr>fg_remote_bye := b\<rparr>)" for b
    by (simp_all add: fg_keeps_def fg_fixed_def fg_ddr_def)
  have "fg_keeps g (snd (snd (fg_handle msg out g)))"
    by (simp add: fg_handle_def Let_def keep_out_def handle_parts fields)
  then show "fg_handle msg out g = (e, out', g') \<Longrightarrow> fg_keeps g g'" by simp
qed

lemma quantum_loop_keeps: "quantum_loop ins out g = (r, out', g', ins') \<Longrightarrow> fg_keeps g g'"
proof (induction ins out g rule: quantum_loop.induct)
  case (2 i ins out g)
  show ?case
  proof (cases "fg_acked g \<or> i = None")
    case False
    then obtain msg where i: "i = Some msg" "\<not> fg_acked g" by auto
    obtain e out1 g1 where h: "fg_handle msg out g = (e, out1, g1)" by (cases "fg_handle msg out g")
    show ?thesis
    proof (cases e)
      case None
      then show ?thesis
        using "2.prems" "2.IH" [OF i(2) i(1) h [symmetric] None refl] i h fg_keeps_trans [OF fg_handle_keeps [OF h]] by auto
    qed (use "2.prems" i h fg_handle_keeps [OF h] in auto)
  qed (use 2 in \<open>auto split: if_splits\<close>)
qed simp

lemma fold_send: "fold fg_send ms g = g\<lparr>fg_sent := fg_sent g @ ms\<rparr>"
  by (induction ms arbitrary: g) (simp_all add: fg_send_def)

lemma flush_keeps: "flush_write_data ts g = Inr g' \<Longrightarrow> fg_keeps g g'"
proof (induction ts arbitrary: g)
  case Nil
  then show ?case by (auto simp: fg_keeps_def fg_fixed_def fg_ddr_def)
next
  case (Cons t ts)
  then obtain g1 where 1: "flush_one t g = Inr g1" "flush_write_data ts g1 = Inr g'" by auto
  have "fg_keeps g g1"
    using 1(1) by (auto simp: flush_one_def Let_def fg_keeps_def fg_fixed_def fg_ddr_def fg_enqueue_def put_write_def
        split: option.splits)
  then show ?case using Cons.IH [OF 1(2)] fg_keeps_trans by blast
qed

section \<open>The verdict\<close>

definition fg_verified :: "fake_gem5 \<Rightarrow> bool" where
  "fg_verified g \<longleftrightarrow>
     fg_complete g \<and>
     list_all (\<lambda>(txn, addr, data). bytes_at (ddr_byte (fg_ddr g)) addr 64 = data) (fg_write_verify g) \<and>
     (if ga_scenario (fg_args g) = SBypass \<and> fg_bypass_verify_addr g \<noteq> None
      then fg_bypass_verify_data g = Some (bytes_at (ddr_byte (fg_ddr g)) (the (fg_bypass_verify_addr g)) 32)
      else True)"

text \<open>Verification reads the DDR, which creates pages but changes no byte and nothing else of the state.\<close>

definition same_but_pages :: "fake_gem5 \<Rightarrow> fake_gem5 \<Rightarrow> bool" where
  "same_but_pages g g' \<longleftrightarrow> (\<exists>ddr. g' = fg_upd_ddr ddr g \<and> ddr_ok ddr \<and> ddr_byte ddr = ddr_byte (fg_ddr g))"

lemma fg_upd_twice: "fg_upd_ddr d (fg_upd_ddr d' g) = fg_upd_ddr d g" "fg_ddr (fg_upd_ddr d g) = d"
  by (simp_all add: fg_upd_ddr_def fg_ddr_def)

lemma upd_same [simp]: "fg_upd_ddr (fg_ddr g) g = g"
  by (simp add: fg_upd_ddr_def fg_ddr_def)

lemma same_but_pages_trans: "same_but_pages g g' \<Longrightarrow> same_but_pages g' g'' \<Longrightarrow> same_but_pages g g''"
  by (auto simp: same_but_pages_def fg_upd_twice)

lemma read_same: "ddr_ok (fg_ddr g) \<Longrightarrow> ddr_read_loop a n (fg_ddr g) = (bs, ddr) \<Longrightarrow>
   same_but_pages g (fg_upd_ddr ddr g) \<and> bs = bytes_at (ddr_byte (fg_ddr g)) a n"
  using ddr_read_loop_spec [of "fg_ddr g" a n bs ddr] by (auto simp: same_but_pages_def)

lemma same_but_pages_ddr:
  "same_but_pages g g' \<Longrightarrow> ddr_ok (fg_ddr g') \<and> ddr_byte (fg_ddr g') = ddr_byte (fg_ddr g)"
  by (auto simp: same_but_pages_def fg_upd_twice)

lemma verify_writes_ok:
  "ddr_ok (fg_ddr g) \<Longrightarrow> verify_writes ws g = (None, g') \<Longrightarrow>
     same_but_pages g g' \<and> list_all (\<lambda>(txn, addr, data). bytes_at (ddr_byte (fg_ddr g)) addr 64 = data) ws"
proof (induction ws arbitrary: g)
  case Nil
  then show ?case unfolding same_but_pages_def by (auto intro!: exI [of _ "fg_ddr g"])
next
  case (Cons w ws)
  obtain txn addr data where w: "w = (txn, addr, data)" by (cases w)
  obtain got ddr where r: "ddr_read_loop addr 64 (fg_ddr g) = (got, ddr)" by (cases "ddr_read_loop addr 64 (fg_ddr g)")
  have s: "same_but_pages g (fg_upd_ddr ddr g)" "got = bytes_at (ddr_byte (fg_ddr g)) addr 64"
    using read_same [OF Cons.prems(1) r] by blast+
  then have d: "ddr_ok (fg_ddr (fg_upd_ddr ddr g))" "ddr_byte (fg_ddr (fg_upd_ddr ddr g)) = ddr_byte (fg_ddr g)"
    using same_but_pages_ddr [OF s(1)] by simp_all
  have "got = data" "verify_writes ws (fg_upd_ddr ddr g) = (None, g')"
    using Cons.prems(2) r by (auto simp: w LINE_BYTES_def Let_def split: if_splits)
  then show ?case using Cons.IH [OF d(1)] d(2) s same_but_pages_trans by (auto simp: w)
qed

lemma verify_bypass_ok:
  assumes "ddr_ok (fg_ddr g)" "verify_bypass g = (None, g')"
  shows "same_but_pages g g' \<and>
    (if ga_scenario (fg_args g) = SBypass \<and> fg_bypass_verify_addr g \<noteq> None
     then fg_bypass_verify_data g = Some (bytes_at (ddr_byte (fg_ddr g)) (the (fg_bypass_verify_addr g)) 32)
     else True)"
proof (cases "ga_scenario (fg_args g) = SBypass \<and> fg_bypass_verify_addr g \<noteq> None")
  case True
  then obtain addr where a: "fg_bypass_verify_addr g = Some addr" by auto
  obtain got ddr where r: "ddr_read_loop addr 32 (fg_ddr g) = (got, ddr)" by (cases "ddr_read_loop addr 32 (fg_ddr g)")
  then show ?thesis using assms(2) read_same [OF assms(1) r] True a
    by (auto simp: verify_bypass_def Let_def fg_upd_ddr_def split: if_splits)
next
  case False
  then have "g' = g" using assms(2) by (auto simp: verify_bypass_def split: option.splits bool.splits)
  then show ?thesis using False assms(1) unfolding same_but_pages_def by (auto intro!: exI [of _ "fg_ddr g"])
qed

lemma same_but_pages_verified:
  "same_but_pages g g' \<Longrightarrow> fg_verified (g'\<lparr>fg_scenario_done := True\<rparr>) = fg_verified g"
  by (auto simp: same_but_pages_def fg_verified_def fg_complete_def fg_upd_ddr_def fg_ddr_def)

lemma turn_tail_ok:
  assumes "ddr_ok (fg_ddr g)" "\<not> fg_scenario_done g" "turn_tail g = (r, g')" "r = TGo"
  shows "ddr_ok (fg_ddr g') \<and> (\<not> fg_scenario_done g' \<or> fg_verified g')"
proof (cases "fg_remote_bye g = None \<and> fg_complete g")
  case True
  obtain e1 g1 where v: "verify_writes (fg_write_verify g) g = (e1, g1)" by (cases "verify_writes (fg_write_verify g) g")
  obtain e2 g2 where b: "verify_bypass g1 = (e2, g2)" by (cases "verify_bypass g1")
  have e: "e1 = None" "e2 = None" "g' = g2\<lparr>fg_scenario_done := True\<rparr>"
    using assms(3,4) True v b by (auto simp: turn_tail_def split: option.splits)
  note v1 = verify_writes_ok [OF assms(1) v [unfolded e]]
  then have d1: "ddr_ok (fg_ddr g1)" "ddr_byte (fg_ddr g1) = ddr_byte (fg_ddr g)" using same_but_pages_ddr by blast+
  note b1 = verify_bypass_ok [OF d1(1) b [unfolded e]]
  have "fg_verified g"
    using True v1 b1 d1(2) by (auto simp: fg_verified_def same_but_pages_def fg_upd_ddr_def)
  moreover have "same_but_pages g g2" using v1 b1 same_but_pages_trans by blast
  ultimately show ?thesis
    using same_but_pages_verified [of g g2] same_but_pages_ddr [of g g2] by (simp add: e fg_ddr_def)
next
  case False
  then show ?thesis using assms by (auto simp: turn_tail_def split: option.splits if_splits)
qed

lemma fold_send_ddr: "fg_ddr (fold fg_send ms g) = fg_ddr g"
  by (simp add: fold_send fg_ddr_def)

lemma main_turn_ok:
  assumes "ddr_ok (fg_ddr g)" "\<not> fg_scenario_done g" "main_turn expired ins g = (r, g', ins')"
  shows "(r \<noteq> TGo \<or> ddr_ok (fg_ddr g') \<and> (\<not> fg_scenario_done g' \<or> fg_verified g')) \<and>
    (r \<noteq> TReturn 0 \<or> fg_remote_bye g' \<noteq> None)"
proof (cases "expired \<or> (\<exists>e. flush_write_data (fg_pending_write_data g) g = Inl e)")
  case True
  then show ?thesis using assms(3) by (cases expired) (auto simp: main_turn_def)
next
  case False
  then obtain g1 where f: "flush_write_data (fg_pending_write_data g) g = Inr g1" "\<not> expired"
    by (cases "flush_write_data (fg_pending_write_data g) g") auto
  define g2 where "g2 = (fg_send (sync_msg (fg_sync_cycle g1)) (send_outbox g1))\<lparr>fg_acked := False\<rparr>"
  obtain q out g3 ins3 where q: "quantum_loop ins [] g2 = (q, out, g3, ins3)" by (cases "quantum_loop ins [] g2")
  have k: "fg_keeps g g1" "fg_keeps g1 g2" "fg_keeps g2 g3"
    using flush_keeps [OF f(1)] quantum_loop_keeps [OF q]
    by (simp_all add: g2_def fg_keeps_def fg_fixed_def fg_ddr_def fg_send_def send_outbox_def fold_send)
  show ?thesis
  proof (cases q)
    case QAcked
    define g4 where "g4 = (fold fg_send out g3)\<lparr>fg_sync_cycle := fg_sync_cycle g3 + ga_quantum (fg_args g3),
        fg_syncs := fg_syncs g3 + 1\<rparr>"
    have g4: "ddr_ok (fg_ddr g4)" "\<not> fg_scenario_done g4"
      using k assms(1,2) by (simp_all add: g4_def fg_keeps_def fg_fixed_def fold_send fg_ddr_def)
    have t: "turn_tail g4 = (r, g')"
      using assms(3) f q QAcked by (simp add: main_turn_def Let_def g2_def [symmetric] g4_def fold_send split: prod.splits)
    have "r \<noteq> TReturn 0 \<or> fg_remote_bye g' \<noteq> None"
      using t by (auto simp: turn_tail_def split: option.splits if_splits prod.splits)
    then show ?thesis using turn_tail_ok [OF g4 t] by blast
  qed (use assms(3) f q in \<open>auto simp: main_turn_def Let_def g2_def [symmetric]\<close>)
qed

text \<open>
  C15. The verdict is sound: when the stand-in exits with code 0 without a \<^verbatim>\<open>bye\<close> from the
  testbench, as many reads and writes have completed as were requested, both halves of the bypass scenario are done, and
  the reference DDR holds, at every address written, the data that the scenario sent.
\<close>

theorem pass_means_verified:
  assumes "main_loop clock ins g = (Exit 0, g')" and "\<not> fg_scenario_done g" and "ddr_ok (fg_ddr g)"
    and "fg_remote_bye g' = None"
  shows "fg_verified g'"
  using assms
proof (induction clock ins g rule: main_loop.induct)
  case (2 expired clock ins g)
  obtain r g1 ins1 where t: "main_turn expired ins g = (r, g1, ins1)" by (cases "main_turn expired ins g")
  note ok = main_turn_ok [OF "2.prems"(3,2) t]
  show ?case
  proof (cases r)
    case TGo
    have m: "main_loop clock ins1 g1 = (Exit 0, g')" using "2.prems"(1,2) t TGo by simp
    show ?thesis
    proof (cases "fg_scenario_done g1")
      case True
      then have "g' = fg_send (bye_msg ''workload exit'') g1" using m by (cases clock) auto
      then show ?thesis using ok TGo True
        by (simp add: fg_verified_def fg_complete_def fg_ddr_def fg_send_def)
    next
      case False
      then show ?thesis
        using "2.IH" [OF "2.prems"(2) t [symmetric] TGo refl m False] ok TGo "2.prems"(4) by simp
    qed
  qed (use "2.prems" t ok in \<open>auto split: check_error.splits\<close>)
qed simp

text \<open>The witness: one write completed, its data in the DDR, and a last quantum that the peer acknowledges.\<close>

definition demo_gem5 :: "byte list \<Rightarrow> fake_gem5" where
  "demo_gem5 data =
     (let g = fake_gem5_init \<lparr>ga_snf_id = 0x80, ga_hnf_id = 0x90, ga_quantum = 100, ga_clk_ns = ''0.556'',
        ga_scenario = SWrite, ga_reads = 0, ga_writes = 1\<rparr>;
          w = \<lparr>hw_addr = 0x80010000, hw_size = 64, hw_dbid = Some 1, hw_phase = WaitComp, hw_done = True\<rparr>
      in g\<lparr>fg_checker := complete_write (put_write 0x40000000 w (fg_checker g)),
           fg_write_verify := [(0x40000000, 0x80010000, data)]\<rparr>)"

definition demo_ack :: obj where
  "demo_ack = [(''t'', JStr ''ack'')]"

lemma handle_ack: "fg_handle demo_ack out g = (None, out, g\<lparr>fg_acked := True\<rparr>)"
  by (simp add: fg_handle_def demo_ack_def opt_str_def)

theorem pass_means_verified_witness:
  "\<exists>g'. main_loop [False] [Some demo_ack] (demo_gem5 (bytes_at (ddr_byte Map.empty) 0x80010000 64)) = (Exit 0, g') \<and> fg_verified g'"
proof -
  let ?data = "bytes_at (ddr_byte Map.empty) 0x80010000 64"
  let ?g = "demo_gem5 ?data"
  have ok: "ddr_ok (fg_ddr ?g)" "fg_ddr ?g = Map.empty"
    by (simp_all add: ddr_ok_def demo_gem5_def fg_ddr_def fake_gem5_init_def checker_init_def complete_write_def put_write_def Let_def)
  obtain ddr where r: "ddr_read_loop 0x80010000 64 Map.empty = (?data, ddr)"
    using ddr_read_loop_spec [of Map.empty "0x80010000" 64] ok by (cases "ddr_read_loop 0x80010000 64 Map.empty") auto
  have "\<exists>g'. main_loop [False] [Some demo_ack] ?g = (Exit 0, g') \<and> fg_remote_bye g' = None"
    by (simp add: main_turn_def demo_gem5_def fake_gem5_init_def Let_def handle_ack fg_send_def send_outbox_def
        turn_tail_def fg_complete_def checker_init_def complete_write_def put_write_def fg_ddr_def LINE_BYTES_def r
        verify_bypass_def fg_upd_ddr_def split: prod.split)
  then obtain g' where g': "main_loop [False] [Some demo_ack] ?g = (Exit 0, g')" "fg_remote_bye g' = None" by blast
  have "\<not> fg_scenario_done ?g" by (simp add: demo_gem5_def fake_gem5_init_def Let_def)
  from pass_means_verified [OF g'(1) this ok(1) g'(2)] g'(1) show ?thesis by blast
qed

section \<open>The memory it serves\<close>

text \<open>
  The abstract specification: a memory is a function from addresses to bytes, and the requests of a quantum are
  answered one after the other.
\<close>

definition is_mem :: "obj \<Rightarrow> bool" where
  "is_mem msg \<longleftrightarrow> opt_str msg ''t'' \<in> {Some ''mem_read'', Some ''mem_write''}"

definition hex_field :: "obj \<Rightarrow> string \<Rightarrow> byte list" where
  "hex_field msg k = (case fromhex (get_str msg k []) of Inl e \<Rightarrow> [] | Inr bs \<Rightarrow> bs)"

definition strobed :: "byte list \<Rightarrow> byte list \<Rightarrow> (byte \<times> bool) list" where
  "strobed data strb =
     zip data (if strb = [] \<or> length strb \<noteq> length data then replicate (length data) True else map (\<lambda>s. s \<noteq> 0) strb)"

fun serve :: "(int \<Rightarrow> byte) \<Rightarrow> obj list \<Rightarrow> obj list \<times> (int \<Rightarrow> byte)" where
  "serve f [] = ([], f)"
| "serve f (m # ms) =
     (let addr = get_int m ''addr'' 0; ident = get_int m ''id'' 0;
          (answer, f') =
            (if opt_str m ''t'' = Some ''mem_read''
             then ([(''t'', JStr ''mem_data''), (''id'', JInt ident),
                    (''data'', JStr (bytes_to_hex (bytes_at f addr (nat (get_int m ''len'' 0))))), (''resp'', JInt 0)], f)
             else ([(''t'', JStr ''mem_resp''), (''id'', JInt ident), (''resp'', JInt 0)],
                   put_bytes f addr (strobed (hex_field m ''data'') (hex_field m ''strb''))));
          (answers, f'') = serve f' ms
      in (answer # answers, f''))"

lemma item_int_get: "item_int m k = Inr x \<Longrightarrow> get_int m k d = x"
  by (simp add: item_int_def get_int_def split: option.splits)

lemma ddr_write_strobed:
  assumes "ddr_ok ddr"
  shows "ddr_byte (ddr_write a data strb ddr) = put_bytes (ddr_byte ddr) a (strobed data strb)"
proof -
  have "map (\<lambda>(b, s). (b, s \<noteq> 0)) (zip data (if strb = [] \<or> length strb \<noteq> length data then replicate (length data) 1 else strb)) =
      strobed data strb"
    by (auto simp: strobed_def zip_map2 map_zip_map2 intro!: nth_equalityI)
  then show ?thesis using ddr_write_loop_spec [OF assms] by (simp only: ddr_write_as_memory)
qed

lemma hnf_on_dat_bytes: "ddr_ok (hc_ddr c) \<Longrightarrow> ddr_byte (hc_ddr (snd (hnf_on_dat flit c))) = ddr_byte (hc_ddr c)"
  by (auto simp: hnf_on_dat_def Let_def put_read_def dest: ddr_read_ok split: option.split sum.split prod.split)

lemma handle_flit_bytes: "ddr_ok (fg_ddr g) \<Longrightarrow> ddr_byte (fg_ddr (snd (handle_flit msg g))) = ddr_byte (fg_ddr g)"
  using hnf_on_rsp_ddr [of "get_obj msg ''flit''" "fg_checker g"] hnf_on_dat_bytes [of "fg_checker g" "get_obj msg ''flit''"]
  by (auto simp: handle_flit_def Let_def maybe_react_def fg_ddr_def split: option.split prod.splits)

lemma handle_bypass_bytes: "ddr_ok (fg_ddr g) \<Longrightarrow> ddr_byte (fg_ddr (snd (handle_bypass_resp msg g))) = ddr_byte (fg_ddr g)"
  by (auto simp: handle_bypass_resp_def Let_def fg_upd_ddr_def fg_ddr_def
      dest: ddr_read_loop_spec split: sum.split prod.split option.split)

lemma handle_mem_read_serves:
  assumes "ddr_ok (fg_ddr g)" "handle_mem_read msg out g = (None, out', g')" "opt_str msg ''t'' = Some ''mem_read''"
  shows "\<exists>as. out' = out @ as \<and> serve (ddr_byte (fg_ddr g)) [msg] = (as, ddr_byte (fg_ddr g'))"
proof -
  obtain a n i bs ddr where f: "item_int msg ''addr'' = Inr a" "item_int msg ''len'' = Inr n" "item_int msg ''id'' = Inr i"
      "ddr_read a n (fg_ddr g) = Inr (bs, ddr)"
      "out' = out @ [[(''t'', JStr ''mem_data''), (''id'', JInt i), (''data'', JStr (bytes_to_hex bs)), (''resp'', JInt 0)]]"
      "g' = fg_upd_ddr ddr g"
    using assms(2) by (auto simp: handle_mem_read_def split: sum.splits prod.splits)
  have "bs = bytes_at (ddr_byte (fg_ddr g)) a (nat n)" "ddr_byte ddr = ddr_byte (fg_ddr g)"
    using ddr_read_loop_spec [OF assms(1), of a "nat n" bs ddr] f(4) by (auto simp: ddr_read_def split: if_splits)
  then show ?thesis using f assms(3) by (simp add: item_int_get fg_upd_twice)
qed

lemma handle_mem_write_serves:
  assumes "ddr_ok (fg_ddr g)" "handle_mem_write msg out g = (None, out', g')" "opt_str msg ''t'' = Some ''mem_write''"
  shows "\<exists>as. out' = out @ as \<and> serve (ddr_byte (fg_ddr g)) [msg] = (as, ddr_byte (fg_ddr g'))"
proof -
  obtain a i data strb where f: "item_int msg ''addr'' = Inr a" "item_int msg ''id'' = Inr i"
      "fromhex (get_str msg ''data'' []) = Inr data" "fromhex (get_str msg ''strb'' []) = Inr strb"
      "out' = out @ [[(''t'', JStr ''mem_resp''), (''id'', JInt i), (''resp'', JInt 0)]]"
      "g' = fg_upd_ddr (ddr_write a data strb (fg_ddr g)) g"
    using assms(2) by (auto simp: handle_mem_write_def simp del: fromhex.simps split: sum.splits)
  then show ?thesis
    using assms(3) ddr_write_strobed [OF assms(1), of a data strb]
    by (simp add: item_int_get fg_upd_twice hex_field_def del: fromhex.simps)
qed

lemma fg_handle_serves:
  assumes "ddr_ok (fg_ddr g)" "fg_handle msg out g = (None, out', g')"
  shows "\<exists>as. out' = out @ as \<and> serve (ddr_byte (fg_ddr g)) (filter is_mem [msg]) = (as, ddr_byte (fg_ddr g'))"
proof -
  consider (rd) "opt_str msg ''t'' = Some ''mem_read''" | (wr) "opt_str msg ''t'' = Some ''mem_write''" | (other) "\<not> is_mem msg"
    by (auto simp: is_mem_def)
  then show ?thesis
  proof cases
    case rd
    then have "filter is_mem [msg] = [msg]" "handle_mem_read msg out g = (None, out', g')"
      using assms(2) by (simp_all add: is_mem_def fg_handle_def)
    then show ?thesis using handle_mem_read_serves [OF assms(1) _ rd] by simp
  next
    case wr
    then have "filter is_mem [msg] = [msg]" "handle_mem_write msg out g = (None, out', g')"
      using assms(2) by (simp_all add: is_mem_def fg_handle_def)
    then show ?thesis using handle_mem_write_serves [OF assms(1) _ wr] by simp
  next
    case other
  have "out' = out \<and> ddr_byte (fg_ddr g') = ddr_byte (fg_ddr g)"
    using assms other handle_flit_bytes [OF assms(1), of msg] handle_bypass_bytes [OF assms(1), of msg]
    by (auto simp: fg_handle_def Let_def is_mem_def keep_out_def fg_ddr_def split: if_splits)
  then show ?thesis using other by simp
  qed
qed

lemma serve_append:
  "serve f (ms @ ns) = (let (a, f') = serve f ms; (b, f'') = serve f' ns in (a @ b, f''))"
  by (induction ms arbitrary: f) (auto simp: Let_def split: prod.split)

text \<open>
  C18. Refinement of the memory: in a quantum that the peer acknowledges, the answers queued are exactly those of the
  abstract memory to the memory requests received, in their order, one for each and with its id, and the pages then
  hold the abstract memory's contents, whatever flits and bypass responses came in between.
\<close>

theorem quantum_serves_memory:
  assumes "quantum_loop ins [] g = (QAcked, out, g', rest)" and "ddr_ok (fg_ddr g)"
  shows "\<exists>used. ins = map Some used @ rest \<and>
    serve (ddr_byte (fg_ddr g)) (filter is_mem used) = (out, ddr_byte (fg_ddr g'))"
proof -
  have "\<exists>used as. ins = map Some used @ rest \<and> out' = out0 @ as \<and>
      serve (ddr_byte (fg_ddr g)) (filter is_mem used) = (as, ddr_byte (fg_ddr g'))"
    if "quantum_loop ins out0 g = (QAcked, out', g', rest)" "ddr_ok (fg_ddr g)" for out0 out' ins g
    using that
  proof (induction ins out0 g rule: quantum_loop.induct)
    case (1 out0 g)
    then show ?case by (auto intro!: exI [of _ "[]"] split: if_splits)
  next
    case (2 i ins out0 g)
    show ?case
    proof (cases "fg_acked g")
      case True
      then show ?thesis using "2.prems" by (auto intro!: exI [of _ "[]"])
    next
      case False
      then obtain msg where i: "i = Some msg" using "2.prems"(1) by (cases i) auto
      obtain out1 g1 where h: "fg_handle msg out0 g = (None, out1, g1)"
        and q: "quantum_loop ins out1 g1 = (QAcked, out', g', rest)"
        using "2.prems"(1) i False by (auto split: prod.splits option.splits)
      obtain as1 where a: "out1 = out0 @ as1" "serve (ddr_byte (fg_ddr g)) (filter is_mem [msg]) = (as1, ddr_byte (fg_ddr g1))"
        using fg_handle_serves [OF "2.prems"(2) h] by blast
      have "ddr_ok (fg_ddr g1)" using fg_handle_keeps [OF h] "2.prems"(2) by (simp add: fg_keeps_def)
      then obtain used as where u: "ins = map Some used @ rest" "out' = out1 @ as"
          "serve (ddr_byte (fg_ddr g1)) (filter is_mem used) = (as, ddr_byte (fg_ddr g'))"
        using "2.IH" [OF False i h [symmetric] refl refl q] by blast
      have "filter is_mem (msg # used) = filter is_mem [msg] @ filter is_mem used" by simp
      then have "serve (ddr_byte (fg_ddr g)) (filter is_mem (msg # used)) = (as1 @ as, ddr_byte (fg_ddr g'))"
        by (simp only: serve_append a(2) Let_def prod.case u(3))
      then show ?thesis using i u a(1) by (intro exI [of _ "msg # used"] exI [of _ "as1 @ as"]) simp
    qed
  qed
  from this [OF assms] show ?thesis by simp
qed

text \<open>The witness: a read of four bytes, answered before the \<^verbatim>\<open>ack\<close>.\<close>

theorem quantum_serves_memory_witness:
  "let g = demo_gem5 []; req = [(''t'', JStr ''mem_read''), (''id'', JInt 7), (''addr'', JInt 0), (''len'', JInt 4)] in
   \<exists>out g'. quantum_loop [Some req, Some demo_ack] [] g = (QAcked, out, g', []) \<and> serve (ddr_byte Map.empty) [req] = (out, ddr_byte (fg_ddr g'))"
proof -
  let ?g = "demo_gem5 []"
  let ?req = "[(''t'', JStr ''mem_read''), (''id'', JInt 7), (''addr'', JInt 0), (''len'', JInt 4)]"
  have ddr: "fg_ddr ?g = Map.empty" "\<not> fg_acked ?g"
    by (simp_all add: demo_gem5_def fg_ddr_def fake_gem5_init_def checker_init_def complete_write_def put_write_def Let_def)
  obtain bs d where r: "ddr_read_loop 0 4 Map.empty = (bs, d)" by (cases "ddr_read_loop 0 4 Map.empty")
  obtain out g1 where h: "fg_handle ?req [] ?g = (None, out, g1)" "\<not> fg_acked g1"
    using ddr by (simp add: fg_handle_def opt_str_def handle_mem_read_def item_int_def ddr_read_def r fg_upd_ddr_def)
  then obtain g' where q: "quantum_loop [Some ?req, Some demo_ack] [] ?g = (QAcked, out, g', [])"
    using ddr by (simp add: handle_ack)
  have m: "is_mem ?req" "\<not> is_mem demo_ack" by (simp_all add: is_mem_def opt_str_def demo_ack_def)
  have "ddr_ok (fg_ddr ?g)" using ddr(1) by (simp add: ddr_ok_def)
  from quantum_serves_memory [OF q this] obtain used where u: "[Some ?req, Some demo_ack] = map Some used @ []"
      "serve (ddr_byte (fg_ddr ?g)) (filter is_mem used) = (out, ddr_byte (fg_ddr g'))" by blast
  then have "used = [?req, demo_ack]" by auto
  then show ?thesis using q u(2) m ddr(1) unfolding Let_def by auto
qed

text \<open>
  C38. Once the testbench has closed the socket the stand-in never leaves the quantum: every \<^verbatim>\<open>recv\<close> returns at once with
  the empty chunk, \<^verbatim>\<open>_recv_line\<close> reports a closed peer each time, and the loop that waits for the \<^verbatim>\<open>ack\<close> takes
  any number of these reports without ending (the overall deadline is looked at only between quanta).
\<close>

theorem closed_peer_never_ends:
  assumes "NL \<notin> set buf" and "fg_pending_write_data g = []"
  shows "recv_line True buf (replicate (Suc n) (Chunk [])) = (RClosed, buf, replicate n (Chunk [])) \<and>
    fst (main_turn False (replicate n (Some closed_msg)) g) = TWaiting"
proof -
  have h: "fg_handle closed_msg out g = (None, out, g\<lparr>fg_remote_bye := Some ''peer closed''\<rparr>)" for out g
    by (simp add: fg_handle_def closed_msg_def opt_str_def)
  have "\<not> fg_acked g \<Longrightarrow> fst (quantum_loop (replicate n (Some closed_msg)) out g) = QWaiting" for out g
    by (induction n arbitrary: g) (simp_all add: h)
  then have "fst (main_turn False (replicate n (Some closed_msg)) g) = TWaiting"
    using assms(2) by (auto simp: main_turn_def split_beta Let_def)
  moreover have "recv_line True buf (replicate (Suc n) (Chunk [])) = (RClosed, buf, replicate n (Chunk []))"
    using assms(1) by (subst recv_line.simps) (simp add: split_beta)
  ultimately show ?thesis by blast
qed

theorem closed_peer_never_ends_witness:
  "fst (main_turn False (replicate 1000 (Some closed_msg)) (demo_gem5 [])) = TWaiting"
  using closed_peer_never_ends [of "[]" "demo_gem5 []" 1000] by (simp add: demo_gem5_def fake_gem5_init_def Let_def)

section \<open>The scenarios\<close>

definition planned_reads :: "gem5_args \<Rightarrow> nat" where
  "planned_reads args =
     (case ga_scenario args of SMixed \<Rightarrow> 3 | SRead \<Rightarrow> nat (ga_reads args) | SAll \<Rightarrow> nat (ga_reads args) | _ \<Rightarrow> 0)"

definition planned_writes :: "gem5_args \<Rightarrow> nat" where
  "planned_writes args =
     (case ga_scenario args of SMixed \<Rightarrow> 2 | SWrite \<Rightarrow> nat (ga_writes args) | SAll \<Rightarrow> nat (ga_writes args) | _ \<Rightarrow> 0)"

definition first_ids :: "int \<Rightarrow> nat \<Rightarrow> (nat \<Rightarrow> 'a) \<Rightarrow> int \<rightharpoonup> 'a" where
  "first_ids base n f t = (if base \<le> t \<and> t < base + int n then Some (f (nat (t - base))) else None)"

definition read_addr :: "nat \<Rightarrow> int" where
  "read_addr i = SCENARIO_BASE + int i * LINE_BYTES"

definition write_addr :: "nat \<Rightarrow> int" where
  "write_addr i = SCENARIO_BASE + 0x10000 + int i * LINE_BYTES"

lemma first_ids_Suc: "first_ids base (Suc n) f = (first_ids base n f)(base + int n \<mapsto> f n)"
  by (auto simp: first_ids_def fun_eq_iff)

lemma first_ids_0 [simp]: "first_ids base 0 f = Map.empty"
  by (auto simp: first_ids_def)

abbreviation expected_read :: "nat \<Rightarrow> hnf_read" where
  "expected_read i \<equiv> \<lparr>hr_addr = read_addr i, hr_size = 64, hr_beats_expected = 2, hr_beats = 0, hr_data = [], hr_done = False\<rparr>"

abbreviation expected_write :: "nat \<Rightarrow> hnf_write" where
  "expected_write i \<equiv> \<lparr>hw_addr = write_addr i, hw_size = 64, hw_dbid = None, hw_phase = WaitDbid, hw_done = False\<rparr>"

lemma fold_scenario_read:
  assumes "fg_next_read_txn g = b" "hc_reads (fg_checker g) = Map.empty"
  shows "fold scenario_read [0 ..< n] g =
    g\<lparr>fg_next_read_txn := b + int n,
      fg_checker := (fg_checker g)\<lparr>hc_reads := first_ids b n expected_read\<rparr>,
      fg_outbox := fg_outbox g @ map (\<lambda>i. g2t_flit ''req'' (fg_read_req (fg_args g) (b + int i) (read_addr i))) [0 ..< n]\<rparr>"
proof (induction n)
  case 0
  then show ?case using assms by simp
next
  case (Suc n)
  have step: "fold scenario_read [0 ..< Suc n] g = scenario_read n (fold scenario_read [0 ..< n] g)" by simp
  show ?case
    unfolding step Suc first_ids_Suc by (simp add: scenario_read_def Let_def fg_enqueue_def expect_read_def fun_upd_def read_addr_def LINE_BYTES_def
        BEAT_BYTES_def ac_simps)
qed

lemma fold_scenario_args [simp]: "fg_args (fold scenario_read is g) = fg_args g"
  by (induction "is" arbitrary: g) (simp_all add: scenario_read_def Let_def fg_enqueue_def)

lemma fold_scenario_write:
  assumes "fg_next_write_txn g = b" "hc_writes (fg_checker g) = Map.empty" "fg_write_verify g = []"
  shows "fold scenario_write [0 ..< n] g =
    g\<lparr>fg_next_write_txn := b + int n,
      fg_checker := (fg_checker g)\<lparr>hc_writes := first_ids b n expected_write\<rparr>,
      fg_write_verify := map (\<lambda>i. (b + int i, write_addr i, ddr_pattern (write_addr i + 0x1234) 64)) [0 ..< n],
      fg_outbox := fg_outbox g @ map (\<lambda>i. g2t_flit ''req'' (fg_write_req (fg_args g) (b + int i) (write_addr i))) [0 ..< n]\<rparr>"
proof (induction n)
  case 0
  then show ?case using assms by simp
next
  case (Suc n)
  have "AList.update (b + int n) v (map (\<lambda>i. (b + int i, f i)) [0 ..< n]) = map (\<lambda>i. (b + int i, f i)) [0 ..< n] @ [(b + int n, v)]"
    for v :: "int \<times> byte list" and f
    by (rule update_new) auto
  note upd = this
  have step: "fold scenario_write [0 ..< Suc n] g = scenario_write n (fold scenario_write [0 ..< n] g)" by simp
  show ?case
    unfolding step Suc first_ids_Suc by (simp add: upd scenario_write_def Let_def fg_enqueue_def expect_write_def fun_upd_def write_addr_def LINE_BYTES_def ac_simps)
qed

text \<open>
  The scenarios: the requests queued are the planned reads and writes, in that order, with consecutive transaction
  ids from 1 and from \<^verbatim>\<open>0x40000000\<close> and consecutive lines, and the checker expects exactly these transactions, each
  with the address of its request, two beats for a read and a DBID first for a write.
\<close>

theorem scenario_requests:
  "let g = run_scenario (fake_gem5_init args); reads = planned_reads args; writes = planned_writes args in
     take (reads + writes) (fg_outbox g) =
       map (\<lambda>i. g2t_flit ''req'' (fg_read_req args (1 + int i) (read_addr i))) [0 ..< reads] @
       map (\<lambda>i. g2t_flit ''req'' (fg_write_req args (0x40000000 + int i) (write_addr i))) [0 ..< writes] \<and>
     (ga_scenario args = SBypass \<or> length (fg_outbox g) = reads + writes) \<and>
     hc_reads (fg_checker g) = first_ids 1 reads expected_read \<and>
     hc_writes (fg_checker g) = first_ids 0x40000000 writes expected_write \<and>
     fg_write_verify g = map (\<lambda>i. (0x40000000 + int i, write_addr i, ddr_pattern (write_addr i + 0x1234) 64)) [0 ..< writes]"
proof -
  define g1 where "g1 = (if ga_scenario args \<in> {SRead, SAll, SMixed}
     then fold scenario_read [0 ..< planned_reads args] (fake_gem5_init args) else fake_gem5_init args)"
  have g1: "g1 = (fake_gem5_init args)\<lparr>fg_next_read_txn := 1 + int (planned_reads args),
      fg_checker := (fg_checker (fake_gem5_init args))\<lparr>hc_reads := first_ids 1 (planned_reads args) expected_read\<rparr>,
      fg_outbox := map (\<lambda>i. g2t_flit ''req'' (fg_read_req args (1 + int i) (read_addr i))) [0 ..< planned_reads args]\<rparr>"
    using fold_scenario_read [of "fake_gem5_init args" 1 "planned_reads args"]
    by (cases "ga_scenario args") (auto simp: g1_def fake_gem5_init_def checker_init_def planned_reads_def)
  define g2 where "g2 = (if ga_scenario args \<in> {SWrite, SAll, SMixed}
     then fold scenario_write [0 ..< planned_writes args] g1 else g1)"
  have g2: "g2 = g1\<lparr>fg_next_write_txn := 0x40000000 + int (planned_writes args),
      fg_checker := (fg_checker g1)\<lparr>hc_writes := first_ids 0x40000000 (planned_writes args) expected_write\<rparr>,
      fg_write_verify := map (\<lambda>i. (0x40000000 + int i, write_addr i, ddr_pattern (write_addr i + 0x1234) 64)) [0 ..< planned_writes args],
      fg_outbox := fg_outbox g1 @ map (\<lambda>i. g2t_flit ''req'' (fg_write_req args (0x40000000 + int i) (write_addr i))) [0 ..< planned_writes args]\<rparr>"
    using fold_scenario_write [of g1 "0x40000000" "planned_writes args"]
    by (cases "ga_scenario args") (auto simp: g2_def g1 fake_gem5_init_def checker_init_def planned_writes_def)
  have "run_scenario (fake_gem5_init args) = (if ga_scenario args = SBypass then scenario_bypass g2 else g2)"
    by (cases "ga_scenario args")
      (simp_all add: run_scenario_def Let_def g1_def g2_def fake_gem5_init_def planned_reads_def planned_writes_def g1 [symmetric])
  then show ?thesis by (simp add: g2 scenario_bypass_def Let_def) (simp add: g1 fake_gem5_init_def checker_init_def)
qed

end
