(* ===== verification/Mem_Broker.thy ===== *)
theory Mem_Broker
  imports Txn_Mapper Cosim_Protocol
begin

text \<open>
  The memory broker of \<^verbatim>\<open>cosim_runtime.py\<close>: a call of \<^verbatim>\<open>read\<close> or \<^verbatim>\<open>write\<close> sends one request and
  waits, a clock edge at a time, until the dispatcher delivers the completion with its id.

  A call is cut where it awaits: the part up to the first \<^verbatim>\<open>await\<close> is one operation, and each resumption after a
  falling edge another.  The two coroutines share the loop, so they share \<open>broker_resume\<close>.
\<close>

section \<open>The broker\<close>

record broker =
  mb_next_id :: int
  mb_pending :: "(int \<times> obj option) list"
  mb_reads_issued :: int
  mb_writes_issued :: int
  mb_sent :: "obj list"

definition broker_init :: broker where
  "broker_init = \<lparr>mb_next_id = 1, mb_pending = [], mb_reads_issued = 0, mb_writes_issued = 0, mb_sent = []\<rparr>"

definition broker_alloc_id :: "broker \<Rightarrow> int \<times> broker" where
  "broker_alloc_id b = (mb_next_id b, b\<lparr>mb_next_id := mb_next_id b + 1\<rparr>)"

definition mem_read_msg :: "int \<Rightarrow> int \<Rightarrow> int \<Rightarrow> obj" where
  "mem_read_msg rid addr len =
     [(''t'', JStr ''mem_read''), (''id'', JInt rid), (''addr'', JInt addr), (''len'', JInt len)]"

definition mem_write_msg :: "int \<Rightarrow> int \<Rightarrow> byte list \<Rightarrow> byte list \<Rightarrow> obj" where
  "mem_write_msg rid addr data strb =
     [(''t'', JStr ''mem_write''), (''id'', JInt rid), (''addr'', JInt addr), (''data'', JStr (bytes_to_hex data)),
      (''strb'', JStr (bytes_to_hex strb))]"

definition broker_read :: "int \<Rightarrow> int \<Rightarrow> broker \<Rightarrow> int \<times> broker" where
  "broker_read addr len b =
     (let (rid, b) = broker_alloc_id b
      in (rid, b\<lparr>mb_pending := AList.update rid None (mb_pending b), mb_reads_issued := mb_reads_issued b + 1,
                 mb_sent := mb_sent b @ [mem_read_msg rid addr len]\<rparr>))"

definition broker_write :: "int \<Rightarrow> byte list \<Rightarrow> byte list \<Rightarrow> broker \<Rightarrow> int \<times> broker" where
  "broker_write addr data strb b =
     (let (rid, b) = broker_alloc_id b
      in (rid, b\<lparr>mb_pending := AList.update rid None (mb_pending b), mb_writes_issued := mb_writes_issued b + 1,
                 mb_sent := mb_sent b @ [mem_write_msg rid addr data strb]\<rparr>))"

text \<open>What a call returns: data and response of a read, the response of a write.\<close>

datatype mem_value = ReadValue "byte list" int | WriteValue int

definition completion :: "bool \<Rightarrow> obj \<Rightarrow> mem_value result" where
  "completion is_read msg =
     (if is_read then and_then (fromhex (get_str msg ''data'' [])) (\<lambda>data. Inr (ReadValue data (get_int msg ''resp'' 0)))
      else Inr (WriteValue (get_int msg ''resp'' 0)))"

definition DEFAULT_TIMEOUT_CYCLES :: int where "DEFAULT_TIMEOUT_CYCLES = 2000000"

text \<open>A suspended call and its resumption after an edge: the time-out is looked at before the completion, and it
  leaves the entry of the call behind.\<close>

record mem_call =
  mc_is_read :: bool
  mc_cycles :: int
  mc_timeout :: int

definition broker_resume :: "int \<Rightarrow> mem_call \<Rightarrow> broker \<Rightarrow> (mem_value result + mem_call) \<times> broker" where
  "broker_resume rid c b =
     (let c = c\<lparr>mc_cycles := mc_cycles c + 1\<rparr>
      in if mc_cycles c > mc_timeout c then (Inl (Inl TimeoutError), b)
         else case map_of (mb_pending b) rid of
             None \<Rightarrow> (Inl (Inl KeyError), b)
           | Some None \<Rightarrow> (Inr c, b)
           | Some (Some msg) \<Rightarrow>
               (Inl (completion (mc_is_read c) msg), b\<lparr>mb_pending := AList.delete rid (mb_pending b)\<rparr>))"

definition broker_deliver :: "obj \<Rightarrow> broker \<Rightarrow> bool \<times> broker" where
  "broker_deliver msg b =
     (case opt_int msg ''id'' of
        None \<Rightarrow> (False, b)
      | Some rid \<Rightarrow>
          if rid \<in> fst ` set (mb_pending b)
          then (True, b\<lparr>mb_pending := AList.update rid (Some msg) (mb_pending b)\<rparr>)
          else (False, b))"

section \<open>Identifiers\<close>

definition broker_ids :: "broker \<Rightarrow> int set" where
  "broker_ids b = fst ` set (mb_pending b)"

definition broker_ok :: "broker \<Rightarrow> bool" where
  "broker_ok b \<longleftrightarrow> 1 \<le> mb_next_id b \<and> distinct (map fst (mb_pending b)) \<and> (\<forall>k \<in> broker_ids b. 1 \<le> k \<and> k < mb_next_id b)"

lemma broker_ids_update [simp]: "fst ` set (AList.update k v al) = insert k (fst ` set al)"
  using dom_update [of k v al] by (simp add: dom_map_of_conv_image_fst)

lemma broker_ids_delete [simp]: "fst ` set (AList.delete k al) = fst ` set al - {k}"
  using dom_map_of_conv_image_fst [of "AList.delete k al"] dom_map_of_conv_image_fst [of al] by (simp add: map_of_delete)

lemma begin_ok:
  assumes "broker_ok b" "broker_read addr len b = (rid, b') \<or> broker_write addr' data strb b = (rid, b')"
  shows "rid = mb_next_id b \<and> rid \<notin> broker_ids b \<and> broker_ids b' = insert rid (broker_ids b) \<and> broker_ok b' \<and>
    mb_pending b' = mb_pending b @ [(rid, None)] \<and> mb_next_id b' = rid + 1"
proof -
  have "mb_next_id b \<notin> broker_ids b" using assms(1) by (auto simp: broker_ok_def)
  then have n: "mb_next_id b \<notin> fst ` set (mb_pending b)" by (simp add: broker_ids_def)
  show ?thesis
    using assms n by (auto simp: broker_ok_def broker_read_def broker_write_def broker_alloc_id_def broker_ids_def update_new;
      fastforce)
qed

interpretation broker_reads: fresh_ids "\<lambda>b. (case broker_read addr len b of (rid, b') \<Rightarrow> (Some rid, b'))" broker_ids broker_ok
  for addr len
  by unfold_locales (auto split: prod.splits dest: begin_ok)

interpretation broker_writes: fresh_ids "\<lambda>b. (case broker_write addr data strb b of (rid, b') \<Rightarrow> (Some rid, b'))"
  broker_ids broker_ok for addr data strb
  by unfold_locales (auto split: prod.splits dest: begin_ok)

section \<open>Runs of the broker\<close>

text \<open>
  The calls that are suspended, by the id they wait for, and what the finished ones returned, oldest first.  A
  resumption of an id nobody waits for is not a step of the program and changes nothing.
\<close>

record broker_run =
  br_broker :: broker
  br_calls :: "(int \<times> mem_call) list"
  br_results :: "(int \<times> mem_value result) list"

datatype broker_event =
    CallRead int int int
  | CallWrite int "byte list" "byte list" int
  | Resume int
  | Deliver obj

definition suspend :: "int \<Rightarrow> bool \<Rightarrow> int \<Rightarrow> broker \<Rightarrow> broker_run \<Rightarrow> broker_run" where
  "suspend rid is_read timeout b r =
     r\<lparr>br_broker := b,
       br_calls := br_calls r @ [(rid, \<lparr>mc_is_read = is_read, mc_cycles = 0, mc_timeout = timeout\<rparr>)]\<rparr>"

fun broker_step :: "broker_event \<Rightarrow> broker_run \<Rightarrow> broker_run" where
  "broker_step (CallRead addr len timeout) r =
     (let (rid, b) = broker_read addr len (br_broker r) in suspend rid True timeout b r)"
| "broker_step (CallWrite addr data strb timeout) r =
     (let (rid, b) = broker_write addr data strb (br_broker r) in suspend rid False timeout b r)"
| "broker_step (Resume rid) r =
     (case map_of (br_calls r) rid of
        None \<Rightarrow> r
      | Some c \<Rightarrow>
          (case broker_resume rid c (br_broker r) of
             (Inr c', b) \<Rightarrow> r\<lparr>br_broker := b, br_calls := AList.update rid c' (br_calls r)\<rparr>
           | (Inl v, b) \<Rightarrow>
               r\<lparr>br_broker := b, br_calls := AList.delete rid (br_calls r), br_results := br_results r @ [(rid, v)]\<rparr>))"
| "broker_step (Deliver msg) r = r\<lparr>br_broker := snd (broker_deliver msg (br_broker r))\<rparr>"

definition broker_runs :: "broker_event list \<Rightarrow> broker_run \<Rightarrow> broker_run" where
  "broker_runs = fold broker_step"

definition broker_start :: broker_run where
  "broker_start = \<lparr>br_broker = broker_init, br_calls = [], br_results = []\<rparr>"

text \<open>
  The invariant, relative to the events so far: every id given out is waited for or finished, not both, and once;
  a suspended call has its entry; an entry's message, and the completion that a result was made of, were delivered
  under its id.
\<close>

definition delivered :: "broker_event list \<Rightarrow> int \<Rightarrow> obj \<Rightarrow> bool" where
  "delivered es rid msg \<longleftrightarrow> Deliver msg \<in> set es \<and> opt_int msg ''id'' = Some rid"

definition result_of :: "broker_event list \<Rightarrow> int \<Rightarrow> mem_value result \<Rightarrow> bool" where
  "result_of es rid v \<longleftrightarrow> v = Inl TimeoutError \<or> (\<exists>msg is_read. delivered es rid msg \<and> v = completion is_read msg)"

definition run_ok :: "broker_event list \<Rightarrow> broker_run \<Rightarrow> bool" where
  "run_ok es r \<longleftrightarrow>
     broker_ok (br_broker r) \<and> distinct (map fst (br_calls r) @ map fst (br_results r)) \<and>
     set (map fst (br_calls r) @ map fst (br_results r)) = {1 ..< mb_next_id (br_broker r)} \<and>
     fst ` set (br_calls r) \<subseteq> broker_ids (br_broker r) \<and>
     (\<forall>(rid, m) \<in> set (mb_pending (br_broker r)). case m of None \<Rightarrow> True | Some msg \<Rightarrow> delivered es rid msg) \<and>
     (\<forall>(rid, v) \<in> set (br_results r). result_of es rid v)"

lemma run_ok_start: "run_ok [] broker_start"
  by (simp add: run_ok_def broker_start_def broker_init_def broker_ok_def broker_ids_def)

lemma delivered_more: "delivered es rid msg \<Longrightarrow> delivered (es @ es') rid msg"
  by (auto simp: delivered_def)

lemma result_of_more: "result_of es rid v \<Longrightarrow> result_of (es @ es') rid v"
  by (auto simp: result_of_def dest: delivered_more)

lemma run_ok_more: "run_ok es r \<Longrightarrow> run_ok (es @ es') r"
  unfolding run_ok_def by (fastforce simp: delivered_def result_of_def split: option.splits)

lemma run_ok_call:
  assumes "run_ok es r"
    "broker_read addr len (br_broker r) = (rid, b) \<or> broker_write addr' data strb (br_broker r) = (rid, b)"
  shows "run_ok es (suspend rid is_read timeout b r)"
proof -
  have ok: "broker_ok (br_broker r)" using assms(1) by (simp add: run_ok_def)
  note c = begin_ok [OF ok assms(2)]
  have "1 \<le> mb_next_id (br_broker r)" using ok by (simp add: broker_ok_def)
  then have "{1 ..< mb_next_id b} = insert rid {1 ..< mb_next_id (br_broker r)}" using c by auto
  moreover have "rid \<notin> set (map fst (br_calls r) @ map fst (br_results r))" using assms(1) c by (auto simp: run_ok_def)
  ultimately show ?thesis
    using assms(1) c by (auto simp: run_ok_def suspend_def)
qed

lemma run_ok_deliver:
  assumes "run_ok es r"
  shows "run_ok (es @ [Deliver msg]) (broker_step (Deliver msg) r)"
proof -
  have more: "run_ok (es @ [Deliver msg]) r" using assms by (rule run_ok_more)
  show ?thesis
  proof (cases "\<exists>rid. opt_int msg ''id'' = Some rid \<and> rid \<in> broker_ids (br_broker r)")
    case False
    then have "broker_deliver msg (br_broker r) = (False, br_broker r)"
      by (auto simp: broker_deliver_def broker_ids_def split: option.splits)
    then show ?thesis using more by simp
  next
    case True
    then obtain rid where rid: "opt_int msg ''id'' = Some rid" "rid \<in> broker_ids (br_broker r)" by blast
    have d: "delivered (es @ [Deliver msg]) rid msg" using rid(1) by (simp add: delivered_def)
    let ?p = "AList.update rid (Some msg) (mb_pending (br_broker r))"
    have "set ?p \<subseteq> insert (rid, Some msg) (set (mb_pending (br_broker r)))" by (rule set_update_subset)
    then have "\<forall>(rid, m) \<in> set ?p. case m of None \<Rightarrow> True | Some msg' \<Rightarrow> delivered (es @ [Deliver msg]) rid msg'"
      using more d unfolding run_ok_def by fastforce
    then show ?thesis
      using more rid
      by (auto simp: run_ok_def broker_deliver_def broker_ok_def broker_ids_def intro: distinct_update)
  qed
qed

lemma broker_ok_delete: "broker_ok b \<Longrightarrow> broker_ok (b\<lparr>mb_pending := AList.delete rid (mb_pending b)\<rparr>)"
  using set_delete_subset [of rid "mb_pending b"]
  by (auto simp: broker_ok_def broker_ids_def intro: distinct_delete_keys dest!: subsetD)

lemma run_ok_resume:
  assumes "run_ok es r"
  shows "run_ok es (broker_step (Resume rid) r)"
proof (cases "map_of (br_calls r) rid")
  case (Some c)
  have call: "rid \<in> fst ` set (br_calls r)" using Some by (metis map_of_SomeD fst_conv image_eqI)
  let ?b = "br_broker r"
  have dist: "distinct (map fst (br_calls r))" "rid \<notin> fst ` set (br_results r)"
    using assms call by (auto simp: run_ok_def)
  have finished: "run_ok es (r\<lparr>br_broker := b, br_calls := AList.delete rid (br_calls r), br_results := br_results r @ [(rid, v)]\<rparr>)"
    if v: "result_of es rid v" and b: "b = ?b \<or> b = ?b\<lparr>mb_pending := AList.delete rid (mb_pending ?b)\<rparr>" for v b
  proof -
    have "broker_ok b" using assms b broker_ok_delete [of ?b rid] by (auto simp: run_ok_def)
    moreover have "mb_next_id b = mb_next_id ?b" "fst ` set (mb_pending b) \<supseteq> fst ` set (mb_pending ?b) - {rid}"
        "set (mb_pending b) \<subseteq> set (mb_pending ?b)"
      using b set_delete_subset [of rid "mb_pending ?b"] by (elim disjE; simp; blast)+
    moreover have "distinct (map fst (AList.delete rid (br_calls r)))" using dist(1) by (rule distinct_delete_keys)
    moreover have "insert rid (fst ` set (br_calls r) - {rid} \<union> fst ` set (br_results r)) =
        fst ` set (br_calls r) \<union> fst ` set (br_results r)" using call by auto
    moreover have "fst ` set (br_calls r) \<inter> fst ` set (br_results r) = {}" "distinct (map fst (br_results r))"
        "fst ` set (br_calls r) \<union> fst ` set (br_results r) = {1 ..< mb_next_id ?b}"
        "fst ` set (br_calls r) \<subseteq> fst ` set (mb_pending ?b)"
        "\<forall>(rid, m) \<in> set (mb_pending ?b). case m of None \<Rightarrow> True | Some msg \<Rightarrow> delivered es rid msg"
        "\<forall>(rid, v) \<in> set (br_results r). result_of es rid v"
      using assms by (simp_all add: run_ok_def broker_ids_def)
    moreover have "fst ` set (br_calls r) - {rid} \<subseteq> fst ` set (mb_pending b)" using calculation(3,10) by blast
    moreover have "(fst ` set (br_calls r) - {rid}) \<inter> (insert rid (fst ` set (br_results r))) = {}" using calculation(7) by blast
    ultimately show ?thesis
      using v dist by (simp add: run_ok_def broker_ids_def) (metis (no_types, lifting) subsetD)
  qed
  show ?thesis
  proof (cases "mc_cycles c + 1 > mc_timeout c")
    case True
    then show ?thesis using Some finished [of "Inl TimeoutError" ?b] by (simp add: broker_resume_def result_of_def)
  next
    case False
    have "rid \<in> fst ` set (mb_pending ?b)" using assms call by (auto simp: run_ok_def broker_ids_def)
    then obtain m where m: "map_of (mb_pending ?b) rid = Some m" by (metis map_of_eq_None_iff not_None_eq)
    show ?thesis
    proof (cases m)
      case None
      have "insert rid (fst ` set (br_calls r)) = fst ` set (br_calls r)" using call by auto
      then show ?thesis using assms Some m None False dist
        by (auto simp: run_ok_def broker_resume_def Let_def intro: distinct_update)
    next
      case (Some msg)
      then have "delivered es rid msg" using assms m map_of_SomeD [OF m] by (fastforce simp: run_ok_def)
      then have "result_of es rid (completion (mc_is_read c) msg)" by (auto simp: result_of_def)
      then show ?thesis using finished \<open>map_of (br_calls r) rid = Some c\<close> m Some False
        by (simp add: broker_resume_def Let_def)
    qed
  qed
qed (use assms in simp)

lemma run_ok_runs: "run_ok es r \<Longrightarrow> run_ok (es @ es') (broker_runs es' r)"
proof (induction es' arbitrary: es r)
  case (Cons e es')
  have "run_ok (es @ [e]) (broker_step e r)"
  proof (cases e)
    case (CallRead addr len timeout)
    then show ?thesis using run_ok_call [OF run_ok_more [OF Cons.prems], of addr len] by (auto split: prod.split)
  next
    case (CallWrite addr data strb timeout)
    then show ?thesis using run_ok_call [OF run_ok_more [OF Cons.prems], of _ _ _ _ addr data strb] by (auto split: prod.split)
  next
    case (Resume rid)
    then show ?thesis using run_ok_resume [OF run_ok_more [OF Cons.prems]] by (simp only:)
  next
    case (Deliver msg)
    then show ?thesis using run_ok_deliver [OF Cons.prems] by (simp only:)
  qed
  from Cons.IH [OF this] show ?case by (simp add: broker_runs_def)
qed (simp add: broker_runs_def)


text \<open>
  Waiting is bounded, and a time-out leaks: with no completion, a call is still suspended after as many edges as
  its time-out allows and raises TimeoutError at the next; its entry then stays, so a completion that comes too late is taken for
  a matched one (no stray completion is reported) and nobody fetches it.
\<close>

theorem broker_timeout:
  assumes "map_of (br_calls r) rid = Some \<lparr>mc_is_read = rd, mc_cycles = 0, mc_timeout = int n\<rparr>"
    and "map_of (mb_pending (br_broker r)) rid = Some None" and "opt_int late ''id'' = Some rid"
  shows "let r1 = broker_runs (replicate n (Resume rid)) r; r2 = broker_step (Resume rid) r1 in
    map_of (br_calls r1) rid = Some \<lparr>mc_is_read = rd, mc_cycles = int n, mc_timeout = int n\<rparr> \<and>
    br_results r2 = br_results r @ [(rid, Inl TimeoutError)] \<and> map_of (br_calls r2) rid = None \<and>
    fst (broker_deliver late (br_broker r2))"
proof -
  have "\<exists>cs. broker_runs (replicate k (Resume rid)) r = r\<lparr>br_calls := cs\<rparr> \<and>
      map_of cs rid = Some \<lparr>mc_is_read = rd, mc_cycles = int k, mc_timeout = int n\<rparr>" if "k \<le> n" for k
    using that
  proof (induction k)
    case 0
    then show ?case using assms(1) by (intro exI [of _ "br_calls r"]) (simp add: broker_runs_def)
  next
    case (Suc k)
    then obtain cs where cs: "broker_runs (replicate k (Resume rid)) r = r\<lparr>br_calls := cs\<rparr>"
        "map_of cs rid = Some \<lparr>mc_is_read = rd, mc_cycles = int k, mc_timeout = int n\<rparr>" by auto
    have "broker_runs (replicate (Suc k) (Resume rid)) r = broker_step (Resume rid) (broker_runs (replicate k (Resume rid)) r)"
      by (simp add: broker_runs_def replicate_append_same [symmetric] del: replicate.simps)
    then show ?case using cs assms(2) Suc.prems
      by (intro exI [of _ "AList.update rid \<lparr>mc_is_read = rd, mc_cycles = int k + 1, mc_timeout = int n\<rparr> cs"])
        (simp add: broker_resume_def map_of_update)
  qed
  then obtain cs where cs: "broker_runs (replicate n (Resume rid)) r = r\<lparr>br_calls := cs\<rparr>"
      "map_of cs rid = Some \<lparr>mc_is_read = rd, mc_cycles = int n, mc_timeout = int n\<rparr>" by auto
  have "rid \<in> fst ` set (mb_pending (br_broker r))" using map_of_SomeD [OF assms(2)] by force
  then show ?thesis using cs assms(3) by (simp add: broker_resume_def map_of_delete broker_deliver_def)
qed

theorem broker_timeout_witness:
  "let r = broker_step (CallRead 0x1000 32 5) broker_start;
       r1 = broker_runs (replicate 5 (Resume 1)) r; r2 = broker_step (Resume 1) r1 in
   br_results r2 = [(1, Inl TimeoutError)] \<and> fst (broker_deliver [(''id'', JInt 1)] (br_broker r2))"
  using broker_timeout [of "broker_step (CallRead 0x1000 32 5) broker_start" 1 True 5 "[(''id'', JInt 1)]"]
  by (simp add: broker_start_def broker_init_def broker_read_def broker_alloc_id_def suspend_def opt_int_def Let_def
      del: broker_step.simps(3))

end
