(* ===== verification/Cosim_Runtime.thy ===== *)
theory Cosim_Runtime
  imports Mem_Broker Snf_Agent
begin

text \<open>
  The runtime of \<^verbatim>\<open>cosim_runtime.py\<close>: the handshake, the dispatcher that routes messages, the bypass tasks, and the
  barrier loop that owns the clock.

  The coroutines are cut where they await, so a state of the model is a state in which all of them are suspended, and a
  step is one resumption.  The loop's position is \<open>rt_phase\<close>; time-outs count polls, for the code adds the period of one
  poll each time (20 ns up to 20,000,000 ns).  All components send through one transport: \<open>rt_sent\<close> is the order in
  which the messages are queued.  Wall time and log messages are left out.
\<close>

definition PARK_TIMEOUT_POLLS :: nat where "PARK_TIMEOUT_POLLS = 1000000"

section \<open>State\<close>

text \<open>Where the barrier loop is suspended: before it starts, parked after a number of polls, in a gated cycle with the
  clock high or low, or at the next edge of the free-running clock (with the cycles left), or no more.\<close>

datatype barrier_phase = BIdle | BParked nat | BHigh nat | BLow nat | BFree nat | BFinished | BTimedOut

text \<open>A bypass task: started by the dispatcher but not yet run, or waiting for the broker.\<close>

datatype bypass_task = StartRead obj | StartWrite obj | WaitMem int int mem_call

record runtime =
  rt_agent :: snf_agent
  rt_broker :: broker
  rt_quantum_cycles :: int
  rt_gem5_clk_ns :: json
  rt_clk_period_ns :: string
  rt_snf_id :: int
  rt_hnf_id :: int
  rt_free_run :: bool
  rt_max_syncs :: int
  rt_sync_cycle :: int
  rt_sync_seen :: bool
  rt_done :: bool
  rt_exit_reason :: string
  rt_syncs_acked :: int
  rt_cycles_run :: int
  rt_bypass_served :: int
  rt_phase :: barrier_phase
  rt_clk :: bool
  rt_tasks :: "bypass_task list"
  rt_dispatcher_dead :: bool
  rt_sent :: "json list"

text \<open>The settings that the environment variables give.\<close>

record runtime_env =
  en_quantum :: int
  en_gem5_clk_ns :: json
  en_clk_ns :: string
  en_snf_id :: int
  en_hnf_id :: int
  en_free_run :: bool
  en_max_syncs :: int

definition runtime_init :: "runtime_env \<Rightarrow> runtime" where
  "runtime_init e =
     \<lparr>rt_agent = agent_init, rt_broker = broker_init, rt_quantum_cycles = en_quantum e, rt_gem5_clk_ns = en_gem5_clk_ns e,
      rt_clk_period_ns = en_clk_ns e, rt_snf_id = en_snf_id e, rt_hnf_id = en_hnf_id e, rt_free_run = en_free_run e,
      rt_max_syncs = en_max_syncs e, rt_sync_cycle = - 1, rt_sync_seen = False, rt_done = False, rt_exit_reason = [],
      rt_syncs_acked = 0, rt_cycles_run = 0, rt_bypass_served = 0, rt_phase = BIdle, rt_clk = False, rt_tasks = [],
      rt_dispatcher_dead = False, rt_sent = []\<rparr>"

definition rt_send :: "obj \<Rightarrow> runtime \<Rightarrow> runtime" where
  "rt_send msg rt = rt\<lparr>rt_sent := rt_sent rt @ [JObj msg]\<rparr>"

text \<open>A call into the agent or the broker; what it sends is appended to the transport's queue.\<close>

definition put_agent :: "snf_agent \<Rightarrow> runtime \<Rightarrow> runtime" where
  "put_agent a rt = rt\<lparr>rt_agent := a\<lparr>ag_sent := []\<rparr>, rt_sent := rt_sent rt @ ag_sent a\<rparr>"

definition put_broker :: "broker \<Rightarrow> runtime \<Rightarrow> runtime" where
  "put_broker b rt = rt\<lparr>rt_broker := b\<lparr>mb_sent := []\<rparr>, rt_sent := rt_sent rt @ map JObj (mb_sent b)\<rparr>"

section \<open>Routing\<close>

definition route_flit :: "obj \<Rightarrow> runtime \<Rightarrow> runtime result" where
  "route_flit msg rt =
     (let ch = opt_str msg ''ch''; direction = get_str msg ''dir'' ''g2t''; flit = get_obj msg ''flit''
      in if direction = ''g2t'' \<and> ch = Some ''req'' then Inr (put_agent (handle_gem5_req flit (rt_agent rt)) rt)
         else if direction = ''g2t'' \<and> ch = Some ''dat'' then
           and_then (handle_gem5_dat flit (rt_agent rt)) (\<lambda>a. Inr (put_agent a rt))
         else Inr rt)"

text \<open>\<^verbatim>\<open>_route\<close>; an exception ends the coroutine that called it.\<close>

definition route :: "obj \<Rightarrow> runtime \<Rightarrow> runtime result" where
  "route msg rt =
     (let kind = opt_str msg ''t''
      in if kind = Some ''flit'' then route_flit msg rt
         else if kind \<in> {Some ''mem_data'', Some ''mem_resp''} then
           Inr (put_broker (snd (broker_deliver msg (rt_broker rt))) rt)
         else if kind = Some ''bypass_read'' then Inr (rt\<lparr>rt_tasks := rt_tasks rt @ [StartRead msg]\<rparr>)
         else if kind = Some ''bypass_write'' then Inr (rt\<lparr>rt_tasks := rt_tasks rt @ [StartWrite msg]\<rparr>)
         else if kind = Some ''sync'' then
           Inr (rt\<lparr>rt_sync_cycle := get_int msg ''cycle'' 0, rt_sync_seen := True\<rparr>)
         else if kind = Some ''bye'' then
           Inr (rt\<lparr>rt_done := True, rt_exit_reason := get_str msg ''reason'' ''gem5 exit'', rt_sync_seen := True\<rparr>)
         else if kind = Some ''peer_closed'' then
           Inr (rt\<lparr>rt_done := True, rt_exit_reason := ''gem5 peer closed'', rt_sync_seen := True\<rparr>)
         else Inr rt)"

text \<open>One turn of the dispatcher that found a message.\<close>

definition dispatcher_turn :: "obj \<Rightarrow> runtime \<Rightarrow> runtime" where
  "dispatcher_turn msg rt =
     (if rt_done rt \<or> rt_dispatcher_dead rt then rt
      else case route msg rt of
          Inl e \<Rightarrow> rt\<lparr>rt_dispatcher_dead := True\<rparr>
        | Inr rt' \<Rightarrow> rt')"

section \<open>The handshake\<close>

text \<open>\<^verbatim>\<open>_await_message\<close>: the messages the blocking \<^verbatim>\<open>get\<close> returns, \<^const>\<open>None\<close> when it times out.  A list that ends is a
  call that still blocks.\<close>

fun await_message :: "string \<Rightarrow> obj option list \<Rightarrow> runtime \<Rightarrow> (obj \<times> runtime) result option" where
  "await_message kind [] rt = None"
| "await_message kind (None # ms) rt = Some (Inl TimeoutError)"
| "await_message kind (Some msg # ms) rt =
     (if opt_str msg ''t'' = Some kind then Some (Inr (msg, rt))
      else case route msg rt of
          Inl e \<Rightarrow> Some (Inl e)
        | Inr rt' \<Rightarrow> await_message kind ms rt')"

definition hello_ack_msg :: "runtime \<Rightarrow> obj" where
  "hello_ack_msg rt =
     [(''t'', JStr ''hello_ack''), (''ver'', JInt PROTOCOL_VERSION), (''clk_period_ns'', JFloat (rt_clk_period_ns rt))]"

definition take_hello :: "obj \<Rightarrow> runtime \<Rightarrow> runtime" where
  "take_hello hello rt =
     (let rt = rt\<lparr>rt_quantum_cycles := get_int hello ''quantum_cycles'' (rt_quantum_cycles rt),
                  rt_gem5_clk_ns := (case map_of hello ''clk_period_ns'' of None \<Rightarrow> rt_gem5_clk_ns rt | Some v \<Rightarrow> v),
                  rt_snf_id := get_int hello ''snf_id'' (rt_snf_id rt),
                  rt_hnf_id := get_int hello ''hnf_id'' (rt_hnf_id rt)\<rparr>;
          a = (rt_agent rt)\<lparr>ag_snf_id := rt_snf_id rt, ag_dut_nodeid := 0, ag_connected := True\<rparr>;
          rt = rt_send (hello_ack_msg rt) (rt\<lparr>rt_agent := a\<rparr>)
      in if rt_free_run rt then rt else rt\<lparr>rt_clk := False\<rparr>)"

definition handshake :: "obj option list \<Rightarrow> runtime \<Rightarrow> runtime result option" where
  "handshake ms rt =
     map_option (\<lambda>r. and_then r (\<lambda>(hello, rt). Inr (take_hello hello rt))) (await_message ''hello'' ms rt)"

section \<open>Bypass tasks\<close>

definition bypass_resp_msg :: "int \<Rightarrow> mem_value \<Rightarrow> obj" where
  "bypass_resp_msg pkt v =
     (case v of
        ReadValue data resp \<Rightarrow>
          [(''t'', JStr ''bypass_resp''), (''pkt'', JInt pkt), (''data'', JStr (bytes_to_hex data)), (''resp'', JInt resp)]
      | WriteValue resp \<Rightarrow>
          [(''t'', JStr ''bypass_resp''), (''pkt'', JInt pkt), (''data'', JStr ''''), (''resp'', JInt resp)])"

definition start_bypass_read :: "obj \<Rightarrow> broker \<Rightarrow> (bypass_task \<times> broker) result" where
  "start_bypass_read msg b =
     and_then (item_int msg ''pkt'') (\<lambda>pkt. and_then (item_int msg ''addr'') (\<lambda>addr. and_then (item_int msg ''len'') (\<lambda>len.
       let (rid, b) = broker_read addr len b
       in Inr (WaitMem pkt rid \<lparr>mc_is_read = True, mc_cycles = 0, mc_timeout = DEFAULT_TIMEOUT_CYCLES\<rparr>, b))))"

definition start_bypass_write :: "obj \<Rightarrow> broker \<Rightarrow> (bypass_task \<times> broker) result" where
  "start_bypass_write msg b =
     and_then (item_int msg ''pkt'') (\<lambda>pkt. and_then (fromhex (get_str msg ''data'' [])) (\<lambda>data.
       and_then (fromhex (let s = get_str msg ''strb'' [] in if s \<noteq> [] then s else concat (replicate (length data) ''ff''))) (\<lambda>strb.
       and_then (item_int msg ''addr'') (\<lambda>addr.
         let (rid, b) = broker_write addr data strb b
         in Inr (WaitMem pkt rid \<lparr>mc_is_read = False, mc_cycles = 0, mc_timeout = DEFAULT_TIMEOUT_CYCLES\<rparr>, b)))))"

text \<open>One turn of the \<open>i\<close>-th bypass task; a task that raises or returns is gone.\<close>

definition drop_task :: "nat \<Rightarrow> runtime \<Rightarrow> runtime" where
  "drop_task i rt = rt\<lparr>rt_tasks := take i (rt_tasks rt) @ drop (Suc i) (rt_tasks rt)\<rparr>"

definition started :: "nat \<Rightarrow> (bypass_task \<times> broker) result \<Rightarrow> runtime \<Rightarrow> runtime" where
  "started i r rt =
     (case r of
        Inl e \<Rightarrow> drop_task i rt
      | Inr (t, b) \<Rightarrow> put_broker b (rt\<lparr>rt_tasks := (rt_tasks rt)[i := t]\<rparr>))"

definition task_turn :: "nat \<Rightarrow> runtime \<Rightarrow> runtime" where
  "task_turn i rt =
     (if i < length (rt_tasks rt) then
        case rt_tasks rt ! i of
          StartRead msg \<Rightarrow> started i (start_bypass_read msg (rt_broker rt)) rt
        | StartWrite msg \<Rightarrow> started i (start_bypass_write msg (rt_broker rt)) rt
        | WaitMem pkt rid c \<Rightarrow>
            (case broker_resume rid c (rt_broker rt) of
               (Inr c', b) \<Rightarrow> put_broker b (rt\<lparr>rt_tasks := (rt_tasks rt)[i := WaitMem pkt rid c']\<rparr>)
             | (Inl (Inl e), b) \<Rightarrow> put_broker b (drop_task i rt)
             | (Inl (Inr v), b) \<Rightarrow>
                 let rt = put_broker b (drop_task i rt)
                 in rt_send (bypass_resp_msg pkt v) (rt\<lparr>rt_bypass_served := rt_bypass_served rt + 1\<rparr>))
      else rt)"

section \<open>The barrier loop\<close>

definition ack_msg :: "int \<Rightarrow> obj" where
  "ack_msg cycle = [(''t'', JStr ''ack''), (''cycle'', JInt cycle)]"

definition runtime_bye :: "runtime \<Rightarrow> obj" where
  "runtime_bye rt =
     [(''t'', JStr ''bye''), (''reason'', JStr (if rt_exit_reason rt \<noteq> [] then rt_exit_reason rt else ''tb done''))]"

definition barrier_finish :: "runtime \<Rightarrow> runtime" where
  "barrier_finish rt = rt_send (runtime_bye rt) (rt\<lparr>rt_phase := BFinished\<rparr>)"

text \<open>The end of a quantum.\<close>

definition acknowledge :: "runtime \<Rightarrow> runtime" where
  "acknowledge rt =
     (let rt = rt_send (ack_msg (rt_sync_cycle rt)) rt;
          rt = rt\<lparr>rt_syncs_acked := rt_syncs_acked rt + 1\<rparr>
      in if rt_max_syncs rt \<noteq> 0 \<and> rt_syncs_acked rt \<ge> rt_max_syncs rt
         then rt\<lparr>rt_exit_reason := ''tb barrier budget reached ('' @ dec_int (rt_syncs_acked rt) @ '')'', rt_done := True\<rparr>
         else rt)"

text \<open>\<^verbatim>\<open>n\<close> cycles of the quantum are left: the next starts.\<close>

definition next_cycle :: "nat \<Rightarrow> runtime \<Rightarrow> runtime" where
  "next_cycle n rt = (if rt_free_run rt then rt\<lparr>rt_phase := BFree n\<rparr> else rt\<lparr>rt_clk := True, rt_phase := BHigh n\<rparr>)"

definition park_or_finish :: "runtime \<Rightarrow> runtime" where
  "park_or_finish rt = (if rt_done rt then barrier_finish rt else rt\<lparr>rt_phase := BParked 0\<rparr>)"

text \<open>The loop is woken with \<^verbatim>\<open>sync_seen\<close> or \<^verbatim>\<open>done\<close> set; a quantum of no cycles is acknowledged at once, and nothing can
  have set \<^verbatim>\<open>sync_seen\<close> again by then.\<close>

definition wake :: "runtime \<Rightarrow> runtime" where
  "wake rt =
     (let rt = rt\<lparr>rt_sync_seen := False\<rparr>
      in if rt_done rt then barrier_finish rt
         else if rt_quantum_cycles rt \<le> 0 then park_or_finish (acknowledge rt)
         else next_cycle (nat (rt_quantum_cycles rt)) rt)"

definition barrier_top :: "runtime \<Rightarrow> runtime" where
  "barrier_top rt =
     (if rt_done rt then barrier_finish rt
      else if rt_sync_seen rt then wake rt
      else rt\<lparr>rt_phase := BParked 0\<rparr>)"

text \<open>The cycle just run is counted; the last of a quantum ends it.\<close>

definition end_cycle :: "nat \<Rightarrow> runtime \<Rightarrow> runtime" where
  "end_cycle n rt =
     (let rt = put_agent (agent_on_cycle (rt_agent rt)) rt;
          rt = rt\<lparr>rt_cycles_run := rt_cycles_run rt + 1\<rparr>
      in if n \<le> 1 then barrier_top (acknowledge rt) else next_cycle (n - 1) rt)"

definition parked_turn :: "nat \<Rightarrow> runtime \<Rightarrow> runtime" where
  "parked_turn k rt =
     (if Suc k > PARK_TIMEOUT_POLLS then rt\<lparr>rt_phase := BTimedOut\<rparr>
      else if rt_sync_seen rt \<or> rt_done rt then wake rt
      else rt\<lparr>rt_phase := BParked (Suc k)\<rparr>)"

definition barrier_turn :: "runtime \<Rightarrow> runtime" where
  "barrier_turn rt =
     (case rt_phase rt of
        BIdle \<Rightarrow> barrier_top rt
      | BParked k \<Rightarrow> parked_turn k rt
      | BHigh n \<Rightarrow> rt\<lparr>rt_clk := False, rt_phase := BLow n\<rparr>
      | BLow n \<Rightarrow> end_cycle n rt
      | BFree n \<Rightarrow> end_cycle n rt
      | BFinished \<Rightarrow> rt
      | BTimedOut \<Rightarrow> rt)"

section \<open>The step relation\<close>

text \<open>The identifiers that a bypass task waits for.\<close>

fun task_ids :: "bypass_task \<Rightarrow> int list" where
  "task_ids (WaitMem k i c) = [i]"
| "task_ids t = []"

text \<open>What the slave on the AXI port does with the broker: it starts a call, or resumes one of its own.\<close>

datatype port_op = PortRead int nat | PortWrite int "byte list" "byte list" | PortResume int mem_call

fun port_turn :: "port_op \<Rightarrow> broker \<Rightarrow> broker" where
  "port_turn (PortRead addr len) b = snd (broker_read addr (int len) b)"
| "port_turn (PortWrite addr data strb) b = snd (broker_write addr data strb b)"
| "port_turn (PortResume rid c) b = snd (broker_resume rid c b)"

definition port_allowed :: "port_op \<Rightarrow> bypass_task list \<Rightarrow> bool" where
  "port_allowed op ts \<longleftrightarrow> (case op of PortResume rid c \<Rightarrow> rid \<notin> set (concat (map task_ids ts)) | _ \<Rightarrow> True)"

text \<open>
  Any suspended coroutine may be resumed next, the monitors of the device may call the agent, and the slave on the AXI port the
  broker.  The dispatcher stops once \<^verbatim>\<open>done\<close> is set, the loop when it has finished.
\<close>

datatype rt_label = Dispatch obj | Barrier | Task nat | Device agent_event | Port port_op

inductive rt_step :: "runtime \<Rightarrow> rt_label \<Rightarrow> runtime \<Rightarrow> bool" where
  dispatch: "\<not> rt_done rt \<Longrightarrow> \<not> rt_dispatcher_dead rt \<Longrightarrow> rt_step rt (Dispatch msg) (dispatcher_turn msg rt)"
| barrier: "rt_phase rt \<notin> {BFinished, BTimedOut} \<Longrightarrow> rt_step rt Barrier (barrier_turn rt)"
| task: "i < length (rt_tasks rt) \<Longrightarrow> rt_step rt (Task i) (task_turn i rt)"
| device: "agent_step e (rt_agent rt) = Inr a \<Longrightarrow> rt_step rt (Device e) (put_agent a rt)"
| port: "port_allowed op (rt_tasks rt) \<Longrightarrow> rt_step rt (Port op) (put_broker (port_turn op (rt_broker rt)) rt)"

inductive_cases dispatch_stepE: "rt_step rt (Dispatch msg) rt'"
inductive_cases barrier_stepE: "rt_step rt Barrier rt'"
inductive_cases task_stepE: "rt_step rt (Task i) rt'"
inductive_cases device_stepE: "rt_step rt (Device e) rt'"

inductive_simps barrier_step_iff: "rt_step rt Barrier rt'"
inductive_simps dispatch_step_iff: "rt_step rt (Dispatch msg) rt'"

inductive rt_steps :: "runtime \<Rightarrow> rt_label list \<Rightarrow> runtime \<Rightarrow> bool" where
  none: "rt_steps rt [] rt"
| more: "rt_steps rt ls rt' \<Longrightarrow> rt_step rt' l rt'' \<Longrightarrow> rt_steps rt (ls @ [l]) rt''"

section \<open>What steps keep\<close>

lemmas rt_put_defs = put_agent_def put_broker_def rt_send_def

text \<open>The part of the state that only the barrier loop writes, apart from the messages queued.\<close>

definition barrier_part :: "runtime \<Rightarrow> int \<times> bool \<times> int \<times> int \<times> int \<times> barrier_phase \<times> bool" where
  "barrier_part rt = (rt_quantum_cycles rt, rt_free_run rt, rt_max_syncs rt, rt_syncs_acked rt, rt_cycles_run rt,
     rt_phase rt, rt_clk rt)"

lemma barrier_part_put [simp]:
  "barrier_part (put_agent a rt) = barrier_part rt" "barrier_part (put_broker b rt) = barrier_part rt"
  "barrier_part (drop_task i rt) = barrier_part rt" "barrier_part (rt\<lparr>rt_tasks := ts\<rparr>) = barrier_part rt"
  "barrier_part (rt_send m rt) = barrier_part rt" "barrier_part (rt\<lparr>rt_bypass_served := k\<rparr>) = barrier_part rt"
  "barrier_part (rt\<lparr>rt_dispatcher_dead := d\<rparr>) = barrier_part rt"
  by (simp_all add: barrier_part_def rt_put_defs drop_task_def)

lemma barrier_part_route: "route msg rt = Inr rt' \<Longrightarrow> barrier_part rt' = barrier_part rt"
  by (auto simp: route_def route_flit_def Let_def split: if_splits) (simp_all add: barrier_part_def)

lemma barrier_part_dispatch: "barrier_part (dispatcher_turn msg rt) = barrier_part rt"
  by (simp add: dispatcher_turn_def barrier_part_route split: sum.split)

lemma barrier_part_task: "barrier_part (task_turn i rt) = barrier_part rt"
  by (simp add: task_turn_def started_def Let_def split: bypass_task.split sum.split prod.split)

section \<open>Acknowledgements\<close>

text \<open>The only messages of the agent are flits and those of the broker memory requests, so the acks in the queue
  are the loop's.\<close>

definition is_ack :: "json \<Rightarrow> bool" where
  "is_ack m \<longleftrightarrow> opt_str (as_obj m) ''t'' = Some ''ack''"

definition acks :: "runtime \<Rightarrow> nat" where
  "acks rt = length (filter is_ack (rt_sent rt))"

text \<open>The messages of the handshake and the barrier loop, which nothing else sends.\<close>

definition is_control :: "json \<Rightarrow> bool" where
  "is_control m \<longleftrightarrow> opt_str (as_obj m) ''t'' \<in> {Some ''hello_ack'', Some ''ack'', Some ''bye''}"

lemma ack_control: "filter is_ack ms = filter is_ack (filter is_control ms)"
  by (induction ms) (auto simp: is_control_def is_ack_def)

definition sends_flits :: "snf_agent \<Rightarrow> bool" where
  "sends_flits a \<longleftrightarrow> list_all (\<lambda>m. opt_str (as_obj m) ''t'' = Some ''flit'') (ag_sent a)"

lemma flit_msg_kind [simp]: "opt_str (flit_msg ch p) ''t'' = Some ''flit''"
  by (simp add: flit_msg_def opt_str_def)

lemma sends_flits_control: "sends_flits a \<Longrightarrow> filter is_control (ag_sent a) = []"
  by (auto simp: sends_flits_def list_all_iff is_control_def filter_empty_conv)

lemma sends_flits_step:
  assumes "sends_flits a" "agent_step e a = Inr a'"
  shows "sends_flits a'"
proof -
  have rsp: "sends_flits (on_txrsp f a)" for f
    using assms(1)
    by (auto simp: sends_flits_def on_txrsp_def retry_ack_sent pcrd_grant_sent send_rsp_def send_to_gem5_def count_def with_mapper_def
        Let_def split: option.split)
  have dat: "sends_flits a'" if "handle_gem5_dat p a = Inr a'" for p
    using that assms(1) by (auto simp: sends_flits_def handle_gem5_dat_def count_def Let_def split: option.splits)
  have txdat: "sends_flits a'" if "on_txdat f a = Inr a'" for f
    using that assms(1)
    by (auto simp: sends_flits_def on_txdat_def send_to_gem5_def count_def with_mapper_def Let_def
        split: option.splits if_splits)
  show ?thesis
    using assms rsp dat txdat
    by (cases e) (auto simp: sends_flits_def handle_gem5_req_def agent_on_cycle_def agent_next_txn_def count_def with_mapper_def
        Let_def split: list.splits)
qed

text \<open>The components' own lists are empty between steps.\<close>

definition rt_clean :: "runtime \<Rightarrow> bool" where
  "rt_clean rt \<longleftrightarrow> ag_sent (rt_agent rt) = [] \<and> mb_sent (rt_broker rt) = []"

definition quiet :: "runtime \<Rightarrow> runtime \<Rightarrow> bool" where
  "quiet rt rt' \<longleftrightarrow> (rt_clean rt \<longrightarrow> rt_clean rt' \<and> filter is_control (rt_sent rt') = filter is_control (rt_sent rt))"

lemma quiet_acks: "quiet rt rt' \<Longrightarrow> rt_clean rt \<Longrightarrow> rt_clean rt' \<and> filter is_ack (rt_sent rt') = filter is_ack (rt_sent rt) \<and> acks rt' = acks rt"
  using ack_control [of "rt_sent rt"] ack_control [of "rt_sent rt'"] by (simp add: quiet_def acks_def)

lemma quiet_trans: "quiet rt rt' \<Longrightarrow> quiet rt' rt'' \<Longrightarrow> quiet rt rt''"
  by (simp add: quiet_def)

lemma quiet_same:
  "rt_agent rt' = rt_agent rt \<Longrightarrow> rt_broker rt' = rt_broker rt \<Longrightarrow> rt_sent rt' = rt_sent rt \<Longrightarrow> quiet rt rt'"
  by (simp add: quiet_def rt_clean_def)

lemma quiet_agent:
  assumes "agent_step e (rt_agent rt) = Inr a"
  shows "quiet rt (put_agent a rt)"
proof -
  have "rt_clean rt \<Longrightarrow> sends_flits (rt_agent rt)" by (simp add: sends_flits_def rt_clean_def)
  then have "rt_clean rt \<Longrightarrow> filter is_control (ag_sent a) = []" using sends_flits_step [OF _ assms] sends_flits_control by blast
  then show ?thesis by (simp add: quiet_def put_agent_def rt_clean_def)
qed

definition broker_only :: "broker \<Rightarrow> bool" where
  "broker_only b \<longleftrightarrow> list_all (\<lambda>m. opt_str m ''t'' \<in> {Some ''mem_read'', Some ''mem_write''}) (mb_sent b)"

lemma broker_only_empty: "mb_sent b = [] \<Longrightarrow> broker_only b"
  by (simp add: broker_only_def)

lemma broker_only_control: "broker_only b \<Longrightarrow> filter is_control (map JObj (mb_sent b)) = []"
  by (auto simp: broker_only_def list_all_iff is_control_def filter_empty_conv)

lemma quiet_broker: "(mb_sent (rt_broker rt) = [] \<Longrightarrow> broker_only b) \<Longrightarrow> quiet rt (put_broker b rt)"
  by (simp add: quiet_def broker_only_control put_broker_def rt_clean_def)

lemma broker_ops_only:
  assumes "broker_only b"
  shows "broker_only (snd (broker_deliver msg b))" "broker_only (snd (broker_resume rid c b))"
    "broker_read addr len b = (rid', b') \<Longrightarrow> broker_only b'" "broker_write addr data strb b = (rid', b') \<Longrightarrow> broker_only b'"
  using assms
  by (auto simp: broker_only_def broker_deliver_def broker_resume_def broker_read_def broker_write_def broker_alloc_id_def
      mem_read_msg_def mem_write_msg_def opt_str_def Let_def split: option.split)

text \<open>What routing a message does to the components: a call of the agent, a delivery to the broker, or nothing.\<close>

lemma route_cases:
  assumes "route msg rt = Inr rt'"
  obtains (agent) ev a where "agent_step ev (rt_agent rt) = Inr a" "rt' = put_agent a rt"
    | (broker) "rt' = put_broker (snd (broker_deliver msg (rt_broker rt))) rt"
    | (same) "rt_agent rt' = rt_agent rt" "rt_broker rt' = rt_broker rt" "rt_sent rt' = rt_sent rt"
proof -
  consider "opt_str msg ''t'' = Some ''flit''" | "opt_str msg ''t'' \<in> {Some ''mem_data'', Some ''mem_resp''}"
    | "opt_str msg ''t'' \<notin> {Some ''flit'', Some ''mem_data'', Some ''mem_resp''}" by blast
  then show thesis
  proof cases
    case 1
    then have "rt' = rt \<or> (\<exists>p. rt' = put_agent (handle_gem5_req p (rt_agent rt)) rt) \<or>
        (\<exists>p a. handle_gem5_dat p (rt_agent rt) = Inr a \<and> rt' = put_agent a rt)"
      using assms by (auto simp: route_def route_flit_def Let_def split: if_splits)
    moreover have "agent_step (GemReq p) a = Inr (handle_gem5_req p a)" "agent_step (GemDat p) a = handle_gem5_dat p a" for p a
      by simp_all
    ultimately show thesis using that(1,3) by metis
  next
    case 2
    then show thesis using assms that(2) by (auto simp: route_def)
  next
    case 3
    then show thesis using assms that(3) by (auto simp: route_def Let_def split: if_splits)
  qed
qed

lemma quiet_route:
  assumes "route msg rt = Inr rt'"
  shows "quiet rt rt'"
  using assms
proof (cases rule: route_cases)
  case broker
  have "quiet rt (put_broker (snd (broker_deliver msg (rt_broker rt))) rt)"
    by (rule quiet_broker, rule broker_ops_only, rule broker_only_empty)
  then show ?thesis by (simp add: broker)
qed (use quiet_agent quiet_same in auto)

lemma quiet_dispatch: "quiet rt (dispatcher_turn msg rt)"
  by (auto simp: dispatcher_turn_def intro: quiet_route quiet_same split: sum.split)

lemma quiet_started:
  assumes "\<And>t b. r = Inr (t, b) \<Longrightarrow> mb_sent (rt_broker rt) = [] \<Longrightarrow> broker_only b"
  shows "quiet rt (started i r rt)"
proof (cases r)
  case (Inl e)
  then show ?thesis by (simp add: started_def drop_task_def quiet_same)
next
  case (Inr p)
  obtain t b where p: "p = (t, b)" by (cases p)
  have "quiet rt (rt\<lparr>rt_tasks := (rt_tasks rt)[i := t]\<rparr>)" by (simp add: quiet_same)
  moreover have "quiet (rt\<lparr>rt_tasks := (rt_tasks rt)[i := t]\<rparr>) (put_broker b (rt\<lparr>rt_tasks := (rt_tasks rt)[i := t]\<rparr>))"
    by (rule quiet_broker) (use assms Inr p in simp)
  ultimately show ?thesis using quiet_trans by (simp add: started_def Inr p)
qed

lemma start_only:
  "mb_sent b = [] \<Longrightarrow> start_bypass_read m b = Inr (t, b') \<Longrightarrow> broker_only b'"
  "mb_sent b = [] \<Longrightarrow> start_bypass_write m b = Inr (t, b') \<Longrightarrow> broker_only b'"
  by (auto simp: start_bypass_read_def start_bypass_write_def split: prod.splits dest: broker_ops_only(3,4) [OF broker_only_empty])

lemma quiet_wait:
  assumes "broker_resume rid c (rt_broker rt) = (r, b)" and "rt_agent rt' = rt_agent rt" "rt_broker rt' = rt_broker rt" "rt_sent rt' = rt_sent rt"
  shows "quiet rt (put_broker b rt')"
proof -
  have "quiet rt' (put_broker b rt')"
    by (rule quiet_broker) (use assms broker_ops_only(2) [of "rt_broker rt" rid c] broker_only_empty in simp)
  then show ?thesis using quiet_trans quiet_same [OF assms(2-4)] by blast
qed

lemma quiet_bypass_resp: "quiet rt (rt_send (bypass_resp_msg pkt v) (rt\<lparr>rt_bypass_served := k\<rparr>))"
  by (cases v) (auto simp: quiet_def rt_clean_def rt_send_def bypass_resp_msg_def is_control_def opt_str_def)

lemma quiet_task: "quiet rt (task_turn i rt)"
proof (cases "i < length (rt_tasks rt)")
  case True
  show ?thesis
  proof (cases "rt_tasks rt ! i")
    case (WaitMem pkt rid c)
    obtain r b where r: "broker_resume rid c (rt_broker rt) = (r, b)" by (cases "broker_resume rid c (rt_broker rt)")
    have w: "quiet rt (put_broker b (rt\<lparr>rt_tasks := ts\<rparr>))" "quiet rt (put_broker b (drop_task i rt))" for ts
      by (rule quiet_wait [OF r]; simp add: drop_task_def)+
    show ?thesis
      using w quiet_trans [OF w(2) quiet_bypass_resp] True WaitMem r
      by (auto simp: task_turn_def Let_def split: sum.split)
  qed (use True start_only in \<open>auto simp: task_turn_def intro!: quiet_started\<close>)
qed (simp add: task_turn_def quiet_same)

lemma quiet_port: "quiet rt (put_broker (port_turn op (rt_broker rt)) rt)"
proof (rule quiet_broker)
  assume "mb_sent (rt_broker rt) = []"
  note only = broker_ops_only [OF broker_only_empty [OF this]]
  show "broker_only (port_turn op (rt_broker rt))"
    using only(2) only(3) [of _ _ "fst (broker_read a n (rt_broker rt))" "snd (broker_read a n (rt_broker rt))" for a n]
      only(4) [of _ _ _ "fst (broker_write a d s (rt_broker rt))" "snd (broker_write a d s (rt_broker rt))" for a d s]
    by (cases op) simp_all
qed

section \<open>Lockstep\<close>

text \<open>How many cycles of the current quantum have been run, and whether one is under way.\<close>

definition cycles_into :: "runtime \<Rightarrow> int" where
  "cycles_into rt =
     (case rt_phase rt of BHigh n \<Rightarrow> rt_quantum_cycles rt - int n | BLow n \<Rightarrow> rt_quantum_cycles rt - int n
      | BFree n \<Rightarrow> rt_quantum_cycles rt - int n | _ \<Rightarrow> 0)"

definition in_quantum :: "runtime \<Rightarrow> bool" where
  "in_quantum rt \<longleftrightarrow> (\<exists>n. rt_phase rt \<in> {BHigh n, BLow n, BFree n})"

definition phase_ok :: "runtime \<Rightarrow> bool" where
  "phase_ok rt \<longleftrightarrow>
     (case rt_phase rt of
        BHigh n \<Rightarrow> 1 \<le> n \<and> int n \<le> rt_quantum_cycles rt \<and> \<not> rt_free_run rt
      | BLow n \<Rightarrow> 1 \<le> n \<and> int n \<le> rt_quantum_cycles rt \<and> \<not> rt_free_run rt
      | BFree n \<Rightarrow> 1 \<le> n \<and> int n \<le> rt_quantum_cycles rt \<and> rt_free_run rt
      | _ \<Rightarrow> True)"

definition is_sync :: "rt_label \<Rightarrow> bool" where
  "is_sync l \<longleftrightarrow> (case l of Dispatch msg \<Rightarrow> opt_str msg ''t'' = Some ''sync'' | _ \<Rightarrow> False)"

definition lockstep :: "int \<Rightarrow> int \<Rightarrow> nat \<Rightarrow> runtime \<Rightarrow> bool" where
  "lockstep q budget syncs rt \<longleftrightarrow>
     rt_clean rt \<and> rt_quantum_cycles rt = q \<and> rt_max_syncs rt = budget \<and> phase_ok rt \<and>
     rt_cycles_run rt = q * rt_syncs_acked rt + cycles_into rt \<and> int (acks rt) = rt_syncs_acked rt \<and>
     (rt_clk rt \<longleftrightarrow> (\<exists>n. rt_phase rt = BHigh n)) \<and>
     rt_syncs_acked rt + of_bool (in_quantum rt) + of_bool (rt_sync_seen rt \<and> \<not> rt_done rt) \<le> int syncs \<and>
     (budget \<le> 0 \<or> rt_syncs_acked rt < budget \<or> rt_syncs_acked rt = budget \<and> rt_done rt \<and> \<not> in_quantum rt)"

lemma lockstep_frame:
  assumes "lockstep q budget n rt" "quiet rt rt'" "barrier_part rt' = barrier_part rt"
    and "of_bool (rt_sync_seen rt' \<and> \<not> rt_done rt') + n \<le> of_bool (rt_sync_seen rt \<and> \<not> rt_done rt) + m"
    and "rt_done rt \<Longrightarrow> rt_done rt'"
  shows "lockstep q budget m rt'"
proof -
  have f: "rt_quantum_cycles rt' = rt_quantum_cycles rt" "rt_free_run rt' = rt_free_run rt" "rt_max_syncs rt' = rt_max_syncs rt"
    "rt_syncs_acked rt' = rt_syncs_acked rt" "rt_cycles_run rt' = rt_cycles_run rt" "rt_phase rt' = rt_phase rt"
    "rt_clk rt' = rt_clk rt" using assms(3) by (simp_all add: barrier_part_def)
  have "rt_clean rt' \<and> acks rt' = acks rt" using quiet_acks [OF assms(2)] assms(1) by (simp add: lockstep_def)
  moreover have "phase_ok rt' = phase_ok rt" "cycles_into rt' = cycles_into rt" "in_quantum rt' = in_quantum rt"
    by (simp_all add: phase_ok_def cycles_into_def in_quantum_def f cong: barrier_phase.case_cong)
  moreover have "rt_syncs_acked rt + of_bool (in_quantum rt) + of_bool (rt_sync_seen rt' \<and> \<not> rt_done rt') \<le> int m"
  proof -
    have "rt_syncs_acked rt + of_bool (in_quantum rt) + of_bool (rt_sync_seen rt \<and> \<not> rt_done rt) \<le> int n"
      using assms(1) by (simp add: lockstep_def)
    moreover have "of_bool (rt_sync_seen rt' \<and> \<not> rt_done rt') + int n \<le> of_bool (rt_sync_seen rt \<and> \<not> rt_done rt) + int m"
      using assms(4) by (metis (no_types) of_nat_add of_nat_le_iff of_nat_of_bool)
    ultimately show ?thesis by linarith
  qed
  ultimately show ?thesis
    using assms(1,5) unfolding lockstep_def by (simp add: f) blast
qed

lemma lockstep_dispatch:
  assumes "lockstep q budget n rt"
  shows "lockstep q budget (n + of_bool (opt_str msg ''t'' = Some ''sync'')) (dispatcher_turn msg rt)"
proof (rule lockstep_frame [OF assms quiet_dispatch barrier_part_dispatch])
  have keep: "route_flit msg rt = Inr rt' \<Longrightarrow> rt_done rt' = rt_done rt \<and> rt_sync_seen rt' = rt_sync_seen rt" for rt'
    by (auto simp: route_flit_def Let_def put_agent_def split: if_splits)
  show "of_bool (rt_sync_seen (dispatcher_turn msg rt) \<and> \<not> rt_done (dispatcher_turn msg rt)) + n
      \<le> of_bool (rt_sync_seen rt \<and> \<not> rt_done rt) + (n + of_bool (opt_str msg ''t'' = Some ''sync''))"
    "rt_done rt \<Longrightarrow> rt_done (dispatcher_turn msg rt)"
    using keep by (auto simp: dispatcher_turn_def route_def put_broker_def Let_def split: sum.split)
qed

lemma done_task: "rt_done (task_turn i rt) = rt_done rt \<and> rt_sync_seen (task_turn i rt) = rt_sync_seen rt"
  by (simp add: task_turn_def started_def drop_task_def rt_put_defs Let_def split: bypass_task.split sum.split prod.split)

lemma acks_send: "acks (rt_send m rt) = acks rt + of_bool (is_ack (JObj m))"
  by (simp add: acks_def rt_send_def)

lemma acks_upd [simp]:
  "acks (rt\<lparr>rt_phase := p\<rparr>) = acks rt" "acks (rt\<lparr>rt_clk := c\<rparr>) = acks rt" "acks (rt\<lparr>rt_sync_seen := b\<rparr>) = acks rt"
  "acks (rt\<lparr>rt_syncs_acked := k\<rparr>) = acks rt" "acks (rt\<lparr>rt_cycles_run := k\<rparr>) = acks rt"
  "acks (rt\<lparr>rt_exit_reason := x, rt_done := d\<rparr>) = acks rt" "acks (rt\<lparr>rt_done := d, rt_exit_reason := x\<rparr>) = acks rt"
  by (simp_all add: acks_def)

lemma ack_is_ack [simp]: "is_ack (JObj (ack_msg k))" "\<not> is_ack (JObj (runtime_bye rt))"
  by (simp_all add: is_ack_def ack_msg_def runtime_bye_def opt_str_def)

text \<open>The two states between which the loop moves without awaiting: outside a quantum with nothing left to do.\<close>

lemma lockstep_finish:
  "lockstep q budget n rt \<Longrightarrow> \<not> in_quantum rt \<Longrightarrow> lockstep q budget n (barrier_finish rt)"
  by (cases "rt_phase rt")
    (auto simp: lockstep_def barrier_finish_def acks_send rt_clean_def rt_send_def phase_ok_def cycles_into_def in_quantum_def
      runtime_bye_def is_ack_def opt_str_def acks_def)

lemma lockstep_park:
  "lockstep q budget n rt \<Longrightarrow> \<not> in_quantum rt \<Longrightarrow> lockstep q budget n (rt\<lparr>rt_phase := BParked k\<rparr>)"
  by (cases "rt_phase rt") (auto simp: lockstep_def rt_clean_def phase_ok_def cycles_into_def in_quantum_def)

text \<open>A quantum that has run all its cycles: acknowledging it ends it.\<close>

definition quantum_run :: "int \<Rightarrow> int \<Rightarrow> nat \<Rightarrow> runtime \<Rightarrow> bool" where
  "quantum_run q budget n rt \<longleftrightarrow>
     rt_clean rt \<and> rt_quantum_cycles rt = q \<and> rt_max_syncs rt = budget \<and> rt_cycles_run rt = q * (rt_syncs_acked rt + 1) \<and>
     int (acks rt) = rt_syncs_acked rt \<and> \<not> rt_clk rt \<and>
     rt_syncs_acked rt + 1 + of_bool (rt_sync_seen rt \<and> \<not> rt_done rt) \<le> int n \<and>
     (budget \<le> 0 \<or> rt_syncs_acked rt < budget)"

lemma rt_clean_upd [simp]:
  "rt_clean (rt\<lparr>rt_phase := p\<rparr>) = rt_clean rt" "rt_clean (rt\<lparr>rt_clk := c\<rparr>) = rt_clean rt"
  "rt_clean (rt\<lparr>rt_sync_seen := b\<rparr>) = rt_clean rt" "rt_clean (rt\<lparr>rt_syncs_acked := k\<rparr>) = rt_clean rt"
  "rt_clean (rt\<lparr>rt_cycles_run := k\<rparr>) = rt_clean rt" "rt_clean (rt\<lparr>rt_exit_reason := x, rt_done := d\<rparr>) = rt_clean rt"
  "rt_clean (rt\<lparr>rt_done := d, rt_exit_reason := x\<rparr>) = rt_clean rt"
  "rt_clean (rt_send m rt) = rt_clean rt"
  by (simp_all add: rt_clean_def rt_send_def)

lemma rt_send_sel [simp]:
  "rt_quantum_cycles (rt_send m rt) = rt_quantum_cycles rt" "rt_max_syncs (rt_send m rt) = rt_max_syncs rt"
  "rt_syncs_acked (rt_send m rt) = rt_syncs_acked rt" "rt_cycles_run (rt_send m rt) = rt_cycles_run rt"
  "rt_clk (rt_send m rt) = rt_clk rt" "rt_done (rt_send m rt) = rt_done rt" "rt_sync_seen (rt_send m rt) = rt_sync_seen rt"
  "rt_phase (rt_send m rt) = rt_phase rt" "rt_free_run (rt_send m rt) = rt_free_run rt"
  by (simp_all add: rt_send_def)

lemma acknowledge_sel:
  "rt_clean (acknowledge rt) = rt_clean rt" "rt_quantum_cycles (acknowledge rt) = rt_quantum_cycles rt"
  "rt_max_syncs (acknowledge rt) = rt_max_syncs rt" "rt_cycles_run (acknowledge rt) = rt_cycles_run rt"
  "rt_syncs_acked (acknowledge rt) = rt_syncs_acked rt + 1" "acks (acknowledge rt) = acks rt + 1"
  "rt_clk (acknowledge rt) = rt_clk rt" "rt_sync_seen (acknowledge rt) = rt_sync_seen rt"
  "rt_done (acknowledge rt) \<longleftrightarrow> rt_done rt \<or> rt_max_syncs rt \<noteq> 0 \<and> rt_syncs_acked rt + 1 \<ge> rt_max_syncs rt"
  by (simp_all add: acknowledge_def Let_def acks_send)

lemma lockstep_acknowledge:
  assumes "quantum_run q budget n rt"
  shows "lockstep q budget n ((acknowledge rt)\<lparr>rt_phase := BParked k\<rparr>)"
proof -
  have "rt_syncs_acked rt + 1 + of_bool (rt_sync_seen rt \<and> \<not> rt_done (acknowledge rt)) \<le> int n"
    using assms by (cases "rt_sync_seen rt"; cases "rt_done rt") (auto simp: quantum_run_def acknowledge_sel)
  moreover have "budget \<le> 0 \<or> rt_syncs_acked rt + 1 < budget \<or> rt_syncs_acked rt + 1 = budget \<and> rt_done (acknowledge rt)"
    using assms by (auto simp: quantum_run_def acknowledge_sel)
  ultimately show ?thesis
    using assms by (simp add: lockstep_def quantum_run_def acknowledge_sel phase_ok_def cycles_into_def in_quantum_def)
qed

lemma barrier_finish_phase: "barrier_finish (rt\<lparr>rt_phase := p\<rparr>) = barrier_finish rt"
  by (simp add: barrier_finish_def rt_send_def runtime_bye_def)

lemma park_or_finish_phase: "park_or_finish (rt\<lparr>rt_phase := p\<rparr>) = park_or_finish rt"
  by (simp add: park_or_finish_def barrier_finish_phase)

lemma barrier_top_phase: "barrier_top (rt\<lparr>rt_phase := p\<rparr>) = barrier_top rt"
proof -
  let ?p = "rt\<lparr>rt_phase := p, rt_sync_seen := False\<rparr>"
  let ?q = "rt\<lparr>rt_sync_seen := False\<rparr>"
  have fin: "barrier_finish ?p = barrier_finish ?q" by (simp add: barrier_finish_def rt_send_def runtime_bye_def)
  have "acknowledge ?p = (acknowledge ?q)\<lparr>rt_phase := p\<rparr>" by (simp add: acknowledge_def rt_send_def Let_def)
  then have ack: "park_or_finish (acknowledge ?p) = park_or_finish (acknowledge ?q)" by (simp only: park_or_finish_phase)
  have "next_cycle k ?p = next_cycle k ?q" for k by (simp add: next_cycle_def)
  then have "wake (rt\<lparr>rt_phase := p\<rparr>) = wake rt" using fin ack by (simp add: wake_def Let_def)
  then show ?thesis by (simp add: barrier_top_def barrier_finish_phase)
qed

lemma lockstep_park_or_finish:
  assumes "quantum_run q budget n rt"
  shows "lockstep q budget n (park_or_finish (acknowledge rt))"
  using lockstep_finish [OF lockstep_acknowledge [OF assms, of 0]] lockstep_acknowledge [OF assms, of 0]
  by (auto simp: park_or_finish_def barrier_finish_phase in_quantum_def)

lemma lockstep_seen:
  "lockstep q budget n rt \<Longrightarrow> lockstep q budget n (rt\<lparr>rt_sync_seen := False\<rparr>)"
  by (cases "rt_phase rt") (auto simp: lockstep_def phase_ok_def cycles_into_def in_quantum_def of_bool_def split: if_splits)

lemma lockstep_wake:
  assumes "lockstep q budget n rt" "\<not> in_quantum rt" "rt_sync_seen rt \<or> rt_done rt" "0 \<le> q"
  shows "lockstep q budget n (wake rt)"
proof -
  let ?rt = "rt\<lparr>rt_sync_seen := False\<rparr>"
  have l: "lockstep q budget n ?rt" "\<not> in_quantum ?rt"
    using lockstep_seen [OF assms(1)] assms(2) by (simp_all add: in_quantum_def)
  have into: "cycles_into rt = 0" using assms(2) by (cases "rt_phase rt") (auto simp: cycles_into_def in_quantum_def)
  have clk: "\<not> rt_clk rt" using assms(1,2) by (auto simp: lockstep_def in_quantum_def)
  consider "rt_done rt" | "\<not> rt_done rt" "rt_sync_seen rt" "q = 0" | "\<not> rt_done rt" "rt_sync_seen rt" "0 < q"
    using assms(3,4) by force
  then show ?thesis
  proof cases
    case 1
    then show ?thesis using lockstep_finish [OF l] by (simp add: wake_def)
  next
    case 2
    then have "quantum_run q budget n ?rt"
      using assms(1,2) clk into by (auto simp: lockstep_def quantum_run_def)
    then show ?thesis using lockstep_park_or_finish 2 assms(1) by (simp add: wake_def Let_def lockstep_def)
  next
    case 3
    then show ?thesis
      using assms(1,2) clk into
      by (auto simp: wake_def Let_def next_cycle_def lockstep_def phase_ok_def cycles_into_def in_quantum_def)
  qed
qed

lemma lockstep_top:
  "lockstep q budget n rt \<Longrightarrow> \<not> in_quantum rt \<Longrightarrow> 0 \<le> q \<Longrightarrow> lockstep q budget n (barrier_top rt)"
  using lockstep_finish lockstep_wake lockstep_park by (auto simp: barrier_top_def)

lemma lockstep_end_cycle:
  assumes "lockstep q budget m rt" "rt_phase rt \<in> {BLow n, BFree n}" "0 \<le> q"
  shows "lockstep q budget m (end_cycle n rt)"
proof -
  define rt1 where "rt1 = (put_agent (agent_on_cycle (rt_agent rt)) rt)\<lparr>rt_cycles_run := rt_cycles_run rt + 1\<rparr>"
  have "quiet rt (put_agent (agent_on_cycle (rt_agent rt)) rt)"
    by (rule quiet_agent [of ClockCycle]) simp
  from quiet_acks [OF this] have c: "rt_clean rt1" "acks rt1 = acks rt"
    using assms(1) by (simp_all add: lockstep_def rt1_def)
  have f: "rt_quantum_cycles rt1 = rt_quantum_cycles rt" "rt_free_run rt1 = rt_free_run rt" "rt_max_syncs rt1 = rt_max_syncs rt"
    "rt_syncs_acked rt1 = rt_syncs_acked rt" "rt_cycles_run rt1 = rt_cycles_run rt + 1" "rt_phase rt1 = rt_phase rt"
    "rt_clk rt1 = rt_clk rt" "rt_done rt1 = rt_done rt" "rt_sync_seen rt1 = rt_sync_seen rt"
    by (simp_all add: rt1_def put_agent_def)
  have n: "1 \<le> n" "int n \<le> q" "rt_cycles_run rt1 = q * rt_syncs_acked rt + (q - int n) + 1" "in_quantum rt"
    using assms(1,2) by (auto simp: lockstep_def phase_ok_def cycles_into_def in_quantum_def f)
  have e: "end_cycle n rt = (if n \<le> 1 then barrier_top (acknowledge rt1) else next_cycle (n - 1) rt1)"
    by (simp add: end_cycle_def rt1_def Let_def put_agent_def)
  show ?thesis
  proof (cases "n \<le> 1")
    case True
    then have "quantum_run q budget m rt1"
      using assms(1,2) n c by (auto simp: lockstep_def quantum_run_def f algebra_simps)
    then have "lockstep q budget m (barrier_top ((acknowledge rt1)\<lparr>rt_phase := BParked 0\<rparr>))"
      using lockstep_top [OF lockstep_acknowledge] assms(3) by (simp add: in_quantum_def)
    then show ?thesis using True e by (simp add: barrier_top_phase)
  next
    case False
    then have "in_quantum (next_cycle (n - 1) rt1)" by (simp add: next_cycle_def in_quantum_def)
    then show ?thesis
      using assms(1,2) n c False e
      by (auto simp: lockstep_def next_cycle_def phase_ok_def cycles_into_def f of_nat_diff)
  qed
qed

lemma lockstep_barrier:
  assumes "lockstep q budget m rt" "0 \<le> q"
  shows "lockstep q budget m (barrier_turn rt)"
proof (cases "rt_phase rt")
  case BIdle
  then show ?thesis using lockstep_top [OF assms(1) _ assms(2)] by (simp add: barrier_turn_def in_quantum_def)
next
  case (BParked k)
  then have nq: "\<not> in_quantum rt" by (simp add: in_quantum_def)
  have "lockstep q budget m (rt\<lparr>rt_phase := BTimedOut\<rparr>)"
    using assms(1) BParked by (auto simp: lockstep_def phase_ok_def cycles_into_def in_quantum_def)
  then show ?thesis
    using BParked lockstep_wake [OF assms(1) nq _ assms(2)] lockstep_park [OF assms(1) nq]
    by (auto simp: barrier_turn_def parked_turn_def)
next
  case (BHigh n)
  then have "in_quantum rt" "in_quantum (rt\<lparr>rt_clk := False, rt_phase := BLow n\<rparr>)" by (simp_all add: in_quantum_def)
  then show ?thesis using assms(1) BHigh by (auto simp: barrier_turn_def lockstep_def phase_ok_def cycles_into_def)
next
  case (BLow n)
  then show ?thesis using lockstep_end_cycle [OF assms(1) _ assms(2)] by (simp add: barrier_turn_def)
next
  case (BFree n)
  then show ?thesis using lockstep_end_cycle [OF assms(1) _ assms(2)] by (simp add: barrier_turn_def)
qed (use assms in \<open>simp_all add: barrier_turn_def\<close>)

lemma lockstep_step:
  assumes "rt_step rt l rt'" "lockstep q budget n rt" "0 \<le> q"
  shows "lockstep q budget (n + of_bool (is_sync l)) rt'"
  using assms(1)
proof cases
  case (dispatch msg)
  then show ?thesis using lockstep_dispatch [OF assms(2)] by (simp add: is_sync_def)
next
  case barrier
  then show ?thesis using lockstep_barrier [OF assms(2,3)] by (simp add: is_sync_def)
next
  case (task i)
  then show ?thesis
    using lockstep_frame [OF assms(2) quiet_task [of rt i] barrier_part_task, of n] by (simp add: is_sync_def done_task)
next
  case (device e a)
  then show ?thesis
    using lockstep_frame [OF assms(2) quiet_agent [OF device(3)], of n] by (simp add: is_sync_def put_agent_def barrier_part_def)
next
  case (port op)
  then show ?thesis
    using lockstep_frame [OF assms(2) quiet_port [of rt op], of n] by (simp add: is_sync_def put_broker_def barrier_part_def)
qed

lemma lockstep_steps:
  "rt_steps rt ls rt' \<Longrightarrow> lockstep q budget n rt \<Longrightarrow> 0 \<le> q \<Longrightarrow> lockstep q budget (n + length (filter is_sync ls)) rt'"
proof (induction rule: rt_steps.induct)
  case (more rt ls rt' l rt'')
  then show ?case using lockstep_step [OF more.hyps(2) more.IH] by (cases "is_sync l") auto
qed simp

text \<open>The state in which the loop is started: the handshake is over, and a sync may have been routed already.\<close>

definition rt_ready :: "runtime \<Rightarrow> bool" where
  "rt_ready rt \<longleftrightarrow> rt_clean rt \<and> rt_phase rt = BIdle \<and> rt_syncs_acked rt = 0 \<and> rt_cycles_run rt = 0 \<and> acks rt = 0 \<and>
     \<not> rt_clk rt \<and> 0 \<le> rt_quantum_cycles rt"

text \<open>
  Lockstep: however the dispatcher, the barrier loop, the bypass tasks and the device interleave, at every point the
  cycles run are exactly the quantum for each acknowledgement sent plus the cycles of the quantum under way, so that no
  cycle is run while the clock is parked (the clock is then low) and none is lost; there is never an acknowledgement
  without a sync of its own, and a barrier budget is never exceeded.
\<close>

theorem barrier_lockstep:
  assumes "rt_steps rt ls rt'" and "rt_ready rt"
  shows "rt_cycles_run rt' = rt_quantum_cycles rt * int (acks rt') +
      (case rt_phase rt' of BHigh n \<Rightarrow> rt_quantum_cycles rt - int n | BLow n \<Rightarrow> rt_quantum_cycles rt - int n
       | BFree n \<Rightarrow> rt_quantum_cycles rt - int n | _ \<Rightarrow> 0) \<and>
    rt_syncs_acked rt' = int (acks rt') \<and>
    acks rt' \<le> length (filter is_sync ls) + of_bool (rt_sync_seen rt) \<and>
    (rt_clk rt' \<longleftrightarrow> (\<exists>n. rt_phase rt' = BHigh n)) \<and>
    (rt_max_syncs rt \<le> 0 \<or> int (acks rt') \<le> rt_max_syncs rt)"
proof -
  have "lockstep (rt_quantum_cycles rt) (rt_max_syncs rt) (of_bool (rt_sync_seen rt)) rt"
    using assms(2) by (auto simp: rt_ready_def lockstep_def phase_ok_def cycles_into_def in_quantum_def)
  from lockstep_steps [OF assms(1) this] have l: "lockstep (rt_quantum_cycles rt) (rt_max_syncs rt)
      (of_bool (rt_sync_seen rt) + length (filter is_sync ls)) rt'"
    using assms(2) by (simp add: rt_ready_def)
  then have "int (acks rt') \<le> int (of_bool (rt_sync_seen rt) + length (filter is_sync ls))"
  proof -
    have "rt_syncs_acked rt' + of_bool (in_quantum rt') + of_bool (rt_sync_seen rt' \<and> \<not> rt_done rt')
        \<le> int (of_bool (rt_sync_seen rt) + length (filter is_sync ls))" "int (acks rt') = rt_syncs_acked rt'"
      using l by (simp_all only: lockstep_def)
    moreover have "(0 :: int) \<le> of_bool (in_quantum rt')" "(0 :: int) \<le> of_bool (rt_sync_seen rt' \<and> \<not> rt_done rt')" by simp_all
    ultimately show ?thesis by linarith
  qed
  then have "acks rt' \<le> length (filter is_sync ls) + of_bool (rt_sync_seen rt)" by linarith
  moreover have "rt_quantum_cycles rt' = rt_quantum_cycles rt" using l by (simp add: lockstep_def)
  then have "cycles_into rt' = (case rt_phase rt' of BHigh n \<Rightarrow> rt_quantum_cycles rt - int n | BLow n \<Rightarrow> rt_quantum_cycles rt - int n
      | BFree n \<Rightarrow> rt_quantum_cycles rt - int n | _ \<Rightarrow> 0)"
    by (simp add: cycles_into_def cong: barrier_phase.case_cong)
  ultimately show ?thesis using l by (auto simp: lockstep_def)
qed

text \<open>The witness: one sync, a quantum of one cycle, and its acknowledgement.\<close>

definition demo_runtime :: runtime where
  "demo_runtime =
     \<lparr>rt_agent = agent_init, rt_broker = broker_init, rt_quantum_cycles = 1, rt_gem5_clk_ns = JFloat ''0.556'',
      rt_clk_period_ns = ''0.556'', rt_snf_id = 0x80, rt_hnf_id = 0x90, rt_free_run = False, rt_max_syncs = 0,
      rt_sync_cycle = - 1, rt_sync_seen = False, rt_done = False, rt_exit_reason = [], rt_syncs_acked = 0,
      rt_cycles_run = 0, rt_bypass_served = 0, rt_phase = BIdle, rt_clk = False, rt_tasks = [],
      rt_dispatcher_dead = False, rt_sent = []\<rparr>"

definition sync_in :: obj where
  "sync_in = [(''t'', JStr ''sync''), (''cycle'', JInt 0)]"

theorem barrier_lockstep_witness:
  "\<exists>rt'. rt_steps demo_runtime [Dispatch sync_in, Barrier, Barrier, Barrier] rt' \<and> rt_cycles_run rt' = 1 \<and> acks rt' = 1"
proof -
  let ?r1 = "demo_runtime\<lparr>rt_sync_cycle := 0, rt_sync_seen := True\<rparr>"
  let ?r2 = "demo_runtime\<lparr>rt_sync_cycle := 0, rt_phase := BHigh 1, rt_clk := True\<rparr>"
  let ?r3 = "demo_runtime\<lparr>rt_sync_cycle := 0, rt_phase := BLow 1\<rparr>"
  let ?r4 = "barrier_turn ?r3"
  have "dispatcher_turn sync_in demo_runtime = ?r1"
    by (simp add: dispatcher_turn_def route_def sync_in_def opt_str_def get_int_def demo_runtime_def)
  then have 1: "rt_step demo_runtime (Dispatch sync_in) ?r1"
    using rt_step.dispatch [of demo_runtime sync_in] by (simp add: demo_runtime_def)
  have "barrier_turn ?r1 = ?r2" "barrier_turn ?r2 = ?r3"
    by (simp_all add: barrier_turn_def barrier_top_def wake_def next_cycle_def demo_runtime_def)
  then have 2: "rt_step ?r1 Barrier ?r2" "rt_step ?r2 Barrier ?r3" "rt_step ?r3 Barrier ?r4"
    using rt_step.barrier [of ?r1] rt_step.barrier [of ?r2] rt_step.barrier [of ?r3] by (simp_all add: demo_runtime_def)
  have s: "rt_steps demo_runtime [Dispatch sync_in, Barrier, Barrier, Barrier] ?r4"
    using rt_steps.more [OF rt_steps.more [OF rt_steps.more [OF rt_steps.more [OF rt_steps.none 1] 2(1)] 2(2)] 2(3)] by simp
  have "rt_ready demo_runtime"
    by (simp add: rt_ready_def demo_runtime_def rt_clean_def agent_init_def broker_init_def acks_def)
  note l = barrier_lockstep [OF s this]
  have "rt_syncs_acked ?r4 = 1" "rt_cycles_run ?r4 = 1"
    by (simp_all add: barrier_turn_def end_cycle_def put_agent_def barrier_top_def acknowledge_def Let_def demo_runtime_def)
  then show ?thesis using s l by (intro exI [of _ ?r4]) auto
qed

section \<open>The loop ends\<close>

definition turns_left :: "runtime \<Rightarrow> nat" where
  "turns_left rt = (case rt_phase rt of BHigh n \<Rightarrow> 2 * n | BLow n \<Rightarrow> 2 * n - 1 | BFree n \<Rightarrow> n | _ \<Rightarrow> 1)"

definition ended :: "int \<Rightarrow> runtime \<Rightarrow> bool" where
  "ended k rt \<longleftrightarrow> rt_phase rt = BFinished \<and> last (rt_sent rt) = JObj (runtime_bye rt) \<and> rt_syncs_acked rt = k"

lemma ended_finish: "ended (rt_syncs_acked rt) (barrier_finish rt)"
  by (simp add: ended_def barrier_finish_def rt_send_def runtime_bye_def)

lemma end_cycle_done:
  assumes "rt_done rt" "1 \<le> n"
  shows "\<exists>rt'. rt_done rt' \<and> rt_syncs_acked rt' = rt_syncs_acked rt \<and> rt_free_run rt' = rt_free_run rt \<and>
    (if n = 1 then ended (rt_syncs_acked rt + 1) (end_cycle n rt) else end_cycle n rt = next_cycle (n - 1) rt')"
proof -
  let ?r = "(put_agent (agent_on_cycle (rt_agent rt)) rt)\<lparr>rt_cycles_run := rt_cycles_run rt + 1\<rparr>"
  have r: "rt_done ?r" "rt_syncs_acked ?r = rt_syncs_acked rt" "rt_free_run ?r = rt_free_run rt"
    using assms(1) by (simp_all add: put_agent_def)
  have "end_cycle n rt = (if n \<le> 1 then barrier_top (acknowledge ?r) else next_cycle (n - 1) ?r)"
    by (simp add: end_cycle_def Let_def put_agent_def)
  moreover have "barrier_top (acknowledge ?r) = barrier_finish (acknowledge ?r)"
    using r(1) by (simp add: barrier_top_def acknowledge_sel)
  moreover have "ended (rt_syncs_acked rt + 1) (barrier_finish (acknowledge ?r))"
    using ended_finish [of "acknowledge ?r"] r(2) by (simp add: acknowledge_sel)
  ultimately show ?thesis using assms(2) r by (intro exI [of _ ?r]) auto
qed

lemma low_ends:
  "rt_done rt \<Longrightarrow> \<not> rt_free_run rt \<Longrightarrow> rt_phase rt = BLow (Suc n) \<Longrightarrow>
     ended (rt_syncs_acked rt + 1) ((barrier_turn ^^ Suc (2 * n)) rt)"
proof (induction n arbitrary: rt)
  case 0
  then show ?case using end_cycle_done [of rt 1] by (auto simp: barrier_turn_def)
next
  case (Suc n)
  obtain r where r: "rt_done r" "rt_syncs_acked r = rt_syncs_acked rt" "\<not> rt_free_run r"
      "end_cycle (Suc (Suc n)) rt = next_cycle (Suc n) r"
    using end_cycle_done [of rt "Suc (Suc n)"] Suc.prems by auto
  let ?r = "r\<lparr>rt_clk := False, rt_phase := BLow (Suc n)\<rparr>"
  have "barrier_turn (barrier_turn rt) = ?r"
    using r Suc.prems by (simp add: barrier_turn_def next_cycle_def)
  moreover have "(barrier_turn ^^ Suc (2 * Suc n)) rt = (barrier_turn ^^ Suc (2 * n)) (barrier_turn (barrier_turn rt))"
    by (simp add: funpow_swap1)
  ultimately show ?case using Suc.IH [of ?r] r by simp
qed

lemma free_ends:
  "rt_done rt \<Longrightarrow> rt_free_run rt \<Longrightarrow> rt_phase rt = BFree (Suc n) \<Longrightarrow>
     ended (rt_syncs_acked rt + 1) ((barrier_turn ^^ Suc n) rt)"
proof (induction n arbitrary: rt)
  case 0
  then show ?case using end_cycle_done [of rt 1] by (auto simp: barrier_turn_def)
next
  case (Suc n)
  obtain r where r: "rt_done r" "rt_syncs_acked r = rt_syncs_acked rt" "rt_free_run r"
      "end_cycle (Suc (Suc n)) rt = next_cycle (Suc n) r"
    using end_cycle_done [of rt "Suc (Suc n)"] Suc.prems by auto
  have "barrier_turn rt = r\<lparr>rt_phase := BFree (Suc n)\<rparr>"
    using r Suc.prems by (simp add: barrier_turn_def next_cycle_def)
  moreover have "(barrier_turn ^^ Suc (Suc n)) rt = (barrier_turn ^^ Suc n) (barrier_turn rt)"
    by (simp add: funpow_swap1)
  ultimately show ?case using Suc.IH [of "r\<lparr>rt_phase := BFree (Suc n)\<rparr>"] r by simp
qed

lemma loop_ends:
  assumes "rt_done rt" and "phase_ok rt" and "rt_phase rt \<notin> {BFinished, BTimedOut}"
    and "case rt_phase rt of BParked j \<Rightarrow> j < PARK_TIMEOUT_POLLS | _ \<Rightarrow> True"
  shows "ended (rt_syncs_acked rt + of_bool (in_quantum rt)) ((barrier_turn ^^ turns_left rt) rt)"
proof (cases "rt_phase rt")
  case BIdle
  then show ?thesis using assms(1) ended_finish [of rt]
    by (simp add: turns_left_def barrier_turn_def barrier_top_def in_quantum_def)
next
  case (BParked j)
  then show ?thesis using assms(1,4) ended_finish [of "rt\<lparr>rt_sync_seen := False\<rparr>"]
    by (simp add: turns_left_def barrier_turn_def parked_turn_def wake_def in_quantum_def)
next
  case (BHigh n)
  then obtain m where m: "n = Suc m" using assms(2) by (cases n) (auto simp: phase_ok_def)
  have "ended (rt_syncs_acked rt + 1) ((barrier_turn ^^ Suc (2 * m)) (barrier_turn rt))"
    using low_ends [of "barrier_turn rt" m] assms(1,2) BHigh m by (simp add: barrier_turn_def phase_ok_def)
  then show ?thesis using BHigh m by (simp add: turns_left_def in_quantum_def funpow_swap1)
next
  case (BLow n)
  then obtain m where "n = Suc m" using assms(2) by (cases n) (auto simp: phase_ok_def)
  then show ?thesis using low_ends [of rt m] assms(1,2) BLow by (simp add: turns_left_def in_quantum_def phase_ok_def)
next
  case (BFree n)
  then obtain m where "n = Suc m" using assms(2) by (cases n) (auto simp: phase_ok_def)
  then show ?thesis using free_ends [of rt m] assms(1,2) BFree by (simp add: turns_left_def in_quantum_def phase_ok_def)
qed (use assms(3) in simp_all)



end
