(* ===== verification/Tb_Peer.thy ===== *)
theory Tb_Peer
  imports Fake_Gem5
begin

text \<open>
  The stand-in for the testbench, \<^verbatim>\<open>tb_peer_sim.py\<close>: its local DDR, the memory service, the emulated SN-F and
  the message loop.

  The callbacks of the memory service are closures in the code; here they are data (\<open>peer_cont\<close>) with the variables that
  each closure captures, and \<open>run_cont\<close> calls one.  An exception ends the program.  What the calls of its receive loop
  (\<open>peer_recv\<close>) return is an argument of the message loop.
\<close>

section \<open>Receiving\<close>

text \<open>\<^verbatim>\<open>recv\<close>, whose loop over the buffer and the socket is that of \<^verbatim>\<open>fake_gem5.py\<close> with a deadline; \<^const>\<open>None\<close> is a call that
  still blocks.\<close>

definition peer_recv :: "byte list \<times> recv_turn list \<Rightarrow> json option result option \<times> byte list \<times> recv_turn list" where
  "peer_recv = (\<lambda>(rbuf, turns).
     case recv_line True rbuf turns of
       (RLine line, s) \<Rightarrow> (Some (and_then (decode_msg line) (\<lambda>msg. Inr (Some msg))), s)
     | (RNone, s) \<Rightarrow> (Some (Inr None), s)
     | (RClosed, s) \<Rightarrow> (Some (Inr (Some (JObj closed_msg))), s)
     | (RWaiting, s) \<Rightarrow> (None, s))"

text \<open>As long as no deadline passes and the socket stays open, a call returns the next message, however it is cut into chunks.\<close>

lemma peer_recv_next:
  assumes "reader_quiet (buf, turns)" "json_ok m" "buf @ turn_bytes turns = encode_msg m @ rest"
  shows "\<exists>s'. peer_recv (buf, turns) = (Some (Inr (Some m)), s') \<and> reader_quiet s' \<and>
    lines (fst s' @ turn_bytes (snd s')) = lines rest"
proof -
  obtain l where l: "encode_msg m = l @ [NL]" "NL \<notin> set l" "l \<noteq> []" "decode_msg l = Inr m" using encode_msg_line [OF assms(2)] by auto
  then have lines: "lines (buf @ turn_bytes turns) = l # lines rest" using assms(3) by (simp add: lines_line)
  obtain r s' where r: "recv_line_opt (buf, turns) = (r, s')" by (cases "recv_line_opt (buf, turns)")
  obtain l' where "r = Some l'" using gem5_reader.read_None [OF assms(1)] r lines by (cases r) auto
  then have some: "recv_line_opt (buf, turns) = (Some l', s')" using r by simp
  then have "lines (buf @ turn_bytes turns) = l' # lines (fst s' @ turn_bytes (snd s'))" "reader_quiet s'"
    using gem5_reader.read_Some [OF assms(1) some] by (auto split: prod.splits)
  moreover have "recv_line True buf turns = (RLine l', s')"
    using some by (auto simp: recv_line_opt_def split: prod.splits received.splits)
  ultimately show ?thesis using lines l(4) by (simp add: peer_recv_def)
qed

section \<open>The local DDR\<close>

text \<open>One page of 4096 bytes per base address.  Both operations look up the page of the first address only, and the offsets of
  all bytes wrap around inside it.\<close>

type_synonym local_ddr = "int \<rightharpoonup> byte list"

definition local_pattern :: "int \<Rightarrow> nat \<Rightarrow> byte" where
  "local_pattern addr i = word_of_int ((addr * 2654435761 + int i * 40503) AND 0xFF)"

definition local_read :: "int \<Rightarrow> int \<Rightarrow> local_ddr \<Rightarrow> byte list result" where
  "local_read addr n ddr =
     (if n < 0 then Inl ValueError
      else Inr (case ddr (page_base addr) of
          None \<Rightarrow> map (local_pattern addr) [0 ..< nat n]
        | Some pg \<Rightarrow>
            map (\<lambda>i. let off = page_off (addr + int i) in if off < length pg then pg ! off else local_pattern addr i)
              [0 ..< nat n]))"

fun local_store :: "int \<Rightarrow> byte list \<Rightarrow> byte list \<Rightarrow> byte list" where
  "local_store addr [] pg = pg"
| "local_store addr (b # bs) pg = local_store (addr + 1) bs (pg[page_off addr := b])"

definition local_write :: "int \<Rightarrow> byte list \<Rightarrow> local_ddr \<Rightarrow> local_ddr" where
  "local_write addr data ddr =
     (let pg = (case ddr (page_base addr) of None \<Rightarrow> replicate 4096 0 | Some pg \<Rightarrow> pg)
      in ddr(page_base addr \<mapsto> local_store addr data pg))"

section \<open>State\<close>

record peer_write =
  pw_addr :: int
  pw_size :: int
  pw_dbid :: int
  pw_srcid :: int
  pw_qos :: int

datatype peer_cont =
    ServeRead obj int int
  | ServeWrite int peer_write
  | ServeBypassRead int
  | ServeBypassWrite int

record tb_peer =
  tp_snf_id :: int
  tp_mem_local :: bool
  tp_max_syncs :: int
  tp_local_ddr :: local_ddr
  tp_mem_id :: int
  tp_pending_mem :: "(int \<times> peer_cont) list"
  tp_writes :: "(int \<times> peer_write) list"
  tp_dbid :: int
  tp_syncs :: int
  tp_reads_served :: int
  tp_writes_served :: int
  tp_req_seen :: int
  tp_dat_seen :: int
  tp_sent :: "obj list"

definition tb_peer_init :: "int \<Rightarrow> bool \<Rightarrow> int \<Rightarrow> tb_peer" where
  "tb_peer_init snf local max_syncs =
     \<lparr>tp_snf_id = snf, tp_mem_local = local, tp_max_syncs = max_syncs, tp_local_ddr = Map.empty, tp_mem_id = 1,
      tp_pending_mem = [], tp_writes = [], tp_dbid = 0, tp_syncs = 0, tp_reads_served = 0, tp_writes_served = 0,
      tp_req_seen = 0, tp_dat_seen = 0, tp_sent = []\<rparr>"

definition tp_send :: "obj \<Rightarrow> tb_peer \<Rightarrow> tb_peer" where
  "tp_send msg p = p\<lparr>tp_sent := tp_sent p @ [msg]\<rparr>"

definition t2g_flit :: "string \<Rightarrow> obj \<Rightarrow> obj" where
  "t2g_flit ch flit = [(''t'', JStr ''flit''), (''ch'', JStr ch), (''dir'', JStr ''t2g''), (''flit'', JObj flit)]"

text \<open>\<open>x or y\<close> of integers.\<close>

definition int_or :: "int \<Rightarrow> int \<Rightarrow> int" where
  "int_or x y = (if x \<noteq> 0 then x else y)"

section \<open>Callbacks\<close>

text \<open>The CompData beats of \<^verbatim>\<open>serve_read\<close>; unlike the responses they carry no \<^verbatim>\<open>respErr\<close>.\<close>

definition peer_beat :: "tb_peer \<Rightarrow> obj \<Rightarrow> int \<Rightarrow> int \<Rightarrow> byte list \<Rightarrow> nat \<Rightarrow> nat \<Rightarrow> obj" where
  "peer_beat p f txnid tgt data beats dataid =
     (let chunk = slice data (dataid * 32) ((dataid + 1) * 32)
      in [(''qos'', JInt (get_int f ''qos'' 0)), (''srcid'', JInt (tp_snf_id p)), (''tgtid'', JInt tgt),
          (''txnid'', JInt txnid), (''opcode'', JInt 0x4), (''last'', JInt (if dataid = beats - 1 then 1 else 0)),
          (''HomeNID'', JInt tgt), (''dbid'', JInt 0), (''dataid'', JInt (int dataid)), (''resp'', JInt 1),
          (''beatOffset'', JInt (int dataid * BEAT_BYTES)),
          (''byteEnable'', JStr (bytes_to_hex (replicate (length chunk) 1))),
          (''chunkValid'', JStr (bytes_to_hex (replicate ((length chunk + 7) div 8) 1))),
          (''data'', JStr (bytes_to_hex chunk))])"

definition serve_read :: "obj \<Rightarrow> int \<Rightarrow> int \<Rightarrow> obj \<Rightarrow> tb_peer \<Rightarrow> tb_peer result" where
  "serve_read f txnid sz mem_msg p =
     and_then (fromhex (get_str mem_msg ''data'' [])) (\<lambda>data.
     and_then (let r = get_int f ''ReturnNid'' 0 in if r \<noteq> 0 then Inr r else item_int f ''srcid'') (\<lambda>tgt.
       let beats = nat ((sz + BEAT_BYTES - 1) div BEAT_BYTES);
           msgs = map (\<lambda>dataid. t2g_flit ''dat'' (peer_beat p f txnid tgt data beats dataid)) [0 ..< beats];
           p = fold tp_send msgs p
       in Inr (p\<lparr>tp_reads_served := tp_reads_served p + 1\<rparr>)))"

definition peer_rsp :: "tb_peer \<Rightarrow> int \<Rightarrow> peer_write \<Rightarrow> int \<Rightarrow> obj" where
  "peer_rsp p txnid w opcode =
     [(''qos'', JInt (pw_qos w)), (''srcid'', JInt (tp_snf_id p)), (''tgtid'', JInt (pw_srcid w)),
      (''txnid'', JInt txnid), (''opcode'', JInt opcode), (''dbid'', JInt (pw_dbid w)), (''resp'', JInt 1),
      (''respErr'', JInt 0), (''pcrdtype'', JInt 0), (''rspKind'', JInt 0)]"

definition serve_write :: "int \<Rightarrow> peer_write \<Rightarrow> tb_peer \<Rightarrow> tb_peer" where
  "serve_write txnid w p =
     (let p = tp_send (t2g_flit ''rsp'' (peer_rsp p txnid w 0x04)) p
      in p\<lparr>tp_writes := AList.delete txnid (tp_writes p), tp_writes_served := tp_writes_served p + 1\<rparr>)"

definition run_cont :: "peer_cont \<Rightarrow> obj \<Rightarrow> tb_peer \<Rightarrow> tb_peer result" where
  "run_cont c mem_msg p =
     (case c of
        ServeRead f txnid sz \<Rightarrow> serve_read f txnid sz mem_msg p
      | ServeWrite txnid w \<Rightarrow> Inr (serve_write txnid w p)
      | ServeBypassRead pkt \<Rightarrow>
          Inr (tp_send [(''t'', JStr ''bypass_resp''), (''pkt'', JInt pkt),
                 (''data'', JStr (get_str mem_msg ''data'' [])), (''resp'', JInt 0)] p)
      | ServeBypassWrite pkt \<Rightarrow>
          Inr (tp_send [(''t'', JStr ''bypass_resp''), (''pkt'', JInt pkt), (''data'', JStr []), (''resp'', JInt 0)] p))"

section \<open>The memory service\<close>

definition enqueue_mem :: "(int \<Rightarrow> obj) \<Rightarrow> peer_cont \<Rightarrow> tb_peer \<Rightarrow> tb_peer" where
  "enqueue_mem msg c p =
     (let mid = tp_mem_id p
      in tp_send (msg mid) (p\<lparr>tp_mem_id := mid + 1, tp_pending_mem := AList.update mid c (tp_pending_mem p)\<rparr>))"

definition peer_mem_read :: "int \<Rightarrow> int \<Rightarrow> peer_cont \<Rightarrow> tb_peer \<Rightarrow> tb_peer result" where
  "peer_mem_read addr n c p =
     (if tp_mem_local p then
        and_then (local_read addr n (tp_local_ddr p)) (\<lambda>data.
          run_cont c [(''data'', JStr (bytes_to_hex data)), (''resp'', JInt 0)] p)
      else Inr (enqueue_mem (\<lambda>mid.
        [(''t'', JStr ''mem_read''), (''id'', JInt mid), (''addr'', JInt addr), (''len'', JInt n)]) c p))"

definition peer_mem_write :: "int \<Rightarrow> byte list \<Rightarrow> peer_cont \<Rightarrow> tb_peer \<Rightarrow> tb_peer result" where
  "peer_mem_write addr data c p =
     (if tp_mem_local p then
        run_cont c [(''resp'', JInt 0)] (p\<lparr>tp_local_ddr := local_write addr data (tp_local_ddr p)\<rparr>)
      else Inr (enqueue_mem (\<lambda>mid.
        [(''t'', JStr ''mem_write''), (''id'', JInt mid), (''addr'', JInt addr), (''data'', JStr (bytes_to_hex data)),
         (''strb'', JStr (bytes_to_hex (replicate (length data) 0xFF)))]) c p))"

definition deliver_mem :: "obj \<Rightarrow> tb_peer \<Rightarrow> tb_peer result" where
  "deliver_mem msg p =
     (case opt_int msg ''id'' of
        None \<Rightarrow> Inr p
      | Some mid \<Rightarrow>
          (case map_of (tp_pending_mem p) mid of
             None \<Rightarrow> Inr p
           | Some c \<Rightarrow> run_cont c msg (p\<lparr>tp_pending_mem := AList.delete mid (tp_pending_mem p)\<rparr>)))"

section \<open>The emulated SN-F\<close>

definition peer_on_req :: "obj \<Rightarrow> tb_peer \<Rightarrow> tb_peer result" where
  "peer_on_req f p =
     (let p = p\<lparr>tp_req_seen := tp_req_seen p + 1\<rparr>
      in and_then (item_int f ''txnid'') (\<lambda>txnid. and_then (item_int f ''opcode'') (\<lambda>opcode.
           if opcode = 0x04 then
             let sz = int_or (get_int f ''size'' 0) LINE_BYTES
             in and_then (item_int f ''addr'') (\<lambda>addr. peer_mem_read addr sz (ServeRead f txnid sz) p)
           else if opcode = 0x5C then
             let dbid = tp_dbid p mod 255 + 1; p = p\<lparr>tp_dbid := dbid\<rparr>
             in and_then (item_int f ''addr'') (\<lambda>addr. and_then (item_int f ''srcid'') (\<lambda>srcid.
                  let w = \<lparr>pw_addr = addr, pw_size = int_or (get_int f ''size'' 0) LINE_BYTES, pw_dbid = dbid,
                           pw_srcid = srcid, pw_qos = get_int f ''qos'' 0\<rparr>
                  in Inr (tp_send (t2g_flit ''rsp'' (peer_rsp p txnid w 0x06))
                       (p\<lparr>tp_writes := AList.update txnid w (tp_writes p)\<rparr>))))
           else Inr p)))"

definition peer_on_dat :: "obj \<Rightarrow> tb_peer \<Rightarrow> tb_peer result" where
  "peer_on_dat f p =
     (let p = p\<lparr>tp_dat_seen := tp_dat_seen p + 1\<rparr>
      in and_then (item_int f ''txnid'') (\<lambda>txnid.
           case map_of (tp_writes p) txnid of
             None \<Rightarrow> Inr p
           | Some w \<Rightarrow>
               and_then (fromhex (get_str f ''data'' [])) (\<lambda>data.
                 peer_mem_write (pw_addr w) data (ServeWrite txnid w) p)))"

section \<open>The message loop\<close>

text \<open>What a message does: the program goes on, or returns an exit code.\<close>

definition peer_sync :: "obj \<Rightarrow> tb_peer \<Rightarrow> int option \<times> tb_peer" where
  "peer_sync msg p =
     (let p = p\<lparr>tp_syncs := tp_syncs p + 1\<rparr>;
          p = tp_send [(''t'', JStr ''ack''), (''cycle'', JInt (get_int msg ''cycle'' 0))] p
      in if tp_syncs p \<ge> tp_max_syncs p then (Some 0, tp_send (bye_msg ''peer sim done'') p) else (None, p))"

definition peer_bypass_read :: "obj \<Rightarrow> tb_peer \<Rightarrow> tb_peer result" where
  "peer_bypass_read msg p =
     and_then (item_int msg ''pkt'') (\<lambda>pkt. and_then (item_int msg ''addr'') (\<lambda>addr. and_then (item_int msg ''len'') (\<lambda>n.
       peer_mem_read addr n (ServeBypassRead pkt) p)))"

definition peer_bypass_write :: "obj \<Rightarrow> tb_peer \<Rightarrow> tb_peer result" where
  "peer_bypass_write msg p =
     and_then (item_int msg ''pkt'') (\<lambda>pkt. and_then (item_int msg ''addr'') (\<lambda>addr.
       and_then (fromhex (get_str msg ''data'' [])) (\<lambda>data. peer_mem_write addr data (ServeBypassWrite pkt) p)))"

definition peer_handle :: "obj \<Rightarrow> tb_peer \<Rightarrow> (int option \<times> tb_peer) result" where
  "peer_handle msg p =
     (let kind = opt_str msg ''t''; go = (\<lambda>r. and_then r (\<lambda>p. Inr (None, p)))
      in if kind = Some ''sync'' then Inr (peer_sync msg p)
         else if kind = Some ''flit'' then
           let flit = get_obj msg ''flit''
           in if opt_str msg ''ch'' = Some ''req'' then go (peer_on_req flit p)
              else if opt_str msg ''ch'' = Some ''dat'' then go (peer_on_dat flit p)
              else Inr (None, p)
         else if kind \<in> {Some ''mem_data'', Some ''mem_resp''} then go (deliver_mem msg p)
         else if kind = Some ''bypass_read'' then go (peer_bypass_read msg p)
         else if kind = Some ''bypass_write'' then go (peer_bypass_write msg p)
         else if kind = Some ''bye'' then Inr (Some 0, p)
         else if kind = Some ''peer_closed'' then Inr (Some 0, p)
         else Inr (None, p))"

text \<open>A call of \<^verbatim>\<open>recv\<close>: a message, or a time-out with whether the overall deadline has passed by then.\<close>

datatype peer_input = PMsg obj | PSilent bool

fun peer_loop :: "peer_input list \<Rightarrow> tb_peer \<Rightarrow> verdict \<times> tb_peer" where
  "peer_loop [] p = (StillRunning, p)"
| "peer_loop (PSilent expired # ins) p = (if expired then (Exit 1, p) else peer_loop ins p)"
| "peer_loop (PMsg msg # ins) p =
     (case peer_handle msg p of
        Inl e \<Rightarrow> (Crash (Raised e), p)
      | Inr (Some n, p) \<Rightarrow> (Exit n, p)
      | Inr (None, p) \<Rightarrow> peer_loop ins p)"

definition peer_run :: "peer_input list \<Rightarrow> tb_peer \<Rightarrow> verdict \<times> tb_peer" where
  "peer_run ins p =
     (case ins of
        [] \<Rightarrow> (StillRunning, p)
      | PSilent e # ins \<Rightarrow> (Exit 1, p)
      | PMsg hello # ins \<Rightarrow>
          if opt_str hello ''t'' \<noteq> Some ''hello'' then (Exit 1, p)
          else peer_loop ins (tp_send [(''t'', JStr ''hello_ack''), (''ver'', JInt PROTOCOL_VERSION),
                 (''clk_period_ns'', JFloat ''0.556'')] p))"

section \<open>Properties\<close>

text \<open>
  The beats that the stand-in answers a read with are not what gem5 accepts: whatever the read and the data, the
  acceptance contract rejects each of them, for they carry no \<^verbatim>\<open>respErr\<close> field, and the checker is left as it was.
\<close>

theorem peer_beats_rejected:
  "hnf_on_dat (peer_beat p f txnid tgt data beats dataid) c = (Some ContractError, c)"
proof -
  let ?b = "peer_beat p f txnid tgt data beats dataid"
  have "opt_int ?b ''respErr'' = None" "opt_int ?b ''opcode'' = Some 4"
    by (simp_all add: peer_beat_def opt_int_def Let_def)
  then have "dat_check ?b r c = Inl ContractError" for r
    by (simp add: dat_check_def dat_wants_def)
  then show ?thesis by (simp add: hnf_on_dat_def Let_def split: option.split)
qed

lemma word_AND_FF: "(word_of_int (x AND 0xFF) :: byte) = word_of_int x"
proof -
  have "x AND 0xFF = take_bit 8 x" using take_bit_eq_mask [of 8 x] by (simp add: mask_eq_exp_minus_1)
  moreover have "(word_of_int (take_bit 8 x) :: byte) = word_of_int x" by transfer simp
  ultimately show ?thesis by simp
qed

lemma local_pattern_word: "local_pattern a i = word_of_int (a * 2654435761 + int i * 40503)"
  by (simp add: local_pattern_def word_AND_FF)

lemma length_local_store [simp]: "length (local_store addr bs pg) = length pg"
  by (induction bs arbitrary: addr pg) simp_all

text \<open>
  The local DDR is no memory with the fill of \<^verbatim>\<open>fake_gem5\<close>, as its comment says it is: the byte at an address never
  written depends on where the read began (the second byte of a read at \<^verbatim>\<open>a\<close> differs from the first of a read at
  \<^verbatim>\<open>a + 1\<close>), and once a byte of a page is written every other byte of this page reads as zero.
\<close>

theorem local_ddr_fill:
  "(\<exists>x y z. local_read a 2 Map.empty = Inr [x, y] \<and> local_read (a + 1) 1 Map.empty = Inr [z] \<and> y \<noteq> z) \<and>
   local_read c 1 (local_write a [b] Map.empty) =
     Inr [if c = a then b else if page_base c = page_base a then 0 else local_pattern c 0]"
proof
  have "local_pattern (a + 1) 0 - local_pattern a 1 = word_of_int (2654435761 - 40503)"
    by (simp add: local_pattern_word algebra_simps)
  also have "\<dots> = (122 :: byte)" by simp
  finally have "local_pattern a 1 \<noteq> local_pattern (a + 1) 0" by auto
  then show "\<exists>x y z. local_read a 2 Map.empty = Inr [x, y] \<and> local_read (a + 1) 1 Map.empty = Inr [z] \<and> y \<noteq> z"
    by (simp add: local_read_def upt_rec)
  have "page_base c = page_base a \<and> page_off c = page_off a \<longrightarrow> c = a"
    using page_eqs(1) [of c] page_eqs(1) [of a] page_eqs(2) [of c] page_eqs(2) [of a] by auto
  then show "local_read c 1 (local_write a [b] Map.empty) =
     Inr [if c = a then b else if page_base c = page_base a then 0 else local_pattern c 0]"
    using page_off_less [of c] by (auto simp: local_read_def local_write_def nth_list_update)
qed

section \<open>The responses to a write\<close>

definition dbid_msg :: "int \<Rightarrow> int \<Rightarrow> peer_write \<Rightarrow> obj" where
  "dbid_msg snf txnid w = t2g_flit ''rsp'' (peer_rsp (tb_peer_init snf True 0) txnid w 0x06)"

definition comp_msg :: "int \<Rightarrow> int \<Rightarrow> peer_write \<Rightarrow> obj" where
  "comp_msg snf txnid w = t2g_flit ''rsp'' (peer_rsp (tb_peer_init snf True 0) txnid w 0x04)"

lemma peer_rsp_msgs:
  "t2g_flit ''rsp'' (peer_rsp p txnid w 0x06) = dbid_msg (tp_snf_id p) txnid w"
  "t2g_flit ''rsp'' (peer_rsp p txnid w 0x04) = comp_msg (tp_snf_id p) txnid w"
  by (simp_all add: dbid_msg_def comp_msg_def peer_rsp_def tb_peer_init_def)

text \<open>A message fits after those sent before it: if it is a response, it is the DBIDResp of a write, or a Comp for which
  the DBIDResp with the same ids and the same dbid was sent, and the dbid is between 1 and 255.\<close>

definition fits :: "int \<Rightarrow> obj list \<Rightarrow> obj \<Rightarrow> bool" where
  "fits snf sent m \<longleftrightarrow>
     opt_str m ''ch'' \<noteq> Some ''rsp'' \<or>
     (\<exists>txnid w. 1 \<le> pw_dbid w \<and> pw_dbid w \<le> 255 \<and>
        (m = dbid_msg snf txnid w \<or> m = comp_msg snf txnid w \<and> dbid_msg snf txnid w \<in> set sent))"

definition all_fit :: "int \<Rightarrow> obj list \<Rightarrow> bool" where
  "all_fit snf sent \<longleftrightarrow> (\<forall>i < length sent. fits snf (take i sent) (sent ! i))"

lemma all_fit_snoc: "all_fit snf (sent @ [m]) \<longleftrightarrow> all_fit snf sent \<and> fits snf sent m"
  by (auto simp: all_fit_def less_Suc_eq nth_append)

definition announced :: "tb_peer \<Rightarrow> int \<Rightarrow> peer_write \<Rightarrow> bool" where
  "announced p txnid w \<longleftrightarrow> 1 \<le> pw_dbid w \<and> pw_dbid w \<le> 255 \<and> dbid_msg (tp_snf_id p) txnid w \<in> set (tp_sent p)"

fun cont_ok :: "tb_peer \<Rightarrow> peer_cont \<Rightarrow> bool" where
  "cont_ok p (ServeWrite txnid w) = announced p txnid w"
| "cont_ok p _ = True"

definition peer_ok :: "tb_peer \<Rightarrow> bool" where
  "peer_ok p \<longleftrightarrow> all_fit (tp_snf_id p) (tp_sent p) \<and>
     (\<forall>(txnid, w) \<in> set (tp_writes p). announced p txnid w) \<and> (\<forall>(mid, c) \<in> set (tp_pending_mem p). cont_ok p c)"

lemma cont_ok_mono:
  "cont_ok p c \<Longrightarrow> tp_snf_id p' = tp_snf_id p \<Longrightarrow> set (tp_sent p) \<subseteq> set (tp_sent p') \<Longrightarrow> cont_ok p' c"
  by (cases c) (auto simp: announced_def)

text \<open>Any change that keeps the id and extends what was sent by fitting messages, with tables that stay announced.\<close>

lemma peer_ok_send:
  assumes "peer_ok p" "fits (tp_snf_id p) (tp_sent p) m"
  shows "peer_ok (tp_send m p)"
proof -
  have "announced (tp_send m p) t w" if "announced p t w" for t w
    using that by (simp add: announced_def tp_send_def)
  moreover have "cont_ok (tp_send m p) c" if "cont_ok p c" for c
    using cont_ok_mono [OF that, of "tp_send m p"] by (auto simp: tp_send_def)
  ultimately show ?thesis using assms by (fastforce simp: peer_ok_def tp_send_def all_fit_snoc)
qed

lemma peer_ok_sends: "peer_ok p \<Longrightarrow> (\<And>m. m \<in> set ms \<Longrightarrow> opt_str m ''ch'' \<noteq> Some ''rsp'') \<Longrightarrow>
   peer_ok (fold tp_send ms p) \<and> tp_snf_id (fold tp_send ms p) = tp_snf_id p"
proof (induction ms arbitrary: p)
  case (Cons m ms)
  have "peer_ok (tp_send m p)" using peer_ok_send [OF Cons.prems(1)] Cons.prems(2) by (simp add: fits_def)
  then show ?case using Cons.IH [of "tp_send m p"] Cons.prems(2) by (simp add: tp_send_def)
qed simp

lemma peer_ok_cong:
  "peer_ok p \<Longrightarrow> tp_snf_id p' = tp_snf_id p \<Longrightarrow> tp_sent p' = tp_sent p \<Longrightarrow> set (tp_writes p') \<subseteq> set (tp_writes p) \<Longrightarrow>
     (\<And>k c. (k, c) \<in> set (tp_pending_mem p') \<Longrightarrow> (k, c) \<in> set (tp_pending_mem p) \<or> cont_ok p c) \<Longrightarrow> peer_ok p'"
  using cont_ok_mono [of p _ p'] unfolding peer_ok_def announced_def by (fastforce simp: announced_def)

lemma peer_ok_announce:
  assumes "peer_ok p" "announced p t w"
  shows "peer_ok (p\<lparr>tp_writes := AList.update t w (tp_writes p)\<rparr>)"
proof -
  let ?p = "p\<lparr>tp_writes := AList.update t w (tp_writes p)\<rparr>"
  have "announced ?p t' w' \<longleftrightarrow> announced p t' w'" for t' w' by (simp add: announced_def)
  moreover have "cont_ok ?p c" if "cont_ok p c" for c using cont_ok_mono [OF that, of ?p] by simp
  ultimately show ?thesis using assms set_update_subset [of t w "tp_writes p"]
    unfolding peer_ok_def by fastforce
qed

lemma serve_read_sends:
  assumes "serve_read f txnid sz msg p = Inr p'"
  shows "\<exists>q ms. p' = q\<lparr>tp_reads_served := tp_reads_served q + 1\<rparr> \<and> q = fold tp_send ms p \<and>
    (\<forall>m. m \<in> set ms \<longrightarrow> opt_str m ''ch'' \<noteq> Some ''rsp'')"
proof -
  have dat: "opt_str (t2g_flit ''dat'' b) ''ch'' \<noteq> Some ''rsp''" for b by (simp add: t2g_flit_def opt_str_def)
  have "\<exists>tgt data. Inr p' = (let beats = nat ((sz + BEAT_BYTES - 1) div BEAT_BYTES);
      msgs = map (\<lambda>i. t2g_flit ''dat'' (peer_beat p f txnid tgt data beats i)) [0 ..< beats];
      q = fold tp_send msgs p in Inr (q\<lparr>tp_reads_served := tp_reads_served q + 1\<rparr>) :: tb_peer result)"
    using assms unfolding serve_read_def by (elim and_then_Inr) (rule exI, rule exI, erule sym)
  then obtain tgt data beats where p': "p' = (\<lambda>q. q\<lparr>tp_reads_served := tp_reads_served q + 1\<rparr>)
      (fold tp_send (map (\<lambda>i. t2g_flit ''dat'' (peer_beat p f txnid tgt data beats i)) [0 ..< beats]) p)"
    unfolding Let_def by blast
  show ?thesis
    by (rule exI, rule exI, rule conjI, rule p', rule conjI, rule refl) (use dat in auto)
qed

lemma cont_ok_counters:
  "cont_ok (p\<lparr>tp_reads_served := n\<rparr>) c = cont_ok p c" "cont_ok (p\<lparr>tp_dat_seen := n\<rparr>) c = cont_ok p c"
  "cont_ok (p\<lparr>tp_req_seen := n\<rparr>) c = cont_ok p c" "cont_ok (p\<lparr>tp_dbid := n\<rparr>) c = cont_ok p c"
  "cont_ok (p\<lparr>tp_syncs := n\<rparr>) c = cont_ok p c" "cont_ok (p\<lparr>tp_local_ddr := d\<rparr>) c = cont_ok p c"
  by (cases c; simp add: announced_def)+

lemma peer_ok_counters [simp]:
  "peer_ok (p\<lparr>tp_reads_served := n\<rparr>) = peer_ok p" "peer_ok (p\<lparr>tp_dat_seen := n\<rparr>) = peer_ok p"
  "peer_ok (p\<lparr>tp_req_seen := n\<rparr>) = peer_ok p" "peer_ok (p\<lparr>tp_dbid := n\<rparr>) = peer_ok p"
  "peer_ok (p\<lparr>tp_syncs := n\<rparr>) = peer_ok p" "peer_ok (p\<lparr>tp_local_ddr := d\<rparr>) = peer_ok p"
  by (simp_all add: peer_ok_def announced_def cont_ok_counters)

lemma run_cont_ok:
  assumes "peer_ok p" "cont_ok p c" "run_cont c msg p = Inr p'"
  shows "peer_ok p' \<and> tp_snf_id p' = tp_snf_id p"
proof (cases c)
  case (ServeRead f txnid sz)
  have s: "serve_read f txnid sz msg p = Inr p'" using assms(3) by (simp add: run_cont_def ServeRead)
  from serve_read_sends [OF s] obtain q ms where p': "p' = q\<lparr>tp_reads_served := tp_reads_served q + 1\<rparr>"
    and q: "q = fold tp_send ms p" and ms: "\<forall>m. m \<in> set ms \<longrightarrow> opt_str m ''ch'' \<noteq> Some ''rsp''"
    by (elim exE conjE)
  have "peer_ok q \<and> tp_snf_id q = tp_snf_id p"
    unfolding q by (rule peer_ok_sends [OF assms(1)]) (use ms in simp)
  then show ?thesis unfolding p' by simp
next
  case (ServeWrite txnid w)
  let ?m = "t2g_flit ''rsp'' (peer_rsp p txnid w 4)"
  have "?m = comp_msg (tp_snf_id p) txnid w" by (rule peer_rsp_msgs)
  then have "fits (tp_snf_id p) (tp_sent p) ?m" using assms(2) ServeWrite by (auto simp: fits_def announced_def)
  from peer_ok_send [OF assms(1) this] have ok: "peer_ok (tp_send ?m p)" .
  have "p' = (tp_send ?m p)\<lparr>tp_writes := AList.delete txnid (tp_writes p), tp_writes_served := tp_writes_served p + 1\<rparr>"
    using assms(3) ServeWrite by (simp add: run_cont_def serve_write_def Let_def tp_send_def)
  then show ?thesis using peer_ok_cong [OF ok, of p'] set_delete_subset [of txnid "tp_writes p"] by (simp add: tp_send_def)
next
  case (ServeBypassRead pkt)
  then show ?thesis using assms(1,3) peer_ok_send [OF assms(1)]
    by (auto simp: run_cont_def fits_def opt_str_def tp_send_def)
next
  case (ServeBypassWrite pkt)
  then show ?thesis using assms(1,3) peer_ok_send [OF assms(1)]
    by (auto simp: run_cont_def fits_def opt_str_def tp_send_def)
qed

lemma enqueue_mem_ok:
  assumes "peer_ok p" "cont_ok p c" "\<And>k. opt_str (msg k) ''ch'' = None"
  shows "peer_ok (enqueue_mem msg c p) \<and> tp_snf_id (enqueue_mem msg c p) = tp_snf_id p"
proof -
  let ?p = "p\<lparr>tp_mem_id := tp_mem_id p + 1, tp_pending_mem := AList.update (tp_mem_id p) c (tp_pending_mem p)\<rparr>"
  have "peer_ok ?p" using peer_ok_cong [OF assms(1), of ?p] assms(2) set_update_subset [of "tp_mem_id p" c "tp_pending_mem p"]
    by auto
  from peer_ok_send [OF this, of "msg (tp_mem_id p)"] show ?thesis
    using assms(3) by (simp add: enqueue_mem_def Let_def fits_def tp_send_def)
qed

lemma peer_mem_ok:
  assumes "peer_ok p" "cont_ok p c"
  shows "peer_mem_read addr n c p = Inr p' \<Longrightarrow> peer_ok p' \<and> tp_snf_id p' = tp_snf_id p"
    "peer_mem_write addr data c p = Inr p' \<Longrightarrow> peer_ok p' \<and> tp_snf_id p' = tp_snf_id p"
proof -
  show "peer_mem_read addr n c p = Inr p' \<Longrightarrow> peer_ok p' \<and> tp_snf_id p' = tp_snf_id p"
    using run_cont_ok [OF assms] enqueue_mem_ok [OF assms] by (auto simp: peer_mem_read_def opt_str_def split: if_splits)
  let ?p = "p\<lparr>tp_local_ddr := local_write addr data (tp_local_ddr p)\<rparr>"
  have "peer_ok ?p" using peer_ok_cong [OF assms(1), of ?p] by simp
  moreover have "cont_ok ?p c" using cont_ok_mono [OF assms(2), of ?p] by simp
  ultimately show "peer_mem_write addr data c p = Inr p' \<Longrightarrow> peer_ok p' \<and> tp_snf_id p' = tp_snf_id p"
    using run_cont_ok [of ?p c] enqueue_mem_ok [OF assms] by (auto simp: peer_mem_write_def opt_str_def split: if_splits)
qed

lemma peer_on_req_ok:
  assumes "peer_ok p" "peer_on_req f p = Inr p'"
  shows "peer_ok p' \<and> tp_snf_id p' = tp_snf_id p"
proof -
  let ?p = "p\<lparr>tp_req_seen := tp_req_seen p + 1\<rparr>"
  have ok: "peer_ok ?p" using assms(1) by simp
  obtain txnid opcode where req: "item_int f ''txnid'' = Inr txnid" "item_int f ''opcode'' = Inr opcode"
    using assms(2) unfolding peer_on_req_def Let_def by blast
  consider (rd) "opcode = 4" | (wr) "opcode = 0x5C" | (other) "p' = ?p"
    using assms(2) req by (auto simp: peer_on_req_def Let_def split: if_splits)
  then show ?thesis
  proof cases
    case rd
    obtain addr sz where "peer_mem_read addr sz (ServeRead f txnid sz) ?p = Inr p'"
      using assms(2) req rd unfolding peer_on_req_def Let_def by auto
    from peer_mem_ok(1) [OF ok _ this] show ?thesis by simp
  next
    case wr
    obtain w where w: "1 \<le> pw_dbid w" "pw_dbid w \<le> 255"
      and p': "p' = tp_send (dbid_msg (tp_snf_id p) txnid w)
         (?p\<lparr>tp_dbid := pw_dbid w, tp_writes := AList.update txnid w (tp_writes p)\<rparr>)"
    proof -
      obtain addr srcid where "item_int f ''addr'' = Inr addr" "item_int f ''srcid'' = Inr srcid"
        using assms(2) req wr unfolding peer_on_req_def Let_def by auto
      then show thesis using assms(2) req wr
        by (intro that [of "\<lparr>pw_addr = addr, pw_size = int_or (get_int f ''size'' 0) LINE_BYTES,
              pw_dbid = tp_dbid p mod 255 + 1, pw_srcid = srcid, pw_qos = get_int f ''qos'' 0\<rparr>"])
          (simp_all add: peer_on_req_def Let_def peer_rsp_msgs)
    qed
    let ?q = "tp_send (dbid_msg (tp_snf_id p) txnid w) (?p\<lparr>tp_dbid := pw_dbid w\<rparr>)"
    have "fits (tp_snf_id p) (tp_sent p) (dbid_msg (tp_snf_id p) txnid w)" using w by (auto simp: fits_def)
    then have q: "peer_ok ?q" using peer_ok_send [of "?p\<lparr>tp_dbid := pw_dbid w\<rparr>"] assms(1) by simp
    have "announced ?q txnid w" using w by (simp add: announced_def tp_send_def)
    moreover have "p' = ?q\<lparr>tp_writes := AList.update txnid w (tp_writes ?q)\<rparr>" by (simp add: p' tp_send_def)
    ultimately show ?thesis using peer_ok_announce [OF q] by (simp add: tp_send_def)
  qed (use ok in simp)
qed

lemma peer_on_dat_ok:
  assumes "peer_ok p" "peer_on_dat f p = Inr p'"
  shows "peer_ok p' \<and> tp_snf_id p' = tp_snf_id p"
proof -
  let ?p = "p\<lparr>tp_dat_seen := tp_dat_seen p + 1\<rparr>"
  have ok: "peer_ok ?p" using assms(1) by simp
  obtain txnid where t: "item_int f ''txnid'' = Inr txnid"
    using assms(2) unfolding peer_on_dat_def Let_def by blast
  show ?thesis
  proof (cases "map_of (tp_writes p) txnid")
    case None
    then show ?thesis using assms(2) t ok by (auto simp: peer_on_dat_def)
  next
    case (Some w)
    obtain data where m: "peer_mem_write (pw_addr w) data (ServeWrite txnid w) ?p = Inr p'"
      using assms(2) t Some by (auto simp: peer_on_dat_def Let_def)
    have "cont_ok ?p (ServeWrite txnid w)"
      using assms(1) map_of_SomeD [OF Some] by (auto simp: peer_ok_def announced_def)
    from peer_mem_ok(2) [OF ok this m] show ?thesis by simp
  qed
qed

lemma deliver_mem_ok:
  assumes "peer_ok p" "deliver_mem msg p = Inr p'"
  shows "peer_ok p' \<and> tp_snf_id p' = tp_snf_id p"
proof (cases "\<exists>mid c. opt_int msg ''id'' = Some mid \<and> map_of (tp_pending_mem p) mid = Some c")
  case True
  then obtain mid c where c: "opt_int msg ''id'' = Some mid" "map_of (tp_pending_mem p) mid = Some c" by blast
  let ?p = "p\<lparr>tp_pending_mem := AList.delete mid (tp_pending_mem p)\<rparr>"
  have "peer_ok ?p" using peer_ok_cong [OF assms(1), of ?p] set_delete_subset [of mid "tp_pending_mem p"] by auto
  moreover have "cont_ok p c" using assms(1) map_of_SomeD [OF c(2)] by (auto simp: peer_ok_def)
  then have "cont_ok ?p c" using cont_ok_mono [of p c ?p] by simp
  ultimately show ?thesis using run_cont_ok [of ?p c msg p'] assms(2) c by (simp add: deliver_mem_def)
next
  case False
  then have "p' = p" using assms(2) by (auto simp: deliver_mem_def split: option.splits)
  then show ?thesis using assms(1) by simp
qed

lemma peer_send_ok:
  "peer_ok p \<Longrightarrow> opt_str m ''ch'' = None \<Longrightarrow> peer_ok (tp_send m p) \<and> tp_snf_id (tp_send m p) = tp_snf_id p"
  using peer_ok_send [of p m] by (simp add: fits_def tp_send_def)

lemma peer_handle_ok:
  assumes "peer_ok p" "peer_handle msg p = Inr (r, p')"
  shows "peer_ok p' \<and> tp_snf_id p' = tp_snf_id p"
proof -
  have sync: "peer_ok (snd (peer_sync msg p)) \<and> tp_snf_id (snd (peer_sync msg p)) = tp_snf_id p"
  proof -
    let ?p = "p\<lparr>tp_syncs := tp_syncs p + 1\<rparr>"
    let ?q = "tp_send [(''t'', JStr ''ack''), (''cycle'', JInt (get_int msg ''cycle'' 0))] ?p"
    have q: "peer_ok ?q \<and> tp_snf_id ?q = tp_snf_id p" using peer_send_ok [of ?p] assms(1) by (simp add: opt_str_def)
    have "opt_str (bye_msg n) ''ch'' = None" for n by (simp add: bye_msg_def opt_str_def)
    with q peer_send_ok [of ?q] show ?thesis by (simp add: peer_sync_def Let_def)
  qed
  have mem: "peer_mem_read a n (ServeBypassRead k) p = Inr q \<Longrightarrow> peer_ok q \<and> tp_snf_id q = tp_snf_id p"
    "peer_mem_write a data (ServeBypassWrite k) p = Inr q \<Longrightarrow> peer_ok q \<and> tp_snf_id q = tp_snf_id p" for a n k q data
    using peer_mem_ok [OF assms(1), of "ServeBypassRead k"] peer_mem_ok [OF assms(1), of "ServeBypassWrite k"] by simp_all
  have "peer_bypass_read msg p = Inr q \<Longrightarrow> peer_ok q \<and> tp_snf_id q = tp_snf_id p"
    "peer_bypass_write msg p = Inr q \<Longrightarrow> peer_ok q \<and> tp_snf_id q = tp_snf_id p" for q
    by (auto simp: peer_bypass_read_def peer_bypass_write_def dest: mem)
  note steps = this peer_on_req_ok [OF assms(1)] peer_on_dat_ok [OF assms(1)] deliver_mem_ok [OF assms(1)]
  have "(r, p') = peer_sync msg p \<or> p' = p \<or> peer_on_req (get_obj msg ''flit'') p = Inr p' \<or>
    peer_on_dat (get_obj msg ''flit'') p = Inr p' \<or> deliver_mem msg p = Inr p' \<or>
    peer_bypass_read msg p = Inr p' \<or> peer_bypass_write msg p = Inr p'"
    using assms(2) unfolding peer_handle_def Let_def by (simp split: if_splits) blast+
  then show ?thesis using assms(1) sync steps by (metis snd_conv)
qed

lemma peer_loop_ok: "peer_ok p \<Longrightarrow> peer_ok (snd (peer_loop ins p)) \<and> tp_snf_id (snd (peer_loop ins p)) = tp_snf_id p"
proof (induction ins p rule: peer_loop.induct)
  case (3 msg ins p)
  show ?case
  proof (cases "peer_handle msg p")
    case (Inr res)
    obtain r q where res: "res = (r, q)" by (cases res)
    have "peer_ok q \<and> tp_snf_id q = tp_snf_id p" using peer_handle_ok [OF 3(2)] Inr res by simp
    then show ?thesis using 3(1) [of res r q] Inr res by (cases r) simp_all
  qed (use 3(2) in simp)
qed simp_all


end
