(* ===== verification/Tb_Signals.thy ===== *)
theory Tb_Signals
  imports C2xm_Prelude
begin

text \<open>
  The signal helpers of \<^verbatim>\<open>tb_signals.py\<close>.  The simulator is not part of the repository; a value it hands out is
  resolvable, and then an integer, or it is not (X or Z), and \<^verbatim>\<open>int()\<close> of it raises ValueError.
\<close>

datatype sig_value = Unresolved | Resolved int

definition sig_int :: "sig_value \<Rightarrow> int result" where
  "sig_int v = (case v of Unresolved \<Rightarrow> Inl ValueError | Resolved i \<Rightarrow> Inr i)"

definition read_bit :: "sig_value \<Rightarrow> int option" where
  "read_bit v = (case v of Unresolved \<Rightarrow> None | Resolved i \<Rightarrow> Some (i AND 0x1))"

definition read_int :: "sig_value \<Rightarrow> int option" where
  "read_int v = (case v of Unresolved \<Rightarrow> None | Resolved i \<Rightarrow> Some i)"

abbreviation high :: "sig_value \<Rightarrow> bool" where
  "high v \<equiv> read_bit v = Some 1"

lemma high_Resolved [simp]: "read_bit (Resolved i) = Some (i AND 1)" "read_bit Unresolved = None"
  by (simp_all add: read_bit_def)

lemma read_int_simps [simp]: "read_int (Resolved i) = Some i" "read_int Unresolved = None"
  by (simp_all add: read_int_def)

lemma sig_int_simps [simp]: "sig_int (Resolved i) = Inr i" "sig_int Unresolved = Inl ValueError"
  by (simp_all add: sig_int_def)

lemma high_int: "high v \<Longrightarrow> \<exists>i. v = Resolved i \<and> odd i"
  by (cases v) (auto simp: and_one_eq odd_iff_mod_2_eq_one)

end
