(* ===== verification/Link_Driver.thy ===== *)
theory Link_Driver
  imports Chi_Txn Tb_Signals
begin

text \<open>
  The CHI link driver of \<^verbatim>\<open>driver.py\<close>: the pin-level peer \<^verbatim>\<open>ChiLinkBfm\<close> and the pyuvm driver on top of it.

  The coroutines run on falling edges and share the peer's state.  Each is cut at its awaits: its position is a datatype,
  and a step is what it does from one await to the next.  What the device drives is an argument of a step
  (\<open>dut_out\<close>); what the testbench drives is part of the state (\<open>link_pins\<close>) and becomes visible after the edge.  At an
  edge the driver coroutine and the background tasks run in any order (\<open>link_edge\<close>).  Times are whole edges: every wait
  adds the period of 4 ns.  Log messages are left out.
\<close>

definition CLK_PERIOD_NS :: int where "CLK_PERIOD_NS = 4"
definition LINK_UP_TIMEOUT_NS :: int where "LINK_UP_TIMEOUT_NS = 4000"
definition DBID_TIMEOUT_NS :: int where "DBID_TIMEOUT_NS = 1000"
definition CREDIT_TIMEOUT_NS :: int where "CREDIT_TIMEOUT_NS = 5000"

definition LINK_OPC_COMPDBIDRESP :: int where "LINK_OPC_COMPDBIDRESP = 0x5"
definition LINK_OPC_DBIDRESP :: int where "LINK_OPC_DBIDRESP = 0x6"

section \<open>Pins\<close>

record dut_out =
  do_rstn :: sig_value
  do_tx_linkactivereq :: sig_value
  do_chi_rx_run :: sig_value
  do_chi_tx_run :: sig_value
  do_rxreqcrdv :: sig_value
  do_rxdatcrdv :: sig_value
  do_txrspfltv :: sig_value
  do_txrspflt :: sig_value
  do_txdatfltv :: sig_value
  do_txdatflt :: sig_value

record link_pins =
  pn_rxreqfltv :: int
  pn_rxreqflt :: int
  pn_rxdatfltv :: int
  pn_rxdatflt :: int
  pn_txrspcrdv :: int
  pn_txdatcrdv :: int
  pn_disconnect :: int
  pn_rx_linkactivereq :: int
  pn_tx_linkactiveack :: int

definition link_idle_pins :: link_pins where
  "link_idle_pins =
     \<lparr>pn_rxreqfltv = 0, pn_rxreqflt = 0, pn_rxdatfltv = 0, pn_rxdatflt = 0, pn_txrspcrdv = 0, pn_txdatcrdv = 0,
      pn_disconnect = 0, pn_rx_linkactivereq = 0, pn_tx_linkactiveack = 0\<rparr>"

section \<open>State\<close>

record tx_entry =
  tx_opcode :: int
  tx_dbid :: int
  tx_txnid :: int
  tx_resp :: int

record link_bfm =
  lb_req_credits :: int
  lb_dat_credits :: int
  lb_txrsp_sent :: int
  lb_txdat_sent :: int
  lb_dbid_by_txn :: "(int \<times> int) list"
  lb_txrsp_history :: "tx_entry list"
  lb_txdat_history :: "int list"
  lb_link_up :: bool
  lb_reset_stable :: int
  lb_pins :: link_pins

definition link_bfm_init :: link_bfm where
  "link_bfm_init =
     \<lparr>lb_req_credits = 0, lb_dat_credits = 0, lb_txrsp_sent = 0, lb_txdat_sent = 0, lb_dbid_by_txn = [],
      lb_txrsp_history = [], lb_txdat_history = [], lb_link_up = False, lb_reset_stable = 0, lb_pins = link_idle_pins\<rparr>"

text \<open>A flit on its way: the request of a transaction, or the first of the beats that are left of a write-data
  transaction.\<close>

datatype drv_job = ReqJob txn int | DatJob chi_data_txn "raw_dat list"

datatype drv_failure = NoLink | NoCredit drv_job | NoRawFlit txn

datatype drv_phase =
    DrvReset
  | DrvLinkUp nat
  | DrvIdle
  | DrvDbid chi_data_txn nat
  | DrvCredit drv_job nat
  | DrvHold drv_job
  | DrvDead drv_failure

datatype activation_phase = ActReset | ActRequest | ActAcked

datatype tx_credit_phase = TxcWait nat | TxcGranted | TxcDead

record link_tb =
  tb_bfm :: link_bfm
  tb_started :: bool
  tb_activation :: activation_phase
  tb_tx_credit :: tx_credit_phase
  tb_observing :: bool
  tb_drv :: drv_phase
  tb_wait_for_dbid :: bool
  tb_items :: "txn list"
  tb_ap :: "txn list"

definition link_tb_init :: "bool \<Rightarrow> link_tb" where
  "link_tb_init wait =
     \<lparr>tb_bfm = link_bfm_init, tb_started = False, tb_activation = ActReset, tb_tx_credit = TxcWait 0, tb_observing = True,
      tb_drv = DrvReset, tb_wait_for_dbid = wait, tb_items = [], tb_ap = []\<rparr>"

definition with_bfm :: "(link_bfm \<Rightarrow> link_bfm) \<Rightarrow> link_tb \<Rightarrow> link_tb" where
  "with_bfm f tb = tb\<lparr>tb_bfm := f (tb_bfm tb)\<rparr>"

definition with_pins :: "(link_pins \<Rightarrow> link_pins) \<Rightarrow> link_bfm \<Rightarrow> link_bfm" where
  "with_pins f b = b\<lparr>lb_pins := f (lb_pins b)\<rparr>"

section \<open>Reset and link activation\<close>

definition drive_link_idle :: "link_bfm \<Rightarrow> link_bfm" where
  "drive_link_idle b = b\<lparr>lb_pins := link_idle_pins\<rparr>"

definition wait_reset_start :: "link_bfm \<Rightarrow> link_bfm" where
  "wait_reset_start b = (drive_link_idle b)\<lparr>lb_reset_stable := 0\<rparr>"

definition wait_reset_edge :: "dut_out \<Rightarrow> link_bfm \<Rightarrow> link_bfm" where
  "wait_reset_edge d b = b\<lparr>lb_reset_stable := (if high (do_rstn d) then lb_reset_stable b + 1 else 0)\<rparr>"

definition reset_released :: "link_bfm \<Rightarrow> bool" where
  "reset_released b \<longleftrightarrow> \<not> lb_reset_stable b < 4"

definition activation_edge :: "dut_out \<Rightarrow> link_tb \<Rightarrow> link_tb" where
  "activation_edge d tb =
     (case tb_activation tb of
        ActReset \<Rightarrow>
          let b = wait_reset_edge d (tb_bfm tb)
          in if reset_released b then
               tb\<lparr>tb_bfm := with_pins (\<lambda>p. p\<lparr>pn_rx_linkactivereq := 1, pn_tx_linkactiveack := 0\<rparr>) b,
                  tb_activation := ActRequest\<rparr>
             else tb\<lparr>tb_bfm := b\<rparr>
      | ActRequest \<Rightarrow>
          if high (do_tx_linkactivereq d) then
            with_bfm (with_pins (\<lambda>p. p\<lparr>pn_tx_linkactiveack := 1\<rparr>)) (tb\<lparr>tb_activation := ActAcked\<rparr>)
          else tb
      | ActAcked \<Rightarrow> tb)"

text \<open>An edge of \<^verbatim>\<open>wait_link_up\<close>, with the number of edges before it: the link is up, or the wait goes on, or it
  has timed out.\<close>

datatype link_wait = LinkIsUp | WaitMore nat | LinkTimeout

definition wait_link_up_edge :: "dut_out \<Rightarrow> nat \<Rightarrow> link_wait" where
  "wait_link_up_edge d n =
     (if high (do_chi_rx_run d) \<and> high (do_chi_tx_run d) then LinkIsUp
      else if CLK_PERIOD_NS * int (Suc n) < LINK_UP_TIMEOUT_NS then WaitMore (Suc n) else LinkTimeout)"

section \<open>Credits\<close>

definition rx_credit_edge :: "dut_out \<Rightarrow> link_bfm \<Rightarrow> link_bfm" where
  "rx_credit_edge d b =
     (let b = (if high (do_rxreqcrdv d) then b\<lparr>lb_req_credits := lb_req_credits b + 1\<rparr> else b)
      in if high (do_rxdatcrdv d) then b\<lparr>lb_dat_credits := lb_dat_credits b + 1\<rparr> else b)"

definition tx_credit_edge :: "dut_out \<Rightarrow> link_tb \<Rightarrow> link_tb" where
  "tx_credit_edge d tb =
     (case tb_tx_credit tb of
        TxcWait n \<Rightarrow>
          (case wait_link_up_edge d n of
             LinkIsUp \<Rightarrow>
               with_bfm (\<lambda>b. with_pins (\<lambda>p. p\<lparr>pn_txrspcrdv := 1, pn_txdatcrdv := 1\<rparr>) (b\<lparr>lb_link_up := True\<rparr>))
                 (tb\<lparr>tb_tx_credit := TxcGranted\<rparr>)
           | WaitMore n \<Rightarrow> tb\<lparr>tb_tx_credit := TxcWait n\<rparr>
           | LinkTimeout \<Rightarrow> tb\<lparr>tb_tx_credit := TxcDead\<rparr>)
      | _ \<Rightarrow> tb)"

section \<open>Observation of the transmit channels\<close>

text \<open>An exception ends the task.  Nothing is recorded of a flit that does not resolve.\<close>

definition observe_rsp :: "dut_out \<Rightarrow> link_bfm \<Rightarrow> link_bfm result" where
  "observe_rsp d b =
     (if high (do_txrspfltv d) then
        and_then (sig_int (do_txrspflt d)) (\<lambda>payload.
          case unpack_txrsp payload of
            None \<Rightarrow> Inl KeyError
          | Some flit \<Rightarrow>
              let b = b\<lparr>lb_txrsp_sent := lb_txrsp_sent b + 1,
                        lb_txrsp_history := lb_txrsp_history b @
                          [\<lparr>tx_opcode = f_opcode flit, tx_dbid = rs_dbid flit, tx_txnid = f_txnid flit, tx_resp = rs_resp flit\<rparr>]\<rparr>
              in Inr (if f_opcode flit \<in> {LINK_OPC_COMPDBIDRESP, LINK_OPC_DBIDRESP}
                      then b\<lparr>lb_dbid_by_txn := AList.update (f_txnid flit) (rs_dbid flit) (lb_dbid_by_txn b)\<rparr>
                      else b))
      else Inr b)"

definition observe_dat :: "dut_out \<Rightarrow> link_bfm \<Rightarrow> link_bfm result" where
  "observe_dat d b =
     (if high (do_txdatfltv d) then
        let b = b\<lparr>lb_txdat_sent := lb_txdat_sent b + 1\<rparr>
        in (case sig_int (do_txdatflt d) of
              Inl e \<Rightarrow> Inl e
            | Inr payload \<Rightarrow> Inr (b\<lparr>lb_txdat_history := lb_txdat_history b @ [payload]\<rparr>))
      else Inr b)"

definition observe_tx_edge :: "dut_out \<Rightarrow> link_tb \<Rightarrow> link_tb" where
  "observe_tx_edge d tb =
     (case observe_rsp d (tb_bfm tb) of
        Inl e \<Rightarrow> tb\<lparr>tb_observing := False\<rparr>
      | Inr b \<Rightarrow>
          (case observe_dat d b of
             Inl e \<Rightarrow> tb\<lparr>tb_bfm := b\<lparr>lb_txdat_sent := lb_txdat_sent b + 1\<rparr>, tb_observing := False\<rparr>
           | Inr b \<Rightarrow> tb\<lparr>tb_bfm := b\<rparr>))"

section \<open>Sending a flit\<close>

text \<open>One pass through the loop of \<^verbatim>\<open>_wait_credit\<close> after \<open>n\<close> edges, and with a credit the first half of \<^verbatim>\<open>_send\<close>:
  the flit is on the pins until the next edge.\<close>

definition take_credit :: "drv_job \<Rightarrow> nat \<Rightarrow> link_tb \<Rightarrow> link_tb" where
  "take_credit job n tb =
     (let b = tb_bfm tb;
          give_up = tb\<lparr>tb_drv := if CLK_PERIOD_NS * int n \<ge> CREDIT_TIMEOUT_NS then DrvDead (NoCredit job) else DrvCredit job n\<rparr>
      in case job of
           ReqJob t payload \<Rightarrow>
             if lb_req_credits b > 0 then
               tb\<lparr>tb_drv := DrvHold job,
                  tb_bfm := with_pins (\<lambda>p. p\<lparr>pn_rxreqflt := payload, pn_rxreqfltv := 1\<rparr>)
                    (b\<lparr>lb_req_credits := lb_req_credits b - 1\<rparr>)\<rparr>
             else give_up
         | DatJob t flits \<Rightarrow>
             if lb_dat_credits b > 0 then
               tb\<lparr>tb_drv := DrvHold job,
                  tb_bfm := with_pins (\<lambda>p. p\<lparr>pn_rxdatflt := pack_rxdat (hd flits), pn_rxdatfltv := 1\<rparr>)
                    (b\<lparr>lb_dat_credits := lb_dat_credits b - 1\<rparr>)\<rparr>
             else give_up)"

definition publish :: "txn \<Rightarrow> link_tb \<Rightarrow> link_tb" where
  "publish t tb = tb\<lparr>tb_ap := tb_ap tb @ [t], tb_drv := DrvIdle\<rparr>"

definition send_beats :: "chi_data_txn \<Rightarrow> raw_dat list \<Rightarrow> link_tb \<Rightarrow> link_tb" where
  "send_beats t flits tb = (if flits = [] then publish (DataTxn t) tb else take_credit (DatJob t flits) 0 tb)"

definition set_dbids :: "int \<Rightarrow> chi_data_txn \<Rightarrow> chi_data_txn" where
  "set_dbids dbid t = t\<lparr>wd_data := map (\<lambda>f. f\<lparr>dt_dbid := dbid\<rparr>) (wd_data t)\<rparr>"

text \<open>One pass through the loop of \<^verbatim>\<open>wait_dbid\<close> after \<open>n\<close> edges, and what \<^verbatim>\<open>drive\<close> does with its result.\<close>

definition wait_dbid :: "chi_data_txn \<Rightarrow> nat \<Rightarrow> link_tb \<Rightarrow> link_tb" where
  "wait_dbid t n tb =
     (if CLK_PERIOD_NS * int n < DBID_TIMEOUT_NS then
        (case map_of (lb_dbid_by_txn (tb_bfm tb)) (t_txn_id t) of
           Some dbid \<Rightarrow> let t = set_dbids dbid t in send_beats t (wd_data t) tb
         | None \<Rightarrow> tb\<lparr>tb_drv := DrvDbid t n\<rparr>)
      else send_beats t (wd_data t) tb)"

section \<open>The driver\<close>

definition send_request :: "txn \<Rightarrow> raw_req option \<Rightarrow> link_tb \<Rightarrow> link_tb" where
  "send_request t raw tb =
     (case raw of
        None \<Rightarrow> tb\<lparr>tb_drv := DrvDead (NoRawFlit t)\<rparr>
      | Some flit \<Rightarrow> take_credit (ReqJob t (pack_rxreq flit)) 0 tb)"

text \<open>\<open>drive\<close> up to its first await.\<close>

definition drive :: "txn \<Rightarrow> link_tb \<Rightarrow> link_tb" where
  "drive t tb =
     (case t of
        ReadTxn r \<Rightarrow> send_request t (t_raw_flit r) tb
      | WriteTxn w \<Rightarrow> send_request t (t_raw_flit w) tb
      | DataTxn d \<Rightarrow> if tb_wait_for_dbid tb then wait_dbid d 0 tb else send_beats d (wd_data d) tb)"

text \<open>The loop of \<^verbatim>\<open>run_phase\<close>: transactions are taken until one has to wait or none is left.\<close>

fun take_items :: "txn list \<Rightarrow> link_tb \<Rightarrow> link_tb" where
  "take_items [] tb = tb"
| "take_items (t # ts) tb =
     (if tb_drv tb = DrvIdle then take_items ts (drive t (tb\<lparr>tb_items := ts\<rparr>)) else tb)"

definition driver_loop :: "link_tb \<Rightarrow> link_tb" where
  "driver_loop tb = take_items (tb_items tb) tb"

definition start_tasks :: "link_tb \<Rightarrow> link_tb" where
  "start_tasks tb = tb\<lparr>tb_started := True, tb_bfm := wait_reset_start (tb_bfm tb), tb_drv := DrvLinkUp 0\<rparr>"

definition drop_valid :: "drv_job \<Rightarrow> link_pins \<Rightarrow> link_pins" where
  "drop_valid job p =
     (case job of
        ReqJob t payload \<Rightarrow> p\<lparr>pn_rxreqfltv := 0, pn_rxreqflt := 0\<rparr>
      | DatJob t flits \<Rightarrow> p\<lparr>pn_rxdatfltv := 0, pn_rxdatflt := 0\<rparr>)"

definition after_flit :: "drv_job \<Rightarrow> link_tb \<Rightarrow> link_tb" where
  "after_flit job tb =
     (case job of
        ReqJob t payload \<Rightarrow> publish t tb
      | DatJob t flits \<Rightarrow> send_beats t (tl flits) tb)"

definition driver_edge :: "dut_out \<Rightarrow> link_tb \<Rightarrow> link_tb" where
  "driver_edge d tb =
     (case tb_drv tb of
        DrvReset \<Rightarrow>
          let tb = with_bfm (wait_reset_edge d) tb
          in if reset_released (tb_bfm tb) then start_tasks tb else tb
      | DrvLinkUp n \<Rightarrow>
          (case wait_link_up_edge d n of
             LinkIsUp \<Rightarrow> driver_loop (with_bfm (\<lambda>b. b\<lparr>lb_link_up := True\<rparr>) (tb\<lparr>tb_drv := DrvIdle\<rparr>))
           | WaitMore n \<Rightarrow> tb\<lparr>tb_drv := DrvLinkUp n\<rparr>
           | LinkTimeout \<Rightarrow> tb\<lparr>tb_drv := DrvDead NoLink\<rparr>)
      | DrvIdle \<Rightarrow> tb
      | DrvDbid t n \<Rightarrow> driver_loop (wait_dbid t (Suc n) tb)
      | DrvCredit job n \<Rightarrow> take_credit job (Suc n) tb
      | DrvHold job \<Rightarrow> driver_loop (after_flit job (with_bfm (with_pins (drop_valid job)) tb))
      | DrvDead e \<Rightarrow> tb)"

section \<open>Edges\<close>

text \<open>The tasks that run beside the driver coroutine, each on the values of the device at this edge (the tasks that this
  very edge starts run from the next one on); and a transaction that the agent or the adaptor hands over (its fifo holds 64:
  a producer that finds it full is blocked, so its transaction comes later).\<close>

datatype link_task = RxCredit | ObserveTx | Activation | TxCredit

fun task_edge :: "dut_out \<Rightarrow> link_task \<Rightarrow> link_tb \<Rightarrow> link_tb" where
  "task_edge d RxCredit tb = with_bfm (rx_credit_edge d) tb"
| "task_edge d ObserveTx tb = (if tb_observing tb then observe_tx_edge d tb else tb)"
| "task_edge d Activation tb = activation_edge d tb"
| "task_edge d TxCredit tb = tx_credit_edge d tb"

definition tasks_edge :: "bool \<Rightarrow> dut_out \<Rightarrow> link_task list \<Rightarrow> link_tb \<Rightarrow> link_tb" where
  "tasks_edge on d ts tb = (if on then fold (task_edge d) ts tb else tb)"

definition put_item :: "txn \<Rightarrow> link_tb \<Rightarrow> link_tb" where
  "put_item t tb = driver_loop (tb\<lparr>tb_items := tb_items tb @ [t]\<rparr>)"

text \<open>One falling edge: tasks scheduled before the driver coroutine, the driver, the tasks scheduled after it, and the
  transactions that come in until the next edge.\<close>

record edge =
  ed_dut :: dut_out
  ed_before :: "link_task list"
  ed_after :: "link_task list"
  ed_puts :: "txn list"

definition link_edge :: "edge \<Rightarrow> link_tb \<Rightarrow> link_tb" where
  "link_edge e tb =
     (let tasks = tasks_edge (tb_started tb) (ed_dut e)
      in fold put_item (ed_puts e) (tasks (ed_after e) (driver_edge (ed_dut e) (tasks (ed_before e) tb))))"

definition link_run :: "edge list \<Rightarrow> link_tb \<Rightarrow> link_tb" where
  "link_run es tb = fold link_edge es tb"

section \<open>What the steps leave alone\<close>

lemma with_bfm_sel [simp]:
  "tb_bfm (with_bfm f tb) = f (tb_bfm tb)" "tb_started (with_bfm f tb) = tb_started tb"
  "tb_activation (with_bfm f tb) = tb_activation tb" "tb_tx_credit (with_bfm f tb) = tb_tx_credit tb"
  "tb_observing (with_bfm f tb) = tb_observing tb" "tb_drv (with_bfm f tb) = tb_drv tb"
  "tb_wait_for_dbid (with_bfm f tb) = tb_wait_for_dbid tb" "tb_items (with_bfm f tb) = tb_items tb"
  "tb_ap (with_bfm f tb) = tb_ap tb"
  by (simp_all add: with_bfm_def)

lemma with_pins_sel [simp]:
  "lb_req_credits (with_pins f b) = lb_req_credits b" "lb_dat_credits (with_pins f b) = lb_dat_credits b"
  "lb_txrsp_sent (with_pins f b) = lb_txrsp_sent b" "lb_txdat_sent (with_pins f b) = lb_txdat_sent b"
  "lb_dbid_by_txn (with_pins f b) = lb_dbid_by_txn b" "lb_txrsp_history (with_pins f b) = lb_txrsp_history b"
  "lb_txdat_history (with_pins f b) = lb_txdat_history b" "lb_link_up (with_pins f b) = lb_link_up b"
  "lb_reset_stable (with_pins f b) = lb_reset_stable b" "lb_pins (with_pins f b) = f (lb_pins b)"
  by (simp_all add: with_pins_def)

lemma wait_reset_edge_sel [simp]:
  "lb_req_credits (wait_reset_edge d b) = lb_req_credits b" "lb_dat_credits (wait_reset_edge d b) = lb_dat_credits b"
  "lb_pins (wait_reset_edge d b) = lb_pins b" "lb_dbid_by_txn (wait_reset_edge d b) = lb_dbid_by_txn b"
  "lb_txrsp_history (wait_reset_edge d b) = lb_txrsp_history b"
  by (simp_all add: wait_reset_edge_def)

lemma wait_reset_start_sel [simp]:
  "lb_req_credits (wait_reset_start b) = lb_req_credits b" "lb_dat_credits (wait_reset_start b) = lb_dat_credits b"
  "lb_pins (wait_reset_start b) = link_idle_pins" "lb_dbid_by_txn (wait_reset_start b) = lb_dbid_by_txn b"
  "lb_txrsp_history (wait_reset_start b) = lb_txrsp_history b"
  by (simp_all add: wait_reset_start_def drive_link_idle_def)

text \<open>The pins that carry the driver's flits.\<close>

definition flit_pins :: "link_pins \<Rightarrow> int \<times> int \<times> int \<times> int" where
  "flit_pins p = (pn_rxreqfltv p, pn_rxreqflt p, pn_rxdatfltv p, pn_rxdatflt p)"

lemma rx_credit_edge_sel [simp]:
  "lb_pins (rx_credit_edge d b) = lb_pins b" "lb_dbid_by_txn (rx_credit_edge d b) = lb_dbid_by_txn b"
  "lb_txrsp_history (rx_credit_edge d b) = lb_txrsp_history b"
  "lb_req_credits (rx_credit_edge d b) = lb_req_credits b + of_bool (high (do_rxreqcrdv d))"
  "lb_dat_credits (rx_credit_edge d b) = lb_dat_credits b + of_bool (high (do_rxdatcrdv d))"
  by (simp_all add: rx_credit_edge_def Let_def)

lemma observe_sel:
  "observe_rsp d b = Inr b' \<Longrightarrow> lb_pins b' = lb_pins b \<and> lb_req_credits b' = lb_req_credits b \<and> lb_dat_credits b' = lb_dat_credits b"
  "observe_dat d b = Inr b' \<Longrightarrow> lb_pins b' = lb_pins b \<and> lb_req_credits b' = lb_req_credits b \<and> lb_dat_credits b' = lb_dat_credits b \<and>
     lb_dbid_by_txn b' = lb_dbid_by_txn b \<and> lb_txrsp_history b' = lb_txrsp_history b"
  by (auto simp: observe_rsp_def observe_dat_def Let_def split: if_splits option.splits sum.splits)

text \<open>No task touches the driver coroutine, its queues or its flits; only one touches the credits.\<close>

lemma task_edge_frame:
  "tb_drv (task_edge d t tb) = tb_drv tb \<and> tb_items (task_edge d t tb) = tb_items tb \<and> tb_ap (task_edge d t tb) = tb_ap tb \<and>
   tb_wait_for_dbid (task_edge d t tb) = tb_wait_for_dbid tb \<and>
   flit_pins (lb_pins (tb_bfm (task_edge d t tb))) = flit_pins (lb_pins (tb_bfm tb)) \<and>
   lb_req_credits (tb_bfm (task_edge d t tb)) =
     lb_req_credits (tb_bfm tb) + of_bool (t = RxCredit \<and> high (do_rxreqcrdv d)) \<and>
   lb_dat_credits (tb_bfm (task_edge d t tb)) =
     lb_dat_credits (tb_bfm tb) + of_bool (t = RxCredit \<and> high (do_rxdatcrdv d))"
proof (cases t)
  case ObserveTx
  show ?thesis
    by (auto simp: ObserveTx observe_tx_edge_def flit_pins_def dest!: observe_sel split: sum.splits)
next
  case Activation
  show ?thesis
    by (auto simp: Activation activation_edge_def flit_pins_def Let_def split: activation_phase.split)
next
  case TxCredit
  show ?thesis
    by (auto simp: TxCredit tx_credit_edge_def flit_pins_def split: tx_credit_phase.split link_wait.split)
qed (simp add: flit_pins_def)

section \<open>Flits sent, flits on the wire, transactions on the way\<close>

definition req_of :: "txn \<Rightarrow> raw_req list" where
  "req_of t = (case t of ReadTxn r \<Rightarrow> (case t_raw_flit r of None \<Rightarrow> [] | Some f \<Rightarrow> [f])
                       | WriteTxn w \<Rightarrow> (case t_raw_flit w of None \<Rightarrow> [] | Some f \<Rightarrow> [f]) | DataTxn d \<Rightarrow> [])"

definition dat_of :: "txn \<Rightarrow> raw_dat list" where
  "dat_of t = (case t of DataTxn d \<Rightarrow> wd_data d | _ \<Rightarrow> [])"

abbreviation requests_of :: "txn list \<Rightarrow> raw_req list" where "requests_of ts \<equiv> concat (map req_of ts)"
abbreviation beats_of :: "txn list \<Rightarrow> raw_dat list" where "beats_of ts \<equiv> concat (map dat_of ts)"

fun job_txn :: "drv_job \<Rightarrow> txn" where
  "job_txn (ReqJob t p) = t"
| "job_txn (DatJob t fs) = DataTxn t"

text \<open>The beats of a job that are over.\<close>

fun job_past :: "drv_job \<Rightarrow> raw_dat list" where
  "job_past (ReqJob t p) = []"
| "job_past (DatJob t fs) = take (length (wd_data t) - length fs) (wd_data t)"

fun job_ok :: "drv_job \<Rightarrow> bool" where
  "job_ok (ReqJob t p) = ((\<exists>f. req_of t = [f] \<and> p = pack_rxreq f) \<and> dat_of t = [])"
| "job_ok (DatJob t fs) = (fs \<noteq> [] \<and> (\<exists>k. fs = drop k (wd_data t)))"

fun phase_job :: "drv_phase \<Rightarrow> drv_job option" where
  "phase_job (DrvCredit job n) = Some job"
| "phase_job (DrvHold job) = Some job"
| "phase_job (DrvDead (NoCredit job)) = Some job"
| "phase_job _ = None"

fun current :: "drv_phase \<Rightarrow> txn list" where
  "current (DrvDbid t n) = [DataTxn t]"
| "current (DrvDead (NoRawFlit t)) = [t]"
| "current ph = (case phase_job ph of None \<Rightarrow> [] | Some job \<Rightarrow> [job_txn job])"

definition past_dat :: "drv_phase \<Rightarrow> raw_dat list" where
  "past_dat ph = (case phase_job ph of None \<Rightarrow> [] | Some job \<Rightarrow> job_past job)"

fun on_wire_req :: "drv_phase \<Rightarrow> raw_req list" where
  "on_wire_req (DrvHold (ReqJob t p)) = req_of t"
| "on_wire_req _ = []"

fun on_wire_dat :: "drv_phase \<Rightarrow> raw_dat list" where
  "on_wire_dat (DrvHold (DatJob t fs)) = [hd fs]"
| "on_wire_dat _ = []"

fun wire_pins :: "drv_phase \<Rightarrow> int \<times> int \<times> int \<times> int" where
  "wire_pins (DrvHold (ReqJob t p)) = (1, p, 0, 0)"
| "wire_pins (DrvHold (DatJob t fs)) = (0, 0, 1, pack_rxdat (hd fs))"
| "wire_pins _ = (0, 0, 0, 0)"

definition drv_ok :: "link_tb \<Rightarrow> bool" where
  "drv_ok tb \<longleftrightarrow> (\<forall>job. phase_job (tb_drv tb) = Some job \<longrightarrow> job_ok job) \<and> flit_pins (lb_pins (tb_bfm tb)) = wire_pins (tb_drv tb)"

definition sent_req :: "link_tb \<Rightarrow> raw_req list" where
  "sent_req tb = requests_of (tb_ap tb)"

definition sent_dat :: "link_tb \<Rightarrow> raw_dat list" where
  "sent_dat tb = beats_of (tb_ap tb) @ past_dat (tb_drv tb)"

text \<open>The transactions handed over so far, but for the buffer ids of the data.\<close>

definition erase :: "txn \<Rightarrow> txn" where
  "erase t = (case t of DataTxn d \<Rightarrow> DataTxn (set_dbids 0 d) | _ \<Rightarrow> t)"

definition handed :: "link_tb \<Rightarrow> txn list" where
  "handed tb = map erase (tb_ap tb @ current (tb_drv tb) @ tb_items tb)"

text \<open>What a step of the driver does from a state whose flit pins are idle: the next state is consistent, nothing
  but \<open>dat\<close> was sent, the transactions are \<open>ts\<close>, and credits were taken for the flit on the wire.\<close>

definition drv_step :: "raw_dat list \<Rightarrow> txn list \<Rightarrow> link_tb \<Rightarrow> link_tb \<Rightarrow> bool" where
  "drv_step dat ts tb tb' \<longleftrightarrow>
     drv_ok tb' \<and> sent_req tb' = sent_req tb \<and> sent_dat tb' = dat \<and> handed tb' = map erase ts \<and>
     lb_req_credits (tb_bfm tb') + int (length (on_wire_req (tb_drv tb'))) = lb_req_credits (tb_bfm tb) \<and>
     lb_dat_credits (tb_bfm tb') + int (length (on_wire_dat (tb_drv tb'))) = lb_dat_credits (tb_bfm tb) \<and>
     (0 \<le> lb_req_credits (tb_bfm tb) \<longrightarrow> 0 \<le> lb_req_credits (tb_bfm tb')) \<and>
     (0 \<le> lb_dat_credits (tb_bfm tb) \<longrightarrow> 0 \<le> lb_dat_credits (tb_bfm tb')) \<and>
     lb_dbid_by_txn (tb_bfm tb') = lb_dbid_by_txn (tb_bfm tb) \<and> lb_txrsp_history (tb_bfm tb') = lb_txrsp_history (tb_bfm tb) \<and>
     tb_wait_for_dbid tb' = tb_wait_for_dbid tb"

abbreviation pins_idle :: "link_tb \<Rightarrow> bool" where
  "pins_idle tb \<equiv> flit_pins (lb_pins (tb_bfm tb)) = (0, 0, 0, 0)"

lemma set_dbids_erase [simp]: "erase (DataTxn (set_dbids x d)) = erase (DataTxn d)"
  by (simp add: erase_def set_dbids_def o_def)

lemma take_credit_step:
  assumes "job_ok job" "pins_idle tb"
  shows "drv_step (beats_of (tb_ap tb) @ job_past job) (tb_ap tb @ job_txn job # tb_items tb) tb (take_credit job n tb)"
proof (cases job)
  case (ReqJob t p)
  then show ?thesis
    using assms by (auto simp: take_credit_def Let_def drv_step_def drv_ok_def sent_req_def sent_dat_def handed_def past_dat_def
        flit_pins_def)
next
  case (DatJob t fs)
  then show ?thesis
    using assms by (auto simp: take_credit_def Let_def drv_step_def drv_ok_def sent_req_def sent_dat_def handed_def past_dat_def
        flit_pins_def)
qed

lemma publish_step:
  "pins_idle tb \<Longrightarrow> req_of t = [] \<Longrightarrow>
     drv_step (beats_of (tb_ap tb) @ dat_of t) (tb_ap tb @ t # tb_items tb) tb (publish t tb)"
  by (simp add: publish_def drv_step_def drv_ok_def sent_req_def sent_dat_def handed_def past_dat_def)

lemma send_beats_step:
  assumes "fs = drop k (wd_data t)" "pins_idle tb"
  shows "drv_step (beats_of (tb_ap tb) @ take k (wd_data t)) (tb_ap tb @ DataTxn t # tb_items tb) tb (send_beats t fs tb)"
proof (cases "fs = []")
  case True
  then show ?thesis using assms publish_step [of tb "DataTxn t"] by (simp add: send_beats_def req_of_def dat_of_def)
next
  case False
  then have "length (wd_data t) - length fs = k" using assms(1) by simp
  then show ?thesis
    using False assms take_credit_step [of "DatJob t fs" tb 0] by (auto simp: send_beats_def)
qed

lemma wait_dbid_step:
  assumes "pins_idle tb"
  shows "drv_step (beats_of (tb_ap tb)) (tb_ap tb @ DataTxn t # tb_items tb) tb (wait_dbid t n tb)"
proof -
  have send: "drv_step (beats_of (tb_ap tb)) (tb_ap tb @ DataTxn t # tb_items tb) tb (send_beats u (wd_data u) tb)"
    if "erase (DataTxn u) = erase (DataTxn t)" for u
    using send_beats_step [of "wd_data u" 0 u tb] assms that by (simp add: drv_step_def)
  have wait: "drv_step (beats_of (tb_ap tb)) (tb_ap tb @ DataTxn t # tb_items tb) tb (tb\<lparr>tb_drv := DrvDbid t n\<rparr>)"
    using assms by (simp add: drv_step_def drv_ok_def sent_req_def sent_dat_def handed_def past_dat_def)
  show ?thesis
    unfolding wait_dbid_def Let_def by (auto intro: send wait split: option.split)
qed

lemma drive_step:
  assumes "pins_idle tb"
  shows "drv_step (beats_of (tb_ap tb)) (tb_ap tb @ t # tb_items tb) tb (drive t tb)"
proof -
  have req: "drv_step (beats_of (tb_ap tb)) (tb_ap tb @ t # tb_items tb) tb (send_request t raw tb)"
    if "req_of t = (case raw of None \<Rightarrow> [] | Some f \<Rightarrow> [f])" "dat_of t = []" for raw
  proof (cases raw)
    case None
    then show ?thesis using assms
      by (simp add: send_request_def drv_step_def drv_ok_def sent_req_def sent_dat_def handed_def past_dat_def)
  next
    case (Some f)
    then show ?thesis using take_credit_step [of "ReqJob t (pack_rxreq f)" tb 0] assms that
      by (simp add: send_request_def)
  qed
  show ?thesis
  proof (cases t)
    case (DataTxn d)
    then show ?thesis using wait_dbid_step [OF assms] send_beats_step [of "wd_data d" 0 d tb] assms
      by (simp add: drive_def)
  next
    case (ReadTxn r)
    then show ?thesis using req [of "t_raw_flit r"] by (simp add: drive_def req_of_def dat_of_def)
  next
    case (WriteTxn w)
    then show ?thesis using req [of "t_raw_flit w"] by (simp add: drive_def req_of_def dat_of_def)
  qed
qed

lemma drive_items: "tb_items (drive t (tb\<lparr>tb_items := ts\<rparr>)) = ts"
  by (simp add: drive_def send_request_def wait_dbid_def send_beats_def take_credit_def publish_def Let_def
      split: txn.split option.split drv_job.split)

text \<open>Steps from a consistent idle state compose, and so does the loop of the driver.\<close>

definition drv_keeps :: "link_tb \<Rightarrow> link_tb \<Rightarrow> bool" where
  "drv_keeps tb tb' \<longleftrightarrow>
     drv_ok tb' \<and> sent_req tb' = sent_req tb \<and> sent_dat tb' = sent_dat tb \<and>
     lb_req_credits (tb_bfm tb') + int (length (on_wire_req (tb_drv tb'))) =
       lb_req_credits (tb_bfm tb) + int (length (on_wire_req (tb_drv tb))) \<and>
     lb_dat_credits (tb_bfm tb') + int (length (on_wire_dat (tb_drv tb'))) =
       lb_dat_credits (tb_bfm tb) + int (length (on_wire_dat (tb_drv tb))) \<and>
     (0 \<le> lb_req_credits (tb_bfm tb) \<longrightarrow> 0 \<le> lb_req_credits (tb_bfm tb')) \<and>
     (0 \<le> lb_dat_credits (tb_bfm tb) \<longrightarrow> 0 \<le> lb_dat_credits (tb_bfm tb')) \<and>
     lb_dbid_by_txn (tb_bfm tb') = lb_dbid_by_txn (tb_bfm tb) \<and> lb_txrsp_history (tb_bfm tb') = lb_txrsp_history (tb_bfm tb) \<and>
     tb_wait_for_dbid tb' = tb_wait_for_dbid tb"

lemma drv_keeps_refl: "drv_ok tb \<Longrightarrow> drv_keeps tb tb"
  by (simp add: drv_keeps_def)

lemma drv_keeps_trans: "drv_keeps a b \<Longrightarrow> drv_keeps b c \<Longrightarrow> drv_keeps a c"
  by (simp add: drv_keeps_def)

lemma take_items_keeps:
  "drv_ok tb \<Longrightarrow> tb_items tb = ts \<Longrightarrow> drv_keeps tb (take_items ts tb) \<and> handed (take_items ts tb) = handed tb"
proof (induction ts arbitrary: tb)
  case (Cons t ts)
  show ?case
  proof (cases "tb_drv tb = DrvIdle")
    case True
    let ?u = "tb\<lparr>tb_items := ts\<rparr>"
    let ?v = "drive t ?u"
    have "pins_idle ?u" using Cons.prems True by (simp add: drv_ok_def)
    from drive_step [OF this, of t] have v: "drv_step (beats_of (tb_ap tb)) (tb_ap tb @ t # ts) ?u ?v" by simp
    then have keeps: "drv_keeps tb ?v" and hd: "handed ?v = handed tb"
      using True Cons.prems by (auto simp: drv_step_def drv_keeps_def sent_req_def sent_dat_def past_dat_def handed_def)
    have "tb_items ?v = ts" by (rule drive_items)
    with Cons.IH [of ?v] keeps have "drv_keeps ?v (take_items ts ?v) \<and> handed (take_items ts ?v) = handed ?v"
      by (simp add: drv_keeps_def)
    then show ?thesis using True keeps hd drv_keeps_trans by auto
  qed (use Cons.prems drv_keeps_refl in simp)
qed (simp add: drv_keeps_refl)

lemma driver_loop_keeps: "drv_ok tb \<Longrightarrow> drv_keeps tb (driver_loop tb) \<and> handed (driver_loop tb) = handed tb"
  using take_items_keeps by (simp add: driver_loop_def)

text \<open>An edge: what was on the wire has been sent.\<close>

definition edge_step :: "link_tb \<Rightarrow> link_tb \<Rightarrow> bool" where
  "edge_step tb tb' \<longleftrightarrow>
     drv_ok tb' \<and> sent_req tb' = sent_req tb @ on_wire_req (tb_drv tb) \<and> sent_dat tb' = sent_dat tb @ on_wire_dat (tb_drv tb) \<and>
     handed tb' = handed tb \<and>
     lb_req_credits (tb_bfm tb') + int (length (on_wire_req (tb_drv tb'))) = lb_req_credits (tb_bfm tb) \<and>
     lb_dat_credits (tb_bfm tb') + int (length (on_wire_dat (tb_drv tb'))) = lb_dat_credits (tb_bfm tb) \<and>
     (0 \<le> lb_req_credits (tb_bfm tb) \<longrightarrow> 0 \<le> lb_req_credits (tb_bfm tb')) \<and>
     (0 \<le> lb_dat_credits (tb_bfm tb) \<longrightarrow> 0 \<le> lb_dat_credits (tb_bfm tb')) \<and>
     lb_dbid_by_txn (tb_bfm tb') = lb_dbid_by_txn (tb_bfm tb) \<and> lb_txrsp_history (tb_bfm tb') = lb_txrsp_history (tb_bfm tb) \<and>
     tb_wait_for_dbid tb' = tb_wait_for_dbid tb"

lemma edge_step_loop: "edge_step tb u \<Longrightarrow> edge_step tb (driver_loop u)"
  using driver_loop_keeps [of u] by (auto simp: edge_step_def drv_keeps_def)

lemma after_flit_step:
  assumes "drv_ok tb" "tb_drv tb = DrvHold job"
  shows "edge_step tb (after_flit job (with_bfm (with_pins (drop_valid job)) tb))"
proof (cases job)
  case (ReqJob t p)
  let ?u = "with_bfm (with_pins (drop_valid job)) tb"
  have "job_ok job" "pins_idle ?u" using assms by (auto simp: drv_ok_def ReqJob drop_valid_def flit_pins_def)
  moreover have "edge_step tb (publish t ?u)" if "pins_idle ?u" "dat_of t = []"
    using that assms ReqJob
    by (simp add: publish_def edge_step_def drv_ok_def sent_req_def sent_dat_def past_dat_def handed_def)
  ultimately show ?thesis by (simp add: after_flit_def ReqJob)
next
  case (DatJob t fs)
  let ?u = "with_bfm (with_pins (drop_valid job)) tb"
  have pins: "pins_idle ?u" and ok: "job_ok job" using assms by (auto simp: drv_ok_def DatJob drop_valid_def flit_pins_def)
  from ok obtain k where fs: "fs = drop k (wd_data t)" "fs \<noteq> []" by (auto simp: DatJob)
  then have k: "k < length (wd_data t)" by (simp add: not_le)
  have tl: "tl fs = drop (Suc k) (wd_data t)" by (simp add: fs drop_Suc tl_drop)
  have "take (Suc k) (wd_data t) = take k (wd_data t) @ [hd fs]" using k by (simp add: fs take_Suc_conv_app_nth hd_drop_conv_nth)
  moreover have "job_past job = take k (wd_data t)" using k by (simp add: DatJob fs)
  moreover have "drv_step (beats_of (tb_ap tb) @ take (Suc k) (wd_data t)) (tb_ap tb @ DataTxn t # tb_items tb) ?u
      (send_beats t (tl fs) ?u)"
    using send_beats_step [OF tl pins] by simp
  ultimately show ?thesis using assms(2)
    by (auto simp: after_flit_def DatJob drv_step_def edge_step_def sent_req_def sent_dat_def past_dat_def handed_def)
qed

lemma driver_edge_step: "drv_ok tb \<Longrightarrow> edge_step tb (driver_edge d tb)"
proof (cases "tb_drv tb")
  case DrvReset
  assume "drv_ok tb"
  then show ?thesis using DrvReset
    by (auto simp: driver_edge_def Let_def start_tasks_def edge_step_def drv_ok_def sent_req_def sent_dat_def past_dat_def
        handed_def link_idle_pins_def flit_pins_def)
next
  case (DrvLinkUp n)
  assume ok: "drv_ok tb"
  let ?u = "with_bfm (\<lambda>b. b\<lparr>lb_link_up := True\<rparr>) (tb\<lparr>tb_drv := DrvIdle\<rparr>)"
  have "edge_step tb ?u" using ok DrvLinkUp
    by (simp add: edge_step_def drv_ok_def sent_req_def sent_dat_def past_dat_def handed_def)
  from edge_step_loop [OF this] show ?thesis using ok DrvLinkUp
    by (auto simp: driver_edge_def edge_step_def drv_ok_def sent_req_def sent_dat_def past_dat_def handed_def
        split: link_wait.split)
next
  case (DrvDbid t n)
  assume ok: "drv_ok tb"
  then have "drv_step (beats_of (tb_ap tb)) (tb_ap tb @ DataTxn t # tb_items tb) tb (wait_dbid t (Suc n) tb)"
    using wait_dbid_step DrvDbid by (simp add: drv_ok_def)
  then have "edge_step tb (wait_dbid t (Suc n) tb)"
    using DrvDbid by (simp add: drv_step_def edge_step_def sent_req_def sent_dat_def past_dat_def handed_def)
  from edge_step_loop [OF this] show ?thesis by (simp add: driver_edge_def DrvDbid)
next
  case (DrvCredit job n)
  assume "drv_ok tb"
  then have "drv_step (beats_of (tb_ap tb) @ job_past job) (tb_ap tb @ job_txn job # tb_items tb) tb
      (take_credit job (Suc n) tb)"
    using take_credit_step DrvCredit by (simp add: drv_ok_def)
  then show ?thesis using DrvCredit
    by (simp add: driver_edge_def drv_step_def edge_step_def sent_req_def sent_dat_def past_dat_def handed_def)
next
  case (DrvHold job)
  assume "drv_ok tb"
  from edge_step_loop [OF after_flit_step [OF this DrvHold]] show ?thesis by (simp add: driver_edge_def DrvHold)
qed (auto simp: driver_edge_def edge_step_def)

section \<open>Credits\<close>

text \<open>The credits that a channel's credit task counts at an edge.\<close>

definition granted :: "(dut_out \<Rightarrow> sig_value) \<Rightarrow> dut_out \<Rightarrow> link_task list \<Rightarrow> int" where
  "granted crdv d ts = int (count_list ts RxCredit) * of_bool (high (crdv d))"

definition edge_granted :: "(dut_out \<Rightarrow> sig_value) \<Rightarrow> edge \<Rightarrow> link_tb \<Rightarrow> int" where
  "edge_granted crdv e tb = (if tb_started tb then granted crdv (ed_dut e) (ed_before e @ ed_after e) else 0)"

fun run_granted :: "(dut_out \<Rightarrow> sig_value) \<Rightarrow> edge list \<Rightarrow> link_tb \<Rightarrow> int" where
  "run_granted crdv [] tb = 0"
| "run_granted crdv (e # es) tb = edge_granted crdv e tb + run_granted crdv es (link_edge e tb)"

definition tasks_keep :: "dut_out \<Rightarrow> link_task list \<Rightarrow> link_tb \<Rightarrow> link_tb \<Rightarrow> bool" where
  "tasks_keep d ts tb tb' \<longleftrightarrow>
     tb_drv tb' = tb_drv tb \<and> tb_items tb' = tb_items tb \<and> tb_ap tb' = tb_ap tb \<and>
     tb_wait_for_dbid tb' = tb_wait_for_dbid tb \<and>
     flit_pins (lb_pins (tb_bfm tb')) = flit_pins (lb_pins (tb_bfm tb)) \<and>
     lb_req_credits (tb_bfm tb') = lb_req_credits (tb_bfm tb) + granted do_rxreqcrdv d ts \<and>
     lb_dat_credits (tb_bfm tb') = lb_dat_credits (tb_bfm tb) + granted do_rxdatcrdv d ts"

lemma tasks_keep_fold: "tasks_keep d ts tb (fold (task_edge d) ts tb)"
proof (induction ts arbitrary: tb)
  case Nil
  show ?case by (simp add: tasks_keep_def granted_def)
next
  case (Cons t ts)
  show ?case using Cons.IH [of "task_edge d t tb"] task_edge_frame [of d t tb]
    by (auto simp: tasks_keep_def granted_def algebra_simps)
qed

lemma tasks_keep_edge: "tasks_keep d (if on then ts else []) tb (tasks_edge on d ts tb)"
  using tasks_keep_fold [of d ts tb] by (simp add: tasks_edge_def tasks_keep_def granted_def)

lemma tasks_keep_drv:
  assumes "tasks_keep d ts tb tb'"
  shows "drv_ok tb' = drv_ok tb" "sent_req tb' = sent_req tb" "sent_dat tb' = sent_dat tb" "handed tb' = handed tb"
  using assms by (simp_all add: tasks_keep_def drv_ok_def sent_req_def sent_dat_def handed_def)

lemma put_item_keeps: "drv_ok tb \<Longrightarrow> drv_keeps tb (put_item t tb) \<and> handed (put_item t tb) = handed tb @ [erase t]"
proof -
  assume ok: "drv_ok tb"
  let ?u = "tb\<lparr>tb_items := tb_items tb @ [t]\<rparr>"
  have "drv_ok ?u" "drv_keeps tb ?u" "handed ?u = handed tb @ [erase t]"
    using ok by (simp_all add: drv_ok_def drv_keeps_def sent_req_def sent_dat_def handed_def)
  then show ?thesis using driver_loop_keeps [of ?u] drv_keeps_trans by (auto simp: put_item_def)
qed

lemma put_items_keep:
  "drv_ok tb \<Longrightarrow> drv_keeps tb (fold put_item ts tb) \<and> handed (fold put_item ts tb) = handed tb @ map erase ts"
proof (induction ts arbitrary: tb)
  case (Cons t ts)
  have k: "drv_keeps tb (put_item t tb)" "handed (put_item t tb) = handed tb @ [erase t]"
    using put_item_keeps [OF Cons.prems] by auto
  then have "drv_ok (put_item t tb)" by (simp add: drv_keeps_def)
  from Cons.IH [OF this] k show ?case using drv_keeps_trans by auto
qed (simp add: drv_keeps_refl)

lemma link_edge_step:
  assumes "drv_ok tb"
  shows "drv_ok (link_edge e tb) \<and>
    sent_req (link_edge e tb) = sent_req tb @ on_wire_req (tb_drv tb) \<and>
    sent_dat (link_edge e tb) = sent_dat tb @ on_wire_dat (tb_drv tb) \<and>
    handed (link_edge e tb) = handed tb @ map erase (ed_puts e) \<and>
    lb_req_credits (tb_bfm (link_edge e tb)) + int (length (on_wire_req (tb_drv (link_edge e tb)))) =
      lb_req_credits (tb_bfm tb) + edge_granted do_rxreqcrdv e tb \<and>
    lb_dat_credits (tb_bfm (link_edge e tb)) + int (length (on_wire_dat (tb_drv (link_edge e tb)))) =
      lb_dat_credits (tb_bfm tb) + edge_granted do_rxdatcrdv e tb \<and>
    (0 \<le> lb_req_credits (tb_bfm tb) \<longrightarrow> 0 \<le> lb_req_credits (tb_bfm (link_edge e tb))) \<and>
    (0 \<le> lb_dat_credits (tb_bfm tb) \<longrightarrow> 0 \<le> lb_dat_credits (tb_bfm (link_edge e tb)))"
proof -
  let ?d = "ed_dut e" and ?on = "tb_started tb"
  let ?t1 = "if ?on then ed_before e else []" and ?t2 = "if ?on then ed_after e else []"
  define a where "a = tasks_edge ?on ?d (ed_before e) tb"
  define b where "b = driver_edge ?d a"
  define c where "c = tasks_edge ?on ?d (ed_after e) b"
  have g: "0 \<le> granted s ?d ts" for s ts by (simp add: granted_def)
  have eg: "edge_granted s e tb = granted s ?d ?t1 + granted s ?d ?t2" for s
    by (simp add: edge_granted_def granted_def algebra_simps)
  have a: "tasks_keep ?d ?t1 tb a" unfolding a_def by (rule tasks_keep_edge)
  then have "drv_ok a" using tasks_keep_drv assms by simp
  then have b: "edge_step a b" unfolding b_def by (rule driver_edge_step)
  have c: "tasks_keep ?d ?t2 b c" unfolding c_def by (rule tasks_keep_edge)
  have "drv_ok c" using tasks_keep_drv(1) [OF c] b by (simp add: edge_step_def)
  from put_items_keep [OF this, of "ed_puts e"]
  have p: "drv_keeps c (link_edge e tb)" "handed (link_edge e tb) = handed c @ map erase (ed_puts e)"
    by (simp_all add: link_edge_def Let_def a_def b_def c_def)
  show ?thesis
    using a b c p g [of do_rxreqcrdv ?t1] g [of do_rxreqcrdv ?t2] g [of do_rxdatcrdv ?t1] g [of do_rxdatcrdv ?t2]
      tasks_keep_drv [OF a] tasks_keep_drv [OF c]
    unfolding eg edge_step_def drv_keeps_def tasks_keep_def by auto
qed

lemma drv_ok_init: "drv_ok (link_tb_init w)"
  by (simp add: drv_ok_def link_tb_init_def link_bfm_init_def link_idle_pins_def flit_pins_def)

lemma link_run_ledger:
  "drv_ok tb \<Longrightarrow> tb' = link_run es tb \<Longrightarrow>
     drv_ok tb' \<and> handed tb' = handed tb @ map erase (concat (map ed_puts es)) \<and>
     lb_req_credits (tb_bfm tb') + int (length (sent_req tb' @ on_wire_req (tb_drv tb'))) =
       lb_req_credits (tb_bfm tb) + int (length (sent_req tb @ on_wire_req (tb_drv tb))) + run_granted do_rxreqcrdv es tb \<and>
     lb_dat_credits (tb_bfm tb') + int (length (sent_dat tb' @ on_wire_dat (tb_drv tb'))) =
       lb_dat_credits (tb_bfm tb) + int (length (sent_dat tb @ on_wire_dat (tb_drv tb))) + run_granted do_rxdatcrdv es tb \<and>
     (0 \<le> lb_req_credits (tb_bfm tb) \<longrightarrow> 0 \<le> lb_req_credits (tb_bfm tb')) \<and>
     (0 \<le> lb_dat_credits (tb_bfm tb) \<longrightarrow> 0 \<le> lb_dat_credits (tb_bfm tb'))"
proof (induction es arbitrary: tb tb')
  case (Cons e es)
  note st = link_edge_step [OF Cons.prems(1), of e]
  have "tb' = link_run es (link_edge e tb)" using Cons.prems(2) by (simp add: link_run_def)
  from Cons.IH [OF conjunct1 [OF st] this] st show ?case by auto
qed (simp add: link_run_def)

text \<open>
  C21. Link credits are conserved on both channels, however the tasks interleave: the credits left and the flits driven so far
  (those of the published transactions, the beats of the current one, and the flit on the wire) are the credits the device
  returned, and a flit is never driven without a credit.
\<close>

theorem link_credits_conserved:
  "case link_run es (link_tb_init w) of tb \<Rightarrow>
     0 \<le> lb_req_credits (tb_bfm tb) \<and> 0 \<le> lb_dat_credits (tb_bfm tb) \<and>
     lb_req_credits (tb_bfm tb) + int (length (requests_of (tb_ap tb) @ on_wire_req (tb_drv tb))) =
       run_granted do_rxreqcrdv es (link_tb_init w) \<and>
     lb_dat_credits (tb_bfm tb) + int (length (beats_of (tb_ap tb) @ past_dat (tb_drv tb) @ on_wire_dat (tb_drv tb))) =
       run_granted do_rxdatcrdv es (link_tb_init w)"
  using link_run_ledger [OF drv_ok_init refl, of es w]
  by (simp add: link_tb_init_def link_bfm_init_def sent_req_def sent_dat_def past_dat_def)

section \<open>Waits end\<close>

text \<open>The number of edges that a wait has lasted.\<close>

fun wait_count :: "drv_phase \<Rightarrow> nat" where
  "wait_count (DrvLinkUp n) = n"
| "wait_count (DrvDbid t n) = n"
| "wait_count (DrvCredit job n) = n"
| "wait_count _ = 0"

text \<open>The phase of a wait that has gone on for \<open>k\<close> more edges.\<close>

fun waited :: "nat \<Rightarrow> drv_phase \<Rightarrow> drv_phase option" where
  "waited k (DrvLinkUp n) = Some (DrvLinkUp (n + k))"
| "waited k (DrvDbid t n) = Some (DrvDbid t (n + k))"
| "waited k (DrvCredit job n) = Some (DrvCredit job (n + k))"
| "waited k _ = None"

lemma waited_count: "waited k ph = Some ph' \<Longrightarrow> wait_count ph' = wait_count ph + k"
  by (cases ph) auto

lemma take_credit_count: "wait_count (tb_drv (take_credit job n tb)) \<le> n \<and> wait_count (tb_drv (take_credit job n tb)) < 1250"
  by (auto simp: take_credit_def Let_def CLK_PERIOD_NS_def CREDIT_TIMEOUT_NS_def split: drv_job.split)

lemma send_beats_count: "wait_count (tb_drv (send_beats t fs tb)) = 0"
  using take_credit_count [of "DatJob t fs" 0 tb] by (simp add: send_beats_def publish_def)

lemma wait_dbid_count: "wait_count (tb_drv (wait_dbid t n tb)) \<le> n \<and> wait_count (tb_drv (wait_dbid t n tb)) < 250"
  by (auto simp: wait_dbid_def Let_def send_beats_count CLK_PERIOD_NS_def DBID_TIMEOUT_NS_def split: option.split)

lemma drive_count: "wait_count (tb_drv (drive t tb)) = 0"
proof -
  have "wait_count (tb_drv (send_request u raw tb)) = 0" for u raw
    using take_credit_count [of _ 0 tb] by (simp add: send_request_def split: option.split)
  moreover have "wait_count (tb_drv (wait_dbid d 0 tb)) = 0" for d using wait_dbid_count [of d 0 tb] by simp
  ultimately show ?thesis by (simp add: drive_def send_beats_count split: txn.split)
qed

lemma driver_loop_count: "wait_count (tb_drv (driver_loop tb)) = wait_count (tb_drv tb)"
proof -
  have "wait_count (tb_drv (take_items ts tb)) = wait_count (tb_drv tb)" for ts
    by (induction ts arbitrary: tb) (simp_all add: drive_count)
  then show ?thesis by (simp add: driver_loop_def)
qed

lemma driver_edge_count: "wait_count (tb_drv (driver_edge d tb)) < 1250"
proof -
  have "wait_count (tb_drv (wait_dbid t n tb)) < 1250" "wait_count (tb_drv (take_credit job n tb)) < 1250" for t n job
    using wait_dbid_count [of t n tb] take_credit_count [of job n tb] by simp_all
  moreover have "wait_count (tb_drv (after_flit job tb)) = 0" for job tb
    by (simp add: after_flit_def publish_def send_beats_count split: drv_job.split)
  ultimately show ?thesis
    by (auto simp: driver_edge_def driver_loop_count start_tasks_def Let_def wait_link_up_edge_def CLK_PERIOD_NS_def
        LINK_UP_TIMEOUT_NS_def split: drv_phase.split)
qed

lemma link_edge_count: "wait_count (tb_drv (link_edge e tb)) < 1250"
proof -
  have tasks: "tb_drv (tasks_edge on d ts tb) = tb_drv tb" for on d ts tb
    using tasks_keep_edge [of d on ts tb] by (simp add: tasks_keep_def)
  have "wait_count (tb_drv (fold put_item ts tb)) = wait_count (tb_drv tb)" for ts tb
    by (induction ts arbitrary: tb) (simp_all add: put_item_def driver_loop_count)
  then show ?thesis using driver_edge_count by (simp add: link_edge_def Let_def tasks)
qed


section \<open>Buffer ids\<close>

text \<open>The buffer id of the last response that carried one for a transaction id.\<close>

definition last_dbid :: "tx_entry list \<Rightarrow> int \<Rightarrow> int option" where
  "last_dbid h t =
     (let xs = filter (\<lambda>x. tx_txnid x = t \<and> tx_opcode x \<in> {LINK_OPC_COMPDBIDRESP, LINK_OPC_DBIDRESP}) h
      in if xs = [] then None else Some (tx_dbid (last xs)))"

definition dbids_ok :: "link_bfm \<Rightarrow> bool" where
  "dbids_ok b \<longleftrightarrow> map_of (lb_dbid_by_txn b) = last_dbid (lb_txrsp_history b)"

lemma last_dbid_snoc:
  "last_dbid (h @ [x]) =
     (if tx_opcode x \<in> {LINK_OPC_COMPDBIDRESP, LINK_OPC_DBIDRESP} then (last_dbid h)(tx_txnid x \<mapsto> tx_dbid x) else last_dbid h)"
  by (rule ext) (auto simp: last_dbid_def Let_def)

lemma dbids_ok_cong:
  "dbids_ok b \<Longrightarrow> lb_dbid_by_txn b' = lb_dbid_by_txn b \<Longrightarrow> lb_txrsp_history b' = lb_txrsp_history b \<Longrightarrow> dbids_ok b'"
  by (simp add: dbids_ok_def)

lemma observe_rsp_dbids: "dbids_ok b \<Longrightarrow> observe_rsp d b = Inr b' \<Longrightarrow> dbids_ok b'"
  by (auto simp: observe_rsp_def dbids_ok_def Let_def last_dbid_snoc map_of_update
      split: if_splits option.splits)

lemma task_edge_dbids: "dbids_ok (tb_bfm tb) \<Longrightarrow> dbids_ok (tb_bfm (task_edge d t tb))"
proof (cases t)
  case ObserveTx
  assume ok: "dbids_ok (tb_bfm tb)"
  show ?thesis
  proof (cases "observe_rsp d (tb_bfm tb)")
    case (Inr b)
    then have "dbids_ok b" using observe_rsp_dbids ok by blast
    then show ?thesis using ok Inr
      by (auto simp: ObserveTx observe_tx_edge_def dbids_ok_def dest: observe_sel(2) split: sum.split)
  qed (use ok in \<open>simp add: ObserveTx observe_tx_edge_def\<close>)
qed (auto simp: dbids_ok_def activation_edge_def tx_credit_edge_def Let_def
    split: activation_phase.split tx_credit_phase.split link_wait.split)

lemma link_edge_dbids: "drv_ok tb \<Longrightarrow> dbids_ok (tb_bfm tb) \<Longrightarrow> dbids_ok (tb_bfm (link_edge e tb))"
proof -
  assume ok: "drv_ok tb" and ids: "dbids_ok (tb_bfm tb)"
  have tasks: "dbids_ok (tb_bfm u) \<Longrightarrow> dbids_ok (tb_bfm (tasks_edge on d ts u))" for on d ts u
    unfolding tasks_edge_def by (induction ts arbitrary: u) (auto simp: task_edge_dbids)
  let ?on = "tb_started tb" and ?d = "ed_dut e"
  define a where "a = tasks_edge ?on ?d (ed_before e) tb"
  define c where "c = tasks_edge ?on ?d (ed_after e) (driver_edge ?d a)"
  have a: "drv_ok a" "dbids_ok (tb_bfm a)"
    using tasks_keep_drv(1) [OF tasks_keep_edge [of ?d ?on "ed_before e" tb]] ok tasks ids by (simp_all add: a_def)
  have st: "edge_step a (driver_edge ?d a)" by (rule driver_edge_step [OF a(1)])
  then have "dbids_ok (tb_bfm (driver_edge ?d a))" using a(2) dbids_ok_cong by (auto simp: edge_step_def)
  then have c: "dbids_ok (tb_bfm c)" "drv_ok c"
    using tasks st tasks_keep_drv(1) [OF tasks_keep_edge [of ?d ?on "ed_after e" "driver_edge ?d a"]]
    by (simp_all add: c_def edge_step_def)
  have "drv_keeps c (link_edge e tb)"
    using put_items_keep [OF c(2), of "ed_puts e"] by (simp add: link_edge_def Let_def a_def c_def)
  then show ?thesis using c(1) dbids_ok_cong by (auto simp: drv_keeps_def)
qed

lemma link_run_dbids: "drv_ok tb \<Longrightarrow> dbids_ok (tb_bfm tb) \<Longrightarrow> dbids_ok (tb_bfm (link_run es tb))"
proof (induction es arbitrary: tb)
  case (Cons e es)
  then show ?case using link_edge_step [OF Cons.prems(1), of e] link_edge_dbids by (simp add: link_run_def)
qed (simp add: link_run_def)

text \<open>
  The buffer id that goes out with write data is that of the last response for its transaction id since the start, and
  with one recorded the driver does not wait: a second write with a transaction id used before gets the buffer id of the first
  if its own response has not come yet.
\<close>

theorem write_data_takes_last_dbid:
  "let tb = link_run es (link_tb_init True)
   in drive (DataTxn d) (tb\<lparr>tb_wait_for_dbid := True\<rparr>) =
        (case last_dbid (lb_txrsp_history (tb_bfm tb)) (t_txn_id d) of
           None \<Rightarrow> tb\<lparr>tb_wait_for_dbid := True, tb_drv := DrvDbid d 0\<rparr>
         | Some x \<Rightarrow> send_beats (set_dbids x d) (wd_data (set_dbids x d)) (tb\<lparr>tb_wait_for_dbid := True\<rparr>))"
proof -
  have "dbids_ok (tb_bfm (link_tb_init True))"
    by (simp add: dbids_ok_def last_dbid_def link_tb_init_def link_bfm_init_def fun_eq_iff)
  from link_run_dbids [OF drv_ok_init this, of es] show ?thesis
    by (simp add: drive_def wait_dbid_def dbids_ok_def Let_def CLK_PERIOD_NS_def DBID_TIMEOUT_NS_def split: option.split)
qed

end
