(* ===== verification/Chi_Monitor.thy ===== *)
theory Chi_Monitor
  imports Link_Driver Snf_Agent "HOL-Library.Sublist"
begin

text \<open>
  The link monitor of \<^verbatim>\<open>chi_mon.py\<close>, the responder of \<^verbatim>\<open>cosim_responder.py\<close>, and the three components on one link.

  The monitor's four coroutines share nothing, so an edge is their steps one after the other.  At an edge they see the pins
  as the testbench left them after the edge before.  What a component publishes on an analysis port is a list, in order.
  No decoder raises (\<^theory_text>\<open>unpack_rxreq_total\<close> and its likes), so no coroutine ends; log messages are left out.
\<close>

record chi_mon =
  cm_rxreq_count :: int
  cm_rxdat_count :: int
  cm_txrsp_count :: int
  cm_txdat_count :: int
  cm_rxreq_ap :: "raw_req list"
  cm_rxdat_ap :: "raw_dat list"
  cm_txrsp_ap :: "raw_rsp list"
  cm_txdat_ap :: "raw_dat list"

definition chi_mon_init :: chi_mon where
  "chi_mon_init =
     \<lparr>cm_rxreq_count = 0, cm_rxdat_count = 0, cm_txrsp_count = 0, cm_txdat_count = 0,
      cm_rxreq_ap = [], cm_rxdat_ap = [], cm_txrsp_ap = [], cm_txdat_ap = []\<rparr>"

text \<open>The flit of a channel at an edge, if one is valid and its word resolves.\<close>

definition sampled :: "(int \<Rightarrow> 'f option) \<Rightarrow> sig_value \<Rightarrow> sig_value \<Rightarrow> 'f option" where
  "sampled decode valid payload =
     (if read_bit valid \<noteq> Some 1 then None
      else case read_int payload of None \<Rightarrow> None | Some p \<Rightarrow> decode p)"

definition monitor_rxreq :: "link_pins \<Rightarrow> chi_mon \<Rightarrow> chi_mon" where
  "monitor_rxreq p m =
     (case sampled unpack_rxreq (Resolved (pn_rxreqfltv p)) (Resolved (pn_rxreqflt p)) of
        None \<Rightarrow> m
      | Some f \<Rightarrow> m\<lparr>cm_rxreq_count := cm_rxreq_count m + 1, cm_rxreq_ap := cm_rxreq_ap m @ [f]\<rparr>)"

definition monitor_rxdat :: "link_pins \<Rightarrow> chi_mon \<Rightarrow> chi_mon" where
  "monitor_rxdat p m =
     (case sampled unpack_rxdat (Resolved (pn_rxdatfltv p)) (Resolved (pn_rxdatflt p)) of
        None \<Rightarrow> m
      | Some f \<Rightarrow> m\<lparr>cm_rxdat_count := cm_rxdat_count m + 1, cm_rxdat_ap := cm_rxdat_ap m @ [f]\<rparr>)"

definition monitor_txrsp :: "dut_out \<Rightarrow> chi_mon \<Rightarrow> chi_mon" where
  "monitor_txrsp d m =
     (case sampled unpack_txrsp (do_txrspfltv d) (do_txrspflt d) of
        None \<Rightarrow> m
      | Some f \<Rightarrow> m\<lparr>cm_txrsp_count := cm_txrsp_count m + 1, cm_txrsp_ap := cm_txrsp_ap m @ [f]\<rparr>)"

definition monitor_txdat :: "dut_out \<Rightarrow> chi_mon \<Rightarrow> chi_mon" where
  "monitor_txdat d m =
     (case sampled unpack_txdat (do_txdatfltv d) (do_txdatflt d) of
        None \<Rightarrow> m
      | Some f \<Rightarrow> m\<lparr>cm_txdat_count := cm_txdat_count m + 1, cm_txdat_ap := cm_txdat_ap m @ [f]\<rparr>)"

definition chi_mon_edge :: "link_pins \<Rightarrow> dut_out \<Rightarrow> chi_mon \<Rightarrow> chi_mon" where
  "chi_mon_edge p d m = monitor_txdat d (monitor_txrsp d (monitor_rxdat p (monitor_rxreq p m)))"

section \<open>The responder\<close>

text \<open>A subscriber counts what it is given and calls its sink, once that is bound; the agent is the sink of both.  An
  exception of the sink ends the monitor coroutine that published the flit.\<close>

record tx_subscriber =
  sb_bound :: bool
  sb_count :: int

definition subscriber_write :: "('t \<Rightarrow> snf_agent \<Rightarrow> snf_agent result) \<Rightarrow> 't \<Rightarrow> tx_subscriber \<times> snf_agent \<Rightarrow>
    (tx_subscriber \<times> snf_agent) result" where
  "subscriber_write sink t = (\<lambda>(s, a).
     let s = s\<lparr>sb_count := sb_count s + 1\<rparr>
     in if sb_bound s then and_then (sink t a) (\<lambda>a. Inr (s, a)) else Inr (s, a))"

record responder =
  rp_txrsp_sub :: tx_subscriber
  rp_txdat_sub :: tx_subscriber

definition responder_init :: responder where
  "responder_init = \<lparr>rp_txrsp_sub = \<lparr>sb_bound = False, sb_count = 0\<rparr>, rp_txdat_sub = \<lparr>sb_bound = False, sb_count = 0\<rparr>\<rparr>"

definition bind_and_connect :: "responder \<Rightarrow> responder" where
  "bind_and_connect r =
     r\<lparr>rp_txrsp_sub := (rp_txrsp_sub r)\<lparr>sb_bound := True\<rparr>, rp_txdat_sub := (rp_txdat_sub r)\<lparr>sb_bound := True\<rparr>\<rparr>"

definition respond_rsp :: "raw_rsp \<Rightarrow> responder \<times> snf_agent \<Rightarrow> (responder \<times> snf_agent) result" where
  "respond_rsp f = (\<lambda>(r, a).
     and_then (subscriber_write (\<lambda>f a. Inr (on_txrsp f a)) f (rp_txrsp_sub r, a)) (\<lambda>(s, a).
       Inr (r\<lparr>rp_txrsp_sub := s\<rparr>, a)))"

definition respond_dat :: "raw_dat \<Rightarrow> responder \<times> snf_agent \<Rightarrow> (responder \<times> snf_agent) result" where
  "respond_dat f = (\<lambda>(r, a).
     and_then (subscriber_write on_txdat f (rp_txdat_sub r, a)) (\<lambda>(s, a).
       Inr (r\<lparr>rp_txdat_sub := s\<rparr>, a)))"

text \<open>What the responder does with the flits of an edge.\<close>

definition respond_edge :: "dut_out \<Rightarrow> responder \<times> snf_agent \<Rightarrow> (responder \<times> snf_agent) result" where
  "respond_edge d ra =
     and_then (case sampled unpack_txrsp (do_txrspfltv d) (do_txrspflt d) of
         None \<Rightarrow> Inr ra
       | Some f \<Rightarrow> respond_rsp f ra) (\<lambda>ra.
     case sampled unpack_txdat (do_txdatfltv d) (do_txdatflt d) of
         None \<Rightarrow> Inr ra
       | Some f \<Rightarrow> respond_dat f ra)"

fun respond_run :: "dut_out list \<Rightarrow> responder \<times> snf_agent \<Rightarrow> (responder \<times> snf_agent) result" where
  "respond_run [] ra = Inr ra"
| "respond_run (d # ds) ra = and_then (respond_edge d ra) (respond_run ds)"

section \<open>Driver and monitor on one link\<close>

fun bench_run :: "edge list \<Rightarrow> link_tb \<times> chi_mon \<Rightarrow> link_tb \<times> chi_mon" where
  "bench_run [] s = s"
| "bench_run (e # es) (tb, m) = bench_run es (link_edge e tb, chi_mon_edge (lb_pins (tb_bfm tb)) (ed_dut e) m)"

lemma monitor_tx_frame [simp]:
  "cm_rxreq_ap (monitor_txrsp d m) = cm_rxreq_ap m" "cm_rxdat_ap (monitor_txrsp d m) = cm_rxdat_ap m"
  "cm_rxreq_ap (monitor_txdat d m) = cm_rxreq_ap m" "cm_rxdat_ap (monitor_txdat d m) = cm_rxdat_ap m"
  "cm_rxreq_count (monitor_txrsp d m) = cm_rxreq_count m" "cm_rxdat_count (monitor_txrsp d m) = cm_rxdat_count m"
  "cm_rxreq_count (monitor_txdat d m) = cm_rxreq_count m" "cm_rxdat_count (monitor_txdat d m) = cm_rxdat_count m"
  by (simp_all add: monitor_txrsp_def monitor_txdat_def split: option.splits)

text \<open>At an edge the monitor sees the flit on the wire.\<close>

lemma chi_mon_sees_wire:
  assumes "drv_ok tb"
  shows "cm_rxreq_ap (chi_mon_edge (lb_pins (tb_bfm tb)) d m) = cm_rxreq_ap m @ map rxreq_wire (on_wire_req (tb_drv tb)) \<and>
    cm_rxdat_ap (chi_mon_edge (lb_pins (tb_bfm tb)) d m) = cm_rxdat_ap m @ map rxdat_wire (on_wire_dat (tb_drv tb))"
proof -
  have pins: "flit_pins (lb_pins (tb_bfm tb)) = wire_pins (tb_drv tb)"
    and job: "\<And>job. tb_drv tb = DrvHold job \<Longrightarrow> job_ok job" using assms by (auto simp: drv_ok_def)
  consider (req) t p where "tb_drv tb = DrvHold (ReqJob t p)" | (dat) t fs where "tb_drv tb = DrvHold (DatJob t fs)"
    | (none) "wire_pins (tb_drv tb) = (0, 0, 0, 0)" "on_wire_req (tb_drv tb) = []" "on_wire_dat (tb_drv tb) = []"
    by (cases "tb_drv tb" rule: wire_pins.cases) auto
  then show ?thesis
  proof cases
    case req
    then obtain f where "req_of t = [f]" "p = pack_rxreq f" using job by auto
    then show ?thesis using pins req
      by (simp add: chi_mon_edge_def monitor_rxreq_def monitor_rxdat_def sampled_def flit_pins_def unpack_pack_rxreq)
  next
    case dat
    then show ?thesis using pins
      by (simp add: chi_mon_edge_def monitor_rxreq_def monitor_rxdat_def sampled_def flit_pins_def unpack_pack_rxdat)
  next
    case none
    then show ?thesis using pins
      by (simp add: chi_mon_edge_def monitor_rxreq_def monitor_rxdat_def sampled_def flit_pins_def)
  qed
qed

lemma bench_run_link: "fst (bench_run es (tb, m)) = link_run es tb"
  by (induction es arbitrary: tb m) (simp_all add: link_run_def)

lemma bench_run_sees:
  "drv_ok tb \<Longrightarrow> bench_run es (tb, m) = (tb', m') \<Longrightarrow>
     (\<exists>q d. sent_req tb' = sent_req tb @ q \<and> cm_rxreq_ap m' = cm_rxreq_ap m @ map rxreq_wire q \<and>
        sent_dat tb' = sent_dat tb @ d \<and> cm_rxdat_ap m' = cm_rxdat_ap m @ map rxdat_wire d)"
proof (induction es arbitrary: tb m)
  case (Cons e es)
  let ?m = "chi_mon_edge (lb_pins (tb_bfm tb)) (ed_dut e) m"
  note st = link_edge_step [OF Cons.prems(1), of e]
  note see = chi_mon_sees_wire [OF Cons.prems(1), of "ed_dut e" m]
  have "bench_run es (link_edge e tb, ?m) = (tb', m')" using Cons.prems(2) by simp
  from Cons.IH [OF conjunct1 [OF st] this] obtain q d where
    "sent_req tb' = sent_req (link_edge e tb) @ q" "cm_rxreq_ap m' = cm_rxreq_ap ?m @ map rxreq_wire q"
    "sent_dat tb' = sent_dat (link_edge e tb) @ d" "cm_rxdat_ap m' = cm_rxdat_ap ?m @ map rxdat_wire d"
    by blast
  then show ?case using st see
    by (intro exI [of _ "on_wire_req (tb_drv tb) @ q"] exI [of _ "on_wire_dat (tb_drv tb) @ d"]) simp
qed simp

text \<open>
  C16. The link is a queue: whatever the device does and however the tasks interleave, what the monitor has published on its
  two receive ports are the flits of the transactions the driver has published, beat by beat and in order, as they look after
  the wire, with the beats of the current transaction that are over; and those transactions, the current one and the queued
  ones are the ones that were handed over, in order, but for the buffer ids of write data.
\<close>

theorem monitor_reports_driven:
  "case bench_run es (link_tb_init w, chi_mon_init) of (tb, m) \<Rightarrow>
     cm_rxreq_ap m = map rxreq_wire (requests_of (tb_ap tb)) \<and>
     cm_rxdat_ap m = map rxdat_wire (beats_of (tb_ap tb) @ past_dat (tb_drv tb)) \<and>
     map erase (tb_ap tb @ current (tb_drv tb) @ tb_items tb) = map erase (concat (map ed_puts es))"
proof -
  let ?tb = "link_tb_init w"
  obtain tb m where run: "bench_run es (?tb, chi_mon_init) = (tb, m)" by fastforce
  have tb: "tb = link_run es ?tb" using bench_run_link [of es ?tb chi_mon_init] run by simp
  obtain q d where "sent_req tb = sent_req ?tb @ q" "cm_rxreq_ap m = cm_rxreq_ap chi_mon_init @ map rxreq_wire q"
    "sent_dat tb = sent_dat ?tb @ d" "cm_rxdat_ap m = cm_rxdat_ap chi_mon_init @ map rxdat_wire d"
    using bench_run_sees [OF drv_ok_init run] by blast
  moreover have "handed tb = handed ?tb @ map erase (concat (map ed_puts es))"
    using link_run_ledger [OF drv_ok_init tb] by simp
  ultimately have "cm_rxreq_ap m = map rxreq_wire (sent_req tb)" "cm_rxdat_ap m = map rxdat_wire (sent_dat tb)"
    "handed tb = map erase (concat (map ed_puts es))"
    by (simp_all add: sent_req_def sent_dat_def handed_def past_dat_def link_tb_init_def chi_mon_init_def)
  then show ?thesis by (simp add: run sent_req_def sent_dat_def handed_def)
qed

section \<open>What reaches the agent\<close>

definition tx_events :: "dut_out \<Rightarrow> agent_event list" where
  "tx_events d =
     (case sampled unpack_txrsp (do_txrspfltv d) (do_txrspflt d) of None \<Rightarrow> [] | Some f \<Rightarrow> [TxRsp f]) @
     (case sampled unpack_txdat (do_txdatfltv d) (do_txdatflt d) of None \<Rightarrow> [] | Some f \<Rightarrow> [TxDat f])"

definition responder_bound :: "responder \<Rightarrow> bool" where
  "responder_bound r \<longleftrightarrow> sb_bound (rp_txrsp_sub r) \<and> sb_bound (rp_txdat_sub r)"

lemma respond_edge_agent:
  assumes "responder_bound r"
  obtains e where "respond_edge d (r, a) = Inl e" "agent_run (tx_events d) a = Inl e"
  | r' a' where "respond_edge d (r, a) = Inr (r', a')" "agent_run (tx_events d) a = Inr a'" "responder_bound r'"
proof -
  have rsp: "respond_rsp f (r, a) = Inr (r\<lparr>rp_txrsp_sub := (rp_txrsp_sub r)\<lparr>sb_count := sb_count (rp_txrsp_sub r) + 1\<rparr>\<rparr>, on_txrsp f a)"
    if "responder_bound r" for f r a
    using that by (simp add: respond_rsp_def subscriber_write_def responder_bound_def)
  have dat: "respond_dat f (r, a) = and_then (on_txdat f a)
      (\<lambda>a. Inr (r\<lparr>rp_txdat_sub := (rp_txdat_sub r)\<lparr>sb_count := sb_count (rp_txdat_sub r) + 1\<rparr>\<rparr>, a))"
    if "responder_bound r" for f r a
    using that by (simp add: respond_dat_def subscriber_write_def responder_bound_def and_then_assoc)
  let ?R = "\<lambda>ra. (\<exists>e. fst ra = Inl e \<and> snd ra = Inl e) \<or>
    (\<exists>r' a'. fst ra = Inr (r', a') \<and> snd ra = (Inr a' :: snf_agent result) \<and> responder_bound r')"
  have d: "?R (case o' of None \<Rightarrow> Inr (r, a) | Some f \<Rightarrow> respond_dat f (r, a),
      agent_run (case o' of None \<Rightarrow> [] | Some f \<Rightarrow> [TxDat f]) a)"
    if "responder_bound r" for o' r a
  proof (cases o')
    case (Some f)
    then show ?thesis using that dat [OF that, of f a] by (cases "on_txdat f a") (auto simp: responder_bound_def)
  qed (use that in simp)
  have "?R (respond_edge d (r, a), agent_run (tx_events d) a)"
  proof (cases "sampled unpack_txrsp (do_txrspfltv d) (do_txrspflt d)")
    case None
    then show ?thesis using d [OF assms] by (simp add: respond_edge_def tx_events_def)
  next
    case (Some f)
    let ?r = "r\<lparr>rp_txrsp_sub := (rp_txrsp_sub r)\<lparr>sb_count := sb_count (rp_txrsp_sub r) + 1\<rparr>\<rparr>"
    have "responder_bound ?r" using assms by (simp add: responder_bound_def)
    from d [OF this] show ?thesis using Some rsp [OF assms, of f a] by (simp add: respond_edge_def tx_events_def)
  qed
  then show thesis using that by auto
qed

text \<open>
  The return path adds and loses nothing: bound to the agent, the responder leaves it in the state, or ends in the
  exception, of a run of the agent on the response and data flits that were valid on the link, edge by edge, the response of
  an edge before its data.
\<close>

theorem responder_runs_agent:
  "and_then (respond_run ds (bind_and_connect responder_init, a)) (\<lambda>(r, a). Inr a) = agent_run (concat (map tx_events ds)) a"
proof -
  have "and_then (respond_run ds (r, a)) (\<lambda>(r, a). Inr a) = agent_run (concat (map tx_events ds)) a"
    if "responder_bound r" for r a
    using that
  proof (induction ds arbitrary: r a)
    case (Cons d ds)
    show ?case
      by (rule respond_edge_agent [OF Cons.prems, of d a]) (simp_all add: agent_run_append Cons.IH)
  qed simp
  then show ?thesis by (simp add: responder_bound_def bind_and_connect_def responder_init_def)
qed

end
