(* ===== verification/Axi_Monitor.thy ===== *)
theory Axi_Monitor
  imports Tb_Signals
begin

text \<open>
  The AXI port of the device and its monitor, \<^verbatim>\<open>axi_mon.py\<close>.

  What the device drives is a record of signal values; what the slave drives is a record of integers, seen one edge later.
  The five coroutines of the monitor share nothing, so an edge is their steps one after the other.  The lists
  \<open>am_w\<close>, \<open>am_b\<close> and \<open>am_r\<close> are what is published on the analysis ports; the two address channels keep theirs in the
  code too.  Log messages are left out.
\<close>

section \<open>The port\<close>

record axi_master =
  ax_rstn :: sig_value
  ax_awvalid :: sig_value
  ax_awid :: sig_value
  ax_awaddr :: sig_value
  ax_awlen :: sig_value
  ax_awsize :: sig_value
  ax_awburst :: sig_value
  ax_awqos :: sig_value
  ax_awcache :: sig_value
  ax_awprot :: sig_value
  ax_awlock :: sig_value
  ax_wvalid :: sig_value
  ax_wdata :: sig_value
  ax_wstrb :: sig_value
  ax_wlast :: sig_value
  ax_wpoison :: sig_value
  ax_wdatachk :: sig_value
  ax_bready :: sig_value
  ax_arvalid :: sig_value
  ax_arid :: sig_value
  ax_araddr :: sig_value
  ax_arlen :: sig_value
  ax_arsize :: sig_value
  ax_arburst :: sig_value
  ax_arqos :: sig_value
  ax_arcache :: sig_value
  ax_arprot :: sig_value
  ax_arlock :: sig_value
  ax_arsnoop :: sig_value
  ax_ardomain :: sig_value
  ax_rready :: sig_value

record axi_pins =
  xp_awready :: int
  xp_wready :: int
  xp_bvalid :: int
  xp_bid :: int
  xp_bresp :: int
  xp_arready :: int
  xp_rvalid :: int
  xp_rdata :: int
  xp_rresp :: int
  xp_rlast :: int
  xp_rid :: int
  xp_rdatachk :: int
  xp_rpoison :: int
  xp_rtrace :: int
  xp_ruser :: int

text \<open>\<open>drive_idle\<close> of either slave.\<close>

definition axi_idle_pins :: axi_pins where
  "axi_idle_pins =
     \<lparr>xp_awready = 0, xp_wready = 0, xp_bvalid = 0, xp_bid = 0, xp_bresp = 0, xp_arready = 0, xp_rvalid = 0, xp_rdata = 0,
      xp_rresp = 0, xp_rlast = 0, xp_rid = 0, xp_rdatachk = 0, xp_rpoison = 0, xp_rtrace = 0, xp_ruser = 0\<rparr>"

text \<open>\<open>_int(x) or 0\<close> and \<open>_bit(x) or 0\<close>.\<close>

definition int_or_zero :: "sig_value \<Rightarrow> int" where
  "int_or_zero v = (case read_int v of None \<Rightarrow> 0 | Some i \<Rightarrow> i)"

definition bit_or_zero :: "sig_value \<Rightarrow> int" where
  "bit_or_zero v = (case read_bit v of None \<Rightarrow> 0 | Some i \<Rightarrow> i)"

section \<open>Transactions\<close>

record axi_addr_txn =
  xa_id :: int
  xa_addr :: int
  xa_len :: int
  xa_size :: int
  xa_burst :: int
  xa_qos :: int
  xa_cache :: int
  xa_prot :: int
  xa_lock :: int

record axi_ar_txn = axi_addr_txn +
  xa_snoop :: int
  xa_domain :: int

definition nbeats :: "'a axi_addr_txn_scheme \<Rightarrow> int" where
  "nbeats t = xa_len t + 1"

record axi_w_txn =
  xw_data :: int
  xw_strb :: int
  xw_last :: int
  xw_poison :: int
  xw_datachk :: int
  xw_beat :: int

record axi_b_txn =
  xb_id :: int
  xb_resp :: int

record axi_r_txn =
  xr_id :: int
  xr_data :: int
  xr_resp :: int
  xr_last :: int
  xr_poison :: int
  xr_datachk :: int
  xr_trace :: int
  xr_user :: int
  xr_beat :: int

section \<open>The monitor\<close>

record axi_mon =
  am_aw_count :: int
  am_w_count :: int
  am_b_count :: int
  am_ar_count :: int
  am_r_count :: int
  am_aw_seen :: "axi_addr_txn list"
  am_ar_seen :: "axi_ar_txn list"
  am_w :: "axi_w_txn list"
  am_b :: "axi_b_txn list"
  am_r :: "axi_r_txn list"
  am_w_beat :: int
  am_r_beat :: int

definition axi_mon_init :: axi_mon where
  "axi_mon_init =
     \<lparr>am_aw_count = 0, am_w_count = 0, am_b_count = 0, am_ar_count = 0, am_r_count = 0, am_aw_seen = [], am_ar_seen = [],
      am_w = [], am_b = [], am_r = [], am_w_beat = 0, am_r_beat = 0\<rparr>"

text \<open>A handshake: both sides are high.\<close>

definition fires :: "sig_value \<Rightarrow> int \<Rightarrow> bool" where
  "fires device slave \<longleftrightarrow> \<not> (read_bit device \<noteq> Some 1 \<or> read_bit (Resolved slave) \<noteq> Some 1)"

definition aw_txn :: "axi_master \<Rightarrow> axi_addr_txn" where
  "aw_txn d =
     \<lparr>xa_id = int_or_zero (ax_awid d), xa_addr = int_or_zero (ax_awaddr d), xa_len = int_or_zero (ax_awlen d),
      xa_size = int_or_zero (ax_awsize d), xa_burst = int_or_zero (ax_awburst d), xa_qos = int_or_zero (ax_awqos d),
      xa_cache = int_or_zero (ax_awcache d), xa_prot = int_or_zero (ax_awprot d), xa_lock = int_or_zero (ax_awlock d)\<rparr>"

definition monitor_aw :: "axi_master \<Rightarrow> axi_pins \<Rightarrow> axi_mon \<Rightarrow> axi_mon" where
  "monitor_aw d p m =
     (if fires (ax_awvalid d) (xp_awready p) then
        m\<lparr>am_aw_count := am_aw_count m + 1, am_aw_seen := am_aw_seen m @ [aw_txn d]\<rparr>
      else m)"

definition w_txn :: "axi_master \<Rightarrow> int \<Rightarrow> axi_w_txn" where
  "w_txn d beat =
     \<lparr>xw_data = int_or_zero (ax_wdata d), xw_strb = int_or_zero (ax_wstrb d), xw_last = bit_or_zero (ax_wlast d),
      xw_poison = int_or_zero (ax_wpoison d), xw_datachk = int_or_zero (ax_wdatachk d), xw_beat = beat\<rparr>"

definition monitor_w :: "axi_master \<Rightarrow> axi_pins \<Rightarrow> axi_mon \<Rightarrow> axi_mon" where
  "monitor_w d p m =
     (if fires (ax_wvalid d) (xp_wready p) then
        let txn = w_txn d (am_w_beat m)
        in m\<lparr>am_w_beat := (if xw_last txn \<noteq> 0 then 0 else am_w_beat m + 1), am_w_count := am_w_count m + 1,
             am_w := am_w m @ [txn]\<rparr>
      else m)"

definition monitor_b :: "axi_master \<Rightarrow> axi_pins \<Rightarrow> axi_mon \<Rightarrow> axi_mon" where
  "monitor_b d p m =
     (if fires (ax_bready d) (xp_bvalid p) then
        m\<lparr>am_b_count := am_b_count m + 1, am_b := am_b m @ [\<lparr>xb_id = xp_bid p, xb_resp = xp_bresp p\<rparr>]\<rparr>
      else m)"

definition ar_txn :: "axi_master \<Rightarrow> axi_ar_txn" where
  "ar_txn d =
     \<lparr>xa_id = int_or_zero (ax_arid d), xa_addr = int_or_zero (ax_araddr d), xa_len = int_or_zero (ax_arlen d),
      xa_size = int_or_zero (ax_arsize d), xa_burst = int_or_zero (ax_arburst d), xa_qos = int_or_zero (ax_arqos d),
      xa_cache = int_or_zero (ax_arcache d), xa_prot = int_or_zero (ax_arprot d), xa_lock = int_or_zero (ax_arlock d),
      xa_snoop = int_or_zero (ax_arsnoop d), xa_domain = int_or_zero (ax_ardomain d)\<rparr>"

definition monitor_ar :: "axi_master \<Rightarrow> axi_pins \<Rightarrow> axi_mon \<Rightarrow> axi_mon" where
  "monitor_ar d p m =
     (if fires (ax_arvalid d) (xp_arready p) then
        m\<lparr>am_ar_count := am_ar_count m + 1, am_ar_seen := am_ar_seen m @ [ar_txn d]\<rparr>
      else m)"

definition r_txn :: "axi_pins \<Rightarrow> int \<Rightarrow> axi_r_txn" where
  "r_txn p beat =
     \<lparr>xr_id = xp_rid p, xr_data = xp_rdata p, xr_resp = xp_rresp p, xr_last = xp_rlast p AND 0x1, xr_poison = xp_rpoison p,
      xr_datachk = xp_rdatachk p, xr_trace = xp_rtrace p AND 0x1, xr_user = xp_ruser p, xr_beat = beat\<rparr>"

definition monitor_r :: "axi_master \<Rightarrow> axi_pins \<Rightarrow> axi_mon \<Rightarrow> axi_mon" where
  "monitor_r d p m =
     (if fires (ax_rready d) (xp_rvalid p) then
        let txn = r_txn p (am_r_beat m)
        in m\<lparr>am_r_beat := (if xr_last txn \<noteq> 0 then 0 else am_r_beat m + 1), am_r_count := am_r_count m + 1,
             am_r := am_r m @ [txn]\<rparr>
      else m)"

definition axi_mon_edge :: "axi_master \<Rightarrow> axi_pins \<Rightarrow> axi_mon \<Rightarrow> axi_mon" where
  "axi_mon_edge d p m = monitor_r d p (monitor_ar d p (monitor_b d p (monitor_w d p (monitor_aw d p m))))"

text \<open>What an edge adds to each list.\<close>

lemma fires_Resolved: "fires v x \<longleftrightarrow> high v \<and> odd x"
  by (auto simp: fires_def and_one_eq odd_iff_mod_2_eq_one)

lemma axi_mon_edge_sel [simp]:
  "am_aw_seen (axi_mon_edge d p m) = am_aw_seen m @ (if fires (ax_awvalid d) (xp_awready p) then [aw_txn d] else [])"
  "am_ar_seen (axi_mon_edge d p m) = am_ar_seen m @ (if fires (ax_arvalid d) (xp_arready p) then [ar_txn d] else [])"
  "am_w (axi_mon_edge d p m) = am_w m @ (if fires (ax_wvalid d) (xp_wready p) then [w_txn d (am_w_beat m)] else [])"
  "am_b (axi_mon_edge d p m) =
     am_b m @ (if fires (ax_bready d) (xp_bvalid p) then [\<lparr>xb_id = xp_bid p, xb_resp = xp_bresp p\<rparr>] else [])"
  "am_r (axi_mon_edge d p m) = am_r m @ (if fires (ax_rready d) (xp_rvalid p) then [r_txn p (am_r_beat m)] else [])"
  "am_r_beat (axi_mon_edge d p m) =
     (if fires (ax_rready d) (xp_rvalid p) then if odd (xp_rlast p) then 0 else am_r_beat m + 1 else am_r_beat m)"
  by (simp_all add: axi_mon_edge_def monitor_r_def monitor_ar_def monitor_b_def monitor_w_def monitor_aw_def Let_def
      r_txn_def and_one_eq odd_iff_mod_2_eq_one)

section \<open>A slave with the monitor on its port\<close>

text \<open>The monitor sees the pins as they were before the edge.\<close>

fun slave_bench :: "('e \<Rightarrow> axi_master) \<Rightarrow> ('e \<Rightarrow> 's \<Rightarrow> 's) \<Rightarrow> ('s \<Rightarrow> axi_pins) \<Rightarrow> 'e list \<Rightarrow> 's \<times> axi_mon \<Rightarrow> 's \<times> axi_mon" where
  "slave_bench dev step pins [] sm = sm"
| "slave_bench dev step pins (e # es) (s, m) =
     slave_bench dev step pins es (step e s, axi_mon_edge (dev e) (pins s) m)"

text \<open>What the monitor sees of the read channel at an edge, and its beat counter after it.\<close>

definition seen_r :: "axi_master \<Rightarrow> axi_pins \<Rightarrow> int \<Rightarrow> axi_r_txn list" where
  "seen_r d p n = (if fires (ax_rready d) (xp_rvalid p) then [r_txn p n] else [])"

definition next_beat :: "axi_master \<Rightarrow> axi_pins \<Rightarrow> int \<Rightarrow> int" where
  "next_beat d p n = (if fires (ax_rready d) (xp_rvalid p) then if odd (xp_rlast p) then 0 else n + 1 else n)"

definition seen_ar :: "axi_master \<Rightarrow> axi_pins \<Rightarrow> axi_ar_txn list" where
  "seen_ar d p = (if fires (ax_arvalid d) (xp_arready p) then [ar_txn d] else [])"

text \<open>
  The contract of the read side of a slave: it owes a list of beats, an address taken adds its burst at the end, and a
  beat that the monitor sees is the next one owed (in the view \<open>view\<close> of it).  \<open>ok\<close> is the slave's invariant, relative to
  the monitor's beat counter.
\<close>

locale read_slave =
  fixes dev :: "'e \<Rightarrow> axi_master" and step :: "'e \<Rightarrow> 's \<Rightarrow> 's" and pins :: "'s \<Rightarrow> axi_pins"
    and ok :: "'s \<Rightarrow> int \<Rightarrow> bool" and owed :: "'s \<Rightarrow> 'b list" and view :: "axi_r_txn \<Rightarrow> 'b" and burst :: "axi_ar_txn \<Rightarrow> 'b list"
  assumes step_ok: "ok s n \<Longrightarrow> ok (step e s) (next_beat (dev e) (pins s) n)"
    and step_owed: "ok s n \<Longrightarrow>
      map view (seen_r (dev e) (pins s) n) @ owed (step e s) = owed s @ concat (map burst (seen_ar (dev e) (pins s)))"
begin

text \<open>In any run, what was published and what is owed are the bursts of the addresses, in order.\<close>

lemma answers_in_order:
  "slave_bench dev step pins es (s, m) = (s', m') \<Longrightarrow> ok s (am_r_beat m) \<Longrightarrow>
     map view (am_r m) @ owed s = concat (map burst (am_ar_seen m)) \<Longrightarrow>
     map view (am_r m') @ owed s' = concat (map burst (am_ar_seen m'))"
proof (induction es arbitrary: s m)
  case (Cons e es)
  let ?m = "axi_mon_edge (dev e) (pins s) m"
  have "am_r_beat ?m = next_beat (dev e) (pins s) (am_r_beat m)" by (simp add: next_beat_def)
  then have "ok (step e s) (am_r_beat ?m)" using step_ok [OF Cons.prems(2), of e] by simp
  moreover have "am_r ?m = am_r m @ seen_r (dev e) (pins s) (am_r_beat m)" "am_ar_seen ?m = am_ar_seen m @ seen_ar (dev e) (pins s)"
    by (simp_all add: seen_r_def seen_ar_def)
  then have "map view (am_r ?m) @ owed (step e s) = concat (map burst (am_ar_seen ?m))"
    using step_owed [OF Cons.prems(2), of e] Cons.prems(3) by simp
  moreover have "slave_bench dev step pins es (step e s, ?m) = (s', m')" using Cons.prems(1) by simp
  ultimately show ?case by (rule Cons.IH [rotated])
qed simp

end

end
