(* ===== verification/Axi_Slave_Stub.thy ===== *)
theory Axi_Slave_Stub
  imports Axi_Monitor
begin

text \<open>
  The placeholder slave of \<^verbatim>\<open>axi_slave_stub.py\<close>, and its port with the monitor on it.

  Its five tasks are started together once reset is over and each awaits one falling edge after the other, so at every
  edge they run in the order they were started.  A task's position is a datatype; a step is what it does from one edge to
  the next.
\<close>

definition DATA_MASK :: int where "DATA_MASK = push_bit 256 1 - 1"
definition AXI_IDLE_CYCLES_AFTER_RESET :: int where "AXI_IDLE_CYCLES_AFTER_RESET = 4"

record stub_addr =
  sa_id :: int
  sa_addr :: int
  sa_len :: int

text \<open>The response tasks: between responses, or holding one until the device is ready.\<close>

datatype stub_b_phase = SbWait | SbHold
datatype stub_r_phase = SrWait | SrHold stub_addr nat

record axi_stub =
  st_stable :: int
  st_started :: bool
  st_aw_queue :: "stub_addr list"
  st_ar_queue :: "stub_addr list"
  st_pending_b :: "int list"
  st_write_bursts_done :: int
  st_read_bursts_done :: int
  st_b :: stub_b_phase
  st_r :: stub_r_phase
  st_pins :: axi_pins

definition axi_stub_init :: axi_stub where
  "axi_stub_init =
     \<lparr>st_stable = 0, st_started = False, st_aw_queue = [], st_ar_queue = [], st_pending_b = [], st_write_bursts_done = 0,
      st_read_bursts_done = 0, st_b = SbWait, st_r = SrWait, st_pins = axi_idle_pins\<rparr>"

section \<open>Tasks\<close>

definition stub_aw :: "axi_master \<Rightarrow> axi_stub \<Rightarrow> axi_stub" where
  "stub_aw d s =
     (if read_bit (ax_awvalid d) \<noteq> Some 1 then s
      else s\<lparr>st_aw_queue := st_aw_queue s @
        [\<lparr>sa_id = int_or_zero (ax_awid d), sa_addr = int_or_zero (ax_awaddr d), sa_len = int_or_zero (ax_awlen d)\<rparr>]\<rparr>)"

definition stub_w :: "axi_master \<Rightarrow> axi_stub \<Rightarrow> axi_stub" where
  "stub_w d s =
     (if read_bit (ax_wvalid d) \<noteq> Some 1 then s
      else if high (ax_wlast d) then
        let (awid, q) = (case st_aw_queue s of [] \<Rightarrow> (0, []) | aw # q \<Rightarrow> (sa_id aw, q))
        in s\<lparr>st_aw_queue := q, st_write_bursts_done := st_write_bursts_done s + 1, st_pending_b := st_pending_b s @ [awid]\<rparr>
      else s)"

text \<open>The top of the loop of \<^verbatim>\<open>b_task\<close>.\<close>

definition stub_b_next :: "axi_stub \<Rightarrow> axi_stub" where
  "stub_b_next s =
     (case st_pending_b s of
        [] \<Rightarrow> s\<lparr>st_b := SbWait\<rparr>
      | bid # q \<Rightarrow>
          s\<lparr>st_pending_b := q, st_b := SbHold,
            st_pins := (st_pins s)\<lparr>xp_bid := bid, xp_bresp := 0, xp_bvalid := 1\<rparr>\<rparr>)"

definition stub_b :: "axi_master \<Rightarrow> axi_stub \<Rightarrow> axi_stub" where
  "stub_b d s =
     (case st_b s of
        SbWait \<Rightarrow> stub_b_next s
      | SbHold \<Rightarrow>
          if high (ax_bready d) then stub_b_next (s\<lparr>st_pins := (st_pins s)\<lparr>xp_bvalid := 0\<rparr>\<rparr>) else s)"

definition stub_ar :: "axi_master \<Rightarrow> axi_stub \<Rightarrow> axi_stub" where
  "stub_ar d s =
     (if read_bit (ax_arvalid d) \<noteq> Some 1 then s
      else s\<lparr>st_ar_queue := st_ar_queue s @
        [\<lparr>sa_id = int_or_zero (ax_arid d), sa_addr = int_or_zero (ax_araddr d), sa_len = int_or_zero (ax_arlen d)\<rparr>]\<rparr>)"

definition stub_nbeats :: "stub_addr \<Rightarrow> nat" where
  "stub_nbeats ar = nat (sa_len ar + 1)"

definition stub_beat_pins :: "stub_addr \<Rightarrow> nat \<Rightarrow> axi_pins \<Rightarrow> axi_pins" where
  "stub_beat_pins ar beat p =
     p\<lparr>xp_rid := sa_id ar, xp_rdata := (sa_addr ar + 32 * int beat) AND DATA_MASK, xp_rresp := 0,
       xp_rlast := (if beat = stub_nbeats ar - 1 then 1 else 0), xp_rvalid := 1\<rparr>"

text \<open>The top of the loop of \<^verbatim>\<open>r_task\<close>; a burst without beats is over at once.\<close>

fun stub_r_next :: "stub_addr list \<Rightarrow> axi_stub \<Rightarrow> axi_stub" where
  "stub_r_next [] s = s\<lparr>st_ar_queue := [], st_r := SrWait\<rparr>"
| "stub_r_next (ar # q) s =
     (if stub_nbeats ar = 0 then stub_r_next q (s\<lparr>st_read_bursts_done := st_read_bursts_done s + 1\<rparr>)
      else s\<lparr>st_ar_queue := q, st_r := SrHold ar 0, st_pins := stub_beat_pins ar 0 (st_pins s)\<rparr>)"

definition stub_r :: "axi_master \<Rightarrow> axi_stub \<Rightarrow> axi_stub" where
  "stub_r d s =
     (case st_r s of
        SrWait \<Rightarrow> stub_r_next (st_ar_queue s) s
      | SrHold ar beat \<Rightarrow>
          if high (ax_rready d) then
            let s = s\<lparr>st_pins := (st_pins s)\<lparr>xp_rvalid := 0\<rparr>\<rparr>
            in if Suc beat < stub_nbeats ar
               then s\<lparr>st_r := SrHold ar (Suc beat), st_pins := stub_beat_pins ar (Suc beat) (st_pins s)\<rparr>
               else stub_r_next (st_ar_queue s) (s\<lparr>st_read_bursts_done := st_read_bursts_done s + 1\<rparr>)
          else s)"

text \<open>An edge: reset is awaited, and then the tasks run; they raise their ready signals when they start.\<close>

definition stub_reset_edge :: "axi_master \<Rightarrow> axi_stub \<Rightarrow> axi_stub" where
  "stub_reset_edge d s =
     (let stable = (if high (ax_rstn d) then st_stable s + 1 else 0); s = s\<lparr>st_stable := stable\<rparr>
      in if stable < AXI_IDLE_CYCLES_AFTER_RESET then s
         else s\<lparr>st_started := True, st_pins := (st_pins s)\<lparr>xp_awready := 1, xp_wready := 1, xp_arready := 1\<rparr>\<rparr>)"

definition stub_edge :: "axi_master \<Rightarrow> axi_stub \<Rightarrow> axi_stub" where
  "stub_edge d s =
     (if st_started s then stub_r d (stub_ar d (stub_b d (stub_w d (stub_aw d s)))) else stub_reset_edge d s)"

definition stub_bench :: "axi_master list \<Rightarrow> axi_stub \<times> axi_mon \<Rightarrow> axi_stub \<times> axi_mon" where
  "stub_bench = slave_bench id stub_edge st_pins"

section \<open>Reads are answered in order\<close>

text \<open>The beats that answer an address, as the monitor is to see them.\<close>

definition stub_beat :: "int \<Rightarrow> int \<Rightarrow> int \<Rightarrow> nat \<Rightarrow> axi_r_txn" where
  "stub_beat rid addr len k =
     \<lparr>xr_id = rid, xr_data = (addr + 32 * int k) AND DATA_MASK, xr_resp = 0, xr_last = of_bool (int k = len), xr_poison = 0,
      xr_datachk = 0, xr_trace = 0, xr_user = 0, xr_beat = int k\<rparr>"

definition stub_burst :: "stub_addr \<Rightarrow> axi_r_txn list" where
  "stub_burst a = map (stub_beat (sa_id a) (sa_addr a) (sa_len a)) [0 ..< stub_nbeats a]"

definition addr_of :: "axi_ar_txn \<Rightarrow> stub_addr" where
  "addr_of t = \<lparr>sa_id = xa_id t, sa_addr = xa_addr t, sa_len = xa_len t\<rparr>"

definition left_of :: "stub_r_phase \<Rightarrow> axi_r_txn list" where
  "left_of ph = (case ph of SrWait \<Rightarrow> [] | SrHold ar k \<Rightarrow> drop k (stub_burst ar))"

definition shows_beat :: "stub_addr \<Rightarrow> nat \<Rightarrow> axi_pins \<Rightarrow> bool" where
  "shows_beat ar k p \<longleftrightarrow>
     xp_rid p = sa_id ar \<and> xp_rdata p = (sa_addr ar + 32 * int k) AND DATA_MASK \<and> xp_rresp p = 0 \<and>
     xp_rlast p = (if k = stub_nbeats ar - 1 then 1 else 0) \<and> xp_rvalid p = 1"

text \<open>The parts of the slave and the monitor agree: what is on the pins, and where the monitor's beat counter is.\<close>

definition r_ok :: "axi_stub \<Rightarrow> int \<Rightarrow> bool" where
  "r_ok s n \<longleftrightarrow>
     xp_rdatachk (st_pins s) = 0 \<and> xp_rpoison (st_pins s) = 0 \<and> xp_rtrace (st_pins s) = 0 \<and> xp_ruser (st_pins s) = 0 \<and>
     xp_arready (st_pins s) = of_bool (st_started s) \<and>
     (case st_r s of
        SrWait \<Rightarrow> xp_rvalid (st_pins s) = 0 \<and> n = 0
      | SrHold ar k \<Rightarrow> st_started s \<and> k < stub_nbeats ar \<and> shows_beat ar k (st_pins s) \<and> n = int k) \<and>
     (\<not> st_started s \<longrightarrow> st_ar_queue s = [] \<and> st_r s = SrWait)"

definition r_todo :: "axi_stub \<Rightarrow> axi_r_txn list" where
  "r_todo s = left_of (st_r s) @ concat (map stub_burst (st_ar_queue s))"

text \<open>What the read side of the slave is: the other tasks leave it alone.\<close>

definition r_side :: "axi_stub \<Rightarrow> stub_addr list \<times> stub_r_phase \<times> bool \<times> int list" where
  "r_side s =
     (st_ar_queue s, st_r s, st_started s,
      (let p = st_pins s in [xp_rdatachk p, xp_rpoison p, xp_rtrace p, xp_ruser p, xp_arready p, xp_rvalid p, xp_rid p, xp_rdata p,
         xp_rresp p, xp_rlast p]))"

lemma r_side_cong: "r_side s' = r_side s \<Longrightarrow> r_ok s' m = r_ok s m \<and> r_todo s' = r_todo s"
  by (auto simp: r_side_def r_ok_def r_todo_def shows_beat_def Let_def split: stub_r_phase.split)

lemma write_tasks_r_side [simp]:
  "r_side (stub_aw d s) = r_side s" "r_side (stub_w d s) = r_side s" "r_side (stub_b_next s) = r_side s"
  by (simp_all add: r_side_def stub_aw_def stub_w_def stub_b_next_def Let_def split: list.split)

lemma stub_b_r_side [simp]: "r_side (stub_b d s) = r_side s"
  unfolding stub_b_def by (auto split: stub_b_phase.split) (simp add: r_side_def Let_def)

lemma left_of_nil: "k = stub_nbeats ar \<Longrightarrow> left_of (SrHold ar k) = []"
  by (simp add: left_of_def stub_burst_def)

lemma left_of_step:
  assumes "k < stub_nbeats ar"
  shows "left_of (SrHold ar k) = stub_beat (sa_id ar) (sa_addr ar) (sa_len ar) k # left_of (SrHold ar (Suc k))"
  using assms by (simp add: left_of_def stub_burst_def drop_map upt_conv_Cons [OF assms])

lemma stub_r_next_ok:
  assumes "r_ok (s\<lparr>st_r := SrWait\<rparr>) n" "xp_rvalid (st_pins s) = 0" "st_started s"
  shows "r_ok (stub_r_next q s) n \<and> r_todo (stub_r_next q s) = concat (map stub_burst q)"
  using assms
proof (induction q arbitrary: s)
  case Nil
  then show ?case by (auto simp: r_ok_def r_todo_def left_of_def)
next
  case (Cons ar q)
  show ?case
  proof (cases "stub_nbeats ar = 0")
    case True
    then have "stub_burst ar = []" by (simp add: stub_burst_def)
    moreover have "r_ok ((s\<lparr>st_read_bursts_done := st_read_bursts_done s + 1\<rparr>)\<lparr>st_r := SrWait\<rparr>) n"
      using Cons.prems(1) by (simp add: r_ok_def)
    ultimately show ?thesis using Cons.IH [of "s\<lparr>st_read_bursts_done := st_read_bursts_done s + 1\<rparr>"] Cons.prems True by simp
  next
    case False
    then show ?thesis using Cons.prems
      by (auto simp: r_ok_def r_todo_def left_of_def shows_beat_def stub_beat_pins_def)
  qed
qed

text \<open>The read task at an edge, with what the monitor sees of it.\<close>

lemma stub_r_ok:
  assumes "r_ok s n" "st_started s"
  shows "r_ok (stub_r d s) (next_beat d (st_pins s) n) \<and> seen_r d (st_pins s) n @ r_todo (stub_r d s) = r_todo s"
proof (cases "st_r s")
  case SrWait
  then have "xp_rvalid (st_pins s) = 0" "r_ok (s\<lparr>st_r := SrWait\<rparr>) n" using assms by (auto simp: r_ok_def)
  then show ?thesis
    using stub_r_next_ok [of s n "st_ar_queue s"] assms(2) SrWait
    by (simp add: stub_r_def seen_r_def next_beat_def fires_Resolved r_todo_def left_of_def)
next
  case (SrHold ar k)
  have k: "k < stub_nbeats ar" and sh: "shows_beat ar k (st_pins s)" and beat: "n = int k"
    and idle: "xp_rdatachk (st_pins s) = 0" "xp_rpoison (st_pins s) = 0" "xp_rtrace (st_pins s) = 0" "xp_ruser (st_pins s) = 0"
    using assms(1) SrHold by (auto simp: r_ok_def)
  show ?thesis
  proof (cases "high (ax_rready d)")
    case False
    then show ?thesis using assms SrHold by (simp add: stub_r_def seen_r_def next_beat_def r_ok_def fires_Resolved)
  next
    case True
    have f: "fires (ax_rready d) (xp_rvalid (st_pins s))" using True sh by (simp add: fires_Resolved shows_beat_def)
    have last: "int k = sa_len ar \<longleftrightarrow> k = stub_nbeats ar - 1" using k by (auto simp: stub_nbeats_def)
    have seen: "seen_r d (st_pins s) n = [stub_beat (sa_id ar) (sa_addr ar) (sa_len ar) k]"
      using f sh beat idle last by (simp add: seen_r_def r_txn_def stub_beat_def shows_beat_def)
    let ?s = "s\<lparr>st_pins := (st_pins s)\<lparr>xp_rvalid := 0\<rparr>\<rparr>"
    show ?thesis
    proof (cases "Suc k < stub_nbeats ar")
      case more: True
      have "next_beat d (st_pins s) n = int (Suc k)" using f sh more beat by (simp add: next_beat_def shows_beat_def)
      then show ?thesis
        using True SrHold more seen assms left_of_step [OF k] idle
        by (auto simp: stub_r_def r_ok_def r_todo_def shows_beat_def stub_beat_pins_def)
    next
      case over: False
      then have "k = stub_nbeats ar - 1" "Suc k = stub_nbeats ar" using k by auto
      then have nb: "next_beat d (st_pins s) n = 0" using f sh by (simp add: next_beat_def shows_beat_def)
      then have "r_ok (?s\<lparr>st_read_bursts_done := st_read_bursts_done s + 1, st_r := SrWait\<rparr>) (next_beat d (st_pins s) n)"
        using assms idle SrHold by (auto simp: r_ok_def)
      then show ?thesis
        using stub_r_next_ok [of "?s\<lparr>st_read_bursts_done := st_read_bursts_done s + 1\<rparr>" "next_beat d (st_pins s) n"
            "st_ar_queue s"]
          True SrHold over seen assms left_of_step [OF k] left_of_nil [OF \<open>Suc k = stub_nbeats ar\<close>]
        by (simp add: stub_r_def r_todo_def)
    qed
  qed
qed

lemma stub_ar_ok:
  assumes "r_ok s n" "st_started s"
  shows "r_ok (stub_ar d s) n \<and>
    r_todo (stub_ar d s) = r_todo s @ concat (map (stub_burst \<circ> addr_of) (seen_ar d (st_pins s))) \<and>
    st_pins (stub_ar d s) = st_pins s \<and> st_started (stub_ar d s)"
  using assms
  by (auto simp: stub_ar_def r_ok_def r_todo_def seen_ar_def fires_Resolved addr_of_def ar_txn_def split: stub_r_phase.split)

text \<open>The stub meets the contract of a slave's read side.\<close>

lemma stub_edge_reads:
  assumes "r_ok s n"
  shows "r_ok (stub_edge d s) (next_beat d (st_pins s) n) \<and>
    seen_r d (st_pins s) n @ r_todo (stub_edge d s) = r_todo s @ concat (map (stub_burst \<circ> addr_of) (seen_ar d (st_pins s)))"
proof (cases "st_started s")
  case True
  define u where "u = stub_b d (stub_w d (stub_aw d s))"
  have side: "r_side u = r_side s" by (simp add: u_def)
  then have u: "r_ok u n" "r_todo u = r_todo s" "st_started u"
    using r_side_cong [OF side] assms True by (auto simp: r_side_def Let_def)
  have same: "seen_r d (st_pins u) n = seen_r d (st_pins s) n" "next_beat d (st_pins u) n = next_beat d (st_pins s) n"
    "seen_ar d (st_pins u) = seen_ar d (st_pins s)"
    using side by (simp_all add: seen_r_def seen_ar_def next_beat_def r_side_def r_txn_def Let_def)
  show ?thesis
    using stub_ar_ok [OF u(1,3), of d] stub_r_ok [of "stub_ar d u" n d] u(2) same True
    by (simp add: stub_edge_def u_def [symmetric])
next
  case False
  then have "xp_rvalid (st_pins s) = 0" "xp_arready (st_pins s) = 0" "st_r s = SrWait" "n = 0" "st_ar_queue s = []"
    using assms by (auto simp: r_ok_def)
  then show ?thesis using False assms
    by (auto simp: stub_edge_def stub_reset_edge_def r_ok_def r_todo_def left_of_def seen_r_def seen_ar_def next_beat_def
        fires_Resolved Let_def)
qed

interpretation stub_reads: read_slave id stub_edge st_pins r_ok r_todo id "stub_burst \<circ> addr_of"
  by unfold_locales (use stub_edge_reads in auto)

section \<open>Writes are answered once\<close>

definition b_ok :: "axi_stub \<Rightarrow> axi_mon \<Rightarrow> bool" where
  "b_ok s m \<longleftrightarrow>
     xp_bvalid (st_pins s) = of_bool (st_b s = SbHold) \<and> xp_bresp (st_pins s) = 0 \<and> xp_wready (st_pins s) = of_bool (st_started s) \<and>
     (\<not> st_started s \<longrightarrow> st_b s = SbWait \<and> st_pending_b s = []) \<and>
     list_all (\<lambda>b. xb_resp b = 0) (am_b m) \<and>
     int (length (am_b m)) + of_bool (st_b s = SbHold) + int (length (st_pending_b s)) = st_write_bursts_done s \<and>
     st_write_bursts_done s = int (length (filter (\<lambda>w. xw_last w = 1) (am_w m)))"

lemma stub_b_next_sel:
  "of_bool (st_b (stub_b_next s) = SbHold) + int (length (st_pending_b (stub_b_next s))) = int (length (st_pending_b s))"
  "st_write_bursts_done (stub_b_next s) = st_write_bursts_done s" "st_started (stub_b_next s) = st_started s"
  "xp_bvalid (st_pins s) = 0 \<Longrightarrow> xp_bvalid (st_pins (stub_b_next s)) = of_bool (st_b (stub_b_next s) = SbHold)"
  "xp_bresp (st_pins s) = 0 \<Longrightarrow> xp_bresp (st_pins (stub_b_next s)) = 0"
  "xp_wready (st_pins (stub_b_next s)) = xp_wready (st_pins s)"
  by (auto simp: stub_b_next_def split: list.split)

lemma stub_edge_writes: "b_ok s m \<Longrightarrow> b_ok (stub_edge d s) (axi_mon_edge d (st_pins s) m)"
proof (cases "st_started s")
  case started: True
  assume ok: "b_ok s m"
  define w where "w = stub_w d (stub_aw d s)"
  have frame: "st_b w = st_b s" "st_pins w = st_pins s" "st_started w"
    using started by (simp_all add: w_def stub_w_def stub_aw_def Let_def split: list.split)
  have last: "xw_last (w_txn d k) = 1 \<longleftrightarrow> high (ax_wlast d)" for k
    by (cases "ax_wlast d") (auto simp: w_txn_def bit_or_zero_def)
  let ?add = "of_bool (high (ax_wvalid d) \<and> high (ax_wlast d))"
  have w: "int (length (st_pending_b w)) = int (length (st_pending_b s)) + ?add"
    "st_write_bursts_done w = st_write_bursts_done s + ?add"
    by (auto simp: w_def stub_w_def stub_aw_def Let_def split: list.split)
  let ?m = "axi_mon_edge d (st_pins s) m"
  have lasts: "int (length (filter (\<lambda>w. xw_last w = 1) (am_w ?m))) = int (length (filter (\<lambda>w. xw_last w = 1) (am_w m))) + ?add"
    using ok started last by (auto simp: b_ok_def fires_Resolved)
  have "b_ok (stub_b d w) ?m"
  proof (cases "st_b s")
    case SbWait
    then have "stub_b d w = stub_b_next w" using frame by (simp add: stub_b_def)
    then show ?thesis using ok started w frame lasts stub_b_next_sel [of w] SbWait
      by (auto simp: b_ok_def fires_Resolved simp del: axi_mon_edge_sel(3))
  next
    case SbHold
    show ?thesis
    proof (cases "high (ax_bready d)")
      case True
      let ?w = "w\<lparr>st_pins := (st_pins w)\<lparr>xp_bvalid := 0\<rparr>\<rparr>"
      have "stub_b d w = stub_b_next ?w" using frame SbHold True by (simp add: stub_b_def)
      then show ?thesis using ok started w frame lasts stub_b_next_sel [of ?w] SbHold True
        by (auto simp: b_ok_def fires_Resolved simp del: axi_mon_edge_sel(3))
    next
      case False
      then show ?thesis using ok started w frame lasts SbHold
        by (auto simp: b_ok_def stub_b_def fires_Resolved simp del: axi_mon_edge_sel(3))
    qed
  qed
  moreover have "b_ok (stub_ar d u) n = b_ok u n" for u n by (simp add: b_ok_def stub_ar_def)
  moreover have next_ok: "b_ok (stub_r_next q u) n = b_ok u n" for q u n
    by (induction q arbitrary: u) (simp_all add: b_ok_def stub_beat_pins_def)
  have "b_ok (stub_r d u) n = b_ok u n" for u n
    by (simp add: stub_r_def next_ok Let_def split: stub_r_phase.split) (simp add: b_ok_def stub_beat_pins_def)
  ultimately show ?thesis using started by (simp add: stub_edge_def w_def)
next
  case False
  assume "b_ok s m"
  then show ?thesis using False
    by (auto simp: b_ok_def stub_edge_def stub_reset_edge_def fires_Resolved Let_def)
qed

lemma stub_bench_writes: "b_ok s m \<Longrightarrow> stub_bench ds (s, m) = (s', m') \<Longrightarrow> b_ok s' m'"
  unfolding stub_bench_def
proof (induction ds arbitrary: s m)
  case (Cons d ds)
  then show ?case using Cons.IH [OF stub_edge_writes [OF Cons.prems(1)]] by simp
qed simp

text \<open>
  The placeholder answers every burst, in order and completely, whatever the device does: the read beats the monitor has
  published are, address by address in the order it saw them, \<^verbatim>\<open>len + 1\<close> beats of the pattern, numbered from 0, the last
  one marked and no other, up to those still to be sent; and the write responses published, on the pins and pending are
  as many as the last write beats it saw, all OKAY.
\<close>

theorem stub_answers_every_burst:
  "case stub_bench ds (axi_stub_init, axi_mon_init) of (s, m) \<Rightarrow>
     am_r m @ r_todo s = concat (map (stub_burst \<circ> addr_of) (am_ar_seen m)) \<and>
     int (length (am_b m)) + of_bool (st_b s = SbHold) + int (length (st_pending_b s)) =
       int (length (filter (\<lambda>w. xw_last w = 1) (am_w m))) \<and>
     list_all (\<lambda>b. xb_resp b = 0) (am_b m)"
proof -
  have init: "r_ok axi_stub_init (am_r_beat axi_mon_init)" "b_ok axi_stub_init axi_mon_init"
    "map id (am_r axi_mon_init) @ r_todo axi_stub_init = concat (map (stub_burst \<circ> addr_of) (am_ar_seen axi_mon_init))"
    by (simp_all add: r_ok_def b_ok_def r_todo_def left_of_def axi_stub_init_def axi_mon_init_def axi_idle_pins_def)
  obtain s m where run: "stub_bench ds (axi_stub_init, axi_mon_init) = (s, m)" by fastforce
  have "am_r m @ r_todo s = concat (map (stub_burst \<circ> addr_of) (am_ar_seen m))"
    using stub_reads.answers_in_order [OF run [unfolded stub_bench_def] init(1,3)] by simp
  then show ?thesis using stub_bench_writes [OF init(2) run] run by (simp add: b_ok_def)
qed

end
