(* ===== verification/Axi_Ddr_Proxy.thy ===== *)
theory Axi_Ddr_Proxy
  imports Axi_Monitor Mem_Broker
begin

text \<open>
  The AXI slave of the co-simulation, \<^verbatim>\<open>axi_ddr_proxy.py\<close>: every burst becomes a call of the memory broker.

  Its six tasks are started together once reset is over and each awaits one falling edge after the other (inside the
  broker's calls too), so at every edge they run in the order they were started.  A step works on the slave and on the
  broker it shares with the runtime (\<^typ>\<open>broker\<close>); until the runtime has bound it, bursts are answered without it.
  Pins are unsigned, so lengths and sizes are not negative.
\<close>

definition AXI_BEAT_BYTES :: nat where "AXI_BEAT_BYTES = 32"

definition strb_bits_to_bytes :: "int \<Rightarrow> nat \<Rightarrow> byte list" where
  "strb_bits_to_bytes wstrb n = map (\<lambda>i. if drop_bit i wstrb AND 1 \<noteq> 0 then 0xFF else 0x00) [0 ..< n]"

section \<open>State\<close>

text \<open>The position of each task that is more than its queue; a task that an exception has ended keeps the request it had
  taken.\<close>

record axi_req =
  pq_id :: int
  pq_addr :: int
  pq_len :: int
  pq_size :: int

definition burst_bytes :: "axi_req \<Rightarrow> nat" where
  "burst_bytes q = nat ((pq_len q + 1) * push_bit (nat (pq_size q)) 1)"

datatype proxy_b_phase = PbWait | PbCall axi_req "byte list" int mem_call | PbDead axi_req pyerr
datatype proxy_d_phase = PdWait | PdHold
datatype proxy_r_phase = PrWait | PrCall axi_req int mem_call | PrHold axi_req "byte list" int nat | PrDead axi_req pyerr

record axi_proxy =
  px_stable :: int
  px_started :: bool
  px_bound :: bool
  px_aw_queue :: "axi_req list"
  px_ar_queue :: "axi_req list"
  px_beats :: "(int \<times> int) list"
  px_w_dead :: "(axi_req \<times> pyerr) option"
  px_pending_b :: "(axi_req \<times> byte list \<times> byte list) list"
  px_b_ready :: "(int \<times> int) list"
  px_write_bursts_done :: int
  px_read_bursts_done :: int
  px_read_bytes :: int
  px_write_bytes :: int
  px_b :: proxy_b_phase
  px_d :: proxy_d_phase
  px_r :: proxy_r_phase
  px_pins :: axi_pins

definition axi_proxy_init :: axi_proxy where
  "axi_proxy_init =
     \<lparr>px_stable = 0, px_started = False, px_bound = False, px_aw_queue = [], px_ar_queue = [], px_beats = [], px_w_dead = None,
      px_pending_b = [], px_b_ready = [], px_write_bursts_done = 0, px_read_bursts_done = 0, px_read_bytes = 0,
      px_write_bytes = 0, px_b = PbWait, px_d = PdWait, px_r = PrWait, px_pins = axi_idle_pins\<rparr>"

definition new_call :: "bool \<Rightarrow> mem_call" where
  "new_call is_read = \<lparr>mc_is_read = is_read, mc_cycles = 0, mc_timeout = DEFAULT_TIMEOUT_CYCLES\<rparr>"

section \<open>The write path\<close>

definition proxy_aw :: "axi_master \<Rightarrow> axi_proxy \<Rightarrow> axi_proxy" where
  "proxy_aw d s =
     (if read_bit (ax_awvalid d) \<noteq> Some 1 then s
      else s\<lparr>px_aw_queue := px_aw_queue s @
        [\<lparr>pq_id = int_or_zero (ax_awid d), pq_addr = int_or_zero (ax_awaddr d), pq_len = int_or_zero (ax_awlen d),
          pq_size = int_or_zero (ax_awsize d)\<rparr>]\<rparr>)"

text \<open>\<open>xs[off:off + len(ys)] = ys\<close>, inside the list.\<close>

definition overwrite :: "nat \<Rightarrow> 'a list \<Rightarrow> 'a list \<Rightarrow> 'a list" where
  "overwrite off ys xs = take off xs @ ys @ drop (off + length ys) xs"

text \<open>The loop over the beats of a burst, from the \<open>i\<close>-th one on.\<close>

fun place_beats :: "nat \<Rightarrow> (int \<times> int) list \<Rightarrow> byte list \<times> byte list \<Rightarrow> (byte list \<times> byte list) result" where
  "place_beats i [] (data, strb) = Inr (data, strb)"
| "place_beats i ((wdata, wstrb) # beats) (data, strb) =
     (let off = i * AXI_BEAT_BYTES; chunk = min AXI_BEAT_BYTES (length data - off)
      in if chunk = 0 then Inr (data, strb)
         else and_then (int_to_bytes wdata chunk) (\<lambda>bytes.
           place_beats (Suc i) beats
             (overwrite off bytes data, overwrite off (strb_bits_to_bytes wstrb chunk) strb)))"

definition assemble :: "axi_req \<Rightarrow> (int \<times> int) list \<Rightarrow> (byte list \<times> byte list) result" where
  "assemble aw beats = place_beats 0 beats (replicate (burst_bytes aw) 0, replicate (burst_bytes aw) 0)"

definition proxy_w :: "axi_master \<Rightarrow> axi_proxy \<Rightarrow> axi_proxy" where
  "proxy_w d s =
     (if px_w_dead s \<noteq> None \<or> read_bit (ax_wvalid d) \<noteq> Some 1 then s
      else
        let beats = px_beats s @ [(int_or_zero (ax_wdata d), int_or_zero (ax_wstrb d))]
        in if read_bit (ax_wlast d) \<noteq> Some 1 then s\<lparr>px_beats := beats\<rparr>
           else case px_aw_queue s of
             [] \<Rightarrow> s\<lparr>px_beats := []\<rparr>
           | aw # q \<Rightarrow>
               (case assemble aw beats of
                  Inl e \<Rightarrow> s\<lparr>px_aw_queue := q, px_beats := beats, px_w_dead := Some (aw, e)\<rparr>
                | Inr (data, strb) \<Rightarrow>
                    s\<lparr>px_aw_queue := q, px_beats := [], px_pending_b := px_pending_b s @ [(aw, data, strb)]\<rparr>))"

definition write_done :: "axi_req \<Rightarrow> byte list \<Rightarrow> int \<Rightarrow> axi_proxy \<Rightarrow> axi_proxy" where
  "write_done aw data resp s =
     s\<lparr>px_write_bursts_done := px_write_bursts_done s + 1, px_write_bytes := px_write_bytes s + int (length data),
       px_b_ready := px_b_ready s @ [(pq_id aw, resp)]\<rparr>"

text \<open>The top of the loop of \<^verbatim>\<open>b_task\<close>.\<close>

fun proxy_b_next :: "(axi_req \<times> byte list \<times> byte list) list \<Rightarrow> axi_proxy \<times> broker \<Rightarrow> axi_proxy \<times> broker" where
  "proxy_b_next [] (s, b) = (s\<lparr>px_pending_b := [], px_b := PbWait\<rparr>, b)"
| "proxy_b_next ((aw, data, strb) # q) (s, b) =
     (if px_bound s then
        let (rid, b) = broker_write (pq_addr aw) data strb b
        in (s\<lparr>px_pending_b := q, px_b := PbCall aw data rid (new_call False)\<rparr>, b)
      else proxy_b_next q (write_done aw data 0 s, b))"

definition response_of :: "mem_value \<Rightarrow> int" where
  "response_of v = (case v of ReadValue data resp \<Rightarrow> resp | WriteValue resp \<Rightarrow> resp)"

definition proxy_b :: "axi_proxy \<times> broker \<Rightarrow> axi_proxy \<times> broker" where
  "proxy_b = (\<lambda>(s, b).
     case px_b s of
       PbWait \<Rightarrow> proxy_b_next (px_pending_b s) (s, b)
     | PbCall aw data rid c \<Rightarrow>
         (case broker_resume rid c b of
            (Inr c, b) \<Rightarrow> (s\<lparr>px_b := PbCall aw data rid c\<rparr>, b)
          | (Inl (Inl e), b) \<Rightarrow> (s\<lparr>px_b := PbDead aw e\<rparr>, b)
          | (Inl (Inr v), b) \<Rightarrow> let s = write_done aw data (response_of v) s in proxy_b_next (px_pending_b s) (s, b))
     | PbDead aw e \<Rightarrow> (s, b))"

definition proxy_d_next :: "axi_proxy \<Rightarrow> axi_proxy" where
  "proxy_d_next s =
     (case px_b_ready s of
        [] \<Rightarrow> s\<lparr>px_d := PdWait\<rparr>
      | (bid, resp) # q \<Rightarrow>
          s\<lparr>px_b_ready := q, px_d := PdHold,
            px_pins := (px_pins s)\<lparr>xp_bid := bid, xp_bresp := resp AND 0x3, xp_bvalid := 1\<rparr>\<rparr>)"

definition proxy_d :: "axi_master \<Rightarrow> axi_proxy \<Rightarrow> axi_proxy" where
  "proxy_d d s =
     (case px_d s of
        PdWait \<Rightarrow> proxy_d_next s
      | PdHold \<Rightarrow>
          if high (ax_bready d) then proxy_d_next (s\<lparr>px_pins := (px_pins s)\<lparr>xp_bvalid := 0\<rparr>\<rparr>) else s)"

section \<open>The read path\<close>

definition proxy_ar :: "axi_master \<Rightarrow> axi_proxy \<Rightarrow> axi_proxy" where
  "proxy_ar d s =
     (if read_bit (ax_arvalid d) \<noteq> Some 1 then s
      else s\<lparr>px_ar_queue := px_ar_queue s @
        [\<lparr>pq_id = int_or_zero (ax_arid d), pq_addr = int_or_zero (ax_araddr d), pq_len = int_or_zero (ax_arlen d),
          pq_size = int_or_zero (ax_arsize d)\<rparr>]\<rparr>)"

definition beat_data :: "axi_req \<Rightarrow> byte list \<Rightarrow> nat \<Rightarrow> byte list" where
  "beat_data ar data beat =
     (let off = beat * AXI_BEAT_BYTES
      in ljust0 AXI_BEAT_BYTES (slice data off (min (off + AXI_BEAT_BYTES) (burst_bytes ar))))"

definition proxy_beat_pins :: "axi_req \<Rightarrow> byte list \<Rightarrow> int \<Rightarrow> nat \<Rightarrow> axi_pins \<Rightarrow> axi_pins" where
  "proxy_beat_pins ar data resp beat p =
     p\<lparr>xp_rid := pq_id ar, xp_rdata := int_from_bytes (beat_data ar data beat), xp_rresp := resp AND 0x3,
       xp_rlast := (if int beat = pq_len ar then 1 else 0), xp_rvalid := 1\<rparr>"

text \<open>The data of a read has come; a burst without beats is over at once.\<close>

definition read_done :: "axi_req \<Rightarrow> byte list \<Rightarrow> int \<Rightarrow> axi_proxy \<Rightarrow> axi_proxy" where
  "read_done ar data resp s =
     (let s = s\<lparr>px_read_bursts_done := px_read_bursts_done s + 1, px_read_bytes := px_read_bytes s + int (burst_bytes ar)\<rparr>
      in if nat (pq_len ar + 1) = 0 then s\<lparr>px_r := PrWait\<rparr>
         else s\<lparr>px_r := PrHold ar data resp 0, px_pins := proxy_beat_pins ar data resp 0 (px_pins s)\<rparr>)"

text \<open>The top of the loop of \<^verbatim>\<open>r_task\<close>.\<close>

fun proxy_r_next :: "axi_req list \<Rightarrow> axi_proxy \<times> broker \<Rightarrow> axi_proxy \<times> broker" where
  "proxy_r_next [] (s, b) = (s\<lparr>px_ar_queue := [], px_r := PrWait\<rparr>, b)"
| "proxy_r_next (ar # q) (s, b) =
     (if px_bound s then
        let (rid, b) = broker_read (pq_addr ar) (int (burst_bytes ar)) b
        in (s\<lparr>px_ar_queue := q, px_r := PrCall ar rid (new_call True)\<rparr>, b)
      else
        let s = read_done ar (replicate (burst_bytes ar) 0) 0 (s\<lparr>px_ar_queue := q\<rparr>)
        in if px_r s = PrWait then proxy_r_next q (s, b) else (s, b))"

definition data_of :: "mem_value \<Rightarrow> byte list" where
  "data_of v = (case v of ReadValue data resp \<Rightarrow> data | WriteValue resp \<Rightarrow> [])"

definition proxy_r :: "axi_master \<Rightarrow> axi_proxy \<times> broker \<Rightarrow> axi_proxy \<times> broker" where
  "proxy_r d = (\<lambda>(s, b).
     case px_r s of
       PrWait \<Rightarrow> proxy_r_next (px_ar_queue s) (s, b)
     | PrCall ar rid c \<Rightarrow>
         (case broker_resume rid c b of
            (Inr c, b) \<Rightarrow> (s\<lparr>px_r := PrCall ar rid c\<rparr>, b)
          | (Inl (Inl e), b) \<Rightarrow> (s\<lparr>px_r := PrDead ar e\<rparr>, b)
          | (Inl (Inr v), b) \<Rightarrow>
              let s = read_done ar (data_of v) (response_of v) s
              in if px_r s = PrWait then proxy_r_next (px_ar_queue s) (s, b) else (s, b))
     | PrHold ar data resp beat \<Rightarrow>
         if high (ax_rready d) then
           let s = s\<lparr>px_pins := (px_pins s)\<lparr>xp_rvalid := 0\<rparr>\<rparr>
           in if int (Suc beat) \<le> pq_len ar
              then (s\<lparr>px_r := PrHold ar data resp (Suc beat),
                      px_pins := proxy_beat_pins ar data resp (Suc beat) (px_pins s)\<rparr>, b)
              else proxy_r_next (px_ar_queue s) (s, b)
         else (s, b)
     | PrDead ar e \<Rightarrow> (s, b))"

section \<open>Edges\<close>

definition proxy_reset_edge :: "axi_master \<Rightarrow> axi_proxy \<Rightarrow> axi_proxy" where
  "proxy_reset_edge d s =
     (let stable = (if high (ax_rstn d) then px_stable s + 1 else 0); s = s\<lparr>px_stable := stable\<rparr>
      in if stable < 4 then s
         else s\<lparr>px_started := True, px_pins := (px_pins s)\<lparr>xp_awready := 1, xp_wready := 1, xp_arready := 1\<rparr>\<rparr>)"

definition proxy_edge :: "axi_master \<Rightarrow> axi_proxy \<times> broker \<Rightarrow> axi_proxy \<times> broker" where
  "proxy_edge d = (\<lambda>(s, b).
     if px_started s then
       let (s, b) = proxy_b (proxy_w d (proxy_aw d s), b)
       in proxy_r d (proxy_ar d (proxy_d d s), b)
     else (proxy_reset_edge d s, b))"

section \<open>Full-width bursts\<close>

text \<open>The bytes and strobes of a sequence of beats, and beats that fit the data bus.\<close>

definition lanes :: "(int \<times> int) list \<Rightarrow> byte list" where
  "lanes beats = concat (map (\<lambda>(wdata, wstrb). le_bytes wdata AXI_BEAT_BYTES) beats)"

definition lane_strobes :: "(int \<times> int) list \<Rightarrow> byte list" where
  "lane_strobes beats = concat (map (\<lambda>(wdata, wstrb). strb_bits_to_bytes wstrb AXI_BEAT_BYTES) beats)"

definition on_bus :: "(int \<times> int) list \<Rightarrow> bool" where
  "on_bus beats \<longleftrightarrow> list_all (\<lambda>(wdata, wstrb). 0 \<le> wdata \<and> wdata < 2 ^ 256) beats"

lemma length_strb_bits [simp]: "length (strb_bits_to_bytes w n) = n"
  by (simp add: strb_bits_to_bytes_def)

lemma length_lanes [simp]: "length (lanes beats) = length beats * 32" "length (lane_strobes beats) = length beats * 32"
  by (induction beats) (auto simp: lanes_def lane_strobes_def AXI_BEAT_BYTES_def)

lemma length_overwrite: "off + length ys \<le> length xs \<Longrightarrow> length (overwrite off ys xs) = length xs"
  by (simp add: overwrite_def)

lemma overwrite_overwrite:
  "length ys = n \<Longrightarrow> off + n + length zs \<le> length xs \<Longrightarrow>
     overwrite (off + n) zs (overwrite off ys xs) = overwrite off (ys @ zs) xs"
  by (simp add: overwrite_def ac_simps)

lemma place_beats_full:
  "on_bus beats \<Longrightarrow> (i + length beats) * 32 \<le> length data \<Longrightarrow> length strb = length data \<Longrightarrow>
     place_beats i beats (data, strb) =
       Inr (overwrite (i * 32) (lanes beats) data, overwrite (i * 32) (lane_strobes beats) strb)"
proof (induction beats arbitrary: i data strb)
  case Nil
  then show ?case by (simp add: lanes_def lane_strobes_def overwrite_def)
next
  case (Cons p beats)
  obtain w st where p: "p = (w, st)" by (cases p)
  let ?d = "le_bytes w 32" and ?s = "strb_bits_to_bytes st 32"
  have w: "int_to_bytes w 32 = Inr ?d" using Cons.prems(1) by (simp add: p on_bus_def int_to_bytes_def)
  have fit: "i * 32 + 32 \<le> length data" "(Suc i + length beats) * 32 \<le> length data" using Cons.prems(2) by simp_all
  have "place_beats (Suc i) beats (overwrite (i * 32) ?d data, overwrite (i * 32) ?s strb) =
    Inr (overwrite (Suc i * 32) (lanes beats) (overwrite (i * 32) ?d data),
         overwrite (Suc i * 32) (lane_strobes beats) (overwrite (i * 32) ?s strb))"
    using Cons.prems(1,3) fit by (intro Cons.IH) (simp_all add: on_bus_def length_overwrite)
  moreover have "overwrite (Suc i * 32) (lanes beats) (overwrite (i * 32) ?d data) = overwrite (i * 32) (?d @ lanes beats) data"
    using overwrite_overwrite [of ?d 32 "i * 32" "lanes beats" data] fit by (simp add: add.commute)
  moreover have "overwrite (Suc i * 32) (lane_strobes beats) (overwrite (i * 32) ?s strb) =
      overwrite (i * 32) (?s @ lane_strobes beats) strb"
    using overwrite_overwrite [of ?s 32 "i * 32" "lane_strobes beats" strb] fit Cons.prems(3) by (simp add: add.commute)
  ultimately show ?case
    using w fit(1) by (simp add: p AXI_BEAT_BYTES_def Let_def lanes_def lane_strobes_def)
qed

lemma burst_bytes_full: "pq_size q = 5 \<Longrightarrow> int n = pq_len q + 1 \<Longrightarrow> burst_bytes q = n * 32"
  by (simp add: burst_bytes_def push_bit_eq_mult)

lemma assemble_full:
  assumes "pq_size q = 5" "int (length beats) = pq_len q + 1" "on_bus beats"
  shows "assemble q beats = Inr (lanes beats, lane_strobes beats)"
  using place_beats_full [OF assms(3), of 0] burst_bytes_full [OF assms(1,2)]
  by (simp add: assemble_def overwrite_def)

lemma lanes_slice:
  "k < length beats \<Longrightarrow> slice (lanes beats) (k * 32) ((k + 1) * 32) = le_bytes (fst (beats ! k)) 32"
proof (induction beats arbitrary: k)
  case (Cons p beats)
  obtain w st where p: "p = (w, st)" by (cases p)
  have l: "lanes ((w, st) # beats) = le_bytes w 32 @ lanes beats" by (simp add: lanes_def AXI_BEAT_BYTES_def)
  show ?case
  proof (cases k)
    case 0
    then show ?thesis by (simp add: l p slice_def)
  next
    case (Suc j)
    then show ?thesis using Cons.IH [of j] Cons.prems by (simp add: l p slice_def)
  qed
qed simp

lemma beat_data_full:
  assumes "pq_size q = 5" "int (length beats) = pq_len q + 1" "on_bus beats" "k < length beats"
  shows "int_from_bytes (beat_data q (lanes beats) k) = fst (beats ! k)"
proof -
  have "k * 32 + 32 \<le> burst_bytes q" using assms(4) burst_bytes_full [OF assms(1,2)] by simp
  then have "beat_data q (lanes beats) k = le_bytes (fst (beats ! k)) 32"
    using lanes_slice [OF assms(4)] by (simp add: beat_data_def AXI_BEAT_BYTES_def Let_def min_def add.commute)
  moreover have "0 \<le> fst (beats ! k) \<and> fst (beats ! k) < 2 ^ 256"
    using assms(3) nth_mem [OF assms(4)] by (cases "beats ! k") (auto simp: on_bus_def list_all_iff)
  ultimately show ?thesis by (simp add: int_from_bytes_le_bytes)
qed

section \<open>Narrow bursts\<close>

text \<open>
  Bursts narrower than the bus are not transferred: of two beats of 16 bytes the second is ignored, whatever it carries, and
  one beat of 16 bytes whose data is in the upper half of the bus raises OverflowError; that ends the task that takes
  write data, and no burst after it is ever forwarded.
\<close>

theorem narrow_write_bursts_lost:
  "assemble \<lparr>pq_id = i, pq_addr = a, pq_len = 1, pq_size = 4\<rparr> [b1, b2] =
     assemble \<lparr>pq_id = i, pq_addr = a, pq_len = 1, pq_size = 4\<rparr> [b1] \<and>
   assemble \<lparr>pq_id = i, pq_addr = a, pq_len = 0, pq_size = 4\<rparr> [(push_bit 128 1, st)] = Inl OverflowError \<and>
   proxy_w d (s\<lparr>px_w_dead := Some (q, OverflowError)\<rparr>) = s\<lparr>px_w_dead := Some (q, OverflowError)\<rparr>"
proof -
  obtain w1 s1 where b1: "b1 = (w1, s1)" by (cases b1)
  have bytes: "burst_bytes \<lparr>pq_id = i, pq_addr = a, pq_len = 1, pq_size = 4\<rparr> = 32"
    "burst_bytes \<lparr>pq_id = i, pq_addr = a, pq_len = 0, pq_size = 4\<rparr> = 16"
    by (simp_all add: burst_bytes_def)
  have second: "place_beats (Suc 0) [b2] (x, y) = Inr (x, y)" if "length x = 32" for x y
    using that by (cases b2) (simp add: AXI_BEAT_BYTES_def)
  have len: "length (overwrite 0 bs (replicate 32 (0 :: byte))) = 32" if "length bs = 32" for bs
    using that by (simp add: overwrite_def)
  have "assemble \<lparr>pq_id = i, pq_addr = a, pq_len = 1, pq_size = 4\<rparr> [b1, b2] =
     assemble \<lparr>pq_id = i, pq_addr = a, pq_len = 1, pq_size = 4\<rparr> [b1]"
    unfolding assemble_def bytes b1
    by (simp add: AXI_BEAT_BYTES_def Let_def int_to_bytes_def second [simplified] len del: replicate.simps)
  moreover have "assemble \<lparr>pq_id = i, pq_addr = a, pq_len = 0, pq_size = 4\<rparr> [(push_bit 128 1, st)] = Inl OverflowError"
    unfolding assemble_def bytes by (simp add: AXI_BEAT_BYTES_def Let_def int_to_bytes_def)
  ultimately show ?thesis by (simp add: proxy_w_def)
qed

section \<open>Responses in order\<close>

text \<open>The proxy with the monitor on its port; at each edge the broker is whatever the rest of the system has made of it.\<close>

definition proxy_step :: "axi_master \<times> bool \<times> broker \<Rightarrow> axi_proxy \<Rightarrow> axi_proxy" where
  "proxy_step = (\<lambda>(d, bound, b) s. fst (proxy_edge d (s\<lparr>px_bound := bound\<rparr>, b)))"

definition proxy_bench :: "(axi_master \<times> bool \<times> broker) list \<Rightarrow> axi_proxy \<times> axi_mon \<Rightarrow> axi_proxy \<times> axi_mon" where
  "proxy_bench = slave_bench fst proxy_step px_pins"

text \<open>A read beat but for its data and response: id, last, and number in the burst.\<close>

definition beat_tag :: "axi_r_txn \<Rightarrow> int \<times> int \<times> int" where
  "beat_tag r = (xr_id r, xr_last r, xr_beat r)"

definition tags :: "int \<Rightarrow> int \<Rightarrow> (int \<times> int \<times> int) list" where
  "tags rid len = map (\<lambda>k. (rid, of_bool (int k = len), int k)) [0 ..< nat (len + 1)]"

abbreviation req_tags :: "axi_req \<Rightarrow> (int \<times> int \<times> int) list" where "req_tags q \<equiv> tags (pq_id q) (pq_len q)"
definition ar_tags :: "axi_ar_txn \<Rightarrow> (int \<times> int \<times> int) list" where "ar_tags t = tags (xa_id t) (xa_len t)"

definition phase_tags :: "proxy_r_phase \<Rightarrow> (int \<times> int \<times> int) list" where
  "phase_tags ph = (case ph of PrWait \<Rightarrow> [] | PrCall ar rid c \<Rightarrow> req_tags ar | PrHold ar data resp k \<Rightarrow> drop k (req_tags ar)
     | PrDead ar e \<Rightarrow> req_tags ar)"

definition tags_owed :: "axi_proxy \<Rightarrow> (int \<times> int \<times> int) list" where
  "tags_owed s = phase_tags (px_r s) @ concat (map req_tags (px_ar_queue s))"

definition rd_ok :: "axi_proxy \<Rightarrow> int \<Rightarrow> bool" where
  "rd_ok s n \<longleftrightarrow>
     xp_arready (px_pins s) = of_bool (px_started s) \<and>
     (case px_r s of
        PrHold ar data resp k \<Rightarrow> px_started s \<and> int k \<le> pq_len ar \<and> n = int k \<and> xp_rvalid (px_pins s) = 1 \<and>
          xp_rid (px_pins s) = pq_id ar \<and> xp_rlast (px_pins s) = of_bool (int k = pq_len ar)
      | _ \<Rightarrow> xp_rvalid (px_pins s) = 0 \<and> n = 0) \<and>
     (\<not> px_started s \<longrightarrow> px_ar_queue s = [] \<and> px_r s = PrWait)"

text \<open>The other tasks leave the read side alone.\<close>

definition rd_side :: "axi_proxy \<Rightarrow> axi_req list \<times> proxy_r_phase \<times> bool \<times> int list" where
  "rd_side s =
     (px_ar_queue s, px_r s, px_started s,
      (let p = px_pins s in [xp_arready p, xp_rvalid p, xp_rid p, xp_rlast p, xp_rdata p, xp_rresp p]))"

lemma rd_side_cong: "rd_side s' = rd_side s \<Longrightarrow> rd_ok s' n = rd_ok s n \<and> tags_owed s' = tags_owed s"
  by (auto simp: rd_side_def rd_ok_def tags_owed_def Let_def split: proxy_r_phase.split)

lemma write_done_rd_side [simp]: "rd_side (write_done aw data resp s) = rd_side s"
  by (simp add: rd_side_def write_done_def Let_def)

lemma rd_side_upd [simp]:
  "rd_side (s\<lparr>px_pending_b := q\<rparr>) = rd_side s" "rd_side (s\<lparr>px_b := ph\<rparr>) = rd_side s"
  "rd_side (s\<lparr>px_pending_b := q, px_b := ph\<rparr>) = rd_side s" "rd_side (s\<lparr>px_bound := x\<rparr>) = rd_side s"
  by (simp_all add: rd_side_def)

lemma proxy_b_next_rd_side [simp]: "rd_side (fst (proxy_b_next q (s, b))) = rd_side s"
  by (induction q arbitrary: s b) (auto split: prod.split)

lemma write_tasks_rd_side [simp]:
  "rd_side (proxy_aw d s) = rd_side s" "rd_side (proxy_w d s) = rd_side s" "rd_side (proxy_d d s) = rd_side s"
  "rd_side (fst (proxy_b (s, b))) = rd_side s"
proof -
  show "rd_side (proxy_aw d s) = rd_side s" "rd_side (proxy_w d s) = rd_side s"
    by (auto simp: rd_side_def proxy_aw_def proxy_w_def Let_def split: list.split sum.split)
  have nx: "rd_side (proxy_d_next u) = rd_side u" for u
    by (auto simp: rd_side_def proxy_d_next_def Let_def split: list.split)
  have "rd_side (s\<lparr>px_pins := (px_pins s)\<lparr>xp_bvalid := 0\<rparr>\<rparr>) = rd_side s" by (simp add: rd_side_def Let_def)
  then show "rd_side (proxy_d d s) = rd_side s" using nx by (simp add: proxy_d_def split: proxy_d_phase.split)
  show "rd_side (fst (proxy_b (s, b))) = rd_side s"
    by (auto simp: proxy_b_def Let_def split: proxy_b_phase.split prod.split sum.split)
qed

lemma drop_tags:
  assumes "int k \<le> len" "0 \<le> len"
  shows "drop k (tags rid len) = (rid, of_bool (int k = len), int k) # drop (Suc k) (tags rid len)"
proof -
  have k: "k < nat (len + 1)" using assms by linarith
  show ?thesis by (simp add: tags_def drop_map upt_conv_Cons [OF k])
qed

lemma tags_nil: "nat (len + 1) = 0 \<Longrightarrow> tags rid len = []" "len < int k \<Longrightarrow> drop k (tags rid len) = []"
  by (simp_all add: tags_def)

text \<open>A started slave whose read pins are idle and whose read task is about to start over.\<close>

definition rd_free :: "axi_proxy \<Rightarrow> bool" where
  "rd_free s \<longleftrightarrow> px_started s \<and> xp_rvalid (px_pins s) = 0 \<and> xp_arready (px_pins s) = 1"

lemma read_done_ok:
  assumes "rd_free s"
  shows "rd_ok (read_done ar data resp s) 0" "tags_owed (read_done ar data resp s) = req_tags ar @ concat (map req_tags (px_ar_queue s))"
    "px_r (read_done ar data resp s) = PrWait \<Longrightarrow> rd_free (read_done ar data resp s) \<and> req_tags ar = []"
    "px_ar_queue (read_done ar data resp s) = px_ar_queue s"
proof -
  have c: "nat (pq_len ar + 1) = 0 \<or> 0 \<le> pq_len ar" by linarith
  show "rd_ok (read_done ar data resp s) 0" "tags_owed (read_done ar data resp s) = req_tags ar @ concat (map req_tags (px_ar_queue s))"
    "px_ar_queue (read_done ar data resp s) = px_ar_queue s"
    using assms c
    by (auto simp: read_done_def rd_ok_def rd_free_def tags_owed_def phase_tags_def proxy_beat_pins_def tags_nil Let_def)
  show "px_r (read_done ar data resp s) = PrWait \<Longrightarrow> rd_free (read_done ar data resp s) \<and> req_tags ar = []"
    using assms by (auto simp: read_done_def rd_free_def tags_nil Let_def split: if_splits)
qed

lemma proxy_r_next_ok:
  "rd_free s \<Longrightarrow> rd_ok (fst (proxy_r_next q (s, b))) 0 \<and> tags_owed (fst (proxy_r_next q (s, b))) = concat (map req_tags q)"
proof (induction q arbitrary: s b)
  case Nil
  then show ?case by (simp add: rd_ok_def rd_free_def tags_owed_def phase_tags_def)
next
  case (Cons ar q)
  show ?case
  proof (cases "px_bound s")
    case True
    then show ?thesis using Cons.prems
      by (auto simp: rd_ok_def rd_free_def tags_owed_def phase_tags_def split: prod.split)
  next
    case False
    let ?u = "read_done ar (replicate (burst_bytes ar) 0) 0 (s\<lparr>px_ar_queue := q\<rparr>)"
    have "rd_free (s\<lparr>px_ar_queue := q\<rparr>)" using Cons.prems by (simp add: rd_free_def)
    note rdone = read_done_ok [OF this]
    show ?thesis
    proof (cases "px_r ?u = PrWait")
      case True
      from rdone(3) [OF True] have "rd_free ?u" "req_tags ar = []" by auto
      with Cons.IH [of ?u b] show ?thesis using False True by simp
    next
      case hold: False
      then show ?thesis using False rdone(1,2) by simp
    qed
  qed
qed

lemma proxy_r_ok:
  assumes "rd_ok s n" "px_started s"
  shows "rd_ok (fst (proxy_r d (s, b))) (next_beat d (px_pins s) n) \<and>
    map beat_tag (seen_r d (px_pins s) n) @ tags_owed (fst (proxy_r d (s, b))) = tags_owed s"
proof (cases "px_r s")
  case PrWait
  then have "rd_free s" "n = 0" "xp_rvalid (px_pins s) = 0" using assms by (auto simp: rd_ok_def rd_free_def)
  then show ?thesis using proxy_r_next_ok [of s "px_ar_queue s" b] PrWait
    by (simp add: proxy_r_def seen_r_def next_beat_def fires_Resolved tags_owed_def phase_tags_def)
next
  case (PrCall ar rid c)
  then have free: "rd_free s" and n: "n = 0" "xp_rvalid (px_pins s) = 0" using assms by (auto simp: rd_ok_def rd_free_def)
  have owed: "tags_owed s = req_tags ar @ concat (map req_tags (px_ar_queue s))" by (simp add: tags_owed_def phase_tags_def PrCall)
  have "rd_ok (fst (proxy_r d (s, b))) 0 \<and> tags_owed (fst (proxy_r d (s, b))) = tags_owed s"
  proof (cases "broker_resume rid c b")
    case (Pair r b')
    consider (wait) c' where "r = Inr c'" | (err) e where "r = Inl (Inl e)" | (val) v where "r = Inl (Inr v)"
      by (metis sum.exhaust)
    then show ?thesis
    proof cases
      case val
      let ?u = "read_done ar (data_of v) (response_of v) s"
      note rd = read_done_ok [OF free, of ar "data_of v" "response_of v"]
      show ?thesis
      proof (cases "px_r ?u = PrWait")
        case True
        with rd(3) have "rd_free ?u" "req_tags ar = []" by auto
        then show ?thesis using proxy_r_next_ok [of ?u "px_ar_queue ?u" b'] rd(4) True
          by (simp add: proxy_r_def PrCall Pair val owed)
      next
        case False
        then show ?thesis using rd(1,2) by (simp add: proxy_r_def PrCall Pair val owed)
      qed
    qed (use PrCall Pair assms n owed in \<open>auto simp: proxy_r_def rd_ok_def tags_owed_def phase_tags_def\<close>)
  qed
  then show ?thesis using n by (simp add: seen_r_def next_beat_def fires_Resolved)
next
  case (PrHold ar data resp k)
  have k: "int k \<le> pq_len ar" "0 \<le> pq_len ar" and n: "n = int k"
    and pins: "xp_rvalid (px_pins s) = 1" "xp_rid (px_pins s) = pq_id ar" "xp_rlast (px_pins s) = of_bool (int k = pq_len ar)"
    "xp_arready (px_pins s) = 1"
    using assms PrHold by (auto simp: rd_ok_def)
  show ?thesis
  proof (cases "high (ax_rready d)")
    case False
    then show ?thesis using assms PrHold by (simp add: proxy_r_def seen_r_def next_beat_def fires_Resolved)
  next
    case True
    have seen: "map beat_tag (seen_r d (px_pins s) n) = [(pq_id ar, of_bool (int k = pq_len ar), int k)]"
      using True pins n by (simp add: seen_r_def fires_Resolved beat_tag_def r_txn_def)
    have nb: "next_beat d (px_pins s) n = (if int k = pq_len ar then 0 else int k + 1)"
      using True pins n by (simp add: next_beat_def fires_Resolved)
    have owed: "tags_owed s = (pq_id ar, of_bool (int k = pq_len ar), int k) # drop (Suc k) (req_tags ar) @
        concat (map req_tags (px_ar_queue s))"
      using drop_tags [OF k] by (simp add: tags_owed_def phase_tags_def PrHold)
    let ?s = "s\<lparr>px_pins := (px_pins s)\<lparr>xp_rvalid := 0\<rparr>\<rparr>"
    show ?thesis
    proof (cases "int (Suc k) \<le> pq_len ar")
      case more: True
      then show ?thesis using True PrHold seen nb owed pins assms(2)
        by (auto simp: proxy_r_def rd_ok_def tags_owed_def phase_tags_def proxy_beat_pins_def)
    next
      case over: False
      then have "drop (Suc k) (req_tags ar) = []" "int k = pq_len ar"
        using k tags_nil(2) [of "pq_len ar" "Suc k"] by auto
      moreover have "rd_free ?s" using assms(2) pins by (simp add: rd_free_def)
      ultimately show ?thesis using proxy_r_next_ok [of ?s "px_ar_queue ?s" b] True PrHold over seen nb owed
        by (simp add: proxy_r_def)
    qed
  qed
next
  case (PrDead ar e)
  then show ?thesis using assms by (simp add: proxy_r_def rd_ok_def seen_r_def next_beat_def fires_Resolved)
qed

lemma proxy_ar_ok:
  assumes "rd_ok s n" "px_started s"
  shows "rd_ok (proxy_ar d s) n \<and> tags_owed (proxy_ar d s) = tags_owed s @ concat (map ar_tags (seen_ar d (px_pins s))) \<and>
    px_pins (proxy_ar d s) = px_pins s \<and> px_started (proxy_ar d s)"
  using assms
  by (auto simp: proxy_ar_def rd_ok_def tags_owed_def seen_ar_def fires_Resolved ar_tags_def ar_txn_def
      split: proxy_r_phase.split)

lemma proxy_step_reads:
  assumes "rd_ok s n"
  shows "rd_ok (proxy_step e s) (next_beat (fst e) (px_pins s) n) \<and>
    map beat_tag (seen_r (fst e) (px_pins s) n) @ tags_owed (proxy_step e s) =
      tags_owed s @ concat (map ar_tags (seen_ar (fst e) (px_pins s)))"
proof -
  obtain d bound b where e: "e = (d, bound, b)" by (cases e)
  show ?thesis
  proof (cases "px_started s")
    case True
    obtain v b1 where v: "proxy_b (proxy_w d (proxy_aw d (s\<lparr>px_bound := bound\<rparr>)), b) = (v, b1)" by fastforce
    define u where "u = proxy_d d v"
    have "rd_side v = rd_side (fst (proxy_b (proxy_w d (proxy_aw d (s\<lparr>px_bound := bound\<rparr>)), b)))" by (simp add: v)
    then have side: "rd_side u = rd_side s" by (simp add: u_def)
    then have u: "rd_ok u n" "tags_owed u = tags_owed s" "px_started u"
      using rd_side_cong [OF side] assms True by (auto simp: rd_side_def Let_def)
    have same: "map beat_tag (seen_r d (px_pins u) n) = map beat_tag (seen_r d (px_pins s) n)"
      "next_beat d (px_pins u) n = next_beat d (px_pins s) n" "seen_ar d (px_pins u) = seen_ar d (px_pins s)"
      using side by (simp_all add: seen_r_def seen_ar_def next_beat_def rd_side_def r_txn_def beat_tag_def Let_def)
    have "proxy_step e s = fst (proxy_r d (proxy_ar d u, b1))"
      using True by (simp add: proxy_step_def e proxy_edge_def v u_def)
    then show ?thesis
      using proxy_ar_ok [OF u(1,3), of d] proxy_r_ok [of "proxy_ar d u" n d b1] u(2) same e by simp
  next
    case False
    then have "xp_rvalid (px_pins s) = 0" "xp_arready (px_pins s) = 0" "px_r s = PrWait" "n = 0" "px_ar_queue s = []"
      using assms by (auto simp: rd_ok_def)
    then show ?thesis using False assms
      by (auto simp: e proxy_step_def proxy_edge_def proxy_reset_edge_def rd_ok_def tags_owed_def phase_tags_def seen_r_def
          seen_ar_def next_beat_def fires_Resolved Let_def)
  qed
qed

interpretation proxy_reads: read_slave fst proxy_step px_pins rd_ok tags_owed beat_tag ar_tags
  by unfold_locales (use proxy_step_reads in auto)

text \<open>The ids of the write bursts that are not answered yet, oldest first, whatever became of their tasks.\<close>

definition phase_ids :: "proxy_b_phase \<Rightarrow> int list" where
  "phase_ids ph = (case ph of PbWait \<Rightarrow> [] | PbCall aw data rid c \<Rightarrow> [pq_id aw] | PbDead aw e \<Rightarrow> [pq_id aw])"

definition ids_before :: "axi_proxy \<Rightarrow> int list" where
  "ids_before s = (if px_d s = PdHold then [xp_bid (px_pins s)] else []) @ map fst (px_b_ready s) @ phase_ids (px_b s)"

definition ids_after :: "axi_proxy \<Rightarrow> int list" where
  "ids_after s = map (pq_id \<circ> fst) (px_pending_b s) @ (case px_w_dead s of None \<Rightarrow> [] | Some (aw, e) \<Rightarrow> [pq_id aw]) @
     map pq_id (px_aw_queue s)"

definition ids_owed :: "axi_proxy \<Rightarrow> int list" where
  "ids_owed s = ids_before s @ ids_after s"

definition wr_ok :: "axi_proxy \<Rightarrow> bool" where
  "wr_ok s \<longleftrightarrow>
     xp_bvalid (px_pins s) = of_bool (px_d s = PdHold) \<and> xp_awready (px_pins s) = of_bool (px_started s) \<and>
     (\<not> px_started s \<longrightarrow> px_d s = PdWait \<and> ids_owed s = [])"

text \<open>A step of a task that keeps what is owed.\<close>

definition wr_keeps :: "axi_proxy \<Rightarrow> axi_proxy \<Rightarrow> bool" where
  "wr_keeps s s' \<longleftrightarrow> ids_owed s' = ids_owed s \<and> px_d s' = px_d s \<and> px_started s' = px_started s \<and>
     xp_bvalid (px_pins s') = xp_bvalid (px_pins s) \<and> xp_awready (px_pins s') = xp_awready (px_pins s) \<and>
     xp_bid (px_pins s') = xp_bid (px_pins s)"

lemma wr_keeps_trans: "wr_keeps a b \<Longrightarrow> wr_keeps b c \<Longrightarrow> wr_keeps a c"
  by (simp add: wr_keeps_def)

lemmas ids_defs = ids_owed_def ids_before_def ids_after_def phase_ids_def

lemma wr_keeps_w: "wr_keeps s (proxy_w d s)"
  by (cases "px_w_dead s") (auto simp: wr_keeps_def proxy_w_def ids_defs Let_def split: list.split sum.split)

text \<open>The loop does not look at its own position.\<close>

lemma proxy_b_next_upd: "proxy_b_next q (x\<lparr>px_pending_b := y, px_b := z\<rparr>, b) = proxy_b_next q (x, b)"
proof (induction q arbitrary: x)
  case (Cons p q)
  obtain aw data strb where p: "p = (aw, data, strb)" by (cases p)
  have "write_done aw data 0 (x\<lparr>px_pending_b := y, px_b := z\<rparr>) = (write_done aw data 0 x)\<lparr>px_pending_b := y, px_b := z\<rparr>"
    by (simp add: write_done_def)
  then show ?case using Cons.IH by (simp add: p)
qed simp

lemma wr_keeps_b_next: "px_pending_b s = q \<Longrightarrow> px_b s = PbWait \<Longrightarrow> wr_keeps s (fst (proxy_b_next q (s, b)))"
proof (induction q arbitrary: s b)
  case (Cons p q)
  obtain aw data strb where p: "p = (aw, data, strb)" by (cases p)
  show ?case
  proof (cases "px_bound s")
    case False
    let ?u = "(write_done aw data 0 s)\<lparr>px_pending_b := q\<rparr>"
    have "wr_keeps s ?u" using Cons.prems by (simp add: p wr_keeps_def ids_defs write_done_def)
    moreover have "wr_keeps ?u (fst (proxy_b_next q (?u, b)))"
      using Cons.prems by (intro Cons.IH) (simp_all add: write_done_def)
    moreover have "proxy_b_next q (?u, b) = proxy_b_next q (write_done aw data 0 s, b)"
      using proxy_b_next_upd [of q "px_b (write_done aw data 0 s)" q "write_done aw data 0 s" b] by simp
    ultimately show ?thesis using False p wr_keeps_trans by auto
  qed (use Cons.prems in \<open>auto simp: p wr_keeps_def ids_defs split: prod.split\<close>)
qed (simp add: wr_keeps_def ids_defs)

lemma wr_keeps_b: "wr_keeps s (fst (proxy_b (s, b)))"
proof (cases "px_b s")
  case (PbCall aw data rid c)
  show ?thesis
  proof (cases "broker_resume rid c b")
    case (Pair r b')
    consider (wait) c' where "r = Inr c'" | (err) e where "r = Inl (Inl e)" | (val) v where "r = Inl (Inr v)"
      by (metis sum.exhaust)
    then show ?thesis
    proof cases
      case val
      let ?u = "(write_done aw data (response_of v) s)\<lparr>px_b := PbWait\<rparr>"
      have "wr_keeps s ?u" by (simp add: wr_keeps_def ids_defs write_done_def PbCall)
      moreover have "wr_keeps ?u (fst (proxy_b_next (px_pending_b ?u) (?u, b')))" by (rule wr_keeps_b_next) simp_all
      moreover have "proxy_b_next q (?u, b') = proxy_b_next q (write_done aw data (response_of v) s, b')" for q
        using proxy_b_next_upd [of q PbWait "px_pending_b s" "write_done aw data (response_of v) s" b']
        by (simp add: write_done_def)
      moreover have "px_pending_b ?u = px_pending_b (write_done aw data (response_of v) s)" by simp
      ultimately have "wr_keeps s (fst (proxy_b_next (px_pending_b (write_done aw data (response_of v) s))
          (write_done aw data (response_of v) s, b')))" using wr_keeps_trans by metis
      then show ?thesis by (simp add: proxy_b_def PbCall Pair val Let_def)
    qed (auto simp: proxy_b_def PbCall Pair wr_keeps_def ids_defs)
  qed
next
  case PbWait
  then show ?thesis using wr_keeps_b_next [OF refl PbWait, of b] by (simp add: proxy_b_def)
qed (simp add: proxy_b_def wr_keeps_def)

text \<open>The read tasks leave the write side alone, the two other tasks add an address and take a response.\<close>

lemma read_tasks_wr_keeps: "wr_keeps s (proxy_ar d s)" "wr_keeps s (fst (proxy_r d (s, b)))"
proof -
  show "wr_keeps s (proxy_ar d s)" by (simp add: proxy_ar_def wr_keeps_def ids_defs)
  have rd: "wr_keeps s (read_done ar data resp s)" "wr_keeps s (read_done ar data resp (s\<lparr>px_ar_queue := q\<rparr>))" for ar data resp s q
    by (simp_all add: read_done_def wr_keeps_def ids_defs proxy_beat_pins_def Let_def)
  have nx: "wr_keeps s (fst (proxy_r_next q (s, b)))" for q s b
  proof (induction q arbitrary: s b)
    case (Cons ar q)
    let ?u = "read_done ar (replicate (burst_bytes ar) 0) 0 (s\<lparr>px_ar_queue := q\<rparr>)"
    have idle: "wr_keeps s ?u" by (rule rd(2))
    have loop: "wr_keeps s (fst (proxy_r_next q (?u, b)))" by (rule wr_keeps_trans [OF idle Cons.IH])
    show ?case
    proof (cases "px_bound s")
      case True
      then show ?thesis by (simp add: wr_keeps_def ids_defs split: prod.split)
    next
      case False
      then show ?thesis using idle loop by (simp add: Let_def)
    qed
  qed (simp add: wr_keeps_def ids_defs)
  show "wr_keeps s (fst (proxy_r d (s, b)))"
  proof (cases "px_r s")
    case PrWait
    then show ?thesis using nx by (simp add: proxy_r_def)
  next
    case (PrCall ar rid c)
    have "wr_keeps s (fst (proxy_r_next q (read_done ar data resp s, b')))" for q data resp b'
      using wr_keeps_trans [OF rd(1) nx] by blast
    then show ?thesis using rd(1) [of s ar]
      by (auto simp: proxy_r_def PrCall Let_def split: prod.split sum.split) (simp_all add: wr_keeps_def ids_defs)
  next
    case (PrHold ar data resp k)
    let ?s = "s\<lparr>px_pins := (px_pins s)\<lparr>xp_rvalid := 0\<rparr>\<rparr>"
    have "wr_keeps s ?s" by (simp add: wr_keeps_def ids_defs)
    then have "wr_keeps s (fst (proxy_r_next q (?s, b)))" for q using wr_keeps_trans nx by blast
    then show ?thesis
      by (auto simp: proxy_r_def PrHold Let_def) (simp_all add: wr_keeps_def ids_defs proxy_beat_pins_def)
  qed (simp add: proxy_r_def wr_keeps_def)
qed

lemma proxy_d_next_ids:
  "px_d s = PdWait \<Longrightarrow> xp_bvalid (px_pins s) = 0 \<Longrightarrow>
     ids_owed (proxy_d_next s) = ids_owed s \<and> xp_bvalid (px_pins (proxy_d_next s)) = of_bool (px_d (proxy_d_next s) = PdHold) \<and>
     xp_awready (px_pins (proxy_d_next s)) = xp_awready (px_pins s) \<and> px_started (proxy_d_next s) = px_started s"
  by (auto simp: proxy_d_next_def ids_defs split: list.split)

lemma proxy_step_writes:
  assumes "wr_ok s"
  shows "wr_ok (proxy_step e s) \<and>
    (if fires (ax_bready (fst e)) (xp_bvalid (px_pins s)) then [xp_bid (px_pins s)] else []) @ ids_owed (proxy_step e s) =
      ids_owed s @ (if fires (ax_awvalid (fst e)) (xp_awready (px_pins s)) then [int_or_zero (ax_awid (fst e))] else [])"
proof -
  obtain d bound b where e: "e = (d, bound, b)" by (cases e)
  show ?thesis
  proof (cases "px_started s")
    case started: True
    let ?new = "if fires (ax_awvalid d) (xp_awready (px_pins s)) then [int_or_zero (ax_awid d)] else []"
    define t where "t = proxy_aw d (s\<lparr>px_bound := bound\<rparr>)"
    obtain v b1 where v: "proxy_b (proxy_w d t, b) = (v, b1)" by fastforce
    have "wr_keeps t (fst (proxy_b (proxy_w d t, b)))" using wr_keeps_trans [OF wr_keeps_w wr_keeps_b] .
    then have tv: "wr_keeps t v" by (simp add: v)
    have t: "ids_owed t = ids_owed s @ ?new" "px_d t = px_d s" "px_pins t = px_pins s" "px_started t"
      using assms started by (auto simp: t_def proxy_aw_def ids_defs wr_ok_def fires_Resolved)
    define u where "u = proxy_d d v"
    have u: "(if fires (ax_bready d) (xp_bvalid (px_pins s)) then [xp_bid (px_pins s)] else []) @ ids_owed u = ids_owed s @ ?new \<and>
      xp_bvalid (px_pins u) = of_bool (px_d u = PdHold) \<and> xp_awready (px_pins u) = 1 \<and> px_started u"
    proof (cases "px_d v")
      case PdWait
      then show ?thesis using proxy_d_next_ids [OF PdWait] tv t assms started
        by (auto simp: u_def proxy_d_def wr_keeps_def wr_ok_def fires_Resolved)
    next
      case PdHold
      show ?thesis
      proof (cases "high (ax_bready d)")
        case False
        then show ?thesis using PdHold tv t assms started by (auto simp: u_def proxy_d_def wr_keeps_def wr_ok_def fires_Resolved)
      next
        case True
        let ?v = "v\<lparr>px_d := PdWait, px_pins := (px_pins v)\<lparr>xp_bvalid := 0\<rparr>\<rparr>"
        have "ids_owed v = xp_bid (px_pins v) # ids_owed ?v" using PdHold by (simp add: ids_defs)
        moreover have "proxy_d_next (v\<lparr>px_pins := (px_pins v)\<lparr>xp_bvalid := 0\<rparr>\<rparr>) = proxy_d_next ?v"
          by (simp add: proxy_d_next_def split: list.split)
        ultimately show ?thesis using PdHold True tv t assms started proxy_d_next_ids [of ?v]
          by (auto simp: u_def proxy_d_def wr_keeps_def wr_ok_def fires_Resolved)
      qed
    qed
    have "proxy_step e s = fst (proxy_r d (proxy_ar d u, b1))"
      using started by (simp add: proxy_step_def e proxy_edge_def t_def [symmetric] v u_def)
    moreover have "wr_keeps u (fst (proxy_r d (proxy_ar d u, b1)))" using wr_keeps_trans read_tasks_wr_keeps by blast
    ultimately show ?thesis using u by (auto simp: wr_ok_def wr_keeps_def e)
  next
    case False
    then show ?thesis using assms
      by (auto simp: e proxy_step_def proxy_edge_def proxy_reset_edge_def wr_ok_def ids_defs fires_Resolved Let_def)
  qed
qed

lemma proxy_bench_writes:
  "wr_ok s \<Longrightarrow> map xb_id (am_b m) @ ids_owed s = map xa_id (am_aw_seen m) \<Longrightarrow> proxy_bench es (s, m) = (s', m') \<Longrightarrow>
     map xb_id (am_b m') @ ids_owed s' = map xa_id (am_aw_seen m')"
  unfolding proxy_bench_def
proof (induction es arbitrary: s m)
  case (Cons e es)
  let ?m = "axi_mon_edge (fst e) (px_pins s) m"
  note st = proxy_step_writes [OF Cons.prems(1), of e]
  have "map xb_id (am_b ?m) @ ids_owed (proxy_step e s) = map xa_id (am_aw_seen ?m)"
    using conjunct2 [OF st] Cons.prems(2) by (auto simp: aw_txn_def split: if_splits)
  moreover have "slave_bench fst proxy_step px_pins es (proxy_step e s, ?m) = (s', m')" using Cons.prems(3) by simp
  ultimately show ?case using Cons.IH conjunct1 [OF st] by blast
qed simp

text \<open>
  C23. The proxy answers in order, whatever the device and the broker do: the write responses published so far, then those it
  still owes, carry the ids of the write addresses seen, in their order; and the read beats published, then
  those it owes, are for the read addresses seen, in their order, \<^verbatim>\<open>len + 1\<close> beats each with the address's id, numbered from 0,
  the last one marked and no other.
\<close>

theorem proxy_answers_in_order:
  "case proxy_bench es (axi_proxy_init, axi_mon_init) of (s, m) \<Rightarrow>
     map xb_id (am_b m) @ ids_owed s = map xa_id (am_aw_seen m) \<and>
     map beat_tag (am_r m) @ tags_owed s = concat (map ar_tags (am_ar_seen m))"
proof -
  obtain s m where run: "proxy_bench es (axi_proxy_init, axi_mon_init) = (s, m)" by fastforce
  have "rd_ok axi_proxy_init (am_r_beat axi_mon_init)" "wr_ok axi_proxy_init"
    "map beat_tag (am_r axi_mon_init) @ tags_owed axi_proxy_init = concat (map ar_tags (am_ar_seen axi_mon_init))"
    "map xb_id (am_b axi_mon_init) @ ids_owed axi_proxy_init = map xa_id (am_aw_seen axi_mon_init)"
    by (simp_all add: rd_ok_def wr_ok_def ids_defs tags_owed_def phase_tags_def axi_proxy_init_def axi_mon_init_def
        axi_idle_pins_def)
  then show ?thesis
    using proxy_reads.answers_in_order [OF run [unfolded proxy_bench_def]] proxy_bench_writes [OF _ _ run] run by simp
qed

end
