(* ===== verification/Memory_Path.thy ===== *)
theory Memory_Path
  imports Axi_Ddr_Proxy Fake_Gem5
begin

text \<open>
  The path of the memory traffic through the components: the AXI proxy's bursts, the broker's messages, the memory of
  \<^verbatim>\<open>fake_gem5\<close>, the completions back to the broker, and the beats of the read data.

  \<open>write_then_read\<close> composes the operations of these components for one write burst and one read burst of the same
  request, the way the tasks call them when nothing else goes on; the wire between broker and memory is the subject of
  \<^verbatim>\<open>Cosim_Transport\<close> and left out here.
\<close>

fun gem5_answers :: "obj list \<Rightarrow> obj list \<Rightarrow> fake_gem5 \<Rightarrow> (obj list \<times> fake_gem5) option" where
  "gem5_answers [] out g = Some (out, g)"
| "gem5_answers (m # ms) out g =
     (case fg_handle m out g of
        (None, out, g) \<Rightarrow> gem5_answers ms out g
      | (Some e, out, g) \<Rightarrow> None)"

definition returned :: "int \<Rightarrow> bool \<Rightarrow> broker \<Rightarrow> mem_value option" where
  "returned rid is_read b =
     (case fst (broker_resume rid (new_call is_read) b) of Inl (Inr v) \<Rightarrow> Some v | _ \<Rightarrow> None)"

text \<open>The response to the write, and the data words of the beats that answer the read.\<close>

definition write_then_read :: "axi_req \<Rightarrow> (int \<times> int) list \<Rightarrow> broker \<Rightarrow> fake_gem5 \<Rightarrow> (int \<times> int list) option" where
  "write_then_read q beats b g =
     (case assemble q beats of
        Inl e \<Rightarrow> None
      | Inr (data, strb) \<Rightarrow>
          (let (i, b) = broker_write (pq_addr q) data strb (b\<lparr>mb_sent := []\<rparr>);
               (j, b) = broker_read (pq_addr q) (int (burst_bytes q)) b
           in case gem5_answers (mb_sent b) [] g of
                None \<Rightarrow> None
              | Some (out, g) \<Rightarrow>
                  (let b = fold (\<lambda>m b. snd (broker_deliver m b)) out b
                   in case (returned i False b, returned j True b) of
                        (Some w, Some r) \<Rightarrow>
                          Some (response_of w,
                            map (\<lambda>k. int_from_bytes (beat_data q (data_of r) k)) [0 ..< nat (pq_len q + 1)])
                      | _ \<Rightarrow> None)))"

lemma msg_fields:
  "opt_str (mem_write_msg i a data strb) ''t'' = Some ''mem_write''" "item_int (mem_write_msg i a data strb) ''addr'' = Inr a"
  "item_int (mem_write_msg i a data strb) ''id'' = Inr i" "get_str (mem_write_msg i a data strb) ''data'' [] = bytes_to_hex data"
  "get_str (mem_write_msg i a data strb) ''strb'' [] = bytes_to_hex strb"
  "opt_str (mem_read_msg i a n) ''t'' = Some ''mem_read''" "item_int (mem_read_msg i a n) ''addr'' = Inr a"
  "item_int (mem_read_msg i a n) ''id'' = Inr i" "item_int (mem_read_msg i a n) ''len'' = Inr n"
  by (simp_all add: mem_write_msg_def mem_read_msg_def opt_str_def item_int_def get_str_def)

lemma handle_write_msg:
  "fg_handle (mem_write_msg i a data strb) out g =
     (None, out @ [[(''t'', JStr ''mem_resp''), (''id'', JInt i), (''resp'', JInt 0)]],
      fg_upd_ddr (ddr_write a data strb (fg_ddr g)) g)"
  by (simp add: fg_handle_def handle_mem_write_def msg_fields)

lemma handle_read_msg:
  assumes "ddr_ok (fg_ddr g)"
  shows "\<exists>ddr. fg_handle (mem_read_msg i a (int n)) out g =
     (None, out @ [[(''t'', JStr ''mem_data''), (''id'', JInt i), (''data'', JStr (bytes_to_hex (bytes_at (ddr_byte (fg_ddr g)) a n))),
        (''resp'', JInt 0)]], fg_upd_ddr ddr g)"
proof -
  obtain bs ddr where l: "ddr_read_loop a n (fg_ddr g) = (bs, ddr)" by fastforce
  then have "bs = bytes_at (ddr_byte (fg_ddr g)) a n" using ddr_read_loop_spec [OF assms] by blast
  then show ?thesis
    by (intro exI [of _ ddr]) (simp add: fg_handle_def handle_mem_read_def msg_fields ddr_read_def l)
qed

text \<open>A completion under the id of a pending call is what the call returns; deliveries under other ids do not matter.\<close>

lemma deliver_pending:
  "opt_int m ''id'' = Some k \<Longrightarrow> map_of (mb_pending b) k \<noteq> None \<Longrightarrow>
     map_of (mb_pending (snd (broker_deliver m b))) = (map_of (mb_pending b))(k \<mapsto> Some m)"
  by (auto simp: broker_deliver_def map_of_update map_of_eq_None_iff)

lemma returned_completion:
  "map_of (mb_pending b) rid = Some (Some m) \<Longrightarrow> completion is_read m = Inr v \<Longrightarrow> returned rid is_read b = Some v"
  by (simp add: returned_def broker_resume_def new_call_def DEFAULT_TIMEOUT_CYCLES_def)

lemma strb_bits_full: "strb_bits_to_bytes (2 ^ 32 - 1) 32 = replicate 32 0xFF"
  by (simp add: strb_bits_to_bytes_def upt_rec numeral_eq_Suc)

text \<open>
  C9. Memory is coherent along the whole path: a full-width write burst with all its strobes on, taken apart into a message
  by the proxy and the broker, stored by the reference memory, and a read burst of the same request after it, give the OKAY
  response and, beat for beat, the data words that were written, whatever the memory and the broker held before.
\<close>

theorem axi_write_then_read:
  assumes "pq_size q = 5" "int (length beats) = pq_len q + 1" "on_bus beats" "list_all (\<lambda>(wdata, wstrb). wstrb = 2 ^ 32 - 1) beats"
    and "broker_ok b" "ddr_ok (fg_ddr g)"
  shows "write_then_read q beats b g = Some (0, map fst beats)"
proof -
  let ?data = "lanes beats" and ?strb = "lane_strobes beats" and ?a = "pq_addr q" and ?n = "burst_bytes q"
  note asm = assemble_full [OF assms(1,2,3)]
  have n: "?n = length ?data" using burst_bytes_full [OF assms(1,2)] by simp
  let ?b0 = "b\<lparr>mb_sent := []\<rparr>"
  obtain i b1 where w: "broker_write ?a ?data ?strb ?b0 = (i, b1)" by fastforce
  obtain j b2 where r: "broker_read ?a (int ?n) b1 = (j, b2)" by fastforce
  have "broker_ok ?b0" using assms(5) by (simp add: broker_ok_def broker_ids_def)
  note i = begin_ok [OF this disjI2 [OF w]]
  note j = begin_ok [OF conjunct1 [OF conjunct2 [OF conjunct2 [OF conjunct2 [OF i]]]] disjI1 [OF r]]
  have ij: "i \<noteq> j" using i j by auto
  have sent: "mb_sent b2 = [mem_write_msg i ?a ?data ?strb, mem_read_msg j ?a (int ?n)]"
    using w r by (auto simp: broker_write_def broker_read_def broker_alloc_id_def)
  define g1 where "g1 = fg_upd_ddr (ddr_write ?a ?data ?strb (fg_ddr g)) g"
  have "0 \<notin> set ?strb"
    using assms(4) strb_bits_full by (auto simp: lane_strobes_def list_all_iff AXI_BEAT_BYTES_def)
  then have g1: "ddr_ok (fg_ddr g1)" "ddr_byte (fg_ddr g1) = put_bytes (ddr_byte (fg_ddr g)) ?a (map (\<lambda>b. (b, True)) ?data)"
    using ddr_write_full [OF _ assms(6)] by (simp_all add: g1_def fg_upd_ddr_def fg_ddr_def)
  have stored: "bytes_at (ddr_byte (fg_ddr g1)) ?a ?n = ?data"
    using bytes_at_put [of "map (\<lambda>b. (b, True)) ?data" "ddr_byte (fg_ddr g)" ?a] g1(2) n
    by (simp add: list_all_length comp_def)
  let ?m1 = "[(''t'', JStr ''mem_resp''), (''id'', JInt i), (''resp'', JInt 0)]"
  let ?m2 = "[(''t'', JStr ''mem_data''), (''id'', JInt j), (''data'', JStr (bytes_to_hex ?data)), (''resp'', JInt 0)]"
  obtain g2 where out: "gem5_answers (mb_sent b2) [] g = Some ([?m1, ?m2], g2)"
    using handle_read_msg [OF g1(1), of j ?a ?n "[?m1]"] by (auto simp: sent handle_write_msg g1_def [symmetric] stored)
  let ?b3 = "snd (broker_deliver ?m1 b2)"
  let ?b4 = "snd (broker_deliver ?m2 ?b3)"
  have ids: "opt_int ?m1 ''id'' = Some i" "opt_int ?m2 ''id'' = Some j" by (simp_all add: opt_int_def)
  have p2: "map_of (mb_pending b2) i = Some None" "map_of (mb_pending b2) j = Some None"
  proof -
    have "map_of (mb_pending b) i = None" "map_of (mb_pending b) j = None"
      using i j by (auto simp: broker_ids_def map_of_eq_None_iff)
    then show "map_of (mb_pending b2) i = Some None" "map_of (mb_pending b2) j = Some None"
      using i j ij by (auto simp: map_add_def)
  qed
  have "completion False ?m1 = Inr (WriteValue 0)" "completion True ?m2 = Inr (ReadValue ?data 0)"
    by (simp_all add: completion_def get_int_def get_str_def)
  moreover have "map_of (mb_pending ?b4) = (map_of (mb_pending b2))(i \<mapsto> Some ?m1, j \<mapsto> Some ?m2)"
    using deliver_pending [OF ids(1), of b2] deliver_pending [OF ids(2), of ?b3] p2 ij by simp
  ultimately have ret: "returned i False ?b4 = Some (WriteValue 0)" "returned j True ?b4 = Some (ReadValue ?data 0)"
    using ij by (auto intro: returned_completion)
  have "map (\<lambda>k. int_from_bytes (beat_data q ?data k)) [0 ..< nat (pq_len q + 1)] = map fst beats"
    using beat_data_full [OF assms(1,2,3)] assms(2) [symmetric] by (intro nth_equalityI) auto
  then show ?thesis
    by (simp add: write_then_read_def asm w r out ret response_of_def data_of_def)
qed

text \<open>The witness: a burst of two beats.\<close>

theorem axi_write_then_read_witness:
  "write_then_read \<lparr>pq_id = 3, pq_addr = 0x80001000, pq_len = 1, pq_size = 5\<rparr> [(0x1122, 2 ^ 32 - 1), (7, 2 ^ 32 - 1)]
     broker_init (demo_gem5 []) = Some (0, [0x1122, 7])"
proof -
  have "ddr_ok (fg_ddr (demo_gem5 []))"
    by (simp add: ddr_ok_def demo_gem5_def fg_ddr_def fake_gem5_init_def checker_init_def complete_write_def put_write_def Let_def)
  moreover have "broker_ok broker_init" by (simp add: broker_ok_def broker_ids_def broker_init_def)
  ultimately show ?thesis
    using axi_write_then_read [of "\<lparr>pq_id = 3, pq_addr = 0x80001000, pq_len = 1, pq_size = 5\<rparr>"
        "[(0x1122, 2 ^ 32 - 1), (7, 2 ^ 32 - 1)]" broker_init "demo_gem5 []"]
    by (simp add: on_bus_def)
qed

end
