(* ===== verification/Gem5_Contract.thy ===== *)
theory Gem5_Contract
  imports Snf_Agent Hnf_Checker
begin

text \<open>
  The agent meets the home node's contract: what \<^verbatim>\<open>snf_agent.py\<close> sends for a live read or write is what
  \<^verbatim>\<open>HnfChecker\<close> of \<^verbatim>\<open>fake_gem5.py\<close> accepts.

  \<open>hnf_feed\<close> hands the flits of messages to the checker the way the message handler does, up to the first error.
\<close>

fun hnf_feed :: "json list \<Rightarrow> hnf_checker \<Rightarrow> hnf_checker check" where
  "hnf_feed [] c = (None, c)"
| "hnf_feed (j # js) c =
     (let m = as_obj j; flit = get_obj m ''flit''
      in case (if opt_str m ''ch'' = Some ''rsp'' then hnf_on_rsp flit c else hnf_on_dat flit c) of
           (None, c) \<Rightarrow> hnf_feed js c
         | (Some e, c) \<Rightarrow> (Some e, c))"

section \<open>Reads\<close>

text \<open>The record of a read that the device has not answered yet, as \<^const>\<open>issue_record\<close> makes it.\<close>

definition fresh_read :: "snf_agent \<Rightarrow> int \<Rightarrow> txn_record \<Rightarrow> bool" where
  "fresh_read a k r \<longleftrightarrow>
     by_wire_id (ag_mapper a) k = Some r \<and> r_kind r = KRead \<and> r_next_dataid r = 0 \<and>
     r_size_bytes r \<in> {1, 2, 4, 8, 16, 32, 64} \<and> r_beats_left r = max 1 (r_size_bytes r div int DAT_BEAT_BYTES)"

text \<open>Agent and checker are peers, and the record is the agent's side of the request.\<close>

definition peers :: "snf_agent \<Rightarrow> txn_record \<Rightarrow> hnf_checker \<Rightarrow> bool" where
  "peers a r c \<longleftrightarrow> ag_connected a \<and> ag_sent a = [] \<and> ag_snf_id a = hc_snf_id c \<and> r_gem5_srcid r = hc_hnf_id c"

text \<open>The device's data flits for wire id \<open>k\<close>, each with 32 bytes.\<close>

definition device_data :: "int \<Rightarrow> raw_dat list \<Rightarrow> byte list list \<Rightarrow> bool" where
  "device_data k fs chunks \<longleftrightarrow> list_all2 (\<lambda>f bs. f_txnid f = k \<and> dt_data f = ints_of bs \<and> length bs = 32) fs chunks"

lemma payload_fields:
  "opt_str (flit_msg ch p) ''ch'' = Some ch" "get_obj (flit_msg ch p) ''flit'' = p"
  "get_int (dat_payload a r l d n bs) ''txnid'' 0 = r_gem5_txnid r"
  "get_bool (dat_payload a r l d n bs) ''last'' \<longleftrightarrow> l \<noteq> 0"
  by (simp_all add: flit_msg_def dat_payload_def opt_str_def get_obj_def get_int_def get_bool_def truthy.simps)

text \<open>A beat of the agent passes every check when the checker's read is where the agent's record is.\<close>

lemma dat_check_beat:
  assumes "\<not> hr_done h" "hr_size h = r_size_bytes r" "hr_beats h = r_next_dataid r"
    and "ag_snf_id a = hc_snf_id c" "r_gem5_srcid r = hc_hnf_id c"
    and "0 \<le> r_size_bytes r - r_next_dataid r * 32" "length bs = beat_length r"
  shows "dat_check (dat_payload a r l (r_next_dataid r) (beat_length r) bs) h c = Inr bs"
proof -
  have n: "int (beat_length r) = min 32 (r_size_bytes r - r_next_dataid r * 32)"
    using assms(6) by (simp add: beat_length_def DAT_BEAT_BYTES_def)
  then have cv: "int ((beat_length r + 7) div 8) = (min 32 (r_size_bytes r - r_next_dataid r * 32) + 7) div 8"
    by (simp add: zdiv_int)
  show ?thesis
    using assms n cv
    by (simp add: dat_check_def dat_payload_def dat_wants_def opt_int_def get_int_def get_str_def DAT_BEAT_BYTES_def
        BEAT_BYTES_def Let_def)
qed

text \<open>What the checker does with such a beat: it is kept, and with the last one the data is compared.\<close>

definition kept :: "hnf_read \<Rightarrow> byte list \<Rightarrow> hnf_read" where
  "kept h bs = h\<lparr>hr_beats := hr_beats h + 1, hr_data := hr_data h @ bs\<rparr>"

lemma beat_kept:
  assumes "hc_reads c (r_gem5_txnid r) = Some h" "dat_check (dat_payload a r l d n bs) h c = Inr bs"
    and "hr_beats h + 1 \<noteq> hr_beats_expected h" "l = 0"
  shows "hnf_on_dat (dat_payload a r l d n bs) c = (None, put_read (r_gem5_txnid r) (kept h bs) c)"
  using assms by (simp add: hnf_on_dat_def payload_fields kept_def Let_def)

lemma last_beat_accepted:
  assumes "hc_reads c (r_gem5_txnid r) = Some h" "dat_check (dat_payload a r l d n bs) h c = Inr bs"
    and "hr_beats h + 1 = hr_beats_expected h" "l = 1"
    and "ddr_ok (hc_ddr c)" "0 \<le> hr_size h" "hr_data h @ bs = bytes_at (ddr_byte (hc_ddr c)) (hr_addr h) (nat (hr_size h))"
  shows "\<exists>c'. hnf_on_dat (dat_payload a r l d n bs) c = (None, c') \<and> hc_completed_reads c' = hc_completed_reads c + 1 \<and>
    hc_reads c' (r_gem5_txnid r) = Some ((kept h bs)\<lparr>hr_done := True\<rparr>)"
proof -
  obtain ddr where "ddr_read (hr_addr h) (hr_size h) (hc_ddr c) = Inr (hr_data h @ bs, ddr)"
    using fake_ddr.rd_abs [OF assms(5), of "hr_addr h" "nat (hr_size h)"] assms(6,7)
    by (cases "ddr_read_loop (hr_addr h) (nat (hr_size h)) (hc_ddr c)") (simp add: ddr_read_def)
  then show ?thesis using assms(1-4) by (simp add: hnf_on_dat_def payload_fields kept_def put_read_def Let_def)
qed

lemma device_chunk: "dt_data f = ints_of bs \<Longrightarrow> length bs = 32 \<Longrightarrow> bytes_of_ints (slice (dt_data f) 0 32) = Inr bs"
  by (simp add: ints_of_def slice_def)

text \<open>
  C11. The agent meets gem5's contract for reads: when the device answers a live read of 1 to 64 bytes with its data flits,
  each beat the agent sends passes every check of the home node, and with the last one the read is complete, if the device's
  data, as far as it was asked for, is the memory's.
\<close>

theorem read_accepted_by_gem5:
  assumes "fresh_read a k r" "peers a r c" "device_data k fs chunks" "int (length fs) = r_beats_left r" "ddr_ok (hc_ddr c)"
    and "take (nat (r_size_bytes r)) (concat chunks) = bytes_at (ddr_byte (hc_ddr c)) (r_addr r) (nat (r_size_bytes r))"
  shows "\<exists>a' c'. agent_run (map TxDat fs) a = Inr a' \<and>
    hnf_feed (ag_sent a') (expect_read (r_gem5_txnid r) (r_addr r) (r_size_bytes r) c) = (None, c') \<and>
    hc_completed_reads c' = hc_completed_reads c + 1 \<and> (\<exists>h. hc_reads c' (r_gem5_txnid r) = Some h \<and> hr_done h)"
proof -
  let ?t = "r_gem5_txnid r" and ?size = "r_size_bytes r"
  let ?c = "expect_read ?t (r_addr r) ?size c"
  have rec: "by_wire_id (ag_mapper a) k = Some r" "r_kind r = KRead" "r_next_dataid r = 0"
    and left: "r_beats_left r = max 1 (?size div 32)" and size: "?size \<in> {1, 2, 4, 8, 16, 32, 64}"
    using assms(1) by (auto simp: fresh_read_def DAT_BEAT_BYTES_def)
  have peer: "ag_connected a" "ag_sent a = []" "ag_snf_id a = hc_snf_id c" "r_gem5_srcid r = hc_hnf_id c"
    using assms(2) by (auto simp: peers_def)
  have c: "hc_snf_id ?c = hc_snf_id c" "hc_hnf_id ?c = hc_hnf_id c" "hc_ddr ?c = hc_ddr c"
    "hc_completed_reads ?c = hc_completed_reads c" by (simp_all add: expect_read_def)
  obtain h where h: "hc_reads ?c ?t = Some h" "\<not> hr_done h" "hr_size h = ?size" "hr_beats h = 0" "hr_data h = []"
    "hr_addr h = r_addr r" "hr_beats_expected h = (?size + 31) div 32"
    by (rule that [of "\<lparr>hr_addr = r_addr r, hr_size = ?size, hr_beats_expected = (?size + 31) div 32, hr_beats = 0,
        hr_data = [], hr_done = False\<rparr>"]) (simp_all add: expect_read_def BEAT_BYTES_def)
  show ?thesis
  proof (cases "?size = 64")
    case False
    then have one: "?size \<le> 32" "0 < ?size" "r_beats_left r = 1" "(?size + 31) div 32 = 1" "beat_length r = nat ?size"
      using size left rec(3) by (auto simp: beat_length_def DAT_BEAT_BYTES_def)
    then obtain f where fs: "fs = [f]" using assms(4) by (cases fs) auto
    then obtain bs where bs: "chunks = [bs]" "f_txnid f = k" "dt_data f = ints_of bs" "length bs = 32"
      using assms(3) by (auto simp: device_data_def list_all2_Cons1)
    let ?d = "slice bs 0 (beat_length r)"
    let ?m = "dat_payload a r 1 (r_next_dataid r) (beat_length r) ?d"
    obtain a' where a': "on_txdat f a = Inr a'" "ag_sent a' = [JObj (flit_msg ''dat'' ?m)]"
      using on_txdat_beat [of a f r bs] rec bs(2) device_chunk [OF bs(3,4)] peer one(3) by auto
    have "dat_check ?m h ?c = Inr ?d"
      using h rec peer c one bs(4) by (intro dat_check_beat) auto
    from last_beat_accepted [OF h(1) this] obtain c' where "hnf_on_dat ?m ?c = (None, c')"
      "hc_completed_reads c' = hc_completed_reads c + 1" "hc_reads c' ?t = Some ((kept h ?d)\<lparr>hr_done := True\<rparr>)"
      using h one assms(5,6) c bs(1) by (auto simp: slice_def)
    then show ?thesis using a' by (simp add: fs payload_fields as_obj.simps)
  next
    case True
    then have two: "r_beats_left r = 2" "beat_length r = 32" using left rec(3) by (auto simp: beat_length_def DAT_BEAT_BYTES_def)
    then obtain f1 f2 where fs: "fs = [f1, f2]" using assms(4) by (cases fs; cases "tl fs") auto
    then obtain b1 b2 where bs: "chunks = [b1, b2]" "f_txnid f1 = k" "dt_data f1 = ints_of b1" "length b1 = 32"
      "f_txnid f2 = k" "dt_data f2 = ints_of b2" "length b2 = 32"
      using assms(3) by (auto simp: device_data_def list_all2_Cons1)
    let ?m1 = "dat_payload a r 0 (r_next_dataid r) (beat_length r) b1"
    obtain a1 where a1: "on_txdat f1 a = Inr a1" "ag_sent a1 = [JObj (flit_msg ''dat'' ?m1)]" "ag_connected a1"
      "ag_snf_id a1 = ag_snf_id a"
      "by_wire_id (ag_mapper a1) k = Some (r\<lparr>r_next_dataid := 1, r_beats_left := 1\<rparr>)"
      using on_txdat_beat [of a f1 r b1] rec bs(2,4) device_chunk [OF bs(3,4)] peer two by (auto simp: slice_def)
    let ?r = "r\<lparr>r_next_dataid := 1, r_beats_left := 1\<rparr>"
    have len: "beat_length ?r = 32" using True by (simp add: beat_length_def DAT_BEAT_BYTES_def)
    let ?m2 = "dat_payload a1 ?r 1 (r_next_dataid ?r) (beat_length ?r) b2"
    obtain a2 where a2: "on_txdat f2 a1 = Inr a2" "ag_sent a2 = [JObj (flit_msg ''dat'' ?m1), JObj (flit_msg ''dat'' ?m2)]"
      using on_txdat_beat [of a1 f2 ?r b2] a1 rec bs(5,7) device_chunk [OF bs(6,7)] len by (auto simp: slice_def)
    have "dat_check ?m1 h ?c = Inr b1" using h rec peer c two bs(4) True by (intro dat_check_beat) auto
    from beat_kept [OF h(1) this] have m1: "hnf_on_dat ?m1 ?c = (None, put_read ?t (kept h b1) ?c)" using h True by simp
    let ?c1 = "put_read ?t (kept h b1) ?c"
    have c1: "hc_reads ?c1 (r_gem5_txnid ?r) = Some (kept h b1)" "hc_snf_id ?c1 = hc_snf_id c" "hc_hnf_id ?c1 = hc_hnf_id c"
      "hc_ddr ?c1 = hc_ddr c" "hc_completed_reads ?c1 = hc_completed_reads c" using c by (simp_all add: put_read_def)
    have "dat_check ?m2 (kept h b1) ?c1 = Inr b2"
      using h rec peer c1 a1(4) len bs(7) True by (intro dat_check_beat) (auto simp: kept_def)
    from last_beat_accepted [OF c1(1) this] obtain c' where "hnf_on_dat ?m2 ?c1 = (None, c')"
      "hc_completed_reads c' = hc_completed_reads c + 1" "hc_reads c' ?t = Some ((kept (kept h b1) b2)\<lparr>hr_done := True\<rparr>)"
      using h c1 True assms(5,6) bs(1,4,7) by (auto simp: kept_def)
    then show ?thesis using a1(1) a2 m1 by (simp add: fs payload_fields as_obj.simps)
  qed
qed

text \<open>The witness: a read of 32 bytes from a fresh memory.\<close>

theorem read_accepted_by_gem5_witness:
  "let r = \<lparr>r_wire_id = 0, r_kind = KRead, r_gem5_srcid = 0x90, r_gem5_txnid = 5, r_addr = 0x1000, r_size_bytes = 32, r_qos = 0,
        r_orig_req = None, r_start_cycle = 0, r_fwd_dbid = 0, r_beats_left = 1, r_next_dataid = 0\<rparr>;
       a = (agent_start 0x80 0)\<lparr>ag_mapper := mapper_init\<lparr>m_records := [(0, r)]\<rparr>\<rparr>;
       f = raw_dat_default\<lparr>dt_data := ints_of (bytes_at (ddr_byte Map.empty) 0x1000 32)\<rparr>
   in \<exists>a' c'. agent_run [TxDat f] a = Inr a' \<and>
        hnf_feed (ag_sent a') (expect_read 5 0x1000 32 (checker_init 0x80 0x90 Map.empty)) = (None, c') \<and> hc_completed_reads c' = 1"
proof -
  let ?r = "\<lparr>r_wire_id = 0, r_kind = KRead, r_gem5_srcid = 0x90, r_gem5_txnid = 5, r_addr = 0x1000, r_size_bytes = 32, r_qos = 0,
        r_orig_req = None, r_start_cycle = 0, r_fwd_dbid = 0, r_beats_left = 1, r_next_dataid = 0\<rparr>"
  let ?a = "(agent_start 0x80 0)\<lparr>ag_mapper := mapper_init\<lparr>m_records := [(0, ?r)]\<rparr>\<rparr>"
  let ?bs = "bytes_at (ddr_byte Map.empty) 0x1000 32"
  let ?f = "raw_dat_default\<lparr>dt_data := ints_of ?bs\<rparr>"
  let ?c = "checker_init 0x80 0x90 Map.empty"
  have "fresh_read ?a 0 ?r" by (simp add: fresh_read_def by_wire_id_def DAT_BEAT_BYTES_def)
  moreover have "peers ?a ?r ?c" by (simp add: peers_def agent_start_def agent_init_def checker_init_def)
  moreover have "device_data 0 [?f] [?bs]" by (simp add: device_data_def raw_dat_default_def)
  moreover have "int (length [?f]) = r_beats_left ?r" "ddr_ok (hc_ddr ?c)" by (simp_all add: checker_init_def ddr_ok_def)
  moreover have "take (nat (r_size_bytes ?r)) (concat [?bs]) = bytes_at (ddr_byte (hc_ddr ?c)) (r_addr ?r) (nat (r_size_bytes ?r))"
    by (simp add: checker_init_def)
  ultimately obtain a' c' where "agent_run (map TxDat [?f]) ?a = Inr a'"
    "hnf_feed (ag_sent a') (expect_read 5 0x1000 32 ?c) = (None, c')" "hc_completed_reads c' = hc_completed_reads ?c + 1"
    using read_accepted_by_gem5 [of ?a 0 ?r ?c "[?f]" "[?bs]"] by (auto simp del: agent_run.simps)
  then show ?thesis unfolding Let_def by (intro exI [of _ a'] exI [of _ c']) (simp add: checker_init_def)
qed

section \<open>Writes\<close>

text \<open>
  C24. And for writes: the DBIDResp that the agent sends for a live write makes the home node send the data, and the Comp,
  once it has, completes the write; neither is refused.
\<close>

theorem write_accepted_by_gem5:
  assumes "by_wire_id (ag_mapper a) k = Some r" "r_wire_id r = k" "0 \<le> k" "peers a r c"
    and "f_opcode grant = OPC_DBIDRESP" "f_txnid grant = k" "f_opcode over = OPC_COMP" "f_txnid over = k"
  shows "let t = r_gem5_txnid r; a1 = on_txrsp grant a; a2 = on_txrsp over (a1\<lparr>ag_sent := []\<rparr>);
      (err1, c1) = hnf_feed (ag_sent a1) (expect_write t (r_addr r) (r_size_bytes r) c)
    in err1 = None \<and> (\<exists>w. write_ready_for_data t c1 = Some w \<and>
      (\<exists>c2. hnf_feed (ag_sent a2) (put_write t (w\<lparr>hw_phase := WaitComp\<rparr>) c1) = (None, c2) \<and>
        hc_completed_writes c2 = hc_completed_writes c + 1 \<and> (\<exists>w'. hc_writes c2 t = Some w' \<and> hw_done w')))"
proof -
  let ?t = "r_gem5_txnid r" and ?a1 = "on_txrsp grant a"
  let ?r = "r\<lparr>r_fwd_dbid := k + 1\<rparr>"
  have peer: "ag_connected a" "ag_sent a = []" "ag_snf_id a = hc_snf_id c" "r_gem5_srcid r = hc_hnf_id c"
    using assms(4) by (auto simp: peers_def)
  let ?p = "\<lambda>opcode. rsp_payload a ?r opcode"
  have a1: "ag_sent ?a1 = [JObj (flit_msg ''rsp'' (?p 6))]" "ag_connected ?a1" "ag_snf_id ?a1 = ag_snf_id a"
    "by_wire_id (ag_mapper ?a1) k = Some ?r"
    using assms peer map_of_update_record [of k _ "ag_mapper a" k]
    by (auto simp: on_txrsp_def Let_def agent_opcodes send_rsp_def send_to_gem5_def count_def with_mapper_def rsp_payload_def
        by_wire_id_def opcode_defs)
  let ?a1' = "?a1\<lparr>ag_sent := []\<rparr>"
  have a2: "ag_sent (on_txrsp over ?a1') = [JObj (flit_msg ''rsp'' (?p 4))]"
    using assms(7,8) a1 by (simp add: on_txrsp_def Let_def agent_opcodes send_rsp_def send_to_gem5_def count_def
        with_mapper_def rsp_payload_def finish_def agent_complete_def opcode_defs)
  let ?c = "expect_write ?t (r_addr r) (r_size_bytes r) c"
  have fields: "opt_int (?p opc) ''srcid'' = Some (hc_snf_id c)" "opt_int (?p opc) ''tgtid'' = Some (hc_hnf_id c)"
    "opt_int (?p opc) ''resp'' = Some 1" "opt_int (?p opc) ''respErr'' = Some 0" "opt_int (?p opc) ''pcrdtype'' = Some 0"
    "get_int (?p opc) ''txnid'' 0 = ?t" "get_int (?p opc) ''opcode'' 0 = opc" "opt_int (?p opc) ''dbid'' = Some (k + 1)"
    "get_int (?p opc) ''dbid'' 0 = k + 1" for opc
    using peer by (simp_all add: rsp_payload_def opt_int_def get_int_def)
  have ok: "rsp_field_error (?p opc) x = None" if "hc_snf_id x = hc_snf_id c" "hc_hnf_id x = hc_hnf_id c" for x opc
    using that by (simp add: rsp_field_ok fields)
  obtain w c1 where c1: "hnf_on_rsp (?p 6) ?c = (None, c1)" "hc_writes c1 ?t = Some w" "hw_phase w = WaitData"
    "hw_dbid w = Some (k + 1)" "hc_snf_id c1 = hc_snf_id c" "hc_hnf_id c1 = hc_hnf_id c"
    "hc_completed_writes c1 = hc_completed_writes c"
    using assms(3) ok [of ?c 6] by (simp add: hnf_on_rsp_def fields expect_write_def put_write_def)
  let ?c1 = "put_write ?t (w\<lparr>hw_phase := WaitComp\<rparr>) c1"
  have "rsp_field_error (?p 4) ?c1 = None" using c1 by (intro ok) (simp_all add: put_write_def)
  then have "\<exists>c2. hnf_on_rsp (?p 4) ?c1 = (None, c2) \<and> hc_completed_writes c2 = hc_completed_writes c + 1 \<and>
      (\<exists>w'. hc_writes c2 ?t = Some w' \<and> hw_done w')"
    using c1 by (simp add: hnf_on_rsp_def fields put_write_def complete_write_def)
  then show ?thesis
    using c1 by (auto simp: Let_def a1(1) a2 payload_fields as_obj.simps write_ready_for_data_def)
qed

theorem write_accepted_by_gem5_witness:
  "let r = \<lparr>r_wire_id = 0, r_kind = KWrite, r_gem5_srcid = 0x90, r_gem5_txnid = 5, r_addr = 0x1000, r_size_bytes = 64, r_qos = 0,
        r_orig_req = None, r_start_cycle = 0, r_fwd_dbid = 0, r_beats_left = 2, r_next_dataid = 0\<rparr>;
       a = (agent_start 0x80 0)\<lparr>ag_mapper := mapper_init\<lparr>m_records := [(0, r)]\<rparr>\<rparr>;
       a1 = on_txrsp (raw_rsp_default\<lparr>f_opcode := OPC_DBIDRESP\<rparr>) a
   in \<exists>c1 w. hnf_feed (ag_sent a1) (expect_write 5 0x1000 64 (checker_init 0x80 0x90 Map.empty)) = (None, c1) \<and>
        write_ready_for_data 5 c1 = Some w"
proof -
  let ?r = "\<lparr>r_wire_id = 0, r_kind = KWrite, r_gem5_srcid = 0x90, r_gem5_txnid = 5, r_addr = 0x1000, r_size_bytes = 64, r_qos = 0,
        r_orig_req = None, r_start_cycle = 0, r_fwd_dbid = 0, r_beats_left = 2, r_next_dataid = 0\<rparr>"
  let ?a = "(agent_start 0x80 0)\<lparr>ag_mapper := mapper_init\<lparr>m_records := [(0, ?r)]\<rparr>\<rparr>"
  let ?rsp = "\<lambda>opc. raw_rsp_default\<lparr>f_opcode := opc\<rparr>"
  have "by_wire_id (ag_mapper ?a) 0 = Some ?r" by (simp add: by_wire_id_def)
  moreover have "peers ?a ?r (checker_init 0x80 0x90 Map.empty)"
    by (simp add: peers_def agent_start_def agent_init_def checker_init_def)
  ultimately show ?thesis
    using write_accepted_by_gem5 [of ?a 0 ?r "checker_init 0x80 0x90 Map.empty" "?rsp OPC_DBIDRESP" "?rsp OPC_COMP"]
    unfolding Let_def by (auto simp: raw_rsp_default_def split: prod.splits)
qed

end
