(* ===== verification/Message_Types.thy ===== *)
theory Message_Types
  imports Cosim_Runtime Fake_Gem5
begin

text \<open>
  The message types of the protocol, as the table at the head of \<^verbatim>\<open>cosim_protocol.py\<close> and its lists of flit fields give
  them, for either sender: which messages it may send, and the fields of each with the JSON type they have.

  The theorems are a type soundness of the two ends: each end sends well-typed messages only, and an end that receives
  well-typed messages only is not brought down by one.
\<close>

section \<open>The schema\<close>

datatype side = Tb | Gem5

text \<open>A natural number is what a length is.\<close>

datatype field_type = TInt | TNat | TBool | TFloat | TText | THex

definition is_hex :: "string \<Rightarrow> bool" where
  "is_hex s = (case fromhex s of Inl e \<Rightarrow> False | Inr bs \<Rightarrow> True)"

fun has_type :: "field_type \<Rightarrow> json \<Rightarrow> bool" where
  "has_type TInt v = (case v of JInt i \<Rightarrow> True | _ \<Rightarrow> False)"
| "has_type TNat v = (case v of JInt i \<Rightarrow> 0 \<le> i | _ \<Rightarrow> False)"
| "has_type TBool v = (case v of JBool b \<Rightarrow> True | _ \<Rightarrow> False)"
| "has_type TFloat v = (case v of JFloat l \<Rightarrow> True | _ \<Rightarrow> False)"
| "has_type TText v = (case v of JStr s \<Rightarrow> True | _ \<Rightarrow> False)"
| "has_type THex v = (case v of JStr s \<Rightarrow> is_hex s | _ \<Rightarrow> False)"

definition fields_ok :: "(string \<times> field_type) list \<Rightarrow> obj \<Rightarrow> bool" where
  "fields_ok schema kvs = list_all2 (\<lambda>(k, ty) (k', v). k' = k \<and> has_type ty v) schema kvs"

fun MESSAGE_FIELDS :: "side \<Rightarrow> (string \<times> (string \<times> field_type) list) list" where
  "MESSAGE_FIELDS Gem5 =
     [(''hello'', [(''ver'', TInt), (''quantum_cycles'', TInt), (''clk_period_ns'', TFloat), (''snf_id'', TInt), (''hnf_id'', TInt)]),
      (''mem_data'', [(''id'', TInt), (''data'', THex), (''resp'', TInt)]),
      (''mem_resp'', [(''id'', TInt), (''resp'', TInt)]),
      (''bypass_read'', [(''pkt'', TInt), (''addr'', TInt), (''len'', TNat)]),
      (''bypass_write'', [(''pkt'', TInt), (''addr'', TInt), (''data'', THex), (''strb'', THex)]),
      (''sync'', [(''cycle'', TInt), (''tick'', TInt)]),
      (''bye'', [(''reason'', TText)])]"
| "MESSAGE_FIELDS Tb =
     [(''hello_ack'', [(''ver'', TInt), (''clk_period_ns'', TFloat)]),
      (''mem_read'', [(''id'', TInt), (''addr'', TInt), (''len'', TNat)]),
      (''mem_write'', [(''id'', TInt), (''addr'', TInt), (''data'', THex), (''strb'', THex)]),
      (''bypass_resp'', [(''pkt'', TInt), (''data'', THex), (''resp'', TInt)]),
      (''ack'', [(''cycle'', TInt)]),
      (''bye'', [(''reason'', TText)])]"

text \<open>The flits: the fields of the structure of each channel a side sends on.\<close>

definition flit_field_type :: "string \<Rightarrow> field_type" where
  "flit_field_type k =
     (if k \<in> set DAT_BYTE_FIELDS then THex else if k \<in> {''expCompAck'', ''traceTag''} then TBool else TInt)"

fun FLIT_FIELDS :: "side \<Rightarrow> (string \<times> string list) list" where
  "FLIT_FIELDS Gem5 = [(''req'', REQ_FIELDS), (''dat'', DAT_FIELDS)]"
| "FLIT_FIELDS Tb = [(''rsp'', RSP_FIELDS), (''dat'', DAT_FIELDS)]"

fun flit_dir :: "side \<Rightarrow> string" where
  "flit_dir Gem5 = ''g2t''"
| "flit_dir Tb = ''t2g''"

definition flit_schema :: "string list \<Rightarrow> (string \<times> field_type) list" where
  "flit_schema names = map (\<lambda>k. (k, flit_field_type k)) names"

definition flit_ok :: "side \<Rightarrow> obj \<Rightarrow> bool" where
  "flit_ok s kvs =
     list_ex (\<lambda>(ch, names).
         let payload = get_obj kvs ''flit''
         in kvs = [(''ch'', JStr ch), (''dir'', JStr (flit_dir s)), (''flit'', JObj payload)] \<and>
            fields_ok (flit_schema names) payload)
       (FLIT_FIELDS s)"

definition msg_ok :: "side \<Rightarrow> obj \<Rightarrow> bool" where
  "msg_ok s m =
     (case m of
        (k, JStr kind) # kvs \<Rightarrow>
          k = ''t'' \<and>
          (if kind = ''flit'' then flit_ok s kvs
           else case map_of (MESSAGE_FIELDS s) kind of None \<Rightarrow> False | Some schema \<Rightarrow> fields_ok schema kvs)
      | _ \<Rightarrow> False)"

definition sent_ok :: "side \<Rightarrow> json list \<Rightarrow> bool" where
  "sent_ok s ms = list_all (\<lambda>m. case m of JObj kvs \<Rightarrow> msg_ok s kvs | _ \<Rightarrow> False) ms"

text \<open>What a receiver is handed: what the other side sent, or its own reader's notice that the peer has closed.\<close>

definition arrives :: "side \<Rightarrow> obj \<Rightarrow> bool" where
  "arrives s m \<longleftrightarrow> m = closed_msg \<or> msg_ok s m"

section \<open>Reading a well-typed message\<close>

lemma has_type_iff [simp]:
  "has_type TInt v \<longleftrightarrow> (\<exists>i. v = JInt i)" "has_type TNat v \<longleftrightarrow> (\<exists>i. v = JInt i \<and> 0 \<le> i)"
  "has_type TBool v \<longleftrightarrow> (\<exists>b. v = JBool b)" "has_type TFloat v \<longleftrightarrow> (\<exists>l. v = JFloat l)"
  "has_type TText v \<longleftrightarrow> (\<exists>s. v = JStr s)" "has_type THex v \<longleftrightarrow> (\<exists>s. v = JStr s \<and> is_hex s)"
  by (cases v; simp)+

declare has_type.simps [simp del]

lemma is_hex_bytes [simp]: "is_hex (bytes_to_hex bs)" "is_hex []"
  by (simp_all add: is_hex_def)

lemma is_hexE: "is_hex s \<Longrightarrow> \<exists>bs. fromhex s = Inr bs"
  by (cases "fromhex s") (simp_all add: is_hex_def)

lemma fields_ok_Nil [simp]: "fields_ok [] kvs \<longleftrightarrow> kvs = []"
  by (simp add: fields_ok_def)

lemma fields_ok_Cons [simp]: "fields_ok ((k, ty) # sch) kvs \<longleftrightarrow> (\<exists>v r. kvs = (k, v) # r \<and> has_type ty v \<and> fields_ok sch r)"
  by (auto simp: fields_ok_def list_all2_Cons1)

lemma fields_ok_lookup:
  "fields_ok sch kvs \<Longrightarrow> map_of sch k = Some ty \<Longrightarrow> \<exists>v. map_of kvs k = Some v \<and> has_type ty v"
  by (induction sch arbitrary: kvs) (auto split: if_splits)

lemma sent_ok_simps [simp]:
  "sent_ok s []" "sent_ok s (m # ms) \<longleftrightarrow> (\<exists>kvs. m = JObj kvs \<and> msg_ok s kvs) \<and> sent_ok s ms"
  "sent_ok s (ms @ ns) \<longleftrightarrow> sent_ok s ms \<and> sent_ok s ns" "sent_ok s (map JObj os) \<longleftrightarrow> list_all (msg_ok s) os"
  by (auto simp: sent_ok_def list.pred_map comp_def split: json.split)

lemma msg_ok_Tb_cases [consumes 1, case_names hello_ack rsp dat mem_read mem_write bypass_resp ack bye]:
  assumes "msg_ok Tb m"
  obtains ver clk where "m = [(''t'', JStr ''hello_ack''), (''ver'', JInt ver), (''clk_period_ns'', JFloat clk)]"
  | p where "m = flit_msg ''rsp'' p" "fields_ok (flit_schema RSP_FIELDS) p"
  | p where "m = flit_msg ''dat'' p" "fields_ok (flit_schema DAT_FIELDS) p"
  | i a n where "m = [(''t'', JStr ''mem_read''), (''id'', JInt i), (''addr'', JInt a), (''len'', JInt n)]" "0 \<le> n"
  | i a d s where "m = [(''t'', JStr ''mem_write''), (''id'', JInt i), (''addr'', JInt a), (''data'', JStr d), (''strb'', JStr s)]"
      "is_hex d" "is_hex s"
  | k d r where "m = [(''t'', JStr ''bypass_resp''), (''pkt'', JInt k), (''data'', JStr d), (''resp'', JInt r)]" "is_hex d"
  | c where "m = ack_msg c"
  | r where "m = bye_msg r"
proof -
  obtain kind kvs where m: "m = (''t'', JStr kind) # kvs"
    using assms by (auto simp: msg_ok_def split: list.splits prod.splits json.splits)
  show thesis
  proof (cases "kind = ''flit''")
    case True
    then have "flit_ok Tb kvs" using assms by (simp add: msg_ok_def m)
    then show thesis
      using that(2,3) by (auto simp: flit_ok_def m True flit_msg_def Let_def)
  next
    case False
    then obtain sch where s: "map_of (MESSAGE_FIELDS Tb) kind = Some sch" "fields_ok sch kvs"
      using assms by (auto simp: msg_ok_def m split: option.splits)
    from s(1) consider "kind = ''hello_ack''" | "kind = ''mem_read''" | "kind = ''mem_write''" | "kind = ''bypass_resp''"
      | "kind = ''ack''" | "kind = ''bye''" by (auto split: if_splits)
    then show thesis
      by cases (use s m that in \<open>auto simp: ack_msg_def bye_msg_def\<close>)
  qed
qed

lemma msg_ok_Gem5_cases [consumes 1, case_names hello req dat mem_data mem_resp bypass_read bypass_write sync bye]:
  assumes "msg_ok Gem5 m"
  obtains ver q clk snf hnf where "m = [(''t'', JStr ''hello''), (''ver'', JInt ver), (''quantum_cycles'', JInt q),
      (''clk_period_ns'', JFloat clk), (''snf_id'', JInt snf), (''hnf_id'', JInt hnf)]"
  | p where "m = g2t_flit ''req'' p" "fields_ok (flit_schema REQ_FIELDS) p"
  | p where "m = g2t_flit ''dat'' p" "fields_ok (flit_schema DAT_FIELDS) p"
  | i d r where "m = [(''t'', JStr ''mem_data''), (''id'', JInt i), (''data'', JStr d), (''resp'', JInt r)]" "is_hex d"
  | i r where "m = [(''t'', JStr ''mem_resp''), (''id'', JInt i), (''resp'', JInt r)]"
  | k a n where "m = [(''t'', JStr ''bypass_read''), (''pkt'', JInt k), (''addr'', JInt a), (''len'', JInt n)]" "0 \<le> n"
  | k a d s where "m = [(''t'', JStr ''bypass_write''), (''pkt'', JInt k), (''addr'', JInt a), (''data'', JStr d), (''strb'', JStr s)]"
      "is_hex d" "is_hex s"
  | c t where "m = [(''t'', JStr ''sync''), (''cycle'', JInt c), (''tick'', JInt t)]"
  | r where "m = bye_msg r"
proof -
  obtain kind kvs where m: "m = (''t'', JStr kind) # kvs"
    using assms by (auto simp: msg_ok_def split: list.splits prod.splits json.splits)
  show thesis
  proof (cases "kind = ''flit''")
    case True
    then have "flit_ok Gem5 kvs" using assms by (simp add: msg_ok_def m)
    then show thesis
      using that(2,3) by (auto simp: flit_ok_def m True g2t_flit_def Let_def)
  next
    case False
    then obtain sch where s: "map_of (MESSAGE_FIELDS Gem5) kind = Some sch" "fields_ok sch kvs"
      using assms by (auto simp: msg_ok_def m split: option.splits)
    from s(1) consider "kind = ''hello''" | "kind = ''mem_data''" | "kind = ''mem_resp''" | "kind = ''bypass_read''"
      | "kind = ''bypass_write''" | "kind = ''sync''" | "kind = ''bye''" by (auto split: if_splits)
    then show thesis
      by cases (use s m that in \<open>auto simp: bye_msg_def\<close>)
  qed
qed

text \<open>The fields of flits.\<close>

lemma flit_field:
  assumes "fields_ok (flit_schema names) p" "k \<in> set names"
  shows "\<exists>v. map_of p k = Some v \<and> has_type (flit_field_type k) v"
proof -
  have "map_of (flit_schema names) k = Some (flit_field_type k)"
    using assms(2) by (induction names) (auto simp: flit_schema_def)
  then show ?thesis using fields_ok_lookup [OF assms(1)] by blast
qed

lemma flit_int:
  "fields_ok (flit_schema names) p \<Longrightarrow> k \<in> set names \<Longrightarrow> flit_field_type k = TInt \<Longrightarrow> \<exists>i. opt_int p k = Some i"
  using flit_field [of names p k] by (auto simp: opt_int_def)

lemma flit_hex:
  "fields_ok (flit_schema names) p \<Longrightarrow> k \<in> set names \<Longrightarrow> k \<in> set DAT_BYTE_FIELDS \<Longrightarrow> \<exists>bs. fromhex (get_str p k []) = Inr bs"
  using flit_field [of names p k] by (auto simp: get_str_def flit_field_type_def intro: is_hexE)

section \<open>The testbench\<close>

text \<open>What the agent and the broker send.\<close>

lemmas field_lists = REQ_FIELDS_def RSP_FIELDS_def DAT_FIELDS_def DAT_BYTE_FIELDS_def flit_schema_def flit_field_type_def

lemma flit_msg_ok:
  "fields_ok (flit_schema RSP_FIELDS) p \<Longrightarrow> msg_ok Tb (flit_msg ''rsp'' p)"
  "fields_ok (flit_schema DAT_FIELDS) p \<Longrightarrow> msg_ok Tb (flit_msg ''dat'' p)"
  by (simp_all add: msg_ok_def flit_msg_def flit_ok_def get_obj_def Let_def)

lemma rsp_payload_ok: "msg_ok Tb (flit_msg ''rsp'' (rsp_payload a r opcode))"
  by (rule flit_msg_ok) (simp add: rsp_payload_def field_lists)

lemma dat_payload_ok: "msg_ok Tb (flit_msg ''dat'' (dat_payload a r l i n data))"
  by (rule flit_msg_ok) (simp add: dat_payload_def field_lists)

lemma send_to_gem5_ok: "sent_ok Tb (ag_sent a) \<Longrightarrow> msg_ok Tb m \<Longrightarrow> sent_ok Tb (ag_sent (send_to_gem5 m a))"
  by (simp add: send_to_gem5_def)

lemma agent_step_ok:
  assumes "sent_ok Tb (ag_sent a)" "agent_step e a = Inr a'"
  shows "sent_ok Tb (ag_sent a')"
proof (cases e)
  case (GemDat p)
  have "handle_gem5_dat p a = Inr a'" using assms(2) GemDat by simp
  then show ?thesis unfolding handle_gem5_dat_def Let_def
    by (elim and_then_Inr) (use assms(1) in \<open>auto simp: count_def elim!: and_then_Inr split: option.splits\<close>)
next
  case (TxRsp f)
  have "sent_ok Tb (ag_sent (on_txrsp f a))"
    using assms(1) rsp_payload_ok
    by (auto simp: on_txrsp_def retry_ack_sent pcrd_grant_sent send_rsp_def send_to_gem5_def count_def with_mapper_def Let_def
        split: option.split)
  then show ?thesis using assms(2) TxRsp by simp
next
  case (TxDat f)
  have "on_txdat f a = Inr a'" using assms(2) TxDat by simp
  then show ?thesis
    using assms(1) dat_payload_ok
    by (auto simp: on_txdat_def Let_def send_to_gem5_def count_def with_mapper_def elim!: and_then_Inr
        split: option.splits if_splits)
qed (use assms in \<open>auto simp: agent_next_txn_def agent_on_cycle_def handle_gem5_req_def count_def with_mapper_def
    split: list.splits\<close>)

lemma broker_sends_ok:
  "0 \<le> n \<Longrightarrow> list_all (msg_ok Tb) (mb_sent b) \<Longrightarrow> broker_read a n b = (i, b') \<Longrightarrow> list_all (msg_ok Tb) (mb_sent b')"
  "list_all (msg_ok Tb) (mb_sent b) \<Longrightarrow> broker_write a d s b = (i, b') \<Longrightarrow> list_all (msg_ok Tb) (mb_sent b')"
  by (auto simp: broker_read_def broker_write_def broker_alloc_id_def mem_read_msg_def mem_write_msg_def msg_ok_def)

lemma runtime_msgs_ok:
  "msg_ok Tb (ack_msg c)" "msg_ok Tb (runtime_bye rt)" "msg_ok Tb (hello_ack_msg rt)" "msg_ok Tb (bypass_resp_msg k v)"
  by (simp_all add: ack_msg_def runtime_bye_def hello_ack_msg_def bypass_resp_msg_def msg_ok_def split: mem_value.split)

text \<open>A completion that its call can take, a task that can start, and the calls of the tasks: each has an entry of its own.\<close>

definition completion_ok :: "obj \<Rightarrow> bool" where
  "completion_ok m \<longleftrightarrow> is_hex (get_str m ''data'' [])"

fun task_ok :: "bypass_task \<Rightarrow> bool" where
  "task_ok (StartRead m) \<longleftrightarrow> msg_ok Gem5 m \<and> opt_str m ''t'' = Some ''bypass_read''"
| "task_ok (StartWrite m) \<longleftrightarrow> msg_ok Gem5 m \<and> opt_str m ''t'' = Some ''bypass_write''"
| "task_ok (WaitMem k i c) = True"

definition calls_ok :: "broker \<Rightarrow> bypass_task list \<Rightarrow> bool" where
  "calls_ok b ts \<longleftrightarrow> broker_ok b \<and> list_all task_ok ts \<and> distinct (concat (map task_ids ts)) \<and>
     set (concat (map task_ids ts)) \<subseteq> broker_ids b \<and>
     (\<forall>i m. map_of (mb_pending b) i = Some (Some m) \<longrightarrow> completion_ok m)"

definition rt_typed :: "runtime \<Rightarrow> bool" where
  "rt_typed rt \<longleftrightarrow> rt_clean rt \<and> sent_ok Tb (rt_sent rt) \<and> \<not> rt_dispatcher_dead rt \<and> calls_ok (rt_broker rt) (rt_tasks rt)"

lemma rt_typed_agent:
  assumes "rt_typed rt" "agent_step e (rt_agent rt) = Inr a"
  shows "rt_typed (put_agent a rt)"
proof -
  have "sent_ok Tb (ag_sent (rt_agent rt))" using assms(1) by (simp add: rt_typed_def rt_clean_def)
  from agent_step_ok [OF this assms(2)] show ?thesis
    using assms(1) by (simp add: rt_typed_def rt_clean_def put_agent_def)
qed

text \<open>Only identifiers and entries of the broker matter.\<close>

lemma calls_ok_put: "calls_ok (b\<lparr>mb_sent := ms\<rparr>) ts = calls_ok b ts"
  by (simp add: calls_ok_def broker_ok_def broker_ids_def)

lemma rt_typed_broker:
  assumes "rt_typed rt" "list_all (msg_ok Tb) (mb_sent b)" "calls_ok b ts"
  shows "rt_typed (put_broker b (rt\<lparr>rt_tasks := ts\<rparr>))"
  using assms by (simp add: rt_typed_def rt_clean_def put_broker_def calls_ok_put)

lemma deliver_ok:
  assumes "calls_ok b ts" "completion_ok m" "mb_sent b = []"
  shows "calls_ok (snd (broker_deliver m b)) ts \<and> mb_sent (snd (broker_deliver m b)) = []"
proof (cases "\<exists>i. opt_int m ''id'' = Some i \<and> i \<in> broker_ids b")
  case True
  then obtain i where i: "opt_int m ''id'' = Some i" "i \<in> broker_ids b" by blast
  then have "broker_deliver m b = (True, b\<lparr>mb_pending := AList.update i (Some m) (mb_pending b)\<rparr>)"
    by (simp add: broker_deliver_def broker_ids_def)
  moreover have "insert i (broker_ids b) = broker_ids b" using i by blast
  ultimately show ?thesis
    using assms i by (auto simp: calls_ok_def broker_ok_def broker_ids_def update_conv' distinct_update)
next
  case False
  then have "broker_deliver m b = (False, b)" by (auto simp: broker_deliver_def broker_ids_def split: option.split)
  then show ?thesis using assms by simp
qed

lemma fromhex_ff: "fromhex (concat (replicate n ''ff'')) = Inr (replicate n 0xFF)"
  by (induction n) (simp_all add: hex_val_def is_space_def)

lemma handle_dat_total:
  assumes "fields_ok (flit_schema DAT_FIELDS) p"
  shows "\<exists>a'. handle_gem5_dat p a = Inr a'"
proof -
  obtain d b where d: "fromhex (get_str p ''data'' []) = Inr d" and b: "fromhex (get_str p ''byteEnable'' []) = Inr b"
    using flit_hex [OF assms, of "''data''"] flit_hex [OF assms, of "''byteEnable''"]
    by (auto simp: DAT_FIELDS_def DAT_BYTE_FIELDS_def)
  obtain e where "fromhex (let be = get_str p ''byteEnable'' [] in if be \<noteq> [] then be else concat (replicate 64 ''ff'')) = Inr e"
    using b fromhex_ff by (cases "get_str p ''byteEnable'' [] = []") simp_all
  then show ?thesis
    by (simp add: handle_gem5_dat_def dat_from_payload_def d ints_of_def Let_def split: option.split)
qed

lemma route_typed:
  assumes "rt_typed rt" "msg_ok Gem5 m"
  shows "\<exists>rt'. route m rt = Inr rt' \<and> rt_typed rt'"
proof -
  have clean: "mb_sent (rt_broker rt) = []" and calls: "calls_ok (rt_broker rt) (rt_tasks rt)"
    using assms(1) by (simp_all add: rt_typed_def rt_clean_def)
  have mem: "\<exists>rt'. Inr (put_broker (snd (broker_deliver m (rt_broker rt))) rt) = Inr rt' \<and> rt_typed rt'" if "completion_ok m"
    using rt_typed_broker [OF assms(1), of "snd (broker_deliver m (rt_broker rt))" "rt_tasks rt"] deliver_ok [OF calls that clean]
    by simp
  have frame: "rt_typed (rt\<lparr>rt_sync_cycle := c, rt_sync_seen := True\<rparr>)"
    "rt_typed (rt\<lparr>rt_done := True, rt_exit_reason := x, rt_sync_seen := True\<rparr>)" for c x
    using assms(1) by (simp_all add: rt_typed_def rt_clean_def)
  have task: "rt_typed (rt\<lparr>rt_tasks := rt_tasks rt @ [t]\<rparr>)" if "task_ok t" "task_ids t = []" for t
    using assms(1) that by (simp add: rt_typed_def rt_clean_def calls_ok_def)
  from assms(2) show ?thesis
  proof (cases rule: msg_ok_Gem5_cases)
    case (req p)
    have "rt_typed (put_agent (handle_gem5_req p (rt_agent rt)) rt)"
      by (rule rt_typed_agent [OF assms(1), of "GemReq p"]) simp
    then show ?thesis
      by (simp add: req g2t_flit_def route_def route_flit_def opt_str_def get_str_def get_obj_def)
  next
    case (dat p)
    obtain a where a: "handle_gem5_dat p (rt_agent rt) = Inr a" using handle_dat_total [OF dat(2)] by blast
    then have "rt_typed (put_agent a rt)" by (intro rt_typed_agent [OF assms(1), of "GemDat p"]) simp
    then show ?thesis using a
      by (simp add: dat g2t_flit_def route_def route_flit_def opt_str_def get_str_def get_obj_def)
  next
    case (mem_data i d r)
    then show ?thesis using mem by (simp add: route_def opt_str_def completion_ok_def get_str_def)
  next
    case (mem_resp i r)
    then show ?thesis using mem by (simp add: route_def opt_str_def completion_ok_def get_str_def)
  next
    case (bypass_read k a n)
    then show ?thesis using task [of "StartRead m"] assms(2) by (simp add: route_def opt_str_def)
  next
    case (bypass_write k a d s)
    then show ?thesis using task [of "StartWrite m"] assms(2) by (simp add: route_def opt_str_def)
  qed (use assms(1) frame in \<open>simp_all add: route_def opt_str_def bye_msg_def Let_def\<close>)
qed

lemma dispatch_typed:
  assumes "rt_typed rt" "arrives Gem5 m"
  shows "rt_typed (dispatcher_turn m rt)"
proof (cases "m = closed_msg")
  case True
  then show ?thesis
    using assms(1) by (simp add: dispatcher_turn_def route_def closed_msg_def opt_str_def rt_typed_def rt_clean_def)
next
  case False
  then have "msg_ok Gem5 m" using assms(2) by (simp add: arrives_def)
  from route_typed [OF assms(1) this] assms(1) show ?thesis by (auto simp: dispatcher_turn_def)
qed

text \<open>The barrier loop changes nothing but its own fields and what is sent.\<close>

lemma rt_typed_send: "rt_typed rt \<Longrightarrow> msg_ok Tb m \<Longrightarrow> rt_typed (rt_send m rt)"
  by (simp add: rt_typed_def rt_send_def rt_clean_def)

lemma rt_typed_frame:
  "rt_typed (rt\<lparr>rt_phase := p\<rparr>) = rt_typed rt" "rt_typed (rt\<lparr>rt_clk := c\<rparr>) = rt_typed rt"
  "rt_typed (rt\<lparr>rt_syncs_acked := n\<rparr>) = rt_typed rt" "rt_typed (rt\<lparr>rt_cycles_run := n\<rparr>) = rt_typed rt"
  "rt_typed (rt\<lparr>rt_sync_seen := s\<rparr>) = rt_typed rt" "rt_typed (rt\<lparr>rt_exit_reason := x, rt_done := d\<rparr>) = rt_typed rt"
  "rt_typed (rt\<lparr>rt_clk := c, rt_phase := p\<rparr>) = rt_typed rt" "rt_typed (rt\<lparr>rt_bypass_served := n\<rparr>) = rt_typed rt"
  by (simp_all add: rt_typed_def rt_clean_def)

lemma barrier_typed:
  assumes "rt_typed rt"
  shows "rt_typed (barrier_turn rt)"
proof -
  have ack: "rt_typed (acknowledge rt)" if "rt_typed rt" for rt
    using rt_typed_send [OF that runtime_msgs_ok(1)] by (simp add: acknowledge_def Let_def rt_typed_frame)
  have fin: "rt_typed (barrier_finish rt)" if "rt_typed rt" for rt
    unfolding barrier_finish_def by (rule rt_typed_send [OF _ runtime_msgs_ok(2)]) (simp add: rt_typed_frame that)
  have next_ok: "rt_typed (next_cycle n rt)" if "rt_typed rt" for n rt
    using that by (simp add: next_cycle_def rt_typed_frame)
  have wake_ok: "rt_typed (wake rt)" if "rt_typed rt" for rt
    using that ack fin next_ok by (simp add: wake_def Let_def park_or_finish_def rt_typed_frame)
  have top: "rt_typed (barrier_top rt)" if "rt_typed rt" for rt
    using that fin wake_ok by (simp add: barrier_top_def rt_typed_frame)
  have "rt_typed (put_agent (agent_on_cycle (rt_agent rt)) rt)"
    by (rule rt_typed_agent [OF assms, of ClockCycle]) simp
  then have "rt_typed (end_cycle n rt)" for n
    using ack top next_ok by (simp add: end_cycle_def Let_def rt_typed_frame)
  then show ?thesis
    using assms top wake_ok
    by (simp add: barrier_turn_def parked_turn_def rt_typed_frame split: barrier_phase.split)
qed

text \<open>Tasks: one that starts makes a call with an identifier of its own.\<close>

lemma calls_ok_start:
  assumes "calls_ok b (xs @ t # ys)" "task_ids t = []" "broker_read a n b = (i, b') \<or> broker_write a' d s b = (i, b')"
  shows "calls_ok b' (xs @ WaitMem k i c # ys)"
proof -
  note b = begin_ok [of b a n i b' a' d s] assms(3)
  have "broker_ok b" using assms(1) by (simp add: calls_ok_def)
  with b have ok: "i \<notin> broker_ids b" "broker_ids b' = insert i (broker_ids b)" "broker_ok b'"
    "mb_pending b' = mb_pending b @ [(i, None)]" by blast+
  have "\<forall>j m. map_of (mb_pending b') j = Some (Some m) \<longrightarrow> completion_ok m"
    using assms(1) by (auto simp: ok(4) map_add_def calls_ok_def split: option.splits if_splits)
  then show ?thesis
    using assms(1,2) ok(1-3) by (auto simp: calls_ok_def)
qed

lemma bypass_start:
  assumes "task_ok t" "task_ids t = []" "calls_ok b (xs @ t # ys)" "list_all (msg_ok Tb) (mb_sent b)"
  shows "\<exists>k i c b'. (case t of StartRead m \<Rightarrow> start_bypass_read m b | StartWrite m \<Rightarrow> start_bypass_write m b
      | WaitMem k i c \<Rightarrow> Inl KeyError) = Inr (WaitMem k i c, b') \<and>
    calls_ok b' (xs @ WaitMem k i c # ys) \<and> list_all (msg_ok Tb) (mb_sent b')"
proof (cases t)
  case (StartRead m)
  then have "msg_ok Gem5 m" "opt_str m ''t'' = Some ''bypass_read''" using assms(1) by simp_all
  then obtain k a n where m: "m = [(''t'', JStr ''bypass_read''), (''pkt'', JInt k), (''addr'', JInt a), (''len'', JInt n)]" "0 \<le> n"
    by (cases m rule: msg_ok_Gem5_cases) (auto simp: opt_str_def g2t_flit_def bye_msg_def)
  obtain i b' where r: "broker_read a n b = (i, b')" by fastforce
  show ?thesis
    using StartRead m r calls_ok_start [OF assms(3,2) disjI1 [OF r]] broker_sends_ok(1) [OF m(2) assms(4) r]
    by (auto simp: start_bypass_read_def item_int_def)
next
  case (StartWrite m)
  then have "msg_ok Gem5 m" "opt_str m ''t'' = Some ''bypass_write''" using assms(1) by simp_all
  then obtain k a d s where m: "m = [(''t'', JStr ''bypass_write''), (''pkt'', JInt k), (''addr'', JInt a), (''data'', JStr d),
      (''strb'', JStr s)]" "is_hex d" "is_hex s"
    by (cases m rule: msg_ok_Gem5_cases) (auto simp: opt_str_def g2t_flit_def bye_msg_def)
  obtain ds where ds: "fromhex d = Inr ds" using is_hexE [OF m(2)] by blast
  obtain ss where ss: "fromhex (let s' = s in if s' \<noteq> [] then s' else concat (replicate (length ds) ''ff'')) = Inr ss"
    using is_hexE [OF m(3)] fromhex_ff by (cases "s = []") auto
  obtain i b' where r: "broker_write a ds ss b = (i, b')" by fastforce
  show ?thesis
    using StartWrite m ds ss r calls_ok_start [OF assms(3,2) disjI2 [OF r]] broker_sends_ok(2) [OF assms(4) r]
    by (auto simp: start_bypass_write_def item_int_def get_str_def Let_def)
qed (use assms(2) in simp)

text \<open>A task that is resumed waits on, has its answer, or has timed out; nothing else can happen to it.\<close>

definition task_kept :: "nat \<Rightarrow> runtime \<Rightarrow> runtime \<Rightarrow> bool" where
  "task_kept i rt rt' \<longleftrightarrow>
     int (length (rt_tasks rt')) + rt_bypass_served rt' = int (length (rt_tasks rt)) + rt_bypass_served rt \<or>
     (case rt_tasks rt ! i of WaitMem k j c \<Rightarrow> mc_timeout c \<le> mc_cycles c | _ \<Rightarrow> False)"

lemma task_turn_typed:
  assumes "rt_typed rt" "i < length (rt_tasks rt)"
  shows "rt_typed (task_turn i rt) \<and> task_kept i rt (task_turn i rt)"
proof -
  define xs t ys where "xs = take i (rt_tasks rt)" "t = rt_tasks rt ! i" "ys = drop (Suc i) (rt_tasks rt)"
  have ts: "rt_tasks rt = xs @ t # ys" "length xs = i" using assms(2) by (simp_all add: xs_t_ys_def id_take_nth_drop)
  have calls: "calls_ok (rt_broker rt) (xs @ t # ys)" and clean: "mb_sent (rt_broker rt) = []"
    using assms(1) ts by (simp_all add: rt_typed_def rt_clean_def)
  have upd: "(rt_tasks rt)[i := u] = xs @ u # ys" "rt_tasks (drop_task i rt) = xs @ ys" for u
    by (simp_all add: ts(1) ts(2) [symmetric] drop_task_def)
  have drop_eq: "drop_task i rt = rt\<lparr>rt_tasks := xs @ ys\<rparr>" by (simp add: drop_task_def ts(1) ts(2) [symmetric])
  have sel [simp]: "rt_tasks (put_broker b r) = rt_tasks r" "rt_bypass_served (put_broker b r) = rt_bypass_served r" for b r
    by (simp_all add: put_broker_def)
  show ?thesis
  proof (cases "task_ids t = []")
    case True
    have "task_ok t" using calls by (simp add: calls_ok_def)
    from bypass_start [OF this True calls] clean obtain k j c b where
      s: "(case t of StartRead m \<Rightarrow> start_bypass_read m (rt_broker rt) | StartWrite m \<Rightarrow> start_bypass_write m (rt_broker rt)
        | WaitMem k i c \<Rightarrow> Inl KeyError) = Inr (WaitMem k j c, b)"
        "calls_ok b (xs @ WaitMem k j c # ys)" "list_all (msg_ok Tb) (mb_sent b)" by auto
    have "task_turn i rt = put_broker b (rt\<lparr>rt_tasks := xs @ WaitMem k j c # ys\<rparr>)"
      using True s(1) assms(2) by (cases t) (simp_all add: task_turn_def xs_t_ys_def(2) [symmetric] started_def upd)
    then show ?thesis using rt_typed_broker [OF assms(1) s(3,2)] by (simp add: task_kept_def ts)
  next
    case False
    then obtain k j c where t: "t = WaitMem k j c" by (cases t) auto
    define c' where "c' = c\<lparr>mc_cycles := mc_cycles c + 1\<rparr>"
    have kept: "calls_ok (rt_broker rt) (xs @ WaitMem k j c' # ys)" "calls_ok (rt_broker rt) (xs @ ys)"
      using calls by (auto simp: calls_ok_def t)
    have turn: "task_turn i rt = (case broker_resume j c (rt_broker rt) of
        (Inr c', b) \<Rightarrow> put_broker b (rt\<lparr>rt_tasks := xs @ WaitMem k j c' # ys\<rparr>)
      | (Inl (Inl e), b) \<Rightarrow> put_broker b (rt\<lparr>rt_tasks := xs @ ys\<rparr>)
      | (Inl (Inr v), b) \<Rightarrow> let rt = put_broker b (rt\<lparr>rt_tasks := xs @ ys\<rparr>)
          in rt_send (bypass_resp_msg k v) (rt\<lparr>rt_bypass_served := rt_bypass_served rt + 1\<rparr>))"
      using assms(2) by (simp add: task_turn_def xs_t_ys_def(2) [symmetric] t upd drop_eq split: prod.split sum.split)
    have "j \<in> broker_ids (rt_broker rt)" using calls by (simp add: calls_ok_def t)
    then obtain mo where p: "map_of (mb_pending (rt_broker rt)) j = Some mo"
      by (cases "map_of (mb_pending (rt_broker rt)) j") (auto simp: broker_ids_def map_of_eq_None_iff)
    consider (timeout) "mc_timeout c < mc_cycles c + 1" | (wait) "\<not> mc_timeout c < mc_cycles c + 1" "mo = None"
      | (answer) m where "\<not> mc_timeout c < mc_cycles c + 1" "mo = Some m" by (cases mo) auto
    then show ?thesis
    proof cases
      case timeout
      then have "broker_resume j c (rt_broker rt) = (Inl (Inl TimeoutError), rt_broker rt)" by (simp add: broker_resume_def)
      then show ?thesis using turn rt_typed_broker [OF assms(1) _ kept(2)] clean timeout
        by (simp add: task_kept_def ts t nth_append)
    next
      case wait
      then have "broker_resume j c (rt_broker rt) = (Inr c', rt_broker rt)" by (simp add: broker_resume_def p c'_def)
      then show ?thesis using turn rt_typed_broker [OF assms(1) _ kept(1)] clean by (simp add: task_kept_def ts)
    next
      case answer
      define b where "b = (rt_broker rt)\<lparr>mb_pending := AList.delete j (mb_pending (rt_broker rt))\<rparr>"
      have "completion_ok m" using calls p answer(2) by (auto simp: calls_ok_def)
      then obtain bs where "fromhex (get_str m ''data'' []) = Inr bs" using is_hexE by (auto simp: completion_ok_def)
      then obtain v where v: "completion (mc_is_read c) m = Inr v" by (cases "mc_is_read c") (simp_all add: completion_def)
      then have r: "broker_resume j c (rt_broker rt) = (Inl (Inr v), b)"
        using answer by (simp add: broker_resume_def p b_def)
      have "calls_ok b (xs @ ys)"
        using calls by (auto simp: calls_ok_def broker_ok_def broker_ids_def b_def t distinct_delete map_of_delete)
      from rt_typed_broker [OF assms(1) _ this] clean
      have "rt_typed (put_broker b (rt\<lparr>rt_tasks := xs @ ys\<rparr>))" by (simp add: b_def)
      then have u: "rt_typed ((put_broker b (rt\<lparr>rt_tasks := xs @ ys\<rparr>))\<lparr>rt_bypass_served := n\<rparr>)" for n
        by (simp only: rt_typed_frame)
      have "task_turn i rt = rt_send (bypass_resp_msg k v)
          ((put_broker b (rt\<lparr>rt_tasks := xs @ ys\<rparr>))\<lparr>rt_bypass_served := rt_bypass_served rt + 1\<rparr>)"
        by (simp add: turn r Let_def)
      then show ?thesis
        using rt_typed_send [OF u runtime_msgs_ok(4)] by (simp add: task_kept_def rt_send_def ts)
    qed
  qed
qed

text \<open>Calls of the slave on the AXI port take identifiers of their own and end no other call.\<close>

lemma port_typed:
  assumes "rt_typed rt" "port_allowed op (rt_tasks rt)"
  shows "rt_typed (put_broker (port_turn op (rt_broker rt)) rt)"
proof -
  let ?b = "rt_broker rt"
  have b: "calls_ok ?b (rt_tasks rt)" "mb_sent ?b = []" using assms(1) by (simp_all add: rt_typed_def rt_clean_def)
  have start: "calls_ok b' (rt_tasks rt)" if "broker_read a n ?b = (i, b') \<or> broker_write a' d s ?b = (i, b')" for a n i b' a' d s
  proof -
    have "broker_ok ?b" using b(1) by (simp add: calls_ok_def)
    from begin_ok [OF this that] have ok: "broker_ids b' = insert i (broker_ids ?b)" "broker_ok b'" "mb_pending b' = mb_pending ?b @ [(i, None)]"
      by blast+
    have "\<forall>j m. map_of (mb_pending b') j = Some (Some m) \<longrightarrow> completion_ok m"
      using b(1) by (auto simp: ok(3) map_add_def calls_ok_def split: option.splits if_splits)
    then show ?thesis using b(1) ok(1,2) by (auto simp: calls_ok_def)
  qed
  show ?thesis
  proof (cases op)
    case (PortRead a n)
    obtain i b' where r: "broker_read a (int n) ?b = (i, b')" by fastforce
    then show ?thesis using PortRead rt_typed_broker [OF assms(1) _ start [OF disjI1 [OF r]]] broker_sends_ok(1) [OF _ _ r] b(2) by simp
  next
    case (PortWrite a d s)
    obtain i b' where r: "broker_write a d s ?b = (i, b')" by fastforce
    then show ?thesis using PortWrite rt_typed_broker [OF assms(1) _ start [OF disjI2 [OF r]]] broker_sends_ok(2) [OF _ r] b(2) by simp
  next
    case (PortResume i c)
    obtain r b' where r: "broker_resume i c ?b = (r, b')" by fastforce
    then have b': "b' = ?b \<or> b' = ?b\<lparr>mb_pending := AList.delete i (mb_pending ?b)\<rparr>"
      by (auto simp: broker_resume_def Let_def split: option.splits if_splits)
    have k: "calls_ok b' (rt_tasks rt)"
      using b' b(1) assms(2) broker_ok_delete [of ?b i] PortResume
      by (elim disjE) (auto simp: calls_ok_def port_allowed_def broker_ids_def map_of_delete)
    moreover have "mb_sent b' = []" using b' b(2) by auto
    ultimately show ?thesis using PortResume r rt_typed_broker [OF assms(1) _ k] by simp
  qed
qed

lemma rt_step_typed:
  assumes "rt_step rt l rt'" "rt_typed rt" "case l of Dispatch m \<Rightarrow> arrives Gem5 m | _ \<Rightarrow> True"
  shows "rt_typed rt'"
  using assms(1)
proof cases
  case (dispatch m)
  then show ?thesis using dispatch_typed assms(2,3) by simp
next
  case (task i)
  then show ?thesis using task_turn_typed [OF assms(2)] by simp
next
  case (device e a)
  then show ?thesis using rt_typed_agent [OF assms(2)] by simp
next
  case (port op)
  then show ?thesis using port_typed [OF assms(2)] by simp
qed (use barrier_typed assms(2) in simp)

lemma rt_steps_typed:
  "rt_steps rt ls rt' \<Longrightarrow> rt_typed rt \<Longrightarrow> (\<And>m. Dispatch m \<in> set ls \<Longrightarrow> arrives Gem5 m) \<Longrightarrow> rt_typed rt'"
proof (induction rule: rt_steps.induct)
  case (more rt ls rt1 l rt2)
  then show ?case by (intro rt_step_typed [OF more.hyps(2)]) (auto split: rt_label.split)
qed

section \<open>The gem5 side\<close>

text \<open>Every pending write has been granted a buffer, and every table that is subscripted has the entry.\<close>

definition granted_write :: "hnf_checker \<Rightarrow> int \<Rightarrow> bool" where
  "granted_write c k \<longleftrightarrow> (\<exists>w. hc_writes c k = Some w \<and> hw_dbid w \<noteq> None)"

definition reads_ok :: "hnf_checker \<Rightarrow> bool" where
  "reads_ok c \<longleftrightarrow> (\<forall>r \<in> ran (hc_reads c). 0 \<le> hr_size r)"

definition tables_ok :: "fake_gem5 \<Rightarrow> bool" where
  "tables_ok g \<longleftrightarrow>
     (\<forall>t \<in> set (fg_pending_write_data g). \<exists>k. t = Some k \<and> granted_write (fg_checker g) k) \<and>
     dom (hc_writes (fg_checker g)) \<subseteq> dom (map_of (fg_write_verify g)) \<and>
     reads_ok (fg_checker g) \<and>
     (fg_bypass_read_pkt g \<noteq> None \<longrightarrow> fg_bypass_verify_addr g \<noteq> None \<and> fg_bypass_verify_data g \<noteq> None)"

definition fg_typed :: "fake_gem5 \<Rightarrow> bool" where
  "fg_typed g \<longleftrightarrow> tables_ok g \<and> list_all (msg_ok Gem5) (fg_sent g) \<and> list_all (msg_ok Gem5) (fg_outbox g)"

text \<open>Every check of the home node raises the contract error and nothing else on a well-typed flit.\<close>

definition contract :: "check_error option \<Rightarrow> bool" where
  "contract e \<longleftrightarrow> e = None \<or> e = Some ContractError"

lemma on_rsp_typed:
  assumes "fields_ok (flit_schema RSP_FIELDS) p" "hnf_on_rsp p c = (e, c')"
  shows "contract e \<and> dom (hc_writes c') = dom (hc_writes c) \<and> hc_reads c' = hc_reads c \<and>
    (\<forall>k. granted_write c k \<longrightarrow> granted_write c' k) \<and>
    (e = None \<and> opt_int p ''opcode'' = Some 6 \<longrightarrow> granted_write c' (get_int p ''txnid'' 0))"
proof -
  have "flit_field_type k = TInt" if "k \<in> set RSP_FIELDS" for k
    using that by (auto simp: field_lists)
  then have ints: "\<exists>i. opt_int p k = Some i" if "k \<in> set RSP_FIELDS" for k
    using flit_int [OF assms(1) that] that by blast
  obtain s where s: "opt_int p ''srcid'' = Some s" using ints [of "''srcid''"] by (auto simp: RSP_FIELDS_def)
  obtain t where t: "opt_int p ''tgtid'' = Some t" using ints [of "''tgtid''"] by (auto simp: RSP_FIELDS_def)
  obtain d where d: "opt_int p ''dbid'' = Some d" using ints [of "''dbid''"] by (auto simp: RSP_FIELDS_def)
  obtain q where q: "opt_int p ''opcode'' = Some q" using ints [of "''opcode''"] by (auto simp: RSP_FIELDS_def)
  have get: "get_int p k 0 = i" if "opt_int p k = Some i" for k i
    using that by (auto simp: get_int_def opt_int_def)
  have "rsp_field_error p c \<in> {None, Some ContractError}"
    by (simp add: rsp_field_error_def s t)
  then show ?thesis
    using assms(2)
    by (auto simp: hnf_on_rsp_def Let_def contract_def put_write_def complete_write_def granted_write_def get [OF q] d q
        split: option.splits if_splits)
qed

lemma reads_ok_put [simp]:
  "reads_ok c \<Longrightarrow> 0 \<le> hr_size r \<Longrightarrow> reads_ok (put_read t r c)" "hc_writes (put_read t r c) = hc_writes c"
  "reads_ok (c\<lparr>hc_completed_reads := n\<rparr>) = reads_ok c" "reads_ok (c\<lparr>hc_ddr := d\<rparr>) = reads_ok c"
  by (auto simp: reads_ok_def put_read_def ran_def split: if_splits)

lemma on_dat_typed:
  assumes "fields_ok (flit_schema DAT_FIELDS) p" "hnf_on_dat p c = (e, c')" "reads_ok c"
  shows "contract e \<and> hc_writes c' = hc_writes c \<and> reads_ok c' \<and>
    (e = None \<longrightarrow> opt_int p ''opcode'' = Some 4)"
proof -
  have hex: "\<exists>bs. fromhex (get_str p k []) = Inr bs" if "k \<in> {''data'', ''byteEnable'', ''chunkValid''}" for k
    using flit_hex [OF assms(1), of k] that by (auto simp: DAT_FIELDS_def DAT_BYTE_FIELDS_def)
  obtain d b v where h: "fromhex (get_str p ''data'' []) = Inr d" "fromhex (get_str p ''byteEnable'' []) = Inr b"
    "fromhex (get_str p ''chunkValid'' []) = Inr v"
    using hex [of "''data''"] hex [of "''byteEnable''"] hex [of "''chunkValid''"] by auto
  obtain q where q: "opt_int p ''opcode'' = Some q"
    using flit_int [OF assms(1), of "''opcode''"] by (auto simp: DAT_FIELDS_def flit_field_type_def DAT_BYTE_FIELDS_def)
  have check: "dat_check p r c = Inl e' \<Longrightarrow> e' = ContractError" "dat_check p r c = Inr x \<Longrightarrow> q = 4" for r e' x
    by (auto simp: dat_check_def h q Let_def split: if_splits)
  have read: "ddr_read a n ddr = Inl x \<Longrightarrow> n < 0" for a n ddr x
    by (simp add: ddr_read_def split: if_splits)
  show ?thesis
  proof (cases "hc_reads c (get_int p ''txnid'' 0)")
    case None
    then show ?thesis using assms by (auto simp: hnf_on_dat_def contract_def)
  next
    case (Some r)
    have r: "0 \<le> hr_size r" using assms(3) Some by (auto simp: reads_ok_def ran_def)
    show ?thesis
      using assms(2,3) Some r check
      by (auto simp: hnf_on_dat_def Let_def contract_def q dest: read split: sum.splits prod.splits if_splits)
  qed
qed

lemma tables_ok_frame [simp]:
  "tables_ok (g\<lparr>fg_hello_acked := b\<rparr>) = tables_ok g" "tables_ok (g\<lparr>fg_acked := b\<rparr>) = tables_ok g"
  "tables_ok (g\<lparr>fg_remote_bye := r\<rparr>) = tables_ok g" "tables_ok (g\<lparr>fg_bypass_read_done := b\<rparr>) = tables_ok g"
  "tables_ok (g\<lparr>fg_bypass_write_done := b\<rparr>) = tables_ok g" "tables_ok (g\<lparr>fg_outbox := ms\<rparr>) = tables_ok g"
  "tables_ok (g\<lparr>fg_sent := ms\<rparr>) = tables_ok g" "tables_ok (fg_upd_ddr ddr g) = tables_ok g"
  "tables_ok (g\<lparr>fg_sync_cycle := n, fg_syncs := k\<rparr>) = tables_ok g" "tables_ok (g\<lparr>fg_scenario_done := b\<rparr>) = tables_ok g"
  by (simp_all add: tables_ok_def granted_write_def fg_upd_ddr_def reads_ok_def)

lemma fg_upd_ddr_sel [simp]:
  "fg_sent (fg_upd_ddr ddr g) = fg_sent g" "fg_outbox (fg_upd_ddr ddr g) = fg_outbox g"
  "hc_writes (fg_checker (fg_upd_ddr ddr g)) = hc_writes (fg_checker g)"
  by (simp_all add: fg_upd_ddr_def)

text \<open>The writes that are known: only a scenario adds to them.\<close>

abbreviation fg_writes :: "fake_gem5 \<Rightarrow> int set" where
  "fg_writes g \<equiv> dom (hc_writes (fg_checker g))"

lemma handle_flit_typed:
  assumes "tables_ok g" "msg_ok Tb m" "opt_str m ''t'' = Some ''flit''" "handle_flit m g = (e, g')"
  shows "tables_ok g' \<and> fg_sent g' = fg_sent g \<and> fg_outbox g' = fg_outbox g \<and> fg_writes g' = fg_writes g \<and> contract e"
proof -
  from assms(2,3) consider (rsp) p where "m = flit_msg ''rsp'' p" "fields_ok (flit_schema RSP_FIELDS) p"
    | (dat) p where "m = flit_msg ''dat'' p" "fields_ok (flit_schema DAT_FIELDS) p"
    by (cases m rule: msg_ok_Tb_cases) (auto simp: opt_str_def ack_msg_def bye_msg_def)
  then show ?thesis
  proof cases
    case (rsp p)
    obtain e1 c where c: "hnf_on_rsp p (fg_checker g) = (e1, c)" by fastforce
    obtain t where t: "opt_int p ''txnid'' = Some t" "get_int p ''txnid'' 0 = t"
      using flit_int [OF rsp(2), of "''txnid''"]
      by (auto simp: RSP_FIELDS_def flit_field_type_def DAT_BYTE_FIELDS_def opt_int_def get_int_def)
    note on = on_rsp_typed [OF rsp(2) c]
    have "opt_str (flit_msg ''rsp'' p) ''ch'' = Some ''rsp''" "get_obj (flit_msg ''rsp'' p) ''flit'' = p"
      by (simp_all add: flit_msg_def opt_str_def get_obj_def)
    then have "handle_flit m g = (case e1 of Some x \<Rightarrow> (Some x, g\<lparr>fg_checker := c\<rparr>) | None \<Rightarrow> (None, maybe_react p (g\<lparr>fg_checker := c\<rparr>)))"
      by (simp add: handle_flit_def rsp(1) c t split: option.split)
    moreover have c_ok: "tables_ok (g\<lparr>fg_checker := c\<rparr>)"
      using assms(1) on unfolding tables_ok_def reads_ok_def by auto
    moreover have "tables_ok (maybe_react p (g\<lparr>fg_checker := c\<rparr>))" if "e1 = None"
      using c_ok on that by (simp add: maybe_react_def t tables_ok_def)
    moreover have "fg_sent (maybe_react p g') = fg_sent g'" "fg_outbox (maybe_react p g') = fg_outbox g'"
      "fg_checker (maybe_react p g') = fg_checker g'" for g'
      by (simp_all add: maybe_react_def)
    ultimately show ?thesis
      using assms(4) on by (cases e1) (auto simp: contract_def)
  next
    case (dat p)
    obtain e1 c where c: "hnf_on_dat p (fg_checker g) = (e1, c)" by fastforce
    obtain t where t: "opt_int p ''txnid'' = Some t"
      using flit_int [OF dat(2), of "''txnid''"]
      by (auto simp: DAT_FIELDS_def flit_field_type_def DAT_BYTE_FIELDS_def)
    have "reads_ok (fg_checker g)" using assms(1) by (simp add: tables_ok_def)
    note on = on_dat_typed [OF dat(2) c this]
    have "opt_str (flit_msg ''dat'' p) ''ch'' = Some ''dat''" "get_obj (flit_msg ''dat'' p) ''flit'' = p"
      by (simp_all add: flit_msg_def opt_str_def get_obj_def)
    then have "handle_flit m g = (case e1 of Some x \<Rightarrow> (Some x, g\<lparr>fg_checker := c\<rparr>) | None \<Rightarrow> (None, g\<lparr>fg_checker := c\<rparr>))"
      using on by (simp add: handle_flit_def dat(1) c t maybe_react_def split: option.split)
    then show ?thesis
      using assms(1,4) on by (cases e1) (auto simp: tables_ok_def granted_write_def contract_def)
  qed
qed

lemma fg_handle_typed:
  assumes "fg_typed g" "arrives Tb m" "list_all (msg_ok Gem5) out" "fg_handle m out g = (e, out', g')"
  shows "fg_typed g' \<and> list_all (msg_ok Gem5) out' \<and> fg_writes g' = fg_writes g \<and> contract e"
proof (cases "m = closed_msg")
  case True
  then show ?thesis using assms by (auto simp: fg_handle_def closed_msg_def opt_str_def fg_typed_def contract_def)
next
  case False
  then have m: "msg_ok Tb m" using assms(2) by (simp add: arrives_def)
  have k: "fg_typed g' \<and> list_all (msg_ok Gem5) out' \<and> fg_writes g' = fg_writes g \<and> contract e" if "fg_handle m out g = (e1, out1, g1)" "contract e1"
    "tables_ok g1" "fg_sent g1 = fg_sent g" "fg_outbox g1 = fg_outbox g" "list_all (msg_ok Gem5) out1"
    "fg_writes g1 = fg_writes g" for e1 out1 g1
    using assms(1,4) that by (auto simp: fg_typed_def)
  have tab: "tables_ok g" using assms(1) by (simp add: fg_typed_def)
  from m show ?thesis
  proof (cases rule: msg_ok_Tb_cases)
    case (rsp p)
    obtain e1 g1 where h: "handle_flit m g = (e1, g1)" by fastforce
    then show ?thesis using handle_flit_typed [OF tab m _ h] assms(3)
      by (intro k [of e1 out g1]) (simp_all add: fg_handle_def rsp flit_msg_def opt_str_def keep_out_def)
  next
    case (dat p)
    obtain e1 g1 where h: "handle_flit m g = (e1, g1)" by fastforce
    then show ?thesis using handle_flit_typed [OF tab m _ h] assms(3)
      by (intro k [of e1 out g1]) (simp_all add: fg_handle_def dat flit_msg_def opt_str_def keep_out_def)
  next
    case (mem_read i a n)
    obtain d ddr where r: "ddr_read_loop a (nat n) (fg_ddr g) = (d, ddr)" by fastforce
    have "fg_handle m out g = (None, out @ [[(''t'', JStr ''mem_data''), (''id'', JInt i), (''data'', JStr (bytes_to_hex d)),
        (''resp'', JInt 0)]], fg_upd_ddr ddr g)"
      using mem_read r by (simp add: fg_handle_def opt_str_def handle_mem_read_def item_int_def ddr_read_def)
    from k [OF this] show ?thesis using tab assms(3) by (simp add: contract_def msg_ok_def)
  next
    case (mem_write i a d s)
    obtain ds ss where h: "fromhex d = Inr ds" "fromhex s = Inr ss" using is_hexE mem_write(2,3) by blast
    have "fg_handle m out g = (None, out @ [[(''t'', JStr ''mem_resp''), (''id'', JInt i), (''resp'', JInt 0)]],
        fg_upd_ddr (ddr_write a ds ss (fg_ddr g)) g)"
      using mem_write h by (simp add: fg_handle_def opt_str_def handle_mem_write_def item_int_def get_str_def)
    from k [OF this] show ?thesis using tab assms(3) by (simp add: contract_def msg_ok_def)
  next
    case (bypass_resp p d r)
    obtain ds where h: "fromhex d = Inr ds" using is_hexE bypass_resp(2) by blast
    have v: "\<exists>a b. fg_bypass_verify_addr g = Some a \<and> fg_bypass_verify_data g = Some b" if "Some p = fg_bypass_read_pkt g"
      using tab that by (cases "fg_bypass_read_pkt g") (auto simp: tables_ok_def)
    have "\<exists>e1 g1. handle_bypass_resp m g = (e1, g1) \<and> contract e1 \<and> tables_ok g1 \<and> fg_sent g1 = fg_sent g \<and>
        fg_outbox g1 = fg_outbox g \<and> fg_writes g1 = fg_writes g"
    proof (cases "Some p = fg_bypass_read_pkt g")
      case True
      then show ?thesis using v tab bypass_resp h
        by (auto simp: handle_bypass_resp_def get_int_def opt_int_def get_str_def contract_def Let_def split: prod.split)
    qed (use tab bypass_resp in \<open>auto simp: handle_bypass_resp_def get_int_def opt_int_def contract_def\<close>)
    then obtain e1 g1 where "handle_bypass_resp m g = (e1, g1)" "contract e1" "tables_ok g1" "fg_sent g1 = fg_sent g"
      "fg_outbox g1 = fg_outbox g" "fg_writes g1 = fg_writes g" by blast
    then show ?thesis using assms(3) bypass_resp by (intro k [of e1 out g1]) (simp_all add: fg_handle_def opt_str_def keep_out_def)
  qed (use tab assms(3) k in \<open>simp_all add: fg_handle_def opt_str_def ack_msg_def bye_msg_def contract_def\<close>)
qed

text \<open>Write data: a pending write has its entries and its buffer id.\<close>

lemma g2t_flit_ok:
  "fields_ok (flit_schema REQ_FIELDS) p \<Longrightarrow> msg_ok Gem5 (g2t_flit ''req'' p)"
  "fields_ok (flit_schema DAT_FIELDS) p \<Longrightarrow> msg_ok Gem5 (g2t_flit ''dat'' p)"
  by (simp_all add: msg_ok_def g2t_flit_def flit_ok_def get_obj_def Let_def)

lemma is_hex_repeat [simp]: "is_hex (concat (replicate n ''01''))"
proof -
  have "\<exists>bs. fromhex (concat (replicate n ''01'')) = Inr bs"
    by (induction n) (auto simp: hex_val_def is_space_def)
  then show ?thesis by (auto simp: is_hex_def)
qed

lemma fg_write_data_ok: "msg_ok Gem5 (g2t_flit ''dat'' (fg_write_data args t (Some d) data))"
  by (rule g2t_flit_ok) (simp add: fg_write_data_def opt_json_def field_lists)

lemma fg_req_ok: "msg_ok Gem5 (g2t_flit ''req'' (fg_read_req args t a))" "msg_ok Gem5 (g2t_flit ''req'' (fg_write_req args t a))"
  by (rule g2t_flit_ok(1); auto simp: fg_read_req_def fg_write_req_def fg_req_def field_lists)+

lemma flush_typed:
  "fg_typed g \<Longrightarrow> \<forall>t \<in> set ts. \<exists>k. t = Some k \<and> granted_write (fg_checker g) k \<Longrightarrow>
     \<exists>g'. flush_write_data ts g = Inr g' \<and> fg_typed g'"
proof (induction ts arbitrary: g)
  case Nil
  then show ?case by (simp add: fg_typed_def tables_ok_def)
next
  case (Cons t ts)
  then obtain k w d where t: "t = Some k" "hc_writes (fg_checker g) k = Some w" "hw_dbid w = Some d"
    by (auto simp: granted_write_def)
  then have "k \<in> dom (map_of (fg_write_verify g))"
    using Cons.prems(1) by (auto simp: fg_typed_def tables_ok_def)
  then obtain a bs where v: "map_of (fg_write_verify g) k = Some (a, bs)" by auto
  define c where "c = put_write k (w\<lparr>hw_phase := WaitComp\<rparr>) (fg_checker g)"
  define g1 where "g1 = fg_enqueue (g2t_flit ''dat'' (fg_write_data (fg_args g) k (Some d) bs)) (g\<lparr>fg_checker := c\<rparr>)"
  have one: "flush_one t g = Inr g1" using t v by (simp add: flush_one_def Let_def g1_def c_def)
  have kept: "granted_write (fg_checker g) j \<Longrightarrow> granted_write c j" for j
    using t by (auto simp: granted_write_def c_def put_write_def)
  have "dom (hc_writes c) = dom (hc_writes (fg_checker g))" "reads_ok c = reads_ok (fg_checker g)"
    using t(2) by (auto simp: c_def put_write_def reads_ok_def)
  then have "fg_typed g1"
    using Cons.prems(1) kept fg_write_data_ok by (fastforce simp: fg_typed_def tables_ok_def g1_def fg_enqueue_def)
  moreover have "\<forall>t \<in> set ts. \<exists>k. t = Some k \<and> granted_write (fg_checker g1) k"
    using Cons.prems(2) kept by (fastforce simp: g1_def fg_enqueue_def)
  ultimately show ?case using Cons.IH [of g1] one by simp
qed

lemma scenario_read_typed: "fg_typed g \<Longrightarrow> fg_typed (scenario_read i g)"
  using fg_req_ok(1)
  by (auto simp: scenario_read_def fg_typed_def tables_ok_def granted_write_def reads_ok_def expect_read_def fg_enqueue_def
      LINE_BYTES_def Let_def ran_def split: if_splits)

lemma scenario_write_typed:
  assumes "fg_typed g" "fg_pending_write_data g = []"
  shows "fg_typed (scenario_write i g) \<and> fg_pending_write_data (scenario_write i g) = []"
  using assms fg_req_ok(2)
  by (auto simp: scenario_write_def fg_typed_def tables_ok_def reads_ok_def expect_write_def fg_enqueue_def update_conv' Let_def)

lemma scenario_bypass_typed:
  assumes "fg_typed g"
  shows "fg_typed (scenario_bypass g)"
proof -
  have "is_hex (concat (replicate 32 ''01''))" by (rule is_hex_repeat)
  then show ?thesis
    using assms by (simp add: scenario_bypass_def fg_typed_def tables_ok_def msg_ok_def Let_def del: replicate.simps)
qed

lemma scenario_frame [simp]:
  "fg_pending_write_data (scenario_read i g) = fg_pending_write_data g"
  "fg_pending_write_data (scenario_bypass g) = fg_pending_write_data g"
  by (simp_all add: scenario_read_def scenario_bypass_def fg_enqueue_def Let_def)

lemma run_scenario_typed:
  assumes "fg_typed g" "fg_pending_write_data g = []"
  shows "fg_typed (run_scenario g)"
proof -
  have r: "fg_typed (fold scenario_read is g) \<and> fg_pending_write_data (fold scenario_read is g) = []"
    if "fg_typed g" "fg_pending_write_data g = []" for "is" g
    using that by (induction "is" arbitrary: g) (simp_all add: scenario_read_typed)
  have w: "fg_typed (fold scenario_write is g) \<and> fg_pending_write_data (fold scenario_write is g) = []"
    if "fg_typed g" "fg_pending_write_data g = []" for "is" g
    using that by (induction "is" arbitrary: g) (simp_all add: scenario_write_typed)
  show ?thesis
    using assms r w scenario_bypass_typed by (simp add: run_scenario_def Let_def)
qed

abbreviation incoming_ok :: "incoming list \<Rightarrow> bool" where
  "incoming_ok ins \<equiv> list_all (\<lambda>i. case i of None \<Rightarrow> True | Some m \<Rightarrow> arrives Tb m) ins"

lemma quantum_loop_typed:
  "quantum_loop ins out g = (r, out', g', ins') \<Longrightarrow> fg_typed g \<Longrightarrow> incoming_ok ins \<Longrightarrow> list_all (msg_ok Gem5) out \<Longrightarrow>
     fg_typed g' \<and> list_all (msg_ok Gem5) out' \<and> incoming_ok ins' \<and> (\<forall>e. r = QFailed e \<longrightarrow> e = ContractError)"
proof (induction ins out g rule: quantum_loop.induct)
  case (1 out g)
  then show ?case by (auto split: if_splits)
next
  case (2 i ins out g)
  show ?case
  proof (cases "fg_acked g \<or> i = None")
    case True
    then show ?thesis using "2.prems" by (auto split: if_splits)
  next
    case False
    then obtain m where i: "i = Some m" "\<not> fg_acked g" by auto
    obtain e out1 g1 where h: "fg_handle m out g = (e, out1, g1)" by (cases "fg_handle m out g")
    have t: "fg_typed g1 \<and> list_all (msg_ok Gem5) out1 \<and> contract e"
      using fg_handle_typed [OF _ _ _ h] "2.prems" i by simp
    show ?thesis
    proof (cases e)
      case None
      then show ?thesis using "2.IH" [OF i(2) i(1) h [symmetric] None refl] "2.prems" i h t by simp
    next
      case (Some x)
      then show ?thesis using "2.prems" i h t by (auto simp: contract_def)
    qed
  qed
qed

lemma fg_typed_send: "fg_typed (fold fg_send ms g) \<longleftrightarrow> fg_typed g \<and> list_all (msg_ok Gem5) ms"
  by (auto simp: fg_typed_def fold_send)

lemma fg_typed_frame [simp]:
  "fg_typed (g\<lparr>fg_acked := b\<rparr>) = fg_typed g" "fg_typed (g\<lparr>fg_sync_cycle := n, fg_syncs := k\<rparr>) = fg_typed g"
  "fg_typed (g\<lparr>fg_scenario_done := b\<rparr>) = fg_typed g" "fg_typed (fg_upd_ddr ddr g) = fg_typed g"
  by (simp_all add: fg_typed_def)

lemma verify_typed:
  "verify_writes ws g = (e, g') \<Longrightarrow> fg_typed g' = fg_typed g \<and> contract e"
  "verify_bypass g = (e, g') \<Longrightarrow> fg_typed g' = fg_typed g \<and> contract e"
proof -
  show "verify_writes ws g = (e, g') \<Longrightarrow> fg_typed g' = fg_typed g \<and> contract e"
  proof (induction ws arbitrary: g)
    case (Cons w ws)
    obtain t a bs where w: "w = (t, a, bs)" by (cases w)
    obtain got ddr where r: "ddr_read_loop a (nat LINE_BYTES) (fg_ddr g) = (got, ddr)" by fastforce
    show ?case using Cons.prems Cons.IH [of "fg_upd_ddr ddr g"] by (auto simp: w r contract_def Let_def split: if_splits)
  qed (simp add: contract_def)
  show "verify_bypass g = (e, g') \<Longrightarrow> fg_typed g' = fg_typed g \<and> contract e"
  proof (cases "ga_scenario (fg_args g) = SBypass \<and> fg_bypass_verify_addr g \<noteq> None")
    case True
    then obtain a where a: "fg_bypass_verify_addr g = Some a" by auto
    obtain got ddr where r: "ddr_read_loop a 32 (fg_ddr g) = (got, ddr)" by fastforce
    show "verify_bypass g = (e, g') \<Longrightarrow> fg_typed g' = fg_typed g \<and> contract e"
      using True by (auto simp: verify_bypass_def a r contract_def Let_def split: if_splits)
  qed (auto simp: verify_bypass_def contract_def split: bool.splits option.splits)
qed

lemma turn_tail_typed:
  assumes "turn_tail g = (r, g')"
  shows "fg_typed g' = fg_typed g \<and> (\<forall>e. r = TRaise e \<longrightarrow> e = ContractError)"
proof -
  obtain e1 g1 where v: "verify_writes (fg_write_verify g) g = (e1, g1)" by fastforce
  obtain e2 g2 where b: "verify_bypass g1 = (e2, g2)" by fastforce
  show ?thesis
    using assms verify_typed(1) [OF v] verify_typed(2) [OF b]
    by (auto simp: turn_tail_def v b contract_def split: option.splits if_splits)
qed

lemma main_turn_typed:
  assumes "main_turn expired ins g = (r, g', ins')" "fg_typed g" "incoming_ok ins"
  shows "fg_typed g' \<and> incoming_ok ins' \<and> (\<forall>e. r = TRaise e \<longrightarrow> e = ContractError)"
proof (cases expired)
  case False
  have "\<forall>t \<in> set (fg_pending_write_data g). \<exists>k. t = Some k \<and> granted_write (fg_checker g) k"
    using assms(2) by (simp add: fg_typed_def tables_ok_def)
  from flush_typed [OF assms(2) this] obtain g1 where
    f: "flush_write_data (fg_pending_write_data g) g = Inr g1" "fg_typed g1" by blast
  define g2 where "g2 = (fg_send (sync_msg (fg_sync_cycle g1)) (send_outbox g1))\<lparr>fg_acked := False\<rparr>"
  have "msg_ok Gem5 (sync_msg c)" for c by (simp add: sync_msg_def msg_ok_def)
  then have g2: "fg_typed g2"
    using f(2) by (simp add: g2_def send_outbox_def fold_send fg_send_def fg_typed_def)
  obtain q out g3 ins3 where q: "quantum_loop ins [] g2 = (q, out, g3, ins3)" by (cases "quantum_loop ins [] g2")
  have t: "fg_typed g3" "list_all (msg_ok Gem5) out" "incoming_ok ins3" "\<forall>e. q = QFailed e \<longrightarrow> e = ContractError"
    using quantum_loop_typed [OF q g2 assms(3)] by simp_all
  show ?thesis
  proof (cases q)
    case QAcked
    define g4 where "g4 = (fold fg_send out g3)\<lparr>fg_sync_cycle := fg_sync_cycle g3 + ga_quantum (fg_args g3),
        fg_syncs := fg_syncs g3 + 1\<rparr>"
    have g4: "fg_typed g4" using t(1,2) by (simp add: g4_def fg_typed_send)
    have "turn_tail g4 = (r, g')" "ins' = ins3"
      using assms(1) False f q QAcked by (simp_all add: main_turn_def Let_def g2_def [symmetric] g4_def fold_send split: prod.splits)
    then show ?thesis using turn_tail_typed g4 t(3) by blast
  qed (use assms(1) False f q t in \<open>auto simp: main_turn_def Let_def g2_def [symmetric]\<close>)
qed (use assms in \<open>auto simp: main_turn_def\<close>)

lemma fg_typed_bye: "fg_typed (fg_send (bye_msg r) g) = fg_typed g"
  by (simp add: fg_typed_def fg_send_def bye_msg_def msg_ok_def)

lemma main_loop_typed:
  "main_loop clock ins g = (v, g') \<Longrightarrow> fg_typed g \<Longrightarrow> incoming_ok ins \<Longrightarrow> fg_typed g' \<and> (\<forall>e. v \<noteq> Crash e)"
proof (induction clock ins g rule: main_loop.induct)
  case (1 ins g)
  then show ?case by (auto simp: fg_typed_bye split: if_splits)
next
  case (2 expired clock ins g)
  obtain r g1 ins1 where t: "main_turn expired ins g = (r, g1, ins1)" by (cases "main_turn expired ins g")
  note m = main_turn_typed [OF t "2.prems"(2,3)]
  show ?case
  proof (cases "fg_scenario_done g")
    case True
    then show ?thesis using "2.prems" by (auto simp: fg_typed_bye)
  next
    case False
    show ?thesis
    proof (cases r)
      case TGo
      then show ?thesis using "2.IH" [OF False t [symmetric] TGo refl] "2.prems" False t m by simp
    next
      case (TRaise e)
      then show ?thesis using "2.prems" False t m by (auto simp: fg_typed_bye)
    qed (use "2.prems" False t m in auto)
  qed
qed

lemma no_pending: "fg_typed g \<Longrightarrow> fg_writes g = {} \<Longrightarrow> fg_pending_write_data g = []"
  by (cases "fg_pending_write_data g") (auto simp: fg_typed_def tables_ok_def granted_write_def)

lemma hello_loop_typed:
  "hello_loop ins g = (v, g', ins') \<Longrightarrow> fg_typed g \<Longrightarrow> fg_writes g = {} \<Longrightarrow> incoming_ok ins \<Longrightarrow>
     fg_typed g' \<and> fg_writes g' = {} \<and> incoming_ok ins' \<and> (\<forall>e. v \<noteq> Some (Crash (Raised e)))"
proof (induction ins g rule: hello_loop.induct)
  case (1 g)
  then show ?case by (auto split: if_splits)
next
  case (2 i ins g)
  show ?case
  proof (cases "fg_hello_acked g \<or> i = None \<or> (\<exists>m. i = Some m \<and> opt_str m ''t'' \<in> {Some ''peer_closed'', Some ''bye''})")
    case True
    then show ?thesis using "2.prems" by (auto split: if_splits)
  next
    case False
    then obtain m where i: "i = Some m" "\<not> fg_hello_acked g" "opt_str m ''t'' \<notin> {Some ''peer_closed'', Some ''bye''}" by auto
    obtain e out g1 where h: "fg_handle m (fg_outbox g) g = (e, out, g1)" by (cases "fg_handle m (fg_outbox g) g")
    have t: "fg_typed g1" "list_all (msg_ok Gem5) out" "fg_writes g1 = {}" "contract e"
      using fg_handle_typed [OF _ _ _ h] "2.prems" i by (auto simp: fg_typed_def)
    then have "fg_typed (g1\<lparr>fg_outbox := out\<rparr>)" by (simp add: fg_typed_def)
    then show ?thesis
      using "2.IH" [OF i(2,1,3) h [symmetric] _ refl] "2.prems" i h t by (cases e) (auto simp: contract_def)
  qed
qed

lemma fg_run_typed:
  assumes "incoming_ok ins" "fg_run clock ins (fake_gem5_init args) = (v, g)"
  shows "fg_typed g \<and> (\<forall>e. v \<noteq> Crash (Raised e))"
proof -
  let ?g = "fg_serve (fake_gem5_init args)"
  have "fg_typed ?g" "fg_writes ?g = {}"
    by (simp_all add: fg_serve_def fg_send_def fake_gem5_init_def fg_typed_def tables_ok_def reads_ok_def checker_init_def
        hello_msg_def msg_ok_def)
  moreover obtain r g1 ins1 where h: "hello_loop ins ?g = (r, g1, ins1)" by (cases "hello_loop ins ?g")
  ultimately have t: "fg_typed g1" "fg_writes g1 = {}" "incoming_ok ins1" "\<forall>e. r \<noteq> Some (Crash (Raised e))"
    using hello_loop_typed [OF h] assms(1) by simp_all
  then have s: "fg_typed (run_scenario g1)" using run_scenario_typed no_pending by blast
  show ?thesis
  proof (cases r)
    case None
    then show ?thesis using main_loop_typed [OF _ s t(3)] assms(2) h by (auto simp: fg_run_def)
  qed (use assms(2) h t in \<open>auto simp: fg_run_def\<close>)
qed

section \<open>Type safety\<close>

lemma await_typed:
  "await_message kind ms rt = Some r \<Longrightarrow> rt_typed rt \<Longrightarrow> list_all (\<lambda>i. case i of None \<Rightarrow> True | Some m \<Rightarrow> arrives Gem5 m) ms \<Longrightarrow>
     r = Inl TimeoutError \<or> (\<exists>m rt'. r = Inr (m, rt') \<and> rt_typed rt')"
proof (induction kind ms rt rule: await_message.induct)
  case (3 kind m ms rt)
  show ?case
  proof (cases "opt_str m ''t'' = Some kind")
    case False
    have "\<exists>rt1. route m rt = Inr rt1 \<and> rt_typed rt1"
    proof (cases "m = closed_msg")
      case True
      then show ?thesis using "3.prems"(2) by (simp add: route_def closed_msg_def opt_str_def rt_typed_def rt_clean_def)
    qed (use route_typed "3.prems" in \<open>auto simp: arrives_def\<close>)
    then obtain rt1 where "route m rt = Inr rt1" "rt_typed rt1" by blast
    then show ?thesis using "3.IH" False "3.prems" by simp
  qed (use "3.prems" in auto)
qed auto

lemma take_hello_typed: "rt_typed rt \<Longrightarrow> rt_typed (take_hello m rt)"
  using runtime_msgs_ok(3) by (auto simp: take_hello_def Let_def rt_typed_def rt_clean_def rt_send_def)

lemma runtime_init_typed: "rt_typed (runtime_init e)"
  by (simp add: runtime_init_def rt_typed_def rt_clean_def agent_init_def broker_init_def calls_ok_def broker_ok_def broker_ids_def)

lemma handshake_typed:
  assumes "handshake ms (runtime_init e) = Some (Inr rt)"
    and "list_all (\<lambda>i. case i of None \<Rightarrow> True | Some m \<Rightarrow> arrives Gem5 m) ms"
  shows "rt_typed rt"
proof -
  obtain r where r: "await_message ''hello'' ms (runtime_init e) = Some r" "and_then r (\<lambda>(m, rt). Inr (take_hello m rt)) = Inr rt"
    using assms(1) by (auto simp: handshake_def)
  then show ?thesis
    using await_typed [OF r(1) runtime_init_typed assms(2)] take_hello_typed by auto
qed

text \<open>
  Type safety of the runtime: as long as gem5 keeps to the message types of the protocol, every message the runtime, the
  agent and the broker send has its type too, whatever the interleaving; the dispatcher is never ended by an exception; and a
  bypass request is never lost: each turn of its task keeps it, answers it, or is the one at which its call times out.
\<close>

theorem runtime_type_safe:
  assumes "handshake ms (runtime_init e) = Some (Inr rt)" and "rt_steps rt ls rt'"
    and "list_all (\<lambda>i. case i of None \<Rightarrow> True | Some m \<Rightarrow> arrives Gem5 m) ms"
    and "\<forall>m. Dispatch m \<in> set ls \<longrightarrow> arrives Gem5 m"
  shows "sent_ok Tb (rt_sent rt') \<and> \<not> rt_dispatcher_dead rt' \<and>
    (\<forall>i < length (rt_tasks rt'). task_kept i rt' (task_turn i rt'))"
proof -
  have "rt_typed rt'" using rt_steps_typed [OF assms(2) handshake_typed [OF assms(1,3)]] assms(4) by blast
  then show ?thesis using task_turn_typed by (auto simp: rt_typed_def)
qed

text \<open>
  Type safety of the gem5 side: as long as the testbench keeps to the message types, every message of the stand-in has its
  type, and no exception but the contract error ever ends it, whatever the scenario, wherever the run is cut off and whenever
  the deadline strikes.
\<close>

theorem gem5_type_safe:
  assumes "fg_run clock ins (fake_gem5_init args) = (v, g)" and "incoming_ok ins"
  shows "list_all (msg_ok Gem5) (fg_sent g) \<and> v \<noteq> Crash (Raised e)"
  using fg_run_typed [OF assms(2,1)] by (simp add: fg_typed_def)

text \<open>Witnesses: a handshake and a bypass read; a run that gets its \<^verbatim>\<open>hello_ack\<close> and waits for the first acknowledgement.\<close>

definition demo_env :: runtime_env where
  "demo_env = \<lparr>en_quantum = 100, en_gem5_clk_ns = JFloat ''0.556'', en_clk_ns = ''0.556'', en_snf_id = 0x80, en_hnf_id = 0x90,
     en_free_run = False, en_max_syncs = 0\<rparr>"

definition demo_args :: gem5_args where
  "demo_args = \<lparr>ga_snf_id = 0x80, ga_hnf_id = 0x90, ga_quantum = 100, ga_clk_ns = ''0.556'', ga_scenario = SBypass,
     ga_reads = 0, ga_writes = 0\<rparr>"

definition demo_bypass :: obj where
  "demo_bypass = [(''t'', JStr ''bypass_read''), (''pkt'', JInt 2), (''addr'', JInt 0x1000), (''len'', JInt 32)]"

theorem runtime_type_safe_witness:
  "\<exists>rt rt'. handshake [Some (hello_msg demo_args)] (runtime_init demo_env) = Some (Inr rt) \<and>
     rt_steps rt [Dispatch demo_bypass, Task 0] rt' \<and> sent_ok Tb (rt_sent rt') \<and> length (rt_sent rt') = 2"
proof -
  let ?rt = "take_hello (hello_msg demo_args) (runtime_init demo_env)"
  have h: "handshake [Some (hello_msg demo_args)] (runtime_init demo_env) = Some (Inr ?rt)"
    by (simp add: handshake_def hello_msg_def opt_str_def)
  have rt: "\<not> rt_done ?rt" "\<not> rt_dispatcher_dead ?rt" "rt_tasks ?rt = []" "rt_broker ?rt = broker_init" "length (rt_sent ?rt) = 1"
    by (simp_all add: take_hello_def runtime_init_def rt_send_def demo_env_def Let_def)
  define r1 where "r1 = dispatcher_turn demo_bypass ?rt"
  have r1: "r1 = ?rt\<lparr>rt_tasks := [StartRead demo_bypass]\<rparr>"
    using rt by (simp add: r1_def dispatcher_turn_def route_def demo_bypass_def opt_str_def)
  define r2 where "r2 = task_turn 0 r1"
  have "rt_step ?rt (Dispatch demo_bypass) r1" unfolding r1_def by (rule rt_step.dispatch) (use rt in auto)
  moreover have "rt_step r1 (Task 0) r2" unfolding r2_def by (rule rt_step.task) (simp add: r1)
  ultimately have s: "rt_steps ?rt [Dispatch demo_bypass, Task 0] r2"
    using rt_steps.more [OF rt_steps.more [OF rt_steps.none [of ?rt]]] by force
  have "length (rt_sent r2) = 2"
    using rt by (simp add: r2_def r1 task_turn_def started_def start_bypass_read_def demo_bypass_def item_int_def broker_read_def
        broker_alloc_id_def put_broker_def broker_init_def)
  moreover have "msg_ok Gem5 (hello_msg demo_args)" "msg_ok Gem5 demo_bypass"
    by (simp_all add: hello_msg_def demo_bypass_def msg_ok_def)
  ultimately show ?thesis
    using runtime_type_safe [OF h s] h s by (auto simp: arrives_def)
qed

theorem gem5_type_safe_witness:
  "\<exists>v g. fg_run [False] [Some [(''t'', JStr ''hello_ack''), (''ver'', JInt 1), (''clk_period_ns'', JFloat ''0.556'')], Some (ack_msg 0)]
     (fake_gem5_init demo_args) = (v, g) \<and> list_all (msg_ok Gem5) (fg_sent g) \<and> v \<noteq> Crash (Raised KeyError)"
proof -
  let ?ins = "[Some [(''t'', JStr ''hello_ack''), (''ver'', JInt 1), (''clk_period_ns'', JFloat ''0.556'')], Some (ack_msg 0)]"
  obtain v g where r: "fg_run [False] ?ins (fake_gem5_init demo_args) = (v, g)" by fastforce
  have "incoming_ok ?ins" by (simp add: arrives_def msg_ok_def ack_msg_def)
  from gem5_type_safe [OF r this] r show ?thesis by blast
qed

end
