(* ===== verification/Cosim_System.thy ===== *)
theory Cosim_System
  imports Message_Types
begin

text \<open>
  The closed system: the stand-in of gem5 (\<^verbatim>\<open>fake_gem5.py\<close>) and the runtime of the testbench (\<^verbatim>\<open>cosim_runtime.py\<close>), joined by
  the two directions of the socket.

  \<^verbatim>\<open>run\<close> of \<^verbatim>\<open>fake_gem5.py\<close> is cut where it blocks in \<^verbatim>\<open>_recv_line\<close>: \<open>fg_phase\<close> is the loop that waits, and \<open>gem5_recv\<close> what one
  call gives it, up to the next call.  The transport is a pair of queues without loss, which \<^theory_text>\<open>Cosim_Transport\<close> justifies: the
  state counts how many messages of each side the other has taken.  A step of the system is a step of a coroutine of the
  runtime, or one side taking the next message; any order is allowed, and messages may stay on the way for any time.
\<close>

section \<open>The gem5 side, one message at a time\<close>

text \<open>Waiting for \<^verbatim>\<open>hello_ack\<close>, or for the acknowledgement of a quantum with the answers kept so far, or returned.\<close>

datatype fg_phase = GHello | GQuantum "obj list" | GOver verdict

type_synonym gem5_side = "fg_phase \<times> fake_gem5"

text \<open>A contract error ends the run with a \<^verbatim>\<open>bye\<close>, any other exception ends the process.\<close>

fun gem5_fail :: "check_error \<Rightarrow> fake_gem5 \<Rightarrow> gem5_side" where
  "gem5_fail ContractError g = (GOver (Exit 1), fg_send (bye_msg ''contract'') g)"
| "gem5_fail (Raised e) g = (GOver (Crash (Raised e)), g)"

text \<open>The head of the main loop, up to the first message of the quantum; \<open>late\<close> tells at which turns the deadline has passed.\<close>

definition begin_turn :: "(int \<Rightarrow> bool) \<Rightarrow> fake_gem5 \<Rightarrow> gem5_side" where
  "begin_turn late g =
     (if fg_scenario_done g then (GOver (Exit 0), fg_send (bye_msg ''workload exit'') g)
      else if late (fg_syncs g) then gem5_fail ContractError g
      else case flush_write_data (fg_pending_write_data g) g of
          Inl e \<Rightarrow> gem5_fail (Raised e) g
        | Inr g \<Rightarrow> (GQuantum [], (fg_send (sync_msg (fg_sync_cycle g)) (send_outbox g))\<lparr>fg_acked := False\<rparr>))"

definition end_quantum :: "(int \<Rightarrow> bool) \<Rightarrow> obj list \<Rightarrow> fake_gem5 \<Rightarrow> gem5_side" where
  "end_quantum late out g =
     (let g = fold fg_send out g;
          g = g\<lparr>fg_sync_cycle := fg_sync_cycle g + ga_quantum (fg_args g), fg_syncs := fg_syncs g + 1\<rparr>
      in case turn_tail g of
          (TReturn n, g) \<Rightarrow> (GOver (Exit n), g)
        | (TRaise e, g) \<Rightarrow> gem5_fail e g
        | (_, g) \<Rightarrow> begin_turn late g)"

fun gem5_recv :: "(int \<Rightarrow> bool) \<Rightarrow> incoming \<Rightarrow> gem5_side \<Rightarrow> gem5_side" where
  "gem5_recv late None (GHello, g) = (GOver (Exit 1), g)"
| "gem5_recv late (Some m) (GHello, g) =
     (if opt_str m ''t'' \<in> {Some ''peer_closed'', Some ''bye''} then (GOver (Exit 1), g)
      else case fg_handle m (fg_outbox g) g of
          (Some e, out, g) \<Rightarrow> (GOver (Crash e), g)
        | (None, out, g) \<Rightarrow>
            if fg_hello_acked g then begin_turn late (run_scenario (g\<lparr>fg_outbox := out\<rparr>))
            else (GHello, g\<lparr>fg_outbox := out\<rparr>))"
| "gem5_recv late None (GQuantum out, g) = gem5_fail ContractError g"
| "gem5_recv late (Some m) (GQuantum out, g) =
     (case fg_handle m out g of
        (Some e, out, g) \<Rightarrow> gem5_fail e g
      | (None, out, g) \<Rightarrow> if fg_acked g then end_quantum late out g else (GQuantum out, g))"
| "gem5_recv late i (GOver v, g) = (GOver v, g)"

definition gem5_start :: "gem5_args \<Rightarrow> gem5_side" where
  "gem5_start args = (GHello, fg_serve (fake_gem5_init args))"

fun fg_verdict :: "fg_phase \<Rightarrow> verdict" where
  "fg_verdict (GOver v) = v"
| "fg_verdict _ = StillRunning"

section \<open>The cut is the run\<close>

abbreviation receives :: "(int \<Rightarrow> bool) \<Rightarrow> incoming list \<Rightarrow> gem5_side \<Rightarrow> gem5_side" where
  "receives late ins s \<equiv> fold (gem5_recv late) ins s"

lemma receives_over [simp]: "receives late ins (GOver v, g) = (GOver v, g)"
  by (induction ins) simp_all

text \<open>The main loop from its head, with the clock as the list of answers the model of \<^verbatim>\<open>run\<close> takes.\<close>

definition clock_from :: "(int \<Rightarrow> bool) \<Rightarrow> int \<Rightarrow> nat \<Rightarrow> bool list" where
  "clock_from late k n = map (\<lambda>j. late (k + int j)) [0 ..< n]"

lemma clock_from_Suc: "clock_from late k (Suc n) = late k # clock_from late (k + 1) n"
proof -
  have "clock_from late k (Suc n) = late k # map (\<lambda>j. late (k + int j)) [Suc 0 ..< Suc n]"
    unfolding clock_from_def by (subst upt_conv_Cons) simp_all
  moreover have "map (\<lambda>j. late (k + int j)) [Suc 0 ..< Suc n] = clock_from late (k + 1) n"
    unfolding clock_from_def map_Suc_upt [symmetric] map_map by (rule map_cong) (simp_all add: algebra_simps)
  ultimately show ?thesis by simp
qed

text \<open>The end of \<^const>\<open>main_turn\<close>, and what \<^const>\<open>main_loop\<close> makes of it.\<close>

definition main_rest :: "(int \<Rightarrow> bool) \<Rightarrow> nat \<Rightarrow> quantum_end \<times> obj list \<times> fake_gem5 \<times> incoming list \<Rightarrow> verdict \<times> fake_gem5" where
  "main_rest late n r =
     (case r of
        (QWaiting, out, g, ins) \<Rightarrow> (StillRunning, g)
      | (QFailed e, out, g, ins) \<Rightarrow> (fg_verdict (fst (gem5_fail e g)), snd (gem5_fail e g))
      | (QAcked, out, g, ins) \<Rightarrow>
          let g = fold fg_send out g;
              g = g\<lparr>fg_sync_cycle := fg_sync_cycle g + ga_quantum (fg_args g), fg_syncs := fg_syncs g + 1\<rparr>
          in case turn_tail g of
              (TReturn k, g) \<Rightarrow> (Exit k, g)
            | (TRaise e, g) \<Rightarrow> (fg_verdict (fst (gem5_fail e g)), snd (gem5_fail e g))
            | (_, g) \<Rightarrow> main_loop (clock_from late (fg_syncs g) n) ins g)"

lemma fg_keeps_sel:
  assumes "fg_keeps g g'"
  shows "fg_args g' = fg_args g" "fg_scenario_done g' = fg_scenario_done g" "fg_sync_cycle g' = fg_sync_cycle g"
    "fg_syncs g' = fg_syncs g"
  using assms by (simp_all add: fg_keeps_def fg_fixed_def)

lemma verify_counts:
  "verify_writes ws g = (e, g') \<Longrightarrow> fg_sync_cycle g' = fg_sync_cycle g \<and> fg_syncs g' = fg_syncs g \<and> fg_args g' = fg_args g \<and>
     fg_sent g' = fg_sent g \<and> fg_remote_bye g' = fg_remote_bye g \<and> fg_outbox g' = fg_outbox g"
  "verify_bypass g = (e, g') \<Longrightarrow> fg_sync_cycle g' = fg_sync_cycle g \<and> fg_syncs g' = fg_syncs g \<and> fg_args g' = fg_args g \<and>
     fg_sent g' = fg_sent g \<and> fg_remote_bye g' = fg_remote_bye g \<and> fg_outbox g' = fg_outbox g"
proof -
  show "verify_writes ws g = (e, g') \<Longrightarrow> fg_sync_cycle g' = fg_sync_cycle g \<and> fg_syncs g' = fg_syncs g \<and> fg_args g' = fg_args g \<and>
     fg_sent g' = fg_sent g \<and> fg_remote_bye g' = fg_remote_bye g \<and> fg_outbox g' = fg_outbox g"
  proof (induction ws arbitrary: g)
    case (Cons w ws)
    obtain t a bs where w: "w = (t, a, bs)" by (cases w)
    obtain got ddr where r: "ddr_read_loop a (nat LINE_BYTES) (fg_ddr g) = (got, ddr)" by fastforce
    show ?case using Cons.prems Cons.IH [of "fg_upd_ddr ddr g"] by (auto simp: w r fg_upd_ddr_def Let_def split: if_splits)
  qed simp
  show "verify_bypass g = (e, g') \<Longrightarrow> fg_sync_cycle g' = fg_sync_cycle g \<and> fg_syncs g' = fg_syncs g \<and> fg_args g' = fg_args g \<and>
     fg_sent g' = fg_sent g \<and> fg_remote_bye g' = fg_remote_bye g \<and> fg_outbox g' = fg_outbox g"
  proof (cases "ga_scenario (fg_args g) = SBypass \<and> fg_bypass_verify_addr g \<noteq> None")
    case True
    then obtain a where a: "fg_bypass_verify_addr g = Some a" by auto
    obtain got ddr where r: "ddr_read_loop a 32 (fg_ddr g) = (got, ddr)" by fastforce
    show "verify_bypass g = (e, g') \<Longrightarrow> ?thesis"
      using True by (auto simp: verify_bypass_def a r fg_upd_ddr_def Let_def split: if_splits)
  qed (auto simp: verify_bypass_def split: bool.splits option.splits)
qed

lemma turn_tail_counts:
  assumes "turn_tail g = (r, g')"
  shows "fg_sync_cycle g' = fg_sync_cycle g \<and> fg_syncs g' = fg_syncs g \<and> fg_args g' = fg_args g \<and>
     fg_sent g' = fg_sent g \<and> fg_remote_bye g' = fg_remote_bye g \<and> fg_outbox g' = fg_outbox g \<and> r \<noteq> TWaiting"
proof -
  obtain e1 g1 where v: "verify_writes (fg_write_verify g) g = (e1, g1)" by fastforce
  obtain e2 g2 where b: "verify_bypass g1 = (e2, g2)" by fastforce
  show ?thesis
    using assms verify_counts(1) [OF v] verify_counts(2) [OF b] by (auto simp: turn_tail_def v b split: option.splits if_splits)
qed

lemma main_loop_unfold:
  "main_loop (clock_from late (fg_syncs g) (Suc n)) ins g =
     (if fg_scenario_done g then (Exit 0, fg_send (bye_msg ''workload exit'') g)
      else if late (fg_syncs g) then (Exit 1, fg_send (bye_msg ''contract'') g)
      else case flush_write_data (fg_pending_write_data g) g of
          Inl e \<Rightarrow> (Crash (Raised e), g)
        | Inr g \<Rightarrow> main_rest late n (quantum_loop ins [] ((fg_send (sync_msg (fg_sync_cycle g)) (send_outbox g))\<lparr>fg_acked := False\<rparr>)))"
proof (cases "fg_scenario_done g \<or> late (fg_syncs g)")
  case False
  show ?thesis
  proof (cases "flush_write_data (fg_pending_write_data g) g")
    case (Inl e)
    then show ?thesis using False by (simp add: clock_from_Suc main_turn_def)
  next
    case (Inr g1)
    define g2 where "g2 = (fg_send (sync_msg (fg_sync_cycle g1)) (send_outbox g1))\<lparr>fg_acked := False\<rparr>"
    obtain q out g3 ins3 where q: "quantum_loop ins [] g2 = (q, out, g3, ins3)" by (cases "quantum_loop ins [] g2")
    have s: "fg_syncs g3 = fg_syncs g"
      using fg_keeps_sel(4) [OF flush_keeps [OF Inr]] fg_keeps_sel(4) [OF quantum_loop_keeps [OF q]]
      by (simp add: g2_def send_outbox_def fold_send fg_send_def)
    show ?thesis
    proof (cases q)
      case QAcked
      define g4 where "g4 = (fold fg_send out g3)\<lparr>fg_sync_cycle := fg_sync_cycle g3 + ga_quantum (fg_args g3),
          fg_syncs := fg_syncs g3 + 1\<rparr>"
      obtain r g5 where t: "turn_tail g4 = (r, g5)" by fastforce
      have "fg_syncs g5 = fg_syncs g + 1" using turn_tail_counts [OF t] s by (simp add: g4_def)
      moreover have "main_turn (late (fg_syncs g)) ins g = (r, g5, ins3)"
        using False Inr q QAcked t by (simp add: main_turn_def Let_def g2_def [symmetric] g4_def fold_send)
      moreover have "main_rest late n (QAcked, out, g3, ins3) =
          (case turn_tail g4 of (TReturn k, g) \<Rightarrow> (Exit k, g)
            | (TRaise e, g) \<Rightarrow> (fg_verdict (fst (gem5_fail e g)), snd (gem5_fail e g))
            | (_, g) \<Rightarrow> main_loop (clock_from late (fg_syncs g) n) ins3 g)"
        by (simp add: main_rest_def Let_def g4_def fold_send cong: turn_end.case_cong)
      ultimately show ?thesis
        using False Inr q QAcked t turn_tail_counts [OF t]
        by (cases r) (auto simp: clock_from_Suc g2_def [symmetric] split: check_error.split)
    next
      case (QFailed e)
      then show ?thesis using False Inr q
        by (cases e) (simp_all add: clock_from_Suc main_turn_def Let_def g2_def [symmetric] main_rest_def)
    qed (use False Inr q in \<open>simp add: clock_from_Suc main_turn_def Let_def g2_def [symmetric] main_rest_def\<close>)
  qed
qed (auto simp: clock_from_Suc main_turn_def)

text \<open>What is seen of a side: whether it has returned, and its state.\<close>

definition gem5_view :: "gem5_side \<Rightarrow> verdict \<times> fake_gem5" where
  "gem5_view s = (fg_verdict (fst s), snd s)"

lemma fail_over: "\<exists>v. gem5_fail e g = (GOver v, snd (gem5_fail e g))"
  by (cases e) simp_all

lemma fail_receives [simp]: "receives late ins (gem5_fail e g) = gem5_fail e g"
  using fail_over [of e g] by (metis receives_over)

lemma quantum_receives:
  "\<not> fg_acked g \<Longrightarrow> length ins \<le> n \<Longrightarrow>
     gem5_view (receives late ins (GQuantum out, g)) = main_rest late n (quantum_loop ins out g)"
  "length ins \<le> n \<Longrightarrow>
     gem5_view (receives late ins (begin_turn late g)) = main_loop (clock_from late (fg_syncs g) (Suc n)) ins g"
proof (induction ins arbitrary: g n out)
  case Nil
  have q: "gem5_view (receives late [] (GQuantum out, g)) = main_rest late n (quantum_loop [] out g)"
    if "\<not> fg_acked g" for out g n using that by (simp add: gem5_view_def main_rest_def)
  { case 1 from q [OF this(1)] show ?case . }
  { case 2 then show ?case
      using q [of _ "[]" n] unfolding main_loop_unfold by (auto simp: begin_turn_def gem5_view_def split: sum.split) }
next
  case (Cons i ins)
  have q: "gem5_view (receives late (i # ins) (GQuantum out, g)) = main_rest late n (quantum_loop (i # ins) out g)"
    if g: "\<not> fg_acked g" and n: "length (i # ins) \<le> n" for out g n
  proof (cases i)
    case None
    then show ?thesis using g by (simp add: main_rest_def gem5_view_def)
  next
    case (Some m)
    obtain e out1 g1 where h: "fg_handle m out g = (e, out1, g1)" by (cases "fg_handle m out g")
    consider x where "e = Some x" | "e = None" "fg_acked g1" | "e = None" "\<not> fg_acked g1" by (cases e) auto
    then show ?thesis
    proof cases
      case 1
      then show ?thesis using Some g h by (simp add: main_rest_def gem5_view_def)
    next
      case 2
      define g4 where "g4 = (fold fg_send out1 g1)\<lparr>fg_sync_cycle := fg_sync_cycle g1 + ga_quantum (fg_args g1),
          fg_syncs := fg_syncs g1 + 1\<rparr>"
      obtain r g5 where t: "turn_tail g4 = (r, g5)" by fastforce
      have e: "end_quantum late out1 g1 = (case turn_tail g4 of (TReturn n, g) \<Rightarrow> (GOver (Exit n), g)
          | (TRaise e, g) \<Rightarrow> gem5_fail e g | (_, g) \<Rightarrow> begin_turn late g)"
        by (simp add: end_quantum_def Let_def g4_def fold_send cong: turn_end.case_cong)
      have q: "quantum_loop ins out1 g1 = (QAcked, out1, g1, ins)" using 2 by (cases ins) simp_all
      have m: "main_rest late n (QAcked, out1, g1, ins) =
          (case turn_tail g4 of (TReturn k, g) \<Rightarrow> (Exit k, g)
            | (TRaise e, g) \<Rightarrow> (fg_verdict (fst (gem5_fail e g)), snd (gem5_fail e g))
            | (_, g) \<Rightarrow> main_loop (clock_from late (fg_syncs g) n) ins g)"
        by (simp add: main_rest_def Let_def g4_def fold_send cong: turn_end.case_cong)
      obtain k where k: "n = Suc k" "length ins \<le> k" using n by (cases n) auto
      show ?thesis
        using Cons.IH(2) [OF k(2), of g5] Some g h 2 q m t e k(1) by (cases r) (simp_all add: gem5_view_def)
    next
      case 3
      then show ?thesis using Cons.IH(1) [OF 3(2), of n out1] Some g h n by simp
    qed
  qed
  { case 1 from q [OF this] show ?case . }
  { case 2 then show ?case
      using q [of _ n "[]"] unfolding main_loop_unfold
      by (auto simp: begin_turn_def gem5_view_def simp del: fold.simps quantum_loop.simps split: sum.split) }
qed

text \<open>Starting a scenario only fills the tables and the outbox, with requests and bypass messages.\<close>

abbreviation of_kind :: "string \<Rightarrow> obj list \<Rightarrow> obj list" where
  "of_kind k \<equiv> filter (\<lambda>m. opt_str m ''t'' = Some k)"

abbreviation sync_msgs :: "obj list \<Rightarrow> obj list" where
  "sync_msgs \<equiv> of_kind ''sync''"

lemma g2t_no_sync [simp]: "opt_str (g2t_flit ch p) ''t'' = Some ''flit''"
  by (simp add: g2t_flit_def opt_str_def)

lemma run_scenario_kinds:
  assumes "k \<notin> {''flit'', ''bypass_read'', ''bypass_write''}"
  shows "fg_syncs (run_scenario g) = fg_syncs g \<and> fg_sync_cycle (run_scenario g) = fg_sync_cycle g \<and>
   fg_args (run_scenario g) = fg_args g \<and> fg_sent (run_scenario g) = fg_sent g \<and>
   fg_remote_bye (run_scenario g) = fg_remote_bye g \<and> fg_scenario_done (run_scenario g) = fg_scenario_done g \<and>
   fg_ddr (run_scenario g) = fg_ddr g \<and> of_kind k (fg_outbox (run_scenario g)) = of_kind k (fg_outbox g)"
proof -
  define same :: "fake_gem5 \<Rightarrow> fake_gem5 \<Rightarrow> bool" where "same g g' \<longleftrightarrow> fg_syncs g' = fg_syncs g \<and> fg_sync_cycle g' = fg_sync_cycle g \<and> fg_args g' = fg_args g \<and>
      fg_sent g' = fg_sent g \<and> fg_remote_bye g' = fg_remote_bye g \<and> fg_scenario_done g' = fg_scenario_done g \<and>
      fg_ddr g' = fg_ddr g \<and> of_kind k (fg_outbox g') = of_kind k (fg_outbox g)" for g g'
  have one: "same g (scenario_read i g)" "same g (scenario_write i g)" "same g (scenario_bypass g)" for g i
    using assms
    by (auto simp: same_def fg_ddr_def expect_read_def expect_write_def put_read_def put_write_def scenario_read_def scenario_write_def scenario_bypass_def fg_enqueue_def Let_def opt_str_def g2t_flit_def)
  have r: "same g (fold scenario_read is g)" for "is" g
    by (induction "is" arbitrary: g) (use one(1) in \<open>simp_all add: same_def\<close>)
  have w: "same g (fold scenario_write is g)" for "is" g
    by (induction "is" arbitrary: g) (use one(2) in \<open>simp_all add: same_def\<close>)
  have "same g (run_scenario g)"
    using r w one(3) unfolding run_scenario_def Let_def same_def by simp
  then show ?thesis by (simp add: same_def)
qed

lemmas run_scenario_counts = run_scenario_kinds [of "''sync''", simplified]

lemma hello_receives:
  "\<not> fg_hello_acked g \<Longrightarrow> fg_syncs g = 0 \<Longrightarrow> length ins \<le> n \<Longrightarrow>
     gem5_view (receives late ins (GHello, g)) =
       (case hello_loop ins g of
          (Some v, g, ins) \<Rightarrow> (v, g)
        | (None, g, ins) \<Rightarrow> main_loop (clock_from late 0 (Suc n)) ins (run_scenario g))"
proof (induction ins arbitrary: g)
  case (Cons i ins)
  show ?case
  proof (cases "i = None \<or> (\<exists>m. i = Some m \<and> opt_str m ''t'' \<in> {Some ''peer_closed'', Some ''bye''})")
    case True
    then show ?thesis using Cons.prems by (auto simp: gem5_view_def)
  next
    case False
    then obtain m where m: "i = Some m" "opt_str m ''t'' \<notin> {Some ''peer_closed'', Some ''bye''}" by auto
    obtain e out g1 where h: "fg_handle m (fg_outbox g) g = (e, out, g1)" by (cases "fg_handle m (fg_outbox g) g")
    let ?g = "g1\<lparr>fg_outbox := out\<rparr>"
    have s: "fg_syncs ?g = 0" using fg_keeps_sel(4) [OF fg_handle_keeps [OF h]] Cons.prems by simp
    consider x where "e = Some x" | "e = None" "fg_hello_acked g1" | "e = None" "\<not> fg_hello_acked g1" by (cases e) auto
    then show ?thesis
    proof cases
      case 2
      have "hello_loop ins ?g = (None, ?g, ins)" using 2 by (cases ins) simp_all
      moreover have "fg_syncs (run_scenario ?g) = 0" using s run_scenario_counts [of ?g] by simp
      ultimately show ?thesis
        using quantum_receives(2) [of ins n late "run_scenario ?g"] Cons.prems m h 2 by simp
    next
      case 3
      then show ?thesis using Cons.IH [of ?g] Cons.prems m h s by simp
    qed (use Cons.prems m h in \<open>simp add: gem5_view_def\<close>)
  qed
qed (simp add: gem5_view_def)


section \<open>What the gem5 side counts\<close>

lemma handle_kinds:
  assumes "fg_handle m out g = (e, out', g')" "k \<notin> {''mem_data'', ''mem_resp''}"
  shows "fg_sent g' = fg_sent g \<and> fg_outbox g' = fg_outbox g \<and> of_kind k out' = of_kind k out \<and>
    (fg_acked g' \<longleftrightarrow> fg_acked g \<or> opt_str m ''t'' = Some ''ack'')"
proof -
  define same :: "obj list \<times> fake_gem5 \<Rightarrow> bool" where
    "same r \<longleftrightarrow> fg_sent (snd r) = fg_sent g \<and> fg_outbox (snd r) = fg_outbox g \<and> of_kind k (fst r) = of_kind k out \<and>
      fg_acked (snd r) = fg_acked g" for r
  have flit: "same (out, snd (handle_flit m g))"
    by (simp add: same_def handle_flit_def Let_def maybe_react_def split: option.split prod.split)
  have rd: "same (snd (handle_mem_read m out g))"
    using assms(2) by (auto simp: same_def handle_mem_read_def fg_upd_ddr_def opt_str_def Let_def split: sum.split prod.split)
  have wr: "same (snd (handle_mem_write m out g))"
    using assms(2) by (auto simp: same_def handle_mem_write_def fg_upd_ddr_def opt_str_def Let_def split: sum.split prod.split)
  have byp: "same (out, snd (handle_bypass_resp m g))"
    by (auto simp: same_def handle_bypass_resp_def fg_upd_ddr_def Let_def split: sum.split prod.split option.split)
  have "same (snd (fg_handle m out g)) \<or> opt_str m ''t'' = Some ''ack'' \<and> fg_handle m out g = (None, out, g\<lparr>fg_acked := True\<rparr>)"
    using flit rd wr byp by (auto simp: fg_handle_def Let_def keep_out_def same_def)
  moreover have "opt_str m ''t'' = Some ''ack'' \<Longrightarrow> fg_handle m out g = (None, out, g\<lparr>fg_acked := True\<rparr>)"
    by (simp add: fg_handle_def)
  ultimately show ?thesis using assms(1) by (auto simp: same_def)
qed

lemmas handle_adds = handle_kinds [where k = "''sync''", simplified]

lemma flush_kinds:
  "flush_write_data ts g = Inr g' \<Longrightarrow> k \<noteq> ''flit'' \<Longrightarrow>
     fg_sent g' = fg_sent g \<and> of_kind k (fg_outbox g') = of_kind k (fg_outbox g) \<and> fg_remote_bye g' = fg_remote_bye g"
proof (induction ts arbitrary: g)
  case (Cons t ts)
  then obtain g1 where 1: "flush_one t g = Inr g1" "flush_write_data ts g1 = Inr g'" by auto
  have "fg_sent g1 = fg_sent g \<and> of_kind k (fg_outbox g1) = of_kind k (fg_outbox g) \<and> fg_remote_bye g1 = fg_remote_bye g"
    using 1(1) Cons.prems(2) by (auto simp: flush_one_def Let_def fg_enqueue_def split: option.splits)
  then show ?case using Cons.IH [OF 1(2) Cons.prems(2)] by simp
qed auto

lemmas flush_adds = flush_kinds [where k = "''sync''", simplified]

definition sync_run :: "int \<Rightarrow> nat \<Rightarrow> obj list" where
  "sync_run q n = map (\<lambda>k. sync_msg (q * int k)) [0 ..< n]"

definition gem5_inv :: "int \<Rightarrow> nat \<Rightarrow> gem5_side \<Rightarrow> bool" where
  "gem5_inv q n s \<longleftrightarrow>
     ga_quantum (fg_args (snd s)) = q \<and> fg_syncs (snd s) = int n \<and> fg_sync_cycle (snd s) = q * int n \<and>
     sync_msgs (fg_outbox (snd s)) = [] \<and>
     (case fst s of
        GHello \<Rightarrow> n = 0 \<and> sync_msgs (fg_sent (snd s)) = []
      | GQuantum out \<Rightarrow> sync_msgs (fg_sent (snd s)) = sync_run q (Suc n) \<and> sync_msgs out = [] \<and> \<not> fg_acked (snd s)
      | GOver v \<Rightarrow> sync_msgs (fg_sent (snd s)) \<in> {sync_run q n, sync_run q (Suc n)})"

text \<open>Between two turns: all syncs sent are acknowledged.\<close>

definition turn_inv :: "int \<Rightarrow> nat \<Rightarrow> fake_gem5 \<Rightarrow> bool" where
  "turn_inv q n g \<longleftrightarrow>
     ga_quantum (fg_args g) = q \<and> fg_syncs g = int n \<and> fg_sync_cycle g = q * int n \<and> sync_msgs (fg_outbox g) = [] \<and>
     sync_msgs (fg_sent g) = sync_run q n"

definition sends_on :: "fake_gem5 \<Rightarrow> fake_gem5 \<Rightarrow> bool" where
  "sends_on g g' \<longleftrightarrow> (\<exists>ms. fg_sent g' = fg_sent g @ ms)"

lemma sends_on_refl [simp]: "sends_on g g" by (simp add: sends_on_def)

lemma bye_no_sync [simp]: "opt_str (bye_msg r) ''t'' = Some ''bye''"
  by (simp add: bye_msg_def opt_str_def)

lemma fail_inv:
  assumes "ga_quantum (fg_args g) = q" "fg_syncs g = int n" "fg_sync_cycle g = q * int n" "sync_msgs (fg_outbox g) = []"
    "sync_msgs (fg_sent g) \<in> {sync_run q n, sync_run q (Suc n)}"
  shows "gem5_inv q n (gem5_fail e g) \<and> sends_on g (snd (gem5_fail e g))"
  using assms by (cases e) (auto simp: gem5_inv_def sends_on_def fg_send_def)

lemma begin_turn_inv:
  assumes "turn_inv q n g"
  shows "gem5_inv q n (begin_turn late g) \<and> sends_on g (snd (begin_turn late g))"
proof (cases "fg_scenario_done g \<or> late (fg_syncs g)")
  case True
  then show ?thesis
    using assms fail_inv [of g q n ContractError] by (auto simp: begin_turn_def turn_inv_def gem5_inv_def sends_on_def fg_send_def)
next
  case False
  show ?thesis
  proof (cases "flush_write_data (fg_pending_write_data g) g")
    case (Inl e)
    then show ?thesis using False assms fail_inv [of g q n "Raised e"] by (simp add: begin_turn_def turn_inv_def)
  next
    case (Inr g1)
    have "sync_msgs (fg_outbox g1) = []" "fg_sent g1 = fg_sent g" "sync_msgs (fg_sent g1) = sync_run q n"
      using flush_adds [OF Inr] assms by (simp_all add: turn_inv_def)
    moreover have "opt_str (sync_msg c) ''t'' = Some ''sync''" for c by (simp add: sync_msg_def opt_str_def)
    ultimately show ?thesis
      using False Inr assms fg_keeps_sel [OF flush_keeps [OF Inr]]
      by (auto simp: begin_turn_def turn_inv_def gem5_inv_def sends_on_def send_outbox_def fold_send fg_send_def sync_run_def)
  qed
qed

lemma sends_on_trans: "sends_on g g' \<Longrightarrow> sends_on g' g'' \<Longrightarrow> sends_on g g''"
  by (auto simp: sends_on_def)

lemma gem5_recv_inv:
  assumes "gem5_inv q n (p, g)" "\<And>v. p \<noteq> GOver v"
    and "p = GHello \<Longrightarrow> opt_str m ''t'' \<noteq> Some ''ack''"
  shows "gem5_inv q (n + of_bool (opt_str m ''t'' = Some ''ack'')) (gem5_recv late (Some m) (p, g)) \<and>
    sends_on g (snd (gem5_recv late (Some m) (p, g)))"
proof (cases p)
  case GHello
  show ?thesis
  proof (cases "opt_str m ''t'' \<in> {Some ''peer_closed'', Some ''bye''}")
    case True
    then show ?thesis using assms GHello by (auto simp: gem5_inv_def sync_run_def)
  next
    case False
    obtain e out g1 where h: "fg_handle m (fg_outbox g) g = (e, out, g1)" by (cases "fg_handle m (fg_outbox g) g")
    let ?g = "g1\<lparr>fg_outbox := out\<rparr>"
    have g1: "fg_sent g1 = fg_sent g" "sync_msgs out = []" "turn_inv q n ?g"
      using handle_adds [OF h] fg_keeps_sel [OF fg_handle_keeps [OF h]] assms(1) GHello
      by (simp_all add: gem5_inv_def turn_inv_def sync_run_def)
    have s: "turn_inv q n (run_scenario ?g)" "sends_on g (run_scenario ?g)"
      using g1 run_scenario_counts [of ?g] by (simp_all add: turn_inv_def sends_on_def)
    have b: "gem5_inv q n (begin_turn late (run_scenario ?g)) \<and> sends_on g (snd (begin_turn late (run_scenario ?g)))"
      using begin_turn_inv [OF s(1), of late] sends_on_trans [OF s(2)] by blast
    show ?thesis
    proof (cases e)
      case None
      have "gem5_inv q n (GHello, ?g)" using g1 assms(1) GHello by (simp add: gem5_inv_def turn_inv_def sync_run_def)
      then show ?thesis using None assms(3) GHello False h b g1(1) by (simp add: sends_on_def)
    next
      case (Some x)
      then show ?thesis
        using assms(1,3) GHello False h g1 handle_adds [OF h] fg_keeps_sel [OF fg_handle_keeps [OF h]]
        by (simp add: gem5_inv_def sends_on_def sync_run_def)
    qed
  qed
next
  case (GQuantum out)
  obtain e out1 g1 where h: "fg_handle m out g = (e, out1, g1)" by (cases "fg_handle m out g")
  note a = handle_adds [OF h] and k = fg_keeps_sel [OF fg_handle_keeps [OF h]]
  show ?thesis
  proof (cases e)
    case (Some x)
    then have "opt_str m ''t'' \<noteq> Some ''ack''" using h by (auto simp: fg_handle_def)
    then show ?thesis
      using fail_inv [of g1 q n x] Some assms(1) GQuantum h a k by (auto simp: gem5_inv_def sends_on_def)
  next
    case None
    show ?thesis
    proof (cases "fg_acked g1")
      case False
      then show ?thesis using None assms(1) GQuantum h a k by (auto simp: gem5_inv_def sends_on_def)
    next
      case True
      define g4 where "g4 = (fold fg_send out1 g1)\<lparr>fg_sync_cycle := fg_sync_cycle g1 + ga_quantum (fg_args g1),
          fg_syncs := fg_syncs g1 + 1\<rparr>"
      obtain r g5 where t: "turn_tail g4 = (r, g5)" by fastforce
      have ack: "opt_str m ''t'' = Some ''ack''" using True a assms(1) GQuantum by (simp add: gem5_inv_def)
      have g5: "turn_inv q (Suc n) g5" "sends_on g g5"
        using turn_tail_counts [OF t] assms(1) GQuantum a k
        by (simp_all add: turn_inv_def gem5_inv_def g4_def fold_send sends_on_def algebra_simps)
      have e: "gem5_recv late (Some m) (p, g) = (case r of TReturn n \<Rightarrow> (GOver (Exit n), g5)
          | TRaise e \<Rightarrow> gem5_fail e g5 | _ \<Rightarrow> begin_turn late g5)"
        using None True GQuantum h t by (simp add: end_quantum_def Let_def g4_def fold_send split: turn_end.split)
      show ?thesis
      proof (cases r)
        case (TReturn x)
        then show ?thesis using g5 ack e by (simp add: turn_inv_def gem5_inv_def)
      next
        case (TRaise x)
        then show ?thesis using fail_inv [of g5 q "Suc n" x] g5 ack e sends_on_trans by (auto simp: turn_inv_def)
      qed (use begin_turn_inv [OF g5(1), of late] ack e g5 sends_on_trans in auto)
    qed
  qed
qed (use assms(2) in simp)

lemma gem5_silent_inv:
  assumes "gem5_inv q n (p, g)" "\<And>v. p \<noteq> GOver v"
  shows "gem5_inv q n (gem5_recv late None (p, g)) \<and> sends_on g (snd (gem5_recv late None (p, g)))"
  using assms fail_inv [of g q n ContractError] by (cases p) (auto simp: gem5_inv_def sync_run_def sends_on_def fg_send_def)

section \<open>What the runtime acknowledges\<close>

definition ack_list :: "runtime \<Rightarrow> json list" where
  "ack_list rt = filter is_ack (rt_sent rt)"

lemma acks_ack_list: "acks rt = length (ack_list rt)" by (simp add: acks_def ack_list_def)

definition rt_extends :: "runtime \<Rightarrow> runtime \<Rightarrow> bool" where
  "rt_extends rt rt' \<longleftrightarrow> (\<exists>ms. rt_sent rt' = rt_sent rt @ ms)"

lemma rt_extends_trans: "rt_extends rt rt' \<Longrightarrow> rt_extends rt' rt'' \<Longrightarrow> rt_extends rt rt''"
  by (auto simp: rt_extends_def)

lemma rt_extends_simps [simp]:
  "rt_extends rt rt" "rt_extends rt (put_agent a rt)" "rt_extends rt (put_broker b rt)" "rt_extends rt (rt_send m rt)"
  "rt_extends rt (rt'\<lparr>rt_phase := p\<rparr>) = rt_extends rt rt'" "rt_extends rt (rt'\<lparr>rt_clk := c\<rparr>) = rt_extends rt rt'"
  "rt_extends rt (rt'\<lparr>rt_sync_seen := z\<rparr>) = rt_extends rt rt'" "rt_extends rt (rt'\<lparr>rt_syncs_acked := k\<rparr>) = rt_extends rt rt'"
  "rt_extends rt (rt'\<lparr>rt_exit_reason := x, rt_done := d\<rparr>) = rt_extends rt rt'"
  "rt_extends (rt\<lparr>rt_phase := p\<rparr>) rt' = rt_extends rt rt'" "rt_extends (rt\<lparr>rt_sync_seen := z\<rparr>) rt' = rt_extends rt rt'"
  "rt_extends rt (rt'\<lparr>rt_cycles_run := k\<rparr>) = rt_extends rt rt'"
  by (simp_all add: rt_extends_def put_agent_def put_broker_def rt_send_def)

lemma barrier_parts_extend:
  "rt_extends rt (barrier_finish rt)" "rt_extends rt (acknowledge rt)" "rt_extends rt (next_cycle n rt)"
  by (auto simp: barrier_finish_def acknowledge_def next_cycle_def Let_def rt_extends_def rt_send_def)

lemma barrier_extends: "rt_extends rt (barrier_turn rt)"
proof -
  have w: "rt_extends rt (wake rt)" for rt
  proof -
    let ?r = "rt\<lparr>rt_sync_seen := False\<rparr>"
    have "rt_extends ?r (barrier_finish ?r)" "rt_extends ?r (barrier_finish (acknowledge ?r))" "rt_extends ?r (acknowledge ?r)"
      "rt_extends ?r (next_cycle (nat (rt_quantum_cycles rt)) ?r)"
      using barrier_parts_extend rt_extends_trans [OF barrier_parts_extend(2) barrier_parts_extend(1)] by blast+
    then show ?thesis by (simp add: wake_def park_or_finish_def Let_def)
  qed
  have t: "rt_extends rt (barrier_top rt)" for rt
    using w barrier_parts_extend(1) by (simp add: barrier_top_def)
  have e: "rt_extends rt (end_cycle n rt)" for n
  proof -
    let ?r = "(put_agent (agent_on_cycle (rt_agent rt)) rt)\<lparr>rt_cycles_run := rt_cycles_run rt + 1\<rparr>"
    have "end_cycle n rt = (if n \<le> 1 then barrier_top (acknowledge ?r) else next_cycle (n - 1) ?r)"
      by (simp add: end_cycle_def Let_def put_agent_def)
    moreover have "rt_extends rt ?r" by simp
    ultimately show ?thesis
      using rt_extends_trans rt_extends_trans [OF barrier_parts_extend(2) t] barrier_parts_extend(3) by metis
  qed
  show ?thesis using w t e by (simp add: barrier_turn_def parked_turn_def split: barrier_phase.split)
qed

lemma dispatch_extends: "rt_extends rt (dispatcher_turn m rt)"
  by (auto simp: dispatcher_turn_def route_def route_flit_def Let_def rt_extends_def put_agent_def put_broker_def
      split: sum.split if_splits)

lemma task_extends: "rt_extends rt (task_turn i rt)"
  by (auto simp: task_turn_def started_def drop_task_def rt_extends_def put_broker_def rt_send_def Let_def
      split: bypass_task.split sum.split prod.split)

lemma rt_step_extends: "rt_step rt l rt' \<Longrightarrow> rt_extends rt rt'"
  by (erule rt_step.cases) (auto intro: barrier_extends dispatch_extends task_extends)

lemma quiet_ack_list:
  assumes "quiet rt rt'" "rt_clean rt"
  shows "ack_list rt' = ack_list rt"
  using quiet_acks [OF assms(1,2)] by (simp add: ack_list_def)

text \<open>The loop owes an acknowledgement while a quantum runs or a sync waits to be seen.\<close>

definition busy :: "runtime \<Rightarrow> bool" where
  "busy rt \<longleftrightarrow> in_quantum rt \<or> rt_sync_seen rt"

definition no_ack :: "runtime \<Rightarrow> runtime \<Rightarrow> bool" where
  "no_ack rt rt' \<longleftrightarrow> rt_sync_cycle rt' = rt_sync_cycle rt \<and> ack_list rt' = ack_list rt \<and>
     (rt_done rt \<longrightarrow> rt_done rt') \<and> (rt_done rt' \<or> (busy rt \<longrightarrow> busy rt'))"

definition one_ack :: "runtime \<Rightarrow> runtime \<Rightarrow> bool" where
  "one_ack rt rt' \<longleftrightarrow> busy rt \<and> (rt_sync_seen rt \<longrightarrow> \<not> rt_done rt \<or> in_quantum rt) \<and> rt_sync_cycle rt' = rt_sync_cycle rt \<and>
     ack_list rt' = ack_list rt @ [JObj (ack_msg (rt_sync_cycle rt))]"

lemma acknowledge_ack:
  "ack_list (acknowledge rt) = ack_list rt @ [JObj (ack_msg (rt_sync_cycle rt))]" "rt_sync_cycle (acknowledge rt) = rt_sync_cycle rt"
  by (simp_all add: acknowledge_def Let_def ack_list_def rt_send_def)

lemma finish_ack:
  "ack_list (barrier_finish rt) = ack_list rt" "rt_sync_cycle (barrier_finish rt) = rt_sync_cycle rt"
  "rt_done (barrier_finish rt) = rt_done rt"
  by (simp_all add: barrier_finish_def ack_list_def rt_send_def runtime_bye_def is_ack_def opt_str_def)

lemma next_cycle_ack:
  "ack_list (next_cycle n rt) = ack_list rt" "rt_sync_cycle (next_cycle n rt) = rt_sync_cycle rt"
  "rt_done (next_cycle n rt) = rt_done rt" "in_quantum (next_cycle n rt)"
  by (simp_all add: next_cycle_def ack_list_def in_quantum_def)

lemma wake_effect:
  assumes "rt_sync_seen rt \<or> rt_done rt" "\<not> in_quantum rt"
  shows "no_ack rt (wake rt) \<or> one_ack rt (wake rt)"
  using assms acknowledge_ack [of "rt\<lparr>rt_sync_seen := False\<rparr>"] finish_ack [of "acknowledge (rt\<lparr>rt_sync_seen := False\<rparr>)"]
    finish_ack [of "rt\<lparr>rt_sync_seen := False\<rparr>"] next_cycle_ack [of "nat (rt_quantum_cycles rt)" "rt\<lparr>rt_sync_seen := False\<rparr>"]
  by (auto simp: wake_def Let_def park_or_finish_def no_ack_def one_ack_def busy_def ack_list_def)

lemma wake_no_ack:
  assumes "0 < rt_quantum_cycles rt"
  shows "ack_list (wake rt) = ack_list rt \<and> rt_sync_cycle (wake rt) = rt_sync_cycle rt"
  using assms finish_ack [of "rt\<lparr>rt_sync_seen := False\<rparr>"] next_cycle_ack [of "nat (rt_quantum_cycles rt)" "rt\<lparr>rt_sync_seen := False\<rparr>"]
  by (auto simp: wake_def Let_def ack_list_def)

lemma barrier_effect:
  assumes "lockstep q budget n rt" "0 \<le> q"
  shows "no_ack rt (barrier_turn rt) \<or> one_ack rt (barrier_turn rt)"
proof -
  have top: "no_ack rt (barrier_top rt) \<or> one_ack rt (barrier_top rt)" if "\<not> in_quantum rt"
    using wake_effect [OF _ that] finish_ack [of rt] that
    by (auto simp: barrier_top_def no_ack_def busy_def ack_list_def)
  have cyc: "no_ack rt (end_cycle m rt) \<or> one_ack rt (end_cycle m rt)" if p: "rt_phase rt \<in> {BLow m, BFree m}" for m
  proof -
    define r where "r = (put_agent (agent_on_cycle (rt_agent rt)) rt)\<lparr>rt_cycles_run := rt_cycles_run rt + 1\<rparr>"
    have e: "end_cycle m rt = (if m \<le> 1 then barrier_top (acknowledge r) else next_cycle (m - 1) r)"
      by (simp add: end_cycle_def Let_def put_agent_def r_def)
    have "quiet rt (put_agent (agent_on_cycle (rt_agent rt)) rt)"
      by (rule quiet_agent [of ClockCycle]) simp
    then have "ack_list r = ack_list rt" using quiet_ack_list [of rt] assms(1) by (simp add: lockstep_def r_def ack_list_def)
    then have r: "ack_list r = ack_list rt" "rt_sync_cycle r = rt_sync_cycle rt" "rt_done r = rt_done rt"
      "rt_sync_seen r = rt_sync_seen rt" "rt_quantum_cycles r = q"
      using assms(1) by (simp_all add: r_def put_agent_def lockstep_def)
    have q: "in_quantum rt" "0 < q"
      using assms(1) p by (auto simp: in_quantum_def lockstep_def phase_ok_def)
    show ?thesis
    proof (cases "m \<le> 1")
      case True
      have "ack_list (barrier_top (acknowledge r)) = ack_list (acknowledge r) \<and>
          rt_sync_cycle (barrier_top (acknowledge r)) = rt_sync_cycle (acknowledge r)"
        using wake_no_ack [of "acknowledge r"] finish_ack [of "acknowledge r"] q(2) r(5)
        by (auto simp: barrier_top_def acknowledge_sel ack_list_def)
      then have "one_ack rt (barrier_top (acknowledge r))"
        using acknowledge_ack [of r] r q(1) by (simp add: one_ack_def busy_def)
      then show ?thesis using True e by simp
    next
      case False
      then show ?thesis using e r next_cycle_ack [of "m - 1" r] by (simp add: no_ack_def busy_def)
    qed
  qed
  show ?thesis
  proof (cases "rt_phase rt")
    case BIdle
    then show ?thesis using top by (simp add: barrier_turn_def in_quantum_def)
  next
    case (BParked k)
    then have nq: "\<not> in_quantum rt" by (simp add: in_quantum_def)
    then show ?thesis using BParked wake_effect [OF _ nq]
      by (auto simp: barrier_turn_def parked_turn_def no_ack_def busy_def ack_list_def)
  next
    case (BHigh k)
    then show ?thesis by (simp add: barrier_turn_def no_ack_def busy_def in_quantum_def ack_list_def)
  qed (use cyc in \<open>simp_all add: barrier_turn_def no_ack_def\<close>)
qed

text \<open>The runtime's part of the invariant, after \<open>d\<close> syncs have been routed.\<close>

definition ack_run :: "int \<Rightarrow> nat \<Rightarrow> json list" where
  "ack_run q n = map (\<lambda>k. JObj (ack_msg (q * int k))) [0 ..< n]"

definition rt_inv :: "int \<Rightarrow> int \<Rightarrow> nat \<Rightarrow> runtime \<Rightarrow> bool" where
  "rt_inv q budget d rt \<longleftrightarrow>
     lockstep q budget d rt \<and> ack_list rt = ack_run q (acks rt) \<and> (0 < d \<longrightarrow> rt_sync_cycle rt = q * (int d - 1)) \<and>
     (rt_done rt \<or> d \<le> acks rt + of_bool (busy rt))"

lemma acks_le: "lockstep q budget d rt \<Longrightarrow> acks rt \<le> d \<and> acks rt + of_bool (in_quantum rt) \<le> d"
proof -
  assume "lockstep q budget d rt"
  then have "rt_syncs_acked rt + of_bool (in_quantum rt) + of_bool (rt_sync_seen rt \<and> \<not> rt_done rt) \<le> int d"
    "int (acks rt) = rt_syncs_acked rt" by (simp_all only: lockstep_def)
  moreover have "(0 :: int) \<le> of_bool (rt_sync_seen rt \<and> \<not> rt_done rt)" by simp
  ultimately have "int (acks rt) + of_bool (in_quantum rt) \<le> int d" by linarith
  then show ?thesis by (cases "in_quantum rt") simp_all
qed

lemma owes:
  assumes "lockstep q budget d rt" "one_ack rt rt'"
  shows "acks rt < d"
proof (cases "in_quantum rt")
  case True
  then show ?thesis using acks_le [OF assms(1)] by simp
next
  case False
  then have "rt_sync_seen rt" "\<not> rt_done rt" using assms(2) by (auto simp: one_ack_def busy_def)
  moreover have "rt_syncs_acked rt + of_bool (in_quantum rt) + of_bool (rt_sync_seen rt \<and> \<not> rt_done rt) \<le> int d"
    "int (acks rt) = rt_syncs_acked rt" using assms(1) by (simp_all only: lockstep_def)
  ultimately show ?thesis using False by simp
qed

lemma rt_inv_quiet:
  assumes "rt_inv q budget d rt" "lockstep q budget d' rt'" "quiet rt rt'" "rt_extends rt rt'"
    and "rt_sync_cycle rt' = (if d' = d then rt_sync_cycle rt else q * int d)" "d' = d \<or> d' = Suc d"
    and "rt_done rt \<Longrightarrow> rt_done rt'" "rt_done rt' \<or> (busy rt \<longrightarrow> busy rt')" "d' = Suc d \<Longrightarrow> d \<le> acks rt \<and> (busy rt' \<or> rt_done rt')"
  shows "rt_inv q budget d' rt'"
proof -
  have a: "ack_list rt' = ack_list rt" using quiet_ack_list assms(1,3) by (simp add: rt_inv_def lockstep_def)
  then show ?thesis
    using assms(1,2,5-9) by (cases "busy rt"; cases "busy rt'") (auto simp: rt_inv_def acks_ack_list)
qed

lemma rt_inv_step:
  assumes "rt_step rt l rt'" "rt_inv q budget d rt" "0 \<le> q"
    and "is_sync l \<Longrightarrow> d \<le> acks rt" "d \<le> Suc (acks rt)"
    and "\<And>m. l = Dispatch m \<Longrightarrow> opt_str m ''t'' = Some ''sync'' \<Longrightarrow> get_int m ''cycle'' 0 = q * int d"
  shows "rt_inv q budget (d + of_bool (is_sync l)) rt'"
proof -
  have lock: "lockstep q budget (d + of_bool (is_sync l)) rt'"
    using lockstep_step [OF assms(1) _ assms(3)] assms(2) by (simp add: rt_inv_def)
  note ext = rt_step_extends [OF assms(1)]
  show ?thesis
    using assms(1)
  proof cases
    case (dispatch m)
    have sync: "is_sync l \<longleftrightarrow> opt_str m ''t'' = Some ''sync''" by (simp add: dispatch(1) is_sync_def)
    have r: "rt_sync_cycle rt1 = (if opt_str m ''t'' = Some ''sync'' then get_int m ''cycle'' 0 else rt_sync_cycle rt) \<and>
        (busy rt \<longrightarrow> busy rt1) \<and> (opt_str m ''t'' = Some ''sync'' \<longrightarrow> busy rt1) \<and> (rt_done rt \<longrightarrow> rt_done rt1)"
      if "route m rt = Inr rt1" for rt1
      using that by (auto simp: route_def route_flit_def put_agent_def put_broker_def Let_def busy_def in_quantum_def split: if_splits)
    have "rt_sync_cycle rt' = (if opt_str m ''t'' = Some ''sync'' then get_int m ''cycle'' 0 else rt_sync_cycle rt) \<and>
        (busy rt \<longrightarrow> busy rt') \<and> (opt_str m ''t'' = Some ''sync'' \<longrightarrow> busy rt') \<and> (rt_done rt \<longrightarrow> rt_done rt')"
    proof (cases "route m rt")
      case (Inl e)
      then have "opt_str m ''t'' \<noteq> Some ''sync''" by (auto simp: route_def)
      then show ?thesis using Inl dispatch by (simp add: dispatcher_turn_def busy_def in_quantum_def)
    next
      case (Inr rt1)
      then show ?thesis using r [OF Inr] dispatch by (simp add: dispatcher_turn_def)
    qed
    then have k: "rt_sync_cycle rt' = (if is_sync l then q * int d else rt_sync_cycle rt)" "busy rt \<longrightarrow> busy rt'"
      "is_sync l \<longrightarrow> busy rt'" "rt_done rt \<longrightarrow> rt_done rt'"
      using assms(6) [OF dispatch(1)] sync by auto
    show ?thesis
      by (rule rt_inv_quiet [OF assms(2) lock _ ext]) (use quiet_dispatch [of rt m] dispatch(2) k assms(4) in \<open>auto simp: of_bool_def split: if_splits\<close>)
  next
    case barrier
    then have d: "d + of_bool (is_sync l) = d" by (simp add: is_sync_def)
    have "lockstep q budget d rt" using assms(2) by (simp add: rt_inv_def)
    from barrier_effect [OF this assms(3)] consider "no_ack rt rt'" | "one_ack rt rt'" using barrier by auto
    then show ?thesis
    proof cases
      case 1
      then show ?thesis using assms(2) lock d
        by (cases "busy rt"; cases "busy rt'") (auto simp: rt_inv_def no_ack_def acks_ack_list)
    next
      case 2
      have "acks rt < d" using owes [OF _ 2] assms(2) by (auto simp: rt_inv_def)
      then have "d = Suc (acks rt)" using assms(5) by simp
      then show ?thesis using assms(2) lock d 2 by (auto simp: rt_inv_def one_ack_def acks_ack_list ack_run_def)
    qed
  next
    case (task i)
    have "rt_sync_cycle rt' = rt_sync_cycle rt" unfolding task
      by (simp add: task_turn_def started_def drop_task_def rt_put_defs Let_def split: bypass_task.split sum.split prod.split)
    moreover have "rt_phase rt' = rt_phase rt" using barrier_part_task [of i rt] task by (simp add: barrier_part_def)
    ultimately show ?thesis
      using rt_inv_quiet [OF assms(2) lock _ ext] quiet_task [of rt i] task done_task [of i rt]
      by (simp add: is_sync_def busy_def in_quantum_def)
  next
    case (device e a)
    then show ?thesis
      using rt_inv_quiet [OF assms(2) lock _ ext] quiet_agent [OF device(3)]
      by (simp add: is_sync_def busy_def in_quantum_def put_agent_def)
  next
    case (port op)
    then show ?thesis
      using rt_inv_quiet [OF assms(2) lock _ ext] quiet_port [of rt op]
      by (simp add: is_sync_def busy_def in_quantum_def put_broker_def)
  qed
qed

section \<open>The system\<close>

text \<open>
  \<open>cs_up\<close> and \<open>cs_down\<close> count the messages that gem5 and the runtime have taken.  The test returns with the barrier loop, and the
  simulation stops with it; gem5 then reads the end of the stream, perhaps before what was still on the way
  (\<open>cs_hung_up\<close>).  When the gem5 side has returned, its socket is closed and the reader of the transport queues its notice.
\<close>

record cosim =
  cs_rt :: runtime
  cs_gem5 :: gem5_side
  cs_up :: nat
  cs_down :: nat
  cs_hung_up :: bool

abbreviation cs_fg :: "cosim \<Rightarrow> fake_gem5" where "cs_fg s \<equiv> snd (cs_gem5 s)"

definition rt_running :: "runtime \<Rightarrow> bool" where
  "rt_running rt \<longleftrightarrow> rt_phase rt \<notin> {BFinished, BTimedOut}"

definition gem5_over :: "cosim \<Rightarrow> bool" where
  "gem5_over s \<longleftrightarrow> (case fst (cs_gem5 s) of GOver v \<Rightarrow> True | _ \<Rightarrow> False)"

definition down_stream :: "cosim \<Rightarrow> obj list" where
  "down_stream s = fg_sent (cs_fg s) @ (if gem5_over s then [closed_msg] else [])"

text \<open>After the handshake: the hello has been taken, and the \<^verbatim>\<open>hello_ack\<close> is on its way.\<close>

definition cosim_start :: "runtime_env \<Rightarrow> gem5_args \<Rightarrow> cosim" where
  "cosim_start e args =
     \<lparr>cs_rt = take_hello (hello_msg args) (runtime_init e), cs_gem5 = gem5_start args, cs_up = 0, cs_down = 1,
      cs_hung_up = False\<rparr>"

datatype cosim_label = Local rt_label | Down | Up bool | Silent bool | HangUp bool

inductive cosim_step :: "cosim \<Rightarrow> cosim_label \<Rightarrow> cosim \<Rightarrow> bool" where
  local: "rt_running (cs_rt s) \<Longrightarrow> rt_step (cs_rt s) l rt \<Longrightarrow> \<forall>m. l \<noteq> Dispatch m \<Longrightarrow>
     cosim_step s (Local l) (s\<lparr>cs_rt := rt\<rparr>)"
| down: "rt_running (cs_rt s) \<Longrightarrow> cs_down s < length (down_stream s) \<Longrightarrow>
     rt_step (cs_rt s) (Dispatch (down_stream s ! cs_down s)) rt \<Longrightarrow>
     cosim_step s Down (s\<lparr>cs_rt := rt, cs_down := Suc (cs_down s)\<rparr>)"
| up: "\<not> gem5_over s \<Longrightarrow> \<not> cs_hung_up s \<Longrightarrow> cs_up s < length (rt_sent (cs_rt s)) \<Longrightarrow>
     cosim_step s (Up late)
       (s\<lparr>cs_gem5 := gem5_recv (\<lambda>_. late) (Some (as_obj (rt_sent (cs_rt s) ! cs_up s))) (cs_gem5 s), cs_up := Suc (cs_up s)\<rparr>)"
| silent: "\<not> gem5_over s \<Longrightarrow> cosim_step s (Silent late) (s\<lparr>cs_gem5 := gem5_recv (\<lambda>_. late) None (cs_gem5 s)\<rparr>)"
| hang_up: "\<not> gem5_over s \<Longrightarrow> \<not> rt_running (cs_rt s) \<Longrightarrow>
     cosim_step s (HangUp late)
       (s\<lparr>cs_gem5 := gem5_recv (\<lambda>_. late) (Some closed_msg) (cs_gem5 s), cs_hung_up := True\<rparr>)"

inductive cosim_run :: "cosim \<Rightarrow> cosim_label list \<Rightarrow> cosim \<Rightarrow> bool" where
  idle: "cosim_run s [] s"
| run: "cosim_run s ls s' \<Longrightarrow> cosim_step s' l s'' \<Longrightarrow> cosim_run s (ls @ [l]) s''"

inductive_cases cosim_stepE: "cosim_step s l s'"

lemma cosim_run_trans: "cosim_run s' ls' s'' \<Longrightarrow> cosim_run s ls s' \<Longrightarrow> cosim_run s (ls @ ls') s''"
  by (induction rule: cosim_run.induct) (auto simp flip: append_assoc intro: cosim_run.run)

text \<open>The handshake on the \<^verbatim>\<open>hello\<close> of gem5 leads to the initial state.\<close>

lemma cosim_start_handshake:
  "handshake (map Some (fg_sent (snd (gem5_start args)))) (runtime_init e) = Some (Inr (cs_rt (cosim_start e args)))"
  by (simp add: gem5_start_def fg_serve_def fg_send_def fake_gem5_init_def handshake_def cosim_start_def hello_msg_def opt_str_def)

section \<open>The clocks of the two processes\<close>

definition routed :: "cosim \<Rightarrow> nat" where
  "routed s = length (sync_msgs (take (cs_down s) (fg_sent (cs_fg s))))"

definition taken :: "cosim \<Rightarrow> nat" where
  "taken s = length (filter is_ack (take (cs_up s) (rt_sent (cs_rt s))))"

definition cosim_inv :: "int \<Rightarrow> int \<Rightarrow> cosim \<Rightarrow> bool" where
  "cosim_inv q budget s \<longleftrightarrow>
     rt_inv q budget (routed s) (cs_rt s) \<and> gem5_inv q (taken s) (cs_gem5 s) \<and>
     cs_down s \<le> length (down_stream s) \<and> cs_up s \<le> length (rt_sent (cs_rt s))"

lemma taken_le: "taken s \<le> acks (cs_rt s)"
proof -
  have "acks (cs_rt s) = taken s + length (filter is_ack (drop (cs_up s) (rt_sent (cs_rt s))))"
    unfolding acks_def taken_def by (metis append_take_drop_id filter_append length_append)
  then show ?thesis by simp
qed

lemma routed_split: "length (sync_msgs (fg_sent (cs_fg s))) = routed s + length (sync_msgs (drop (cs_down s) (fg_sent (cs_fg s))))"
  unfolding routed_def by (metis append_take_drop_id filter_append length_append)

lemma syncs_sent:
  assumes "gem5_inv q n (p, g)"
  shows "length (sync_msgs (fg_sent g)) \<le> Suc n \<and> sync_msgs (fg_sent g) = sync_run q (length (sync_msgs (fg_sent g)))"
  using assms by (cases p) (auto simp: gem5_inv_def sync_run_def)

text \<open>Never more than one sync is on the way or being worked on.\<close>

lemma cosim_counts:
  assumes "cosim_inv q budget s"
  shows "taken s \<le> acks (cs_rt s)" "acks (cs_rt s) \<le> routed s" "routed s \<le> length (sync_msgs (fg_sent (cs_fg s)))"
    "length (sync_msgs (fg_sent (cs_fg s))) \<le> Suc (taken s)"
proof -
  show "taken s \<le> acks (cs_rt s)" by (rule taken_le)
  show "acks (cs_rt s) \<le> routed s" using acks_le assms by (auto simp: cosim_inv_def rt_inv_def)
  show "routed s \<le> length (sync_msgs (fg_sent (cs_fg s)))" using routed_split by simp
  show "length (sync_msgs (fg_sent (cs_fg s))) \<le> Suc (taken s)"
    using syncs_sent [of q "taken s" "fst (cs_gem5 s)" "cs_fg s"] assms by (simp add: cosim_inv_def)
qed

lemma routed_extend:
  assumes "sends_on (cs_fg s) (snd g)" "cs_down s \<le> length (fg_sent (cs_fg s))"
  shows "routed (s\<lparr>cs_gem5 := g\<rparr>) = routed s"
  using assms by (auto simp: routed_def sends_on_def)

lemma routed_frame [simp]:
  "routed (s\<lparr>cs_rt := rt\<rparr>) = routed s" "routed (s\<lparr>cs_gem5 := g, cs_up := k\<rparr>) = routed (s\<lparr>cs_gem5 := g\<rparr>)"
  "routed (s\<lparr>cs_gem5 := g, cs_hung_up := b\<rparr>) = routed (s\<lparr>cs_gem5 := g\<rparr>)"
  "routed (s\<lparr>cs_rt := rt, cs_down := d\<rparr>) = routed (s\<lparr>cs_down := d\<rparr>)"
  by (simp_all add: routed_def)

lemma taken_frame [simp]:
  "taken (s\<lparr>cs_gem5 := g\<rparr>) = taken s" "taken (s\<lparr>cs_gem5 := g, cs_hung_up := b\<rparr>) = taken s"
  "taken (s\<lparr>cs_gem5 := g, cs_up := k\<rparr>) = taken (s\<lparr>cs_up := k\<rparr>)" "taken (s\<lparr>cs_rt := rt, cs_down := d\<rparr>) = taken (s\<lparr>cs_rt := rt\<rparr>)"
  by (simp_all add: taken_def)

lemma taken_extend: "rt_extends (cs_rt s) rt \<Longrightarrow> cs_up s \<le> length (rt_sent (cs_rt s)) \<Longrightarrow> taken (s\<lparr>cs_rt := rt\<rparr>) = taken s"
  by (auto simp: taken_def rt_extends_def)

lemma taken_up:
  assumes "cs_up s < length (rt_sent (cs_rt s))"
  shows "taken (s\<lparr>cs_up := Suc (cs_up s)\<rparr>) =
    taken s + of_bool (opt_str (as_obj (rt_sent (cs_rt s) ! cs_up s)) ''t'' = Some ''ack'')"
  using assms by (simp add: taken_def take_Suc_conv_app_nth is_ack_def)

lemma down_frame [simp]:
  "down_stream (s\<lparr>cs_rt := rt\<rparr>) = down_stream s" "down_stream (s\<lparr>cs_rt := rt, cs_down := d\<rparr>) = down_stream s"
  by (simp_all add: down_stream_def gem5_over_def)

lemma routed_down:
  assumes "cs_down s < length (down_stream s)"
  shows "routed (s\<lparr>cs_down := Suc (cs_down s)\<rparr>) = routed s + of_bool (opt_str (down_stream s ! cs_down s) ''t'' = Some ''sync'')"
proof (cases "cs_down s < length (fg_sent (cs_fg s))")
  case True
  then show ?thesis by (simp add: routed_def down_stream_def take_Suc_conv_app_nth nth_append)
next
  case False
  then have "down_stream s ! cs_down s = closed_msg" using assms by (auto simp: down_stream_def nth_append split: if_splits)
  then show ?thesis using False by (simp add: routed_def closed_msg_def opt_str_def)
qed

lemma sync_run_nth: "k < n \<Longrightarrow> sync_run q n ! k = sync_msg (q * int k)"
  by (simp add: sync_run_def)

lemma cosim_inv_hung_up [simp]: "cosim_inv q budget (s\<lparr>cs_hung_up := b\<rparr>) = cosim_inv q budget s"
  by (simp add: cosim_inv_def routed_def taken_def down_stream_def gem5_over_def)

lemma up_same [simp]: "s\<lparr>cs_gem5 := g, cs_up := cs_up s\<rparr> = s\<lparr>cs_gem5 := g\<rparr>" "s\<lparr>cs_up := cs_up s\<rparr> = s"
  by (cases s; simp)+

text \<open>The sync that is routed next is number \<open>routed s\<close>, and its time is that of the quanta before it.\<close>

lemma next_sync:
  assumes "cosim_inv q budget s" "cs_down s < length (down_stream s)" "opt_str (down_stream s ! cs_down s) ''t'' = Some ''sync''"
  shows "get_int (down_stream s ! cs_down s) ''cycle'' 0 = q * int (routed s) \<and> routed s < length (sync_msgs (fg_sent (cs_fg s)))"
proof -
  let ?ms = "fg_sent (cs_fg s)"
  have lt: "cs_down s < length ?ms"
  proof (rule ccontr)
    assume "\<not> cs_down s < length ?ms"
    then have "down_stream s ! cs_down s = closed_msg" using assms(2) by (auto simp: down_stream_def nth_append split: if_splits)
    then show False using assms(3) by (simp add: closed_msg_def opt_str_def)
  qed
  then have m: "down_stream s ! cs_down s = ?ms ! cs_down s" by (simp add: down_stream_def nth_append)
  have "sync_msgs ?ms = sync_msgs (take (cs_down s) ?ms) @ ?ms ! cs_down s # sync_msgs (drop (Suc (cs_down s)) ?ms)"
    using assms(3) m by (subst id_take_nth_drop [OF lt]) simp
  then have k: "routed s < length (sync_msgs ?ms)" "sync_msgs ?ms ! routed s = ?ms ! cs_down s"
    by (simp_all add: routed_def nth_append)
  have "sync_msgs ?ms = sync_run q (length (sync_msgs ?ms))"
    using syncs_sent [of q "taken s" "fst (cs_gem5 s)" "cs_fg s"] assms(1) by (simp add: cosim_inv_def)
  then have "sync_msgs ?ms ! routed s = sync_msg (q * int (routed s))"
    using k(1) sync_run_nth by metis
  then show ?thesis using k m by (simp add: sync_msg_def get_int_def)
qed

text \<open>A step of gem5 only adds to what it has sent, and keeps its invariant.\<close>

lemma gem5_step:
  assumes "cosim_step s l s'" "cosim_inv q budget s" "l \<noteq> Down" "\<And>l1. l \<noteq> Local l1"
  shows "\<not> gem5_over s \<and> cs_rt s' = cs_rt s \<and> cs_down s' = cs_down s \<and> cs_up s' \<le> length (rt_sent (cs_rt s)) \<and>
    gem5_inv q (taken s') (cs_gem5 s') \<and> sends_on (cs_fg s) (cs_fg s')"
proof -
  note c = cosim_counts [OF assms(2)]
  have g: "gem5_inv q (taken s) (cs_gem5 s)" and k: "cs_up s \<le> length (rt_sent (cs_rt s))"
    using assms(2) by (simp_all add: cosim_inv_def)
  obtain p fg where pg: "cs_gem5 s = (p, fg)" by fastforce
  have over: "p \<noteq> GOver v" if "\<not> gem5_over s" for v using that pg by (auto simp: gem5_over_def)
  show ?thesis
    using assms(1)
  proof cases
    case (up late)
    let ?m = "as_obj (rt_sent (cs_rt s) ! cs_up s)"
    have "opt_str ?m ''t'' \<noteq> Some ''ack''" if "p = GHello"
    proof
      assume "opt_str ?m ''t'' = Some ''ack''"
      then have "0 < acks (cs_rt s)" using up(5) by (auto simp: acks_def is_ack_def filter_empty_conv intro!: nth_mem)
      moreover have "length (sync_msgs (fg_sent (cs_fg s))) = 0" using g pg that by (simp add: gem5_inv_def)
      ultimately show False using c by simp
    qed
    then have "gem5_inv q (taken (s\<lparr>cs_up := Suc (cs_up s)\<rparr>)) (gem5_recv (\<lambda>_. late) (Some ?m) (cs_gem5 s)) \<and>
        sends_on (cs_fg s) (snd (gem5_recv (\<lambda>_. late) (Some ?m) (cs_gem5 s)))"
      using gem5_recv_inv [OF _ over [OF up(3)], of q "taken s" fg ?m "\<lambda>_. late"] g pg taken_up [OF up(5)] by simp
    then show ?thesis using up by simp
  next
    case (silent late)
    have "gem5_inv q (taken s) (gem5_recv (\<lambda>_. late) None (cs_gem5 s)) \<and> sends_on (cs_fg s) (snd (gem5_recv (\<lambda>_. late) None (cs_gem5 s)))"
      using gem5_silent_inv [OF _ over [OF silent(3)], of q "taken s" fg "\<lambda>_. late"] g pg by simp
    then show ?thesis using silent k by simp
  next
    case (hang_up late)
    have "opt_str closed_msg ''t'' = Some ''peer_closed''" by (simp add: closed_msg_def opt_str_def)
    then have "gem5_inv q (taken s) (gem5_recv (\<lambda>_. late) (Some closed_msg) (cs_gem5 s)) \<and>
        sends_on (cs_fg s) (snd (gem5_recv (\<lambda>_. late) (Some closed_msg) (cs_gem5 s)))"
      using gem5_recv_inv [OF _ over [OF hang_up(3)], of q "taken s" fg closed_msg "\<lambda>_. late"] g pg by simp
    then show ?thesis using hang_up k by simp
  qed (use assms(3,4) in auto)
qed

lemma cosim_inv_step:
  assumes "cosim_step s l s'" "cosim_inv q budget s" "0 \<le> q"
  shows "cosim_inv q budget s'"
proof -
  note c = cosim_counts [OF assms(2)]
  have rt: "rt_inv q budget (routed s) (cs_rt s)" and g: "gem5_inv q (taken s) (cs_gem5 s)"
    and k: "cs_down s \<le> length (down_stream s)" "cs_up s \<le> length (rt_sent (cs_rt s))"
    using assms(2) by (simp_all add: cosim_inv_def)
  have gem5: ?thesis if "l \<noteq> Down" "\<And>l1. l \<noteq> Local l1"
  proof -
    note i = gem5_step [OF assms(1,2) that]
    have d: "cs_down s \<le> length (fg_sent (cs_fg s))" using k(1) i by (simp add: down_stream_def)
    then have "routed s' = routed s" "cs_down s \<le> length (fg_sent (cs_fg s'))" using i by (auto simp: routed_def sends_on_def)
    then show ?thesis using rt i by (simp add: cosim_inv_def down_stream_def)
  qed
  show ?thesis
    using assms(1)
  proof cases
    case (local l1 rt')
    have "\<not> is_sync l1" using local(5) by (cases l1) (auto simp: is_sync_def)
    then have "rt_inv q budget (routed s) rt'"
      using rt_inv_step [OF local(4) rt assms(3)] c local(5) by simp
    moreover have "rt_extends (cs_rt s) rt'" by (rule rt_step_extends [OF local(4)])
    ultimately show ?thesis
      using local g k taken_extend by (auto simp: cosim_inv_def rt_extends_def)
  next
    case (down rt')
    let ?m = "down_stream s ! cs_down s"
    have sync: "is_sync (Dispatch ?m) \<longleftrightarrow> opt_str ?m ''t'' = Some ''sync''" by (simp add: is_sync_def)
    have d: "opt_str ?m ''t'' = Some ''sync'' \<Longrightarrow> routed s \<le> acks (cs_rt s)"
      using next_sync [OF assms(2) down(4)] c by simp
    have "rt_inv q budget (routed s + of_bool (is_sync (Dispatch ?m))) rt'"
      by (rule rt_inv_step [OF down(5) rt assms(3)]) (use d c sync next_sync [OF assms(2) down(4)] in auto)
    moreover have "rt_extends (cs_rt s) rt'" by (rule rt_step_extends [OF down(5)])
    ultimately show ?thesis
      using down g k taken_extend routed_down [OF down(4)] sync by (auto simp: cosim_inv_def rt_extends_def)
  qed (use gem5 in simp_all)
qed

lemma cosim_start_inv:
  assumes "0 \<le> ga_quantum args"
  shows "cosim_inv (ga_quantum args) (en_max_syncs e) (cosim_start e args)"
  using assms
  by (auto simp: cosim_inv_def rt_inv_def lockstep_def cosim_start_def take_hello_def runtime_init_def Let_def rt_clean_def
      agent_init_def broker_init_def rt_send_def acks_def ack_list_def is_ack_def hello_ack_msg_def opt_str_def
      phase_ok_def cycles_into_def in_quantum_def get_int_def hello_msg_def routed_def taken_def ack_run_def gem5_inv_def
      gem5_start_def fg_serve_def fg_send_def fake_gem5_init_def down_stream_def)

lemma cosim_run_inv:
  "cosim_run s ls s' \<Longrightarrow> cosim_inv q budget s \<Longrightarrow> 0 \<le> q \<Longrightarrow> cosim_inv q budget s'"
  by (induction rule: cosim_run.induct) (auto intro: cosim_inv_step)

lemma cycles_into_bounds:
  assumes "phase_ok rt" "0 \<le> rt_quantum_cycles rt"
  shows "0 \<le> cycles_into rt" "cycles_into rt \<le> (if in_quantum rt then rt_quantum_cycles rt else 0)"
  using assms by (auto simp: phase_ok_def cycles_into_def in_quantum_def split: barrier_phase.splits)

text \<open>
  C6. Lockstep of the two processes: whatever the order in which coroutines, messages, time-outs and the deadline come, the
  clock of gem5 is the quantum times the turns it has finished, and the device has run at least as many cycles and at most one
  quantum more; the syncs sent and the acknowledgements sent carry the times 0, 1, 2, ... quanta in order, one
  acknowledgement for each sync, and no sync is sent before the last one was acknowledged.
\<close>

theorem cosim_lockstep:
  assumes "cosim_run (cosim_start e args) ls s" and "0 \<le> ga_quantum args"
  shows "let q = ga_quantum args; g = cs_fg s; rt = cs_rt s; n = length (sync_msgs (fg_sent g)) in
    fg_sync_cycle g = q * fg_syncs g \<and>
    fg_sync_cycle g \<le> rt_cycles_run rt \<and> rt_cycles_run rt \<le> fg_sync_cycle g + q \<and>
    sync_msgs (fg_sent g) = map (\<lambda>k. sync_msg (q * int k)) [0 ..< n] \<and>
    filter is_ack (rt_sent rt) = map (\<lambda>k. JObj (ack_msg (q * int k))) [0 ..< acks rt] \<and>
    fg_syncs g \<le> int (acks rt) \<and> acks rt \<le> n \<and> int n \<le> fg_syncs g + 1"
proof -
  let ?q = "ga_quantum args"
  have inv: "cosim_inv ?q (en_max_syncs e) s"
    using cosim_run_inv [OF assms(1) cosim_start_inv [OF assms(2)] assms(2)] .
  note c = cosim_counts [OF inv]
  define k where "k = taken s"
  have g: "fg_sync_cycle (cs_fg s) = ?q * int k" "fg_syncs (cs_fg s) = int k"
    using inv by (simp_all add: cosim_inv_def gem5_inv_def k_def)
  have l: "lockstep ?q (en_max_syncs e) (routed s) (cs_rt s)" using inv by (simp add: cosim_inv_def rt_inv_def)
  then have rt: "rt_cycles_run (cs_rt s) = ?q * int (acks (cs_rt s)) + cycles_into (cs_rt s)" "phase_ok (cs_rt s)"
    "rt_quantum_cycles (cs_rt s) = ?q" by (simp_all add: lockstep_def)
  have "cycles_into (cs_rt s) \<le> (if in_quantum (cs_rt s) then ?q else 0)" "0 \<le> cycles_into (cs_rt s)"
    using cycles_into_bounds [OF rt(2)] rt(3) assms(2) by auto
  moreover have "acks (cs_rt s) + of_bool (in_quantum (cs_rt s)) \<le> Suc k" using acks_le [OF l] c k_def by simp
  ultimately have "acks (cs_rt s) = k \<and> cycles_into (cs_rt s) \<le> ?q \<and> 0 \<le> cycles_into (cs_rt s) \<or>
      acks (cs_rt s) = Suc k \<and> cycles_into (cs_rt s) = 0"
    using c(1) assms(2) k_def by (cases "in_quantum (cs_rt s)") auto
  then have "?q * int k \<le> rt_cycles_run (cs_rt s)" "rt_cycles_run (cs_rt s) \<le> ?q * int k + ?q"
    using rt(1) assms(2) by (auto simp: algebra_simps)
  moreover have "sync_msgs (fg_sent (cs_fg s)) = sync_run ?q (length (sync_msgs (fg_sent (cs_fg s))))"
    using syncs_sent [of ?q k "fst (cs_gem5 s)" "cs_fg s"] inv by (simp add: cosim_inv_def k_def)
  moreover have "filter is_ack (rt_sent (cs_rt s)) = ack_run ?q (acks (cs_rt s))"
    using inv by (simp add: cosim_inv_def rt_inv_def ack_list_def)
  ultimately show ?thesis
    unfolding Let_def using g c by (simp add: k_def sync_run_def ack_run_def)
qed

section \<open>Types\<close>

definition side_typed :: "gem5_side \<Rightarrow> bool" where
  "side_typed s \<longleftrightarrow> fg_typed (snd s) \<and>
     (case fst s of
        GHello \<Rightarrow> fg_writes (snd s) = {}
      | GQuantum out \<Rightarrow> list_all (msg_ok Gem5) out
      | GOver v \<Rightarrow> (\<forall>e. v \<noteq> Crash e))"

lemma fail_typed: "fg_typed g \<Longrightarrow> side_typed (gem5_fail ContractError g)"
  by (simp add: side_typed_def fg_typed_bye)

lemma begin_turn_typed:
  assumes "fg_typed g"
  shows "side_typed (begin_turn late g)"
proof -
  have "\<forall>t \<in> set (fg_pending_write_data g). \<exists>k. t = Some k \<and> granted_write (fg_checker g) k"
    using assms by (simp add: fg_typed_def tables_ok_def)
  from flush_typed [OF assms this] obtain g1 where
    f: "flush_write_data (fg_pending_write_data g) g = Inr g1" "fg_typed g1" by blast
  have "msg_ok Gem5 (sync_msg c)" for c by (simp add: sync_msg_def msg_ok_def)
  then have "fg_typed ((fg_send (sync_msg (fg_sync_cycle g1)) (send_outbox g1))\<lparr>fg_acked := False\<rparr>)"
    using f(2) by (simp add: send_outbox_def fold_send fg_send_def fg_typed_def)
  then show ?thesis using f(1) assms fail_typed fg_typed_bye by (simp add: begin_turn_def side_typed_def)
qed

lemma end_quantum_typed:
  assumes "fg_typed g" "list_all (msg_ok Gem5) out"
  shows "side_typed (end_quantum late out g)"
proof -
  define g4 where "g4 = (fold fg_send out g)\<lparr>fg_sync_cycle := fg_sync_cycle g + ga_quantum (fg_args g),
      fg_syncs := fg_syncs g + 1\<rparr>"
  obtain r g5 where t: "turn_tail g4 = (r, g5)" by fastforce
  have g5: "fg_typed g5" "\<And>e. r = TRaise e \<Longrightarrow> e = ContractError"
    using turn_tail_typed [OF t] assms by (auto simp: g4_def fg_typed_send)
  have "end_quantum late out g = (case r of TReturn n \<Rightarrow> (GOver (Exit n), g5)
      | TRaise e \<Rightarrow> gem5_fail e g5 | _ \<Rightarrow> begin_turn late g5)"
    using t by (simp add: end_quantum_def Let_def g4_def fold_send split: turn_end.split)
  then show ?thesis using g5 begin_turn_typed fail_typed by (cases r) (auto simp: side_typed_def)
qed

lemma gem5_recv_typed:
  assumes "side_typed s" "case i of None \<Rightarrow> True | Some m \<Rightarrow> arrives Tb m"
    and "\<And>m. fst s = GHello \<Longrightarrow> i = Some m \<Longrightarrow> opt_str m ''t'' \<in> {Some ''hello_ack'', Some ''peer_closed''}"
  shows "side_typed (gem5_recv late i s)"
proof -
  obtain p g where s: "s = (p, g)" by fastforce
  show ?thesis
  proof (cases i)
    case None
    then show ?thesis using assms(1) fail_typed by (cases p) (auto simp: s side_typed_def)
  next
    case (Some m)
    show ?thesis
    proof (cases p)
      case GHello
      obtain e out g1 where h: "fg_handle m (fg_outbox g) g = (e, out, g1)" by (cases "fg_handle m (fg_outbox g) g")
      have g: "fg_typed g" "list_all (msg_ok Gem5) (fg_outbox g)" "fg_writes g = {}"
        using assms(1) by (simp_all add: s GHello side_typed_def fg_typed_def)
      have t: "fg_typed g1" "list_all (msg_ok Gem5) out" "fg_writes g1 = {}"
        using fg_handle_typed [OF g(1) _ g(2) h] assms(2) Some g(3) by simp_all
      have e: "opt_str m ''t'' \<noteq> Some ''peer_closed'' \<Longrightarrow> e = None"
        using assms(3) [OF _ Some] h by (auto simp: s GHello fg_handle_def)
      from t have o: "fg_typed (g1\<lparr>fg_outbox := out\<rparr>)" by (simp add: fg_typed_def)
      have "fg_typed (run_scenario (g1\<lparr>fg_outbox := out\<rparr>))"
        using run_scenario_typed [OF o no_pending [OF o]] t(3) by simp
      then have b: "side_typed (begin_turn late (run_scenario (g1\<lparr>fg_outbox := out\<rparr>)))" by (rule begin_turn_typed)
      show ?thesis
      proof (cases "opt_str m ''t'' = Some ''peer_closed''")
        case True
        then show ?thesis using Some GHello g by (simp add: s side_typed_def)
      next
        case False
        then have "opt_str m ''t'' = Some ''hello_ack''" using assms(3) [OF _ Some] by (simp add: s GHello)
        then have "gem5_recv late i s =
            (if fg_hello_acked g1 then begin_turn late (run_scenario (g1\<lparr>fg_outbox := out\<rparr>)) else (GHello, g1\<lparr>fg_outbox := out\<rparr>))"
          using Some GHello h e [OF False] by (simp add: s)
        then show ?thesis using b o t(3) by (simp add: side_typed_def)
      qed
    next
      case (GQuantum out)
      obtain e out1 g1 where h: "fg_handle m out g = (e, out1, g1)" by (cases "fg_handle m out g")
      have g: "fg_typed g" "list_all (msg_ok Gem5) out" using assms(1) by (simp_all add: s GQuantum side_typed_def)
      have t: "fg_typed g1" "list_all (msg_ok Gem5) out1" "contract e"
        using fg_handle_typed [OF g(1) _ g(2) h] assms(2) Some by simp_all
      then show ?thesis
        using Some GQuantum h end_quantum_typed [of g1 out1 late] fail_typed [of g1]
        by (cases e) (auto simp: s side_typed_def contract_def)
    qed (use assms Some in \<open>simp add: s\<close>)
  qed
qed

definition cosim_typed :: "cosim \<Rightarrow> bool" where
  "cosim_typed s \<longleftrightarrow> rt_typed (cs_rt s) \<and> side_typed (cs_gem5 s) \<and>
     (\<exists>m ms. rt_sent (cs_rt s) = m # ms \<and> opt_str (as_obj m) ''t'' = Some ''hello_ack'') \<and>
     (fst (cs_gem5 s) = GHello \<longrightarrow> cs_up s = 0) \<and> (cs_hung_up s \<longrightarrow> \<not> rt_running (cs_rt s))"

lemma down_arrives:
  assumes "side_typed (cs_gem5 s)" "cs_down s < length (down_stream s)"
  shows "arrives Gem5 (down_stream s ! cs_down s)"
proof -
  have "list_all (arrives Gem5) (down_stream s)"
    using assms(1) by (auto simp: side_typed_def fg_typed_def down_stream_def arrives_def list_all_iff)
  then show ?thesis using assms(2) by (simp add: list_all_length)
qed

lemma up_arrives:
  assumes "rt_typed rt" "k < length (rt_sent rt)"
  shows "arrives Tb (as_obj (rt_sent rt ! k))"
proof -
  have "case rt_sent rt ! k of JObj kvs \<Rightarrow> msg_ok Tb kvs | _ \<Rightarrow> False"
    using assms by (simp add: rt_typed_def sent_ok_def list_all_length)
  then show ?thesis by (cases "rt_sent rt ! k") (simp_all add: arrives_def)
qed

lemma fail_no_hello [simp]: "fst (gem5_fail e g) \<noteq> GHello" by (cases e) simp_all

lemma begin_turn_no_hello [simp]: "fst (begin_turn late g) \<noteq> GHello"
  by (simp add: begin_turn_def split: sum.split)

lemma recv_hello:
  assumes "fst (gem5_recv late i s) = GHello"
  shows "fst s = GHello \<and> (\<exists>m. i = Some m \<and> opt_str m ''t'' \<notin> {Some ''hello_ack'', Some ''peer_closed''})"
proof -
  obtain p g where s: "s = (p, g)" by fastforce
  have "fst (end_quantum late out g) \<noteq> GHello" for out g
    by (simp add: end_quantum_def Let_def split: prod.split turn_end.split)
  then show ?thesis
    using assms by (cases p; cases i) (auto simp: s fg_handle_def split: prod.splits option.splits if_splits)
qed

lemma cosim_typed_step:
  assumes "cosim_step s l s'" "cosim_typed s"
  shows "cosim_typed s'"
proof -
  have rt: "rt_typed (cs_rt s)" and g: "side_typed (cs_gem5 s)" using assms(2) by (simp_all add: cosim_typed_def)
  obtain m0 ms where hd: "rt_sent (cs_rt s) = m0 # ms" "opt_str (as_obj m0) ''t'' = Some ''hello_ack''"
    using assms(2) by (auto simp: cosim_typed_def)
  show ?thesis
    using assms(1)
  proof cases
    case (local l1 rt')
    have "rt_typed rt'" by (rule rt_step_typed [OF local(4) rt]) (use local(5) in \<open>auto split: rt_label.split\<close>)
    then show ?thesis using local assms(2) rt_step_extends [OF local(4)] by (auto simp: cosim_typed_def rt_extends_def)
  next
    case (down rt')
    have "rt_typed rt'" by (rule rt_step_typed [OF down(5) rt]) (use down_arrives [OF g down(4)] in simp)
    then show ?thesis using down assms(2) rt_step_extends [OF down(5)] by (auto simp: cosim_typed_def rt_extends_def)
  next
    case (up late)
    let ?m = "as_obj (rt_sent (cs_rt s) ! cs_up s)"
    have h: "fst (cs_gem5 s) = GHello \<Longrightarrow> opt_str ?m ''t'' = Some ''hello_ack''" using assms(2) hd by (simp add: cosim_typed_def)
    have "side_typed (gem5_recv (\<lambda>_. late) (Some ?m) (cs_gem5 s))"
      by (rule gem5_recv_typed [OF g]) (use up_arrives [OF rt up(5)] h in auto)
    moreover have "fst (gem5_recv (\<lambda>_. late) (Some ?m) (cs_gem5 s)) \<noteq> GHello" using recv_hello h by fastforce
    ultimately show ?thesis using up assms(2) by (simp add: cosim_typed_def)
  next
    case (silent late)
    have "side_typed (gem5_recv (\<lambda>_. late) None (cs_gem5 s))" by (rule gem5_recv_typed [OF g]) auto
    moreover have "fst (gem5_recv (\<lambda>_. late) None (cs_gem5 s)) \<noteq> GHello" using recv_hello by fastforce
    ultimately show ?thesis using silent assms(2) by (simp add: cosim_typed_def)
  next
    case (hang_up late)
    have "opt_str closed_msg ''t'' = Some ''peer_closed''" by (simp add: closed_msg_def opt_str_def)
    moreover from this have "side_typed (gem5_recv (\<lambda>_. late) (Some closed_msg) (cs_gem5 s))"
      by (intro gem5_recv_typed [OF g]) (auto simp: arrives_def)
    ultimately have "side_typed (gem5_recv (\<lambda>_. late) (Some closed_msg) (cs_gem5 s))"
      "fst (gem5_recv (\<lambda>_. late) (Some closed_msg) (cs_gem5 s)) \<noteq> GHello" using recv_hello by fastforce+
    then show ?thesis using hang_up assms(2) by (simp add: cosim_typed_def)
  qed
qed

lemma cosim_start_typed: "cosim_typed (cosim_start e args)"
proof -
  have "rt_typed (take_hello (hello_msg args) (runtime_init e))" by (rule take_hello_typed [OF runtime_init_typed])
  moreover have "side_typed (gem5_start args)"
    by (simp add: gem5_start_def side_typed_def fg_serve_def fg_send_def fake_gem5_init_def fg_typed_def tables_ok_def reads_ok_def
        checker_init_def hello_msg_def msg_ok_def)
  ultimately show ?thesis
    by (auto simp: cosim_typed_def cosim_start_def take_hello_def runtime_init_def rt_send_def Let_def hello_ack_msg_def opt_str_def)
qed

lemma cosim_run_typed: "cosim_run s ls s' \<Longrightarrow> cosim_typed s \<Longrightarrow> cosim_typed s'"
  by (induction rule: cosim_run.induct) (auto intro: cosim_typed_step)

text \<open>
  C17. Type safety of the system: in every reachable state all messages of both sides have the types of the protocol, the
  dispatcher is alive, and no exception has ended the gem5 side, whatever the settings, the scenario and the order of events.
\<close>

theorem cosim_type_safe:
  assumes "cosim_run (cosim_start e args) ls s"
  shows "sent_ok Tb (rt_sent (cs_rt s)) \<and> list_all (msg_ok Gem5) (fg_sent (cs_fg s)) \<and> \<not> rt_dispatcher_dead (cs_rt s) \<and>
    fst (cs_gem5 s) \<noteq> GOver (Crash x)"
proof -
  have "cosim_typed s" using cosim_run_typed [OF assms cosim_start_typed] .
  then show ?thesis by (auto simp: cosim_typed_def rt_typed_def side_typed_def fg_typed_def)
qed

section \<open>Progress\<close>

text \<open>The labels of a schedule without time-outs, and what it has to reach.\<close>

definition fair_label :: "cosim_label \<Rightarrow> bool" where
  "fair_label l \<longleftrightarrow> l \<in> {Local Barrier, Down, Up False}"

definition advanced :: "int \<Rightarrow> cosim \<Rightarrow> bool" where
  "advanced n s \<longleftrightarrow> gem5_over s \<or> \<not> rt_running (cs_rt s) \<or> n < fg_syncs (cs_fg s)"

definition reaches :: "int \<Rightarrow> cosim \<Rightarrow> bool" where
  "reaches n s \<longleftrightarrow> (\<exists>ls s'. cosim_run s ls s' \<and> list_all fair_label ls \<and> advanced n s')"

lemma reaches_now: "advanced n s \<Longrightarrow> reaches n s"
  unfolding reaches_def by (intro exI [of _ "[]"]) (auto intro: cosim_run.idle)

lemma reaches_step:
  assumes "cosim_step s l s'" "fair_label l" "reaches n s'"
  shows "reaches n s"
proof -
  obtain ls s'' where r: "cosim_run s' ls s''" "list_all fair_label ls" "advanced n s''" using assms(3) by (auto simp: reaches_def)
  have "cosim_run s [l] s'" using cosim_run.run [OF cosim_run.idle assms(1)] by simp
  then have "cosim_run s (l # ls) s''" using cosim_run_trans [OF r(1)] by fastforce
  then show ?thesis using r assms(2) by (auto simp: reaches_def intro!: exI [of _ "l # ls"])
qed

definition cosim_ok :: "int \<Rightarrow> int \<Rightarrow> cosim \<Rightarrow> bool" where
  "cosim_ok q budget s \<longleftrightarrow> cosim_inv q budget s \<and> cosim_typed s \<and> 0 \<le> q"

lemma cosim_ok_step: "cosim_step s l s' \<Longrightarrow> cosim_ok q budget s \<Longrightarrow> cosim_ok q budget s'"
  using cosim_inv_step cosim_typed_step by (auto simp: cosim_ok_def)

lemma syncs_taken: "cosim_ok q budget s \<Longrightarrow> fg_syncs (cs_fg s) = int (taken s)"
  by (simp add: cosim_ok_def cosim_inv_def gem5_inv_def)

lemma barrier_cosim: "rt_running (cs_rt s) \<Longrightarrow> cosim_step s (Local Barrier) (s\<lparr>cs_rt := barrier_turn (cs_rt s)\<rparr>)"
  by (rule cosim_step.local) (auto intro: rt_step.barrier simp: rt_running_def)

text \<open>The acknowledgement is on its way: gem5 takes messages until it has it.\<close>

lemma reaches_up:
  "cosim_ok q budget s \<Longrightarrow> acks (cs_rt s) = Suc (taken s) \<Longrightarrow> reaches (int (taken s)) s"
proof (induction "length (rt_sent (cs_rt s)) - cs_up s" arbitrary: s)
  case 0
  then have "taken s = acks (cs_rt s)" by (simp add: taken_def acks_def)
  then show ?case using 0 by simp
next
  case (Suc k)
  show ?case
  proof (cases "gem5_over s \<or> \<not> rt_running (cs_rt s)")
    case True
    then show ?thesis by (intro reaches_now) (auto simp: advanced_def)
  next
    case False
    have lt: "cs_up s < length (rt_sent (cs_rt s))" using Suc.hyps(2) by simp
    have h: "\<not> cs_hung_up s" using Suc.prems(1) False by (auto simp: cosim_ok_def cosim_typed_def)
    define s1 where "s1 = s\<lparr>cs_gem5 := gem5_recv (\<lambda>_. False) (Some (as_obj (rt_sent (cs_rt s) ! cs_up s))) (cs_gem5 s),
        cs_up := Suc (cs_up s)\<rparr>"
    have step: "cosim_step s (Up False) s1" unfolding s1_def by (rule cosim_step.up) (use False h lt in auto)
    have ok: "cosim_ok q budget s1" by (rule cosim_ok_step [OF step Suc.prems(1)])
    have t: "taken s1 = taken s \<or> taken s1 = Suc (taken s)" using taken_up [OF lt] by (simp add: s1_def)
    have "reaches (int (taken s)) s1"
    proof (cases "taken s1 = taken s")
      case True
      have "k = length (rt_sent (cs_rt s1)) - cs_up s1" "acks (cs_rt s1) = Suc (taken s1)"
        using Suc.hyps(2) Suc.prems(2) True by (simp_all add: s1_def)
      then show ?thesis using Suc.hyps(1) [of s1] ok True by simp
    next
      case False
      then show ?thesis using t syncs_taken [OF ok] by (intro reaches_now) (simp add: advanced_def)
    qed
    then show ?thesis using reaches_step [OF step] by (simp add: fair_label_def)
  qed
qed

text \<open>The loop has been told to stop: it runs to its end.\<close>

lemma reaches_barrier_end: "\<not> rt_running ((barrier_turn ^^ k) (cs_rt s)) \<Longrightarrow> reaches n s"
proof (induction k arbitrary: s)
  case 0
  then show ?case by (intro reaches_now) (simp add: advanced_def)
next
  case (Suc k)
  show ?case
  proof (cases "rt_running (cs_rt s)")
    case True
    have "reaches n (s\<lparr>cs_rt := barrier_turn (cs_rt s)\<rparr>)"
      using Suc.prems by (intro Suc.IH) (simp add: funpow_swap1)
    then show ?thesis using reaches_step [OF barrier_cosim [OF True]] by (simp add: fair_label_def)
  qed (intro reaches_now, simp add: advanced_def)
qed

lemma reaches_done:
  assumes "cosim_ok q budget s" "rt_done (cs_rt s)"
  shows "reaches n s"
proof (cases "rt_running (cs_rt s)")
  case True
  have p: "phase_ok (cs_rt s)" using assms(1) by (simp add: cosim_ok_def cosim_inv_def rt_inv_def lockstep_def)
  show ?thesis
  proof (cases "case rt_phase (cs_rt s) of BParked j \<Rightarrow> j < PARK_TIMEOUT_POLLS | _ \<Rightarrow> True")
    case True
    then have "rt_phase ((barrier_turn ^^ turns_left (cs_rt s)) (cs_rt s)) = BFinished"
      using loop_ends [OF assms(2) p] \<open>rt_running (cs_rt s)\<close> by (simp add: rt_running_def ended_def)
    then show ?thesis using reaches_barrier_end [of "turns_left (cs_rt s)" s n] by (simp add: rt_running_def)
  next
    case False
    then obtain j where "rt_phase (cs_rt s) = BParked j" "PARK_TIMEOUT_POLLS \<le> j" by (auto split: barrier_phase.splits)
    then have "\<not> rt_running ((barrier_turn ^^ 1) (cs_rt s))" by (simp add: barrier_turn_def parked_turn_def rt_running_def)
    then show ?thesis by (rule reaches_barrier_end)
  qed
qed (intro reaches_now, simp add: advanced_def)

text \<open>The loop owes an acknowledgement: its turns bring it closer.\<close>

definition to_ack :: "runtime \<Rightarrow> nat" where
  "to_ack rt = (case rt_phase rt of BHigh n \<Rightarrow> 2 * n | BLow n \<Rightarrow> 2 * n - 1 | BFree n \<Rightarrow> n | _ \<Rightarrow> 2 * nat (rt_quantum_cycles rt) + 1)"

lemma to_ack_next:
  assumes "\<not> rt_free_run rt \<Longrightarrow> 2 * n < k" "rt_free_run rt \<Longrightarrow> n < k"
  shows "to_ack (next_cycle n rt) < k"
  using assms by (simp add: to_ack_def next_cycle_def)

lemma barrier_closer:
  assumes "lockstep q budget d rt" "0 \<le> q" "busy rt" "\<not> rt_done rt"
  shows "\<not> rt_running (barrier_turn rt) \<or> one_ack rt (barrier_turn rt) \<or> to_ack (barrier_turn rt) < to_ack rt"
proof -
  have wake: "one_ack rt (wake rt) \<or> to_ack (wake rt) < to_ack rt" if p: "\<not> in_quantum rt" "rt_sync_seen rt"
  proof (cases "0 < rt_quantum_cycles rt")
    case True
    then have "wake rt = next_cycle (nat (rt_quantum_cycles rt)) (rt\<lparr>rt_sync_seen := False\<rparr>)"
      using assms(4) by (simp add: wake_def Let_def)
    moreover have "to_ack rt = 2 * nat (rt_quantum_cycles rt) + 1"
      using p(1) by (cases "rt_phase rt") (auto simp: to_ack_def in_quantum_def)
    ultimately show ?thesis using to_ack_next by simp
  next
    case False
    then show ?thesis
      using p assms(4) acknowledge_ack [of "rt\<lparr>rt_sync_seen := False\<rparr>"] finish_ack [of "acknowledge (rt\<lparr>rt_sync_seen := False\<rparr>)"]
      by (auto simp: wake_def Let_def park_or_finish_def one_ack_def busy_def ack_list_def)
  qed
  have cyc: "one_ack rt (end_cycle n rt) \<or> to_ack (end_cycle n rt) < to_ack rt" if p: "rt_phase rt \<in> {BLow n, BFree n}" for n
  proof (cases "n \<le> 1")
    case True
    have "barrier_turn rt = end_cycle n rt" using p by (auto simp: barrier_turn_def)
    moreover have "acks (end_cycle n rt) \<noteq> acks rt"
    proof -
      have e: "end_cycle n rt = barrier_top (acknowledge ((put_agent (agent_on_cycle (rt_agent rt)) rt)\<lparr>rt_cycles_run := rt_cycles_run rt + 1\<rparr>))"
        using True by (simp add: end_cycle_def Let_def put_agent_def)
      have "quiet rt (put_agent (agent_on_cycle (rt_agent rt)) rt)" by (rule quiet_agent [of ClockCycle]) simp
      from quiet_acks [OF this] have "acks (put_agent (agent_on_cycle (rt_agent rt)) rt) = acks rt"
        using assms(1) by (simp add: lockstep_def)
      moreover have "acks (barrier_top rt1) \<ge> acks rt1" for rt1
      proof -
        have "rt_extends rt1 (barrier_top rt1)"
          using barrier_extends [of "rt1\<lparr>rt_phase := BIdle\<rparr>"] by (simp add: barrier_turn_def barrier_top_phase)
        then show ?thesis by (auto simp: rt_extends_def acks_def)
      qed
      from this [of "acknowledge ((put_agent (agent_on_cycle (rt_agent rt)) rt)\<lparr>rt_cycles_run := rt_cycles_run rt + 1\<rparr>)"]
      have "acks rt + 1 \<le> acks (end_cycle n rt)" using calculation by (simp add: e acknowledge_sel)
      then show ?thesis by simp
    qed
    ultimately have "\<not> no_ack rt (barrier_turn rt)" by (auto simp: no_ack_def acks_ack_list)
    then show ?thesis using barrier_effect [OF assms(1,2)] \<open>barrier_turn rt = end_cycle n rt\<close> by simp
  next
    case False
    let ?r = "(put_agent (agent_on_cycle (rt_agent rt)) rt)\<lparr>rt_cycles_run := rt_cycles_run rt + 1\<rparr>"
    have "end_cycle n rt = next_cycle (n - 1) ?r" using False by (simp add: end_cycle_def Let_def put_agent_def)
    moreover have "rt_free_run ?r = rt_free_run rt" by (simp add: put_agent_def)
    moreover have "rt_phase rt = BLow n \<and> \<not> rt_free_run rt \<or> rt_phase rt = BFree n \<and> rt_free_run rt"
      using p assms(1) by (auto simp: lockstep_def phase_ok_def)
    ultimately show ?thesis using False to_ack_next [of ?r "n - 1" "to_ack rt"] by (auto simp: to_ack_def)
  qed
  show ?thesis
  proof (cases "rt_phase rt")
    case BIdle
    then show ?thesis using wake assms(3,4) by (simp add: barrier_turn_def barrier_top_def busy_def in_quantum_def)
  next
    case (BParked k)
    then show ?thesis using wake assms(3) by (simp add: barrier_turn_def parked_turn_def busy_def in_quantum_def rt_running_def)
  next
    case (BHigh n)
    then have "1 \<le> n" using assms(1) by (simp add: lockstep_def phase_ok_def)
    then show ?thesis using BHigh by (simp add: barrier_turn_def to_ack_def)
  qed (use cyc in \<open>simp_all add: barrier_turn_def rt_running_def\<close>)
qed

lemma reaches_ack:
  "cosim_ok q budget s \<Longrightarrow> routed s = Suc (taken s) \<Longrightarrow> acks (cs_rt s) = taken s \<Longrightarrow> reaches (int (taken s)) s"
proof (induction "to_ack (cs_rt s)" arbitrary: s rule: less_induct)
  case less
  have rt: "rt_inv q budget (Suc (taken s)) (cs_rt s)" using less.prems by (simp add: cosim_ok_def cosim_inv_def)
  show ?case
  proof (cases "rt_running (cs_rt s) \<and> \<not> rt_done (cs_rt s)")
    case True
    let ?rt = "barrier_turn (cs_rt s)"
    let ?s = "s\<lparr>cs_rt := ?rt\<rparr>"
    have l: "lockstep q budget (Suc (taken s)) (cs_rt s)" "0 \<le> q" using rt less.prems(1) by (simp_all add: rt_inv_def cosim_ok_def)
    have busy: "busy (cs_rt s)" using rt True less.prems(3) by (cases "busy (cs_rt s)") (simp_all add: rt_inv_def)
    have step: "cosim_step s (Local Barrier) ?s" by (rule barrier_cosim) (use True in simp)
    have ok: "cosim_ok q budget ?s" by (rule cosim_ok_step [OF step less.prems(1)])
    have t: "taken ?s = taken s"
      using taken_extend [OF barrier_extends] less.prems(1) by (simp add: cosim_ok_def cosim_inv_def)
    consider "\<not> rt_running ?rt" | "one_ack (cs_rt s) ?rt" | "no_ack (cs_rt s) ?rt" "to_ack ?rt < to_ack (cs_rt s)"
      using barrier_closer [OF l busy] barrier_effect [OF l] True by blast
    then have "reaches (int (taken s)) ?s"
    proof cases
      case 1
      then show ?thesis by (intro reaches_now) (simp add: advanced_def)
    next
      case 2
      then have "acks ?rt = Suc (taken s)" using less.prems(3) by (simp add: one_ack_def acks_ack_list)
      then show ?thesis using reaches_up [OF ok] t by simp
    next
      case 3
      then show ?thesis using less.hyps [of ?s] ok t less.prems by (simp add: no_ack_def acks_ack_list)
    qed
    then show ?thesis using reaches_step [OF step] by (simp add: fair_label_def)
  next
    case False
    then show ?thesis using reaches_done [OF less.prems(1)] by (auto intro: reaches_now simp: advanced_def)
  qed
qed

text \<open>Messages of gem5 are on their way: the dispatcher takes them.\<close>

lemma reaches_down:
  "cosim_ok q budget s \<Longrightarrow> fst (cs_gem5 s) \<noteq> GHello \<Longrightarrow> reaches (int (taken s)) s"
proof (induction "length (fg_sent (cs_fg s)) - cs_down s" arbitrary: s)
  case 0
  show ?case
  proof (cases "gem5_over s")
    case False
    then obtain out where "fst (cs_gem5 s) = GQuantum out" using 0 by (cases "fst (cs_gem5 s)") (auto simp: gem5_over_def)
    then have "length (sync_msgs (fg_sent (cs_fg s))) = Suc (taken s)"
      using 0 by (simp add: cosim_ok_def cosim_inv_def gem5_inv_def sync_run_def)
    then have r: "routed s = Suc (taken s)" using 0 by (simp add: routed_def)
    then have "acks (cs_rt s) = taken s \<or> acks (cs_rt s) = Suc (taken s)"
      using cosim_counts [of q budget s] 0 by (auto simp: cosim_ok_def)
    then show ?thesis using reaches_ack [OF 0(2) r] reaches_up [OF 0(2)] by blast
  qed (intro reaches_now, simp add: advanced_def)
next
  case (Suc k)
  show ?case
  proof (cases "rt_running (cs_rt s) \<and> \<not> rt_done (cs_rt s)")
    case True
    let ?m = "down_stream s ! cs_down s"
    let ?s = "s\<lparr>cs_rt := dispatcher_turn ?m (cs_rt s), cs_down := Suc (cs_down s)\<rparr>"
    have "\<not> rt_dispatcher_dead (cs_rt s)" using Suc.prems(1) by (simp add: cosim_ok_def cosim_typed_def rt_typed_def)
    then have "rt_step (cs_rt s) (Dispatch ?m) (dispatcher_turn ?m (cs_rt s))" using True by (intro rt_step.dispatch) auto
    then have step: "cosim_step s Down ?s"
      using True Suc.hyps(2) by (intro cosim_step.down) (auto simp: down_stream_def)
    have "taken ?s = taken s"
      using taken_extend [OF dispatch_extends] Suc.prems(1) by (simp add: cosim_ok_def cosim_inv_def)
    then have "reaches (int (taken s)) ?s"
      using Suc.hyps(1) [of ?s] Suc.hyps(2) Suc.prems cosim_ok_step [OF step] by simp
    then show ?thesis using reaches_step [OF step] by (simp add: fair_label_def)
  next
    case False
    then show ?thesis using reaches_done [OF Suc.prems(1)] by (auto intro: reaches_now simp: advanced_def)
  qed
qed


section \<open>A short run\<close>

text \<open>One quantum of one cycle, with nothing to do: the scenario ends after the first acknowledgement.\<close>

definition short_args :: gem5_args where
  "short_args = demo_args\<lparr>ga_quantum := 1, ga_scenario := SRead\<rparr>"

definition short_end :: cosim where
  "short_end =
     (let s = cosim_start demo_env short_args;
          rt1 = dispatcher_turn (sync_msg 0) (cs_rt s);
          rt2 = barrier_turn (barrier_turn (barrier_turn rt1))
      in s\<lparr>cs_rt := rt2, cs_gem5 := (GOver (Exit 0),
             (cs_fg s)\<lparr>fg_hello_acked := True, fg_acked := True, fg_sync_cycle := 1, fg_syncs := 1, fg_scenario_done := True,
                fg_sent := [hello_msg short_args, sync_msg 0, bye_msg ''workload exit'']\<rparr>),
           cs_up := 2, cs_down := 2\<rparr>)"

lemma short_hello:
  "gem5_recv (\<lambda>_. False) (Some (hello_ack_msg rt)) (gem5_start short_args) =
     (GQuantum [], (snd (gem5_start short_args))\<lparr>fg_hello_acked := True, fg_sent := [hello_msg short_args, sync_msg 0]\<rparr>)"
  by (simp add: gem5_start_def fg_serve_def fg_send_def fake_gem5_init_def hello_ack_msg_def opt_str_def fg_handle_def
      run_scenario_def short_args_def demo_args_def begin_turn_def send_outbox_def Let_def)

lemma short_ack:
  "gem5_recv (\<lambda>_. False) (Some (ack_msg 0))
     (GQuantum [], (snd (gem5_start short_args))\<lparr>fg_hello_acked := True, fg_sent := [hello_msg short_args, sync_msg 0]\<rparr>) =
     cs_gem5 short_end"
  by (simp add: gem5_start_def fg_serve_def fg_send_def fake_gem5_init_def ack_msg_def opt_str_def fg_handle_def
      short_args_def demo_args_def begin_turn_def end_quantum_def turn_tail_def fg_complete_def checker_init_def verify_bypass_def
      short_end_def cosim_start_def Let_def)

abbreviation (input) short_rt :: runtime where
  "short_rt \<equiv> cs_rt (cosim_start demo_env short_args)"

lemma short_rt_sel:
  "rt_phase short_rt = BIdle" "\<not> rt_done short_rt" "\<not> rt_dispatcher_dead short_rt" "rt_quantum_cycles short_rt = 1"
  "\<not> rt_free_run short_rt" "rt_max_syncs short_rt = 0" "rt_sent short_rt = [JObj (hello_ack_msg (runtime_init demo_env))]"
  "rt_cycles_run short_rt = 0" "rt_syncs_acked short_rt = 0"
  by (simp_all add: cosim_start_def take_hello_def runtime_init_def demo_env_def Let_def rt_send_def get_int_def hello_msg_def
      short_args_def demo_args_def hello_ack_msg_def)

lemma short_turns:
  defines "r1 \<equiv> dispatcher_turn (sync_msg 0) short_rt"
  shows "r1 = short_rt\<lparr>rt_sync_cycle := 0, rt_sync_seen := True\<rparr>"
    "barrier_turn r1 = short_rt\<lparr>rt_sync_cycle := 0, rt_sync_seen := False, rt_clk := True, rt_phase := BHigh 1\<rparr>"
    "barrier_turn (barrier_turn r1) = short_rt\<lparr>rt_sync_cycle := 0, rt_sync_seen := False, rt_clk := False, rt_phase := BLow 1\<rparr>"
proof -
  show 1: "r1 = short_rt\<lparr>rt_sync_cycle := 0, rt_sync_seen := True\<rparr>"
    using short_rt_sel by (simp add: r1_def dispatcher_turn_def route_def sync_msg_def opt_str_def get_int_def)
  show 2: "barrier_turn r1 = short_rt\<lparr>rt_sync_cycle := 0, rt_sync_seen := False, rt_clk := True, rt_phase := BHigh 1\<rparr>"
    using short_rt_sel by (simp add: 1 barrier_turn_def barrier_top_def wake_def next_cycle_def)
  show "barrier_turn (barrier_turn r1) = short_rt\<lparr>rt_sync_cycle := 0, rt_sync_seen := False, rt_clk := False, rt_phase := BLow 1\<rparr>"
    unfolding 2 by (simp add: barrier_turn_def)
qed

lemma short_last:
  "rt_sent (cs_rt short_end) = [JObj (hello_ack_msg (runtime_init demo_env)), JObj (ack_msg 0)]"
  "rt_cycles_run (cs_rt short_end) = 1" "rt_phase (cs_rt short_end) = BParked 0"
proof -
  have a: "ag_sent (agent_on_cycle (rt_agent short_rt)) = []"
    by (simp add: cosim_start_def take_hello_def runtime_init_def Let_def rt_send_def agent_on_cycle_def with_mapper_def agent_init_def)
  have "cs_rt short_end = barrier_turn (short_rt\<lparr>rt_sync_cycle := 0, rt_sync_seen := False, rt_clk := False, rt_phase := BLow 1\<rparr>)"
    using short_turns by (simp add: short_end_def Let_def)
  then show "rt_sent (cs_rt short_end) = [JObj (hello_ack_msg (runtime_init demo_env)), JObj (ack_msg 0)]"
    "rt_cycles_run (cs_rt short_end) = 1" "rt_phase (cs_rt short_end) = BParked 0"
    using short_rt_sel a
    by (simp_all add: barrier_turn_def end_cycle_def put_agent_def barrier_top_def acknowledge_def rt_send_def Let_def)
qed

lemma short_run: "cosim_run (cosim_start demo_env short_args) [Up False, Down, Local Barrier, Local Barrier, Local Barrier, Up False] short_end"
proof -
  let ?s0 = "cosim_start demo_env short_args"
  let ?g1 = "(GQuantum [], (snd (gem5_start short_args))\<lparr>fg_hello_acked := True, fg_sent := [hello_msg short_args, sync_msg 0]\<rparr>)"
  let ?s1 = "?s0\<lparr>cs_gem5 := ?g1, cs_up := Suc 0\<rparr>"
  let ?r1 = "dispatcher_turn (sync_msg 0) short_rt"
  let ?s2 = "?s1\<lparr>cs_rt := ?r1, cs_down := 2\<rparr>"
  let ?s3 = "?s2\<lparr>cs_rt := barrier_turn ?r1\<rparr>"
  let ?s4 = "?s3\<lparr>cs_rt := barrier_turn (barrier_turn ?r1)\<rparr>"
  let ?s5 = "?s4\<lparr>cs_rt := cs_rt short_end\<rparr>"
  have g0: "cs_gem5 ?s0 = gem5_start short_args" "cs_up ?s0 = 0" "cs_down ?s0 = 1" "\<not> cs_hung_up ?s0"
    by (simp_all add: cosim_start_def)
  have "cosim_step ?s0 (Up False) (?s0\<lparr>cs_gem5 := gem5_recv (\<lambda>_. False) (Some (as_obj (rt_sent (cs_rt ?s0) ! cs_up ?s0))) (cs_gem5 ?s0),
      cs_up := Suc (cs_up ?s0)\<rparr>)"
    by (rule cosim_step.up) (simp_all add: g0 short_rt_sel gem5_over_def gem5_start_def)
  then have 1: "cosim_step ?s0 (Up False) ?s1" by (simp add: g0 short_rt_sel short_hello)
  have d: "down_stream ?s1 = [hello_msg short_args, sync_msg 0]" by (simp add: down_stream_def gem5_over_def)
  have "rt_step short_rt (Dispatch (sync_msg 0)) ?r1" using short_rt_sel by (intro rt_step.dispatch)
  then have 2: "cosim_step ?s1 Down ?s2"
    using cosim_step.down [of ?s1 ?r1] short_rt_sel d by (simp add: g0 rt_running_def numeral_2_eq_2)
  have p: "rt_running ?r1" "rt_running (barrier_turn ?r1)" "rt_running (barrier_turn (barrier_turn ?r1))"
    using short_turns short_rt_sel by (simp_all add: rt_running_def)
  have 3: "cosim_step ?s2 (Local Barrier) ?s3" using barrier_cosim [of ?s2] p(1) by simp
  have 4: "cosim_step ?s3 (Local Barrier) ?s4" using barrier_cosim [of ?s3] p(2) by simp
  have e: "cs_rt short_end = barrier_turn (barrier_turn (barrier_turn ?r1))" by (simp add: short_end_def Let_def)
  have 5: "cosim_step ?s4 (Local Barrier) ?s5" using barrier_cosim [of ?s4] p(3) by (simp add: e)
  have u: "rt_sent (cs_rt ?s5) ! cs_up ?s5 = JObj (ack_msg 0)" by (simp add: short_last)
  have t: "gem5_recv (\<lambda>_. False) (Some (as_obj (rt_sent (cs_rt ?s5) ! cs_up ?s5))) (cs_gem5 ?s5) = cs_gem5 short_end"
    unfolding u as_obj.simps using short_ack by (simp del: gem5_recv.simps)
  have f: "?s5\<lparr>cs_gem5 := cs_gem5 short_end, cs_up := Suc (cs_up ?s5)\<rparr> = short_end"
    by (simp add: short_end_def Let_def cosim_start_def numeral_2_eq_2)
  have "cosim_step ?s5 (Up False) (?s5\<lparr>cs_gem5 := gem5_recv (\<lambda>_. False) (Some (as_obj (rt_sent (cs_rt ?s5) ! cs_up ?s5))) (cs_gem5 ?s5),
      cs_up := Suc (cs_up ?s5)\<rparr>)"
    by (rule cosim_step.up) (simp_all add: g0 short_last gem5_over_def)
  then have 6: "cosim_step ?s5 (Up False) short_end" by (simp only: t f)
  from cosim_run.run [OF cosim_run.run [OF cosim_run.run [OF cosim_run.run [OF cosim_run.run [OF cosim_run.run
      [OF cosim_run.idle 1] 2] 3] 4] 5] 6] show ?thesis by simp
qed

theorem cosim_lockstep_witness:
  "rt_cycles_run (cs_rt short_end) = 1 \<and> fg_sync_cycle (cs_fg short_end) = 1 * fg_syncs (cs_fg short_end) \<and>
   fg_sync_cycle (cs_fg short_end) \<le> rt_cycles_run (cs_rt short_end)"
proof -
  have q: "ga_quantum short_args = 1" by (simp add: short_args_def)
  show ?thesis using cosim_lockstep [OF short_run] q short_last(2) by (simp add: Let_def)
qed

theorem cosim_type_safe_witness:
  "sent_ok Tb (rt_sent (cs_rt short_end)) \<and> length (rt_sent (cs_rt short_end)) = 2 \<and> fst (cs_gem5 short_end) \<noteq> GOver (Crash ContractError)"
  using cosim_type_safe [OF short_run] short_last(1) by simp


end

