(* ===== verification/Cosim_Socket.thy ===== *)
theory Cosim_Socket
  imports Cosim_System Cosim_Transport
begin

text \<open>
  The socket under the closed system.  \<^theory_text>\<open>Cosim_System\<close> joins the two processes by queues of messages; here the messages are
  encoded, cut into chunks and read back by the transport's threads and by the reader of \<^verbatim>\<open>fake_gem5.py\<close>.  What the two sides send in
  a run can be encoded, so the queues are what the socket implements.
\<close>

section \<open>Messages of the protocol can be encoded\<close>

lemma field_json_ok: "has_type ty v \<Longrightarrow> ty \<noteq> TFloat \<Longrightarrow> json_ok v"
  by (cases ty) auto

lemma fields_json_ok:
  "fields_ok sch kvs \<Longrightarrow> distinct (map fst sch) \<Longrightarrow> TFloat \<notin> snd ` set sch \<Longrightarrow> json_ok (JObj kvs) \<and> map fst kvs = map fst sch"
proof (induction sch arbitrary: kvs)
  case (Cons f sch)
  obtain k ty where f: "f = (k, ty)" by fastforce
  then obtain v r where "kvs = (k, v) # r" "has_type ty v" "fields_ok sch r" using Cons.prems(1) by auto
  moreover have "json_ok v" using field_json_ok [OF \<open>has_type ty v\<close>] Cons.prems(3) f by force
  moreover have "json_ok (JObj r) \<and> map fst r = map fst sch" using Cons.IH [OF \<open>fields_ok sch r\<close>] Cons.prems(2,3) by simp
  ultimately show ?case using Cons.prems(2) f by auto
qed simp

lemma flit_types_json_ok:
  assumes "fields_ok (flit_schema names) p" "distinct names"
  shows "json_ok (JObj p)"
proof -
  have "flit_field_type k \<noteq> TFloat" for k by (simp add: flit_field_type_def)
  then have "map fst (flit_schema names) = names" "TFloat \<notin> snd ` set (flit_schema names)"
    by (auto simp: flit_schema_def comp_def) metis
  then show ?thesis using fields_json_ok [OF assms(1)] assms(2) by simp
qed

lemma tables_distinct: "distinct REQ_FIELDS" "distinct RSP_FIELDS" "distinct DAT_FIELDS"
  by (simp_all add: REQ_FIELDS_def RSP_FIELDS_def DAT_FIELDS_def)

text \<open>Only the two greetings carry a float.\<close>

lemma Tb_json_ok:
  assumes "msg_ok Tb m" "opt_str m ''t'' \<noteq> Some ''hello_ack''"
  shows "json_ok (JObj m)"
  using assms(1)
proof (cases rule: msg_ok_Tb_cases)
  case (rsp p)
  then show ?thesis using flit_types_json_ok [OF rsp(2) tables_distinct(2)] by (simp add: flit_msg_def)
next
  case (dat p)
  then show ?thesis using flit_types_json_ok [OF dat(2) tables_distinct(3)] by (simp add: flit_msg_def)
qed (use assms(2) in \<open>simp_all add: opt_str_def ack_msg_def bye_msg_def\<close>)

lemma Gem5_json_ok:
  assumes "msg_ok Gem5 m" "opt_str m ''t'' \<noteq> Some ''hello''"
  shows "json_ok (JObj m)"
  using assms(1)
proof (cases rule: msg_ok_Gem5_cases)
  case (req p)
  then show ?thesis using flit_types_json_ok [OF req(2) tables_distinct(1)] by (simp add: g2t_flit_def)
next
  case (dat p)
  then show ?thesis using flit_types_json_ok [OF dat(2) tables_distinct(3)] by (simp add: g2t_flit_def)
qed (use assms(2) in \<open>simp_all add: opt_str_def bye_msg_def\<close>)

section \<open>Each side greets once\<close>

definition no_hello :: "gem5_side \<Rightarrow> bool" where
  "no_hello s \<longleftrightarrow> of_kind ''hello'' (fg_outbox (snd s)) = [] \<and>
     (case fst s of GQuantum out \<Rightarrow> of_kind ''hello'' out = [] | _ \<Rightarrow> True)"

definition greets_on :: "fake_gem5 \<Rightarrow> gem5_side \<Rightarrow> bool" where
  "greets_on g s \<longleftrightarrow> no_hello s \<and> of_kind ''hello'' (fg_sent (snd s)) = of_kind ''hello'' (fg_sent g)"

lemma fail_greets: "of_kind ''hello'' (fg_outbox g) = [] \<Longrightarrow> greets_on g (gem5_fail e g)"
  by (cases e) (simp_all add: greets_on_def no_hello_def fg_send_def)

lemma begin_turn_greets:
  assumes "of_kind ''hello'' (fg_outbox g) = []"
  shows "greets_on g (begin_turn late g)"
proof (cases "fg_scenario_done g \<or> late (fg_syncs g)")
  case True
  then show ?thesis using assms fail_greets [of g ContractError]
    by (auto simp: begin_turn_def greets_on_def no_hello_def fg_send_def)
next
  case False
  show ?thesis
  proof (cases "flush_write_data (fg_pending_write_data g) g")
    case (Inl e)
    then show ?thesis using False fail_greets [OF assms, of "Raised e"] by (simp add: begin_turn_def)
  next
    case (Inr g1)
    have "opt_str (sync_msg c) ''t'' = Some ''sync''" for c by (simp add: sync_msg_def opt_str_def)
    then show ?thesis using False Inr flush_kinds [OF Inr, of "''hello''"] assms
      by (simp add: begin_turn_def greets_on_def no_hello_def send_outbox_def fold_send fg_send_def)
  qed
qed

lemma greets_trans: "of_kind ''hello'' (fg_sent g') = of_kind ''hello'' (fg_sent g) \<Longrightarrow> greets_on g' s \<Longrightarrow> greets_on g s"
  by (simp add: greets_on_def)

lemma end_quantum_greets:
  assumes "of_kind ''hello'' (fg_outbox g) = []" "of_kind ''hello'' out = []"
  shows "greets_on g (end_quantum late out g)"
proof -
  define g4 where "g4 = (fold fg_send out g)\<lparr>fg_sync_cycle := fg_sync_cycle g + ga_quantum (fg_args g),
      fg_syncs := fg_syncs g + 1\<rparr>"
  obtain r g5 where t: "turn_tail g4 = (r, g5)" by fastforce
  have g5: "of_kind ''hello'' (fg_outbox g5) = []" "of_kind ''hello'' (fg_sent g5) = of_kind ''hello'' (fg_sent g)"
    using turn_tail_counts [OF t] assms by (simp_all add: g4_def fold_send)
  have "end_quantum late out g = (case r of TReturn n \<Rightarrow> (GOver (Exit n), g5)
      | TRaise e \<Rightarrow> gem5_fail e g5 | _ \<Rightarrow> begin_turn late g5)"
    using t by (simp add: end_quantum_def Let_def g4_def fold_send split: turn_end.split)
  then show ?thesis
    using greets_trans [OF g5(2) fail_greets [OF g5(1)]] greets_trans [OF g5(2) begin_turn_greets [OF g5(1)]] g5
    by (cases r) (auto simp: greets_on_def no_hello_def)
qed

lemma gem5_recv_greets:
  assumes "no_hello s"
  shows "greets_on (snd s) (gem5_recv late i s)"
proof -
  obtain p g where s: "s = (p, g)" by fastforce
  have o: "of_kind ''hello'' (fg_outbox g) = []" using assms by (simp add: s no_hello_def)
  show ?thesis
  proof (cases i)
    case None
    then show ?thesis using assms fail_greets [OF o] by (cases p) (simp_all add: s greets_on_def no_hello_def del: gem5_fail.simps)
  next
    case (Some m)
    show ?thesis
    proof (cases p)
      case GHello
      obtain e out g1 where h: "fg_handle m (fg_outbox g) g = (e, out, g1)" by (cases "fg_handle m (fg_outbox g) g")
      let ?g = "g1\<lparr>fg_outbox := out\<rparr>"
      have k: "of_kind ''hello'' (fg_outbox g1) = []" "of_kind ''hello'' out = []" "fg_sent g1 = fg_sent g"
        using handle_kinds [OF h, of "''hello''"] o by simp_all
      then have b: "greets_on (run_scenario ?g) (begin_turn late (run_scenario ?g))"
        using run_scenario_kinds [of "''hello''" ?g] by (intro begin_turn_greets) simp
      have "of_kind ''hello'' (fg_sent (run_scenario ?g)) = of_kind ''hello'' (fg_sent g)"
        using run_scenario_kinds [of "''hello''" ?g] k by simp
      from greets_trans [OF this b] show ?thesis
        using GHello Some h k o by (cases e) (auto simp: s greets_on_def no_hello_def)
    next
      case (GQuantum out)
      obtain e out1 g1 where h: "fg_handle m out g = (e, out1, g1)" by (cases "fg_handle m out g")
      have k: "of_kind ''hello'' (fg_outbox g1) = []" "of_kind ''hello'' out1 = []" "of_kind ''hello'' (fg_sent g1) = of_kind ''hello'' (fg_sent g)"
        using handle_kinds [OF h, of "''hello''"] assms by (simp_all add: s GQuantum no_hello_def)
      show ?thesis
        using GQuantum Some h k greets_trans [OF k(3) fail_greets [OF k(1)]] greets_trans [OF k(3) end_quantum_greets [OF k(1,2)]]
        by (cases e) (auto simp: s greets_on_def no_hello_def simp del: gem5_fail.simps)
    qed (use o Some in \<open>simp add: s greets_on_def no_hello_def\<close>)
  qed
qed

text \<open>On the other side only the handshake greets.\<close>

definition greetings :: "runtime \<Rightarrow> json list" where
  "greetings rt = filter (\<lambda>m. opt_str (as_obj m) ''t'' = Some ''hello_ack'') (rt_sent rt)"

lemma greetings_control:
  "greetings rt = filter (\<lambda>m. opt_str (as_obj m) ''t'' = Some ''hello_ack'') (filter is_control (rt_sent rt))"
proof -
  have "filter (\<lambda>m. opt_str (as_obj m) ''t'' = Some ''hello_ack'') ms =
      filter (\<lambda>m. opt_str (as_obj m) ''t'' = Some ''hello_ack'') (filter is_control ms)" for ms
    by (induction ms) (auto simp: is_control_def)
  then show ?thesis by (simp only: greetings_def)
qed

lemma greetings_quiet: "quiet rt rt' \<Longrightarrow> rt_clean rt \<Longrightarrow> greetings rt' = greetings rt"
  by (simp add: greetings_control quiet_def)

lemma greetings_send: "opt_str m ''t'' \<noteq> Some ''hello_ack'' \<Longrightarrow> greetings (rt_send m rt) = greetings rt"
  by (simp add: greetings_def rt_send_def)

lemma greetings_frame [simp]:
  "greetings (rt\<lparr>rt_phase := p\<rparr>) = greetings rt" "greetings (rt\<lparr>rt_sync_seen := b\<rparr>) = greetings rt"
  "greetings (rt\<lparr>rt_clk := c\<rparr>) = greetings rt" "greetings (rt\<lparr>rt_syncs_acked := n\<rparr>) = greetings rt"
  "greetings (rt\<lparr>rt_cycles_run := n\<rparr>) = greetings rt" "greetings (rt\<lparr>rt_exit_reason := x, rt_done := d\<rparr>) = greetings rt"
  "greetings (rt\<lparr>rt_clk := c, rt_phase := p\<rparr>) = greetings rt"
  by (simp_all add: greetings_def)

lemma greetings_parts [simp]:
  "greetings (acknowledge rt) = greetings rt" "greetings (barrier_finish rt) = greetings rt" "greetings (next_cycle n rt) = greetings rt"
proof -
  have "opt_str (ack_msg c) ''t'' \<noteq> Some ''hello_ack''" "opt_str (runtime_bye r) ''t'' \<noteq> Some ''hello_ack''" for c r
    by (simp_all add: ack_msg_def runtime_bye_def opt_str_def)
  note k = this [THEN greetings_send]
  show "greetings (acknowledge rt) = greetings rt" unfolding acknowledge_def Let_def by (simp add: k)
  show "greetings (barrier_finish rt) = greetings rt" unfolding barrier_finish_def by (simp add: k)
  show "greetings (next_cycle n rt) = greetings rt" by (simp add: next_cycle_def)
qed

lemma greetings_barrier:
  assumes "rt_clean rt"
  shows "greetings (barrier_turn rt) = greetings rt"
proof -
  have wake: "greetings (wake rt) = greetings rt" for rt by (simp add: wake_def park_or_finish_def Let_def)
  then have top: "greetings (barrier_top rt) = greetings rt" for rt by (simp add: barrier_top_def)
  have "greetings (end_cycle n rt) = greetings rt" for n
  proof -
    have "quiet rt (put_agent (agent_on_cycle (rt_agent rt)) rt)" by (rule quiet_agent [of ClockCycle]) simp
    from greetings_quiet [OF this assms] show ?thesis by (simp add: end_cycle_def Let_def top)
  qed
  then show ?thesis using wake top by (simp add: barrier_turn_def parked_turn_def split: barrier_phase.split)
qed

lemma greetings_step:
  assumes "rt_step rt l rt'" "rt_clean rt"
  shows "greetings rt' = greetings rt"
  using assms(1)
  by cases (use assms(2) greetings_quiet quiet_dispatch quiet_task quiet_agent quiet_port greetings_barrier in blast)+

section \<open>What both sides send in a run\<close>

definition greeted :: "runtime_env \<Rightarrow> gem5_args \<Rightarrow> cosim \<Rightarrow> bool" where
  "greeted e args s \<longleftrightarrow>
     greetings (cs_rt s) = [JObj (hello_ack_msg (runtime_init e))] \<and>
     no_hello (cs_gem5 s) \<and> of_kind ''hello'' (fg_sent (cs_fg s)) = [hello_msg args]"

lemma greeted_step:
  assumes "cosim_step s l s'" "greeted e args s" "cosim_typed s"
  shows "greeted e args s'"
proof -
  have clean: "rt_clean (cs_rt s)" using assms(3) by (simp add: cosim_typed_def rt_typed_def)
  have g: "no_hello (gem5_recv late i (cs_gem5 s)) \<and>
      of_kind ''hello'' (fg_sent (snd (gem5_recv late i (cs_gem5 s)))) = of_kind ''hello'' (fg_sent (cs_fg s))" for late i
    using gem5_recv_greets [of "cs_gem5 s" late i] assms(2) by (simp add: greeted_def greets_on_def)
  show ?thesis
    using assms(1)
  proof cases
    case (local l1 rt')
    then show ?thesis using greetings_step [OF local(4) clean] assms(2) by (simp add: greeted_def)
  next
    case (down rt')
    then show ?thesis using greetings_step [OF down(5) clean] assms(2) by (simp add: greeted_def)
  qed (use g assms(2) in \<open>simp_all add: greeted_def\<close>)
qed

lemma greeted_start: "greeted e args (cosim_start e args)"
  by (simp add: greeted_def cosim_start_def take_hello_def runtime_init_def rt_send_def greetings_def no_hello_def
      gem5_start_def fg_serve_def fg_send_def fake_gem5_init_def hello_msg_def hello_ack_msg_def opt_str_def Let_def)

lemma greeted_run: "cosim_run s ls s' \<Longrightarrow> greeted e args s \<Longrightarrow> cosim_typed s \<Longrightarrow> greeted e args s'"
  by (induction rule: cosim_run.induct) (auto intro: greeted_step cosim_run_typed)

lemma kind_in: "m \<in> set ms \<Longrightarrow> P m \<Longrightarrow> filter P ms = [x] \<Longrightarrow> m = x"
  by (metis (mono_tags) empty_iff filter_set list.set mem_Collect_eq set_filter singletonD)

lemma cosim_json_ok:
  assumes "cosim_run (cosim_start e args) ls s" "json_ok (JFloat (en_clk_ns e))" "json_ok (JFloat (ga_clk_ns args))"
  shows "list_all json_ok (rt_sent (cs_rt s))" "list_all json_ok (map JObj (fg_sent (cs_fg s)))"
proof -
  have t: "rt_typed (cs_rt s)" "side_typed (cs_gem5 s)"
    using cosim_run_typed [OF assms(1) cosim_start_typed] by (simp_all add: cosim_typed_def)
  have h: "greetings (cs_rt s) = [JObj (hello_ack_msg (runtime_init e))]" "of_kind ''hello'' (fg_sent (cs_fg s)) = [hello_msg args]"
    using greeted_run [OF assms(1) greeted_start cosim_start_typed] by (simp_all add: greeted_def)
  have "json_ok m" if m: "m \<in> set (rt_sent (cs_rt s))" for m
  proof (cases "opt_str (as_obj m) ''t'' = Some ''hello_ack''")
    case True
    then have "m = JObj (hello_ack_msg (runtime_init e))" using kind_in [OF m] h(1) by (simp add: greetings_def)
    then show ?thesis using assms(2) by (simp add: hello_ack_msg_def runtime_init_def)
  next
    case False
    have "case m of JObj kvs \<Rightarrow> msg_ok Tb kvs | _ \<Rightarrow> False" using t(1) m by (auto simp: rt_typed_def sent_ok_def list_all_iff)
    then obtain kvs where "m = JObj kvs" "msg_ok Tb kvs" by (cases m) auto
    then show ?thesis using False Tb_json_ok by simp
  qed
  then show "list_all json_ok (rt_sent (cs_rt s))" by (simp add: list_all_iff)
  have "json_ok (JObj m)" if m: "m \<in> set (fg_sent (cs_fg s))" for m
  proof (cases "opt_str m ''t'' = Some ''hello''")
    case True
    then have "m = hello_msg args" using kind_in [OF m] h(2) by simp
    then show ?thesis using assms(3) by (simp add: hello_msg_def)
  next
    case False
    have "msg_ok Gem5 m" using t(2) m by (auto simp: side_typed_def fg_typed_def list_all_iff)
    then show ?thesis using False Gem5_json_ok by simp
  qed
  then show "list_all json_ok (map JObj (fg_sent (cs_fg s)))" by (simp add: list_all_iff)
qed

section \<open>The socket is the queue\<close>

text \<open>Of a stream cut off anywhere, the complete lines are the first messages, and all of them parse.\<close>

lemma lines_of_prefix:
  "list_all json_ok ms \<Longrightarrow>
     \<exists>n. let ls = lines (take k (concat (map encode_msg ms))) in decode_lines ls = take n ms \<and> length (decode_lines ls) = length ls"
proof (induction ms arbitrary: k)
  case (Cons m ms)
  obtain l where l: "encode_msg m = l @ [NL]" "NL \<notin> set l" "l \<noteq> []" "decode_msg l = Inr m"
    using encode_msg_line [of m] Cons.prems by auto
  show ?case
  proof (cases "k \<le> length l")
    case True
    then have "NL \<notin> set (take k l)" using l(2) by (meson in_set_takeD)
    then have "lines (take k (concat (map encode_msg (m # ms)))) = []" using True l(1) by simp
    then show ?thesis by (auto intro!: exI [of _ 0])
  next
    case False
    then obtain j where "k = length l + Suc j" by (metis add_Suc_right less_imp_Suc_add not_le)
    then have "take k (concat (map encode_msg (m # ms))) = l @ NL # take j (concat (map encode_msg ms))" using l(1) by simp
    moreover obtain n where "let ls = lines (take j (concat (map encode_msg ms)))
        in decode_lines ls = take n ms \<and> length (decode_lines ls) = length ls" using Cons by auto
    ultimately show ?thesis using l(2-4) by (auto simp: lines_line Let_def intro!: exI [of _ "Suc n"])
  qed
qed simp

lemma length_lines_encoded: "list_all json_ok ms \<Longrightarrow> length (lines (concat (map encode_msg ms))) = length ms"
proof (induction ms)
  case (Cons m ms)
  obtain l where "encode_msg m = l @ [NL]" "NL \<notin> set l" "l \<noteq> []" using encode_msg_line [of m] Cons.prems by auto
  then show ?case using Cons by (simp add: lines_line)
qed simp

text \<open>Stated with the number of complete lines: exactly these messages come out.\<close>

lemma decode_prefix:
  assumes "list_all json_ok ms" "bs = take k (concat (map encode_msg ms))"
  shows "decode_lines (lines bs) = take (length (lines bs)) ms" "length (decode_lines (lines bs)) = length (lines bs)"
proof -
  obtain n where n: "decode_lines (lines bs) = take n ms" "length (decode_lines (lines bs)) = length (lines bs)"
    using lines_of_prefix [OF assms(1), of k] assms(2) by (auto simp: Let_def)
  then show "length (decode_lines (lines bs)) = length (lines bs)" by simp
  have "take (length (lines bs)) ms = take (length (take n ms)) ms" using n by simp
  also have "\<dots> = take n ms" by (simp add: min_def)
  finally show "decode_lines (lines bs) = take (length (lines bs)) ms" using n(1) by simp
qed

lemma no_blank_take: "no_blank bs \<Longrightarrow> no_blank (take k bs)"
  using append_take_drop_id [of k bs] by (metis append_Cons no_blank_def successively_append_iff)

lemma take_written:
  assumes "tx_stream tr = concat (map encode_msg ms)"
  shows "take b (tr_written tr) = take (min b (length (tr_written tr))) (concat (map encode_msg ms))"
proof -
  have "concat (map encode_msg ms) = tr_written tr @ concat (map encode_msg (tr_tx_queue tr))"
    using assms by (simp add: tx_stream_def)
  then show ?thesis by (simp add: min_def)
qed

text \<open>
  C8. The socket is the queue that \<^theory_text>\<open>Cosim_System\<close> takes it for: in every reachable state, however the transport's threads and the
  reactor interleave and however the bytes of both directions are cut into chunks and delayed, the runtime has been handed exactly the
  messages of gem5 whose last byte has arrived, in order, and the reader thread is alive; and gem5 reads exactly the messages of the
  runtime whose last byte has arrived.
\<close>

theorem socket_is_queue:
  assumes "cosim_run (cosim_start e args) ls s"
    and "json_ok (JFloat (en_clk_ns e))" and "json_ok (JFloat (ga_clk_ns args))"
    and "list_all stays_up es" and "WriterTurn False \<notin> set es"
    and "tr_run_sent transport_connected es = take j (rt_sent (cs_rt s))"
    and "concat (map chunk_of es) = take k (concat (map encode_msg (map JObj (fg_sent (cs_fg s)))))"
    and "turn_bytes turns = take b (tr_written (fst (tr_run transport_connected es)))"
    and "Expired \<notin> set turns" and "Chunk [] \<notin> set turns" and "length (turn_bytes turns) < n"
  shows "let (tr, polled) = tr_run transport_connected es in
    polled @ tr_rx_queue tr = take (length (lines (concat (map chunk_of es)))) (map JObj (fg_sent (cs_fg s))) \<and>
    tr_reader tr = Running \<and>
    decode_lines (read_all recv_line_opt n ([], turns)) = take (length (lines (turn_bytes turns))) (take j (rt_sent (cs_rt s)))"
proof -
  note ok = cosim_json_ok [OF assms(1-3)]
  obtain tr polled where run: "tr_run transport_connected es = (tr, polled)" by fastforce
  have rx: "reader_has tr (concat (map chunk_of es)) \<and> polled @ tr_rx_queue tr = decode_lines (lines (concat (map chunk_of es)))"
    using tr_run_rx [OF assms(4) reader_has_start, of "[]"] run by (simp add: transport_connected_def)
  note down = decode_prefix [OF ok(2) assms(7)]
  have sent: "list_all json_ok (take j (rt_sent (cs_rt s)))"
    using ok(1) by (simp add: list_all_iff) (meson in_set_takeD)
  have "tx_stream tr = concat (map encode_msg (take j (rt_sent (cs_rt s))))"
    using tr_run_tx [OF assms(5), of transport_connected] run assms(6) by (simp add: tx_stream_def transport_connected_def)
  from take_written [OF this, of b] have w: "turn_bytes turns =
      take (min b (length (tr_written tr))) (concat (map encode_msg (take j (rt_sent (cs_rt s)))))" using assms(8) run by simp
  have "reader_quiet ([], turns)"
    using assms(9,10) no_blank_take [OF no_blank_messages [OF sent]] w by (simp add: reader_quiet_def)
  then have "read_all recv_line_opt n ([], turns) = lines (turn_bytes turns)"
    using gem5_reader.read_all_lines [of "([], turns)" n] assms(11) by simp
  then show ?thesis
    using rx down decode_prefix(1) [OF sent w] by (simp add: run reader_has_def)
qed

text \<open>The witness: the short run, with its messages in one chunk each way.\<close>

theorem socket_is_queue_witness:
  "let bs = concat (map encode_msg (map JObj (fg_sent (cs_fg short_end))));
       es = map Send (rt_sent (cs_rt short_end)) @ [WriterTurn True, WriterTurn True, ReaderTurn (Received bs)];
       (tr, polled) = tr_run transport_connected es
   in polled @ tr_rx_queue tr = map JObj (fg_sent (cs_fg short_end)) \<and> length (fg_sent (cs_fg short_end)) = 3 \<and>
     decode_lines (read_all recv_line_opt (Suc (length (tr_written tr))) ([], [Chunk (tr_written tr)])) = rt_sent (cs_rt short_end)"
proof -
  let ?down = "map JObj (fg_sent (cs_fg short_end))" and ?up = "rt_sent (cs_rt short_end)"
  let ?bs = "concat (map encode_msg ?down)"
  let ?es = "map Send ?up @ [WriterTurn True, WriterTurn True, ReaderTurn (Received ?bs)]"
  obtain tr polled where run: "tr_run transport_connected ?es = (tr, polled)" by fastforce
  have f: "json_ok (JFloat (en_clk_ns demo_env))" "json_ok (JFloat (ga_clk_ns short_args))"
    by (simp_all add: demo_env_def short_args_def demo_args_def scan_number_def scan_digits_def scan_frac_def scan_exp_def is_digit_def)
  note ok = cosim_json_ok [OF short_run f]
  have l: "length ?down = 3" by (simp add: short_end_def Let_def)
  obtain m1 m2 where up: "?up = [m1, m2]" using short_last(1) by simp
  have "tr = fst (tr_run transport_connected ?es)" using run by simp
  then have "tr_written tr = encode_msg m1 @ encode_msg m2"
    by (simp add: up transport_send_def writer_turn_def transport_connected_def split_beta Let_def)
  then have w: "tr_written tr = concat (map encode_msg ?up)" by (simp add: up)
  obtain x xs where bs: "?bs = x # xs"
  proof -
    obtain d ds where "?down = d # ds" using l by (cases ?down) auto
    then have "?bs \<noteq> []" using encode_msg_line [of d] ok(2) by auto
    then show thesis using that by (cases ?bs) auto
  qed
  have up_ne: "tr_written tr \<noteq> []" using encode_msg_line [of m1] ok(1) w by (auto simp: up)
  have a: "list_all stays_up ?es" using bs by (simp add: up)
  have b: "WriterTurn False \<notin> set ?es" by auto
  have c: "tr_run_sent transport_connected ?es = take 2 ?up" by (simp add: up)
  have d: "concat (map chunk_of ?es) = take (length ?bs) ?bs" by (simp add: up)
  have t: "turn_bytes [Chunk (tr_written tr)] = take (length (tr_written tr)) (tr_written (fst (tr_run transport_connected ?es)))"
    using run by simp
  have n: "Expired \<notin> set [Chunk (tr_written tr)]" "Chunk [] \<notin> set [Chunk (tr_written tr)]"
    "length (turn_bytes [Chunk (tr_written tr)]) < Suc (length (tr_written tr))" using up_ne by simp_all
  note q = socket_is_queue [OF short_run f a b c d t n]
  have "length (lines (concat (map chunk_of ?es))) = length ?down" using length_lines_encoded [OF ok(2)] by (simp add: up)
  moreover have "length (lines (turn_bytes [Chunk (tr_written tr)])) = length ?up" using length_lines_encoded [OF ok(1)] w by simp
  moreover have "take 2 ?up = ?up" by (simp add: up)
  ultimately have "polled @ tr_rx_queue tr = ?down"
    "decode_lines (read_all recv_line_opt (Suc (length (tr_written tr))) ([], [Chunk (tr_written tr)])) = ?up"
    using q unfolding Let_def run prod.case by (metis order_refl take_all)+
  moreover have "length (fg_sent (cs_fg short_end)) = 3" using l unfolding length_map .
  ultimately show ?thesis unfolding Let_def run prod.case by blast
qed

end
