(* ===== verification/Cosim_Test.thy ===== *)
theory Cosim_Test
  imports Cosim_System
begin

text \<open>
  The verdict of the co-simulation test (\<^verbatim>\<open>C2xmCosimTest\<close> in \<^verbatim>\<open>c2xm_test.py\<close>) on the closed system: what a pass of the test says of
  the other process, and where it says nothing.
\<close>

section \<open>The assertions\<close>

datatype test_result = TestRunning | TestPassed | TestFailed

text \<open>What \<^verbatim>\<open>run_phase\<close> asserts once the barrier loop has returned; the transport may have noticed that the peer has closed.\<close>

definition cosim_asserts :: "bool \<Rightarrow> runtime \<Rightarrow> bool" where
  "cosim_asserts peer_closed rt =
     ((peer_closed \<or> rt_done rt) \<and>
      (if rt_exit_reason rt = ''gem5 peer closed'' then 100 \<le> rt_syncs_acked rt else True) \<and>
      take 8 (rt_exit_reason rt) \<noteq> ''contract'')"

text \<open>The loop may still run, have returned, or have raised TimeoutError.\<close>

definition cosim_test :: "bool \<Rightarrow> runtime \<Rightarrow> test_result" where
  "cosim_test peer_closed rt =
     (case rt_phase rt of
        BFinished \<Rightarrow> if cosim_asserts peer_closed rt then TestPassed else TestFailed
      | BTimedOut \<Rightarrow> TestFailed
      | _ \<Rightarrow> TestRunning)"

section \<open>What gem5 says when it ends\<close>

abbreviation closings :: "fake_gem5 \<Rightarrow> obj list" where
  "closings g \<equiv> of_kind ''bye'' (fg_sent g)"

text \<open>A \<^verbatim>\<open>bye\<close> is sent last and tells the exit code; without one the run was ended by the other side, by an exception, or before
  the first sync.\<close>

definition told :: "gem5_side \<Rightarrow> bool" where
  "told s \<longleftrightarrow>
     (let g = snd s in
      of_kind ''bye'' (fg_outbox g) = [] \<and>
      (case fst s of
         GOver v \<Rightarrow>
           closings g = [] \<and> (fg_remote_bye g = None \<longrightarrow> (\<exists>e. v = Crash e) \<or> v = Exit 1 \<and> sync_msgs (fg_sent g) = []) \<or>
           closings g = [bye_msg ''workload exit''] \<and> v = Exit 0 \<and> fg_verified g \<or>
           closings g = [bye_msg ''contract''] \<and> v = Exit 1
       | GHello \<Rightarrow> closings g = [] \<and> sync_msgs (fg_sent g) = [] \<and> ddr_ok (fg_ddr g) \<and> \<not> fg_scenario_done g
       | GQuantum out \<Rightarrow> closings g = [] \<and> of_kind ''bye'' out = [] \<and> ddr_ok (fg_ddr g) \<and> \<not> fg_scenario_done g))"

lemma fail_told: "closings g = [] \<Longrightarrow> of_kind ''bye'' (fg_outbox g) = [] \<Longrightarrow> told (gem5_fail e g)"
  by (cases e) (simp_all add: told_def fg_send_def)

lemma begin_turn_told:
  assumes "closings g = []" "of_kind ''bye'' (fg_outbox g) = []" "ddr_ok (fg_ddr g)" "fg_scenario_done g \<Longrightarrow> fg_verified g"
  shows "told (begin_turn late g)"
proof (cases "fg_scenario_done g \<or> late (fg_syncs g)")
  case True
  then show ?thesis
    using assms fail_told [of g ContractError]
    by (auto simp: begin_turn_def told_def fg_send_def fg_verified_def fg_complete_def fg_ddr_def)
next
  case False
  show ?thesis
  proof (cases "flush_write_data (fg_pending_write_data g) g")
    case (Inl e)
    then show ?thesis using False assms fail_told [of g "Raised e"] by (simp add: begin_turn_def)
  next
    case (Inr g1)
    have "closings g1 = []" "of_kind ''bye'' (fg_outbox g1) = []" "ddr_ok (fg_ddr g1)" "\<not> fg_scenario_done g1"
      using flush_kinds [OF Inr, of "''bye''"] flush_keeps [OF Inr] assms False by (simp_all add: fg_keeps_def fg_fixed_def)
    moreover have "opt_str (sync_msg c) ''t'' = Some ''sync''" for c by (simp add: sync_msg_def opt_str_def)
    ultimately show ?thesis
      using False Inr by (simp add: begin_turn_def told_def send_outbox_def fold_send fg_send_def fg_ddr_def)
  qed
qed

lemma end_quantum_told:
  assumes "closings g = []" "of_kind ''bye'' (fg_outbox g) = []" "of_kind ''bye'' out = []" "ddr_ok (fg_ddr g)" "\<not> fg_scenario_done g"
  shows "told (end_quantum late out g)"
proof -
  define g4 where "g4 = (fold fg_send out g)\<lparr>fg_sync_cycle := fg_sync_cycle g + ga_quantum (fg_args g),
      fg_syncs := fg_syncs g + 1\<rparr>"
  obtain r g5 where t: "turn_tail g4 = (r, g5)" by fastforce
  have g4: "ddr_ok (fg_ddr g4)" "\<not> fg_scenario_done g4" using assms by (simp_all add: g4_def fold_send fg_ddr_def)
  have g5: "closings g5 = []" "of_kind ''bye'' (fg_outbox g5) = []"
    using turn_tail_counts [OF t] assms by (simp_all add: g4_def fold_send)
  have e: "end_quantum late out g = (case r of TReturn n \<Rightarrow> (GOver (Exit n), g5)
      | TRaise e \<Rightarrow> gem5_fail e g5 | _ \<Rightarrow> begin_turn late g5)"
    using t by (simp add: end_quantum_def Let_def g4_def fold_send split: turn_end.split)
  show ?thesis
  proof (cases r)
    case (TReturn n)
    then have "fg_remote_bye g5 \<noteq> None" using t by (auto simp: turn_tail_def split: option.splits if_splits prod.splits)
    then show ?thesis using TReturn e g5 by (auto simp: told_def)
  next
    case TGo
    then show ?thesis using e turn_tail_ok [OF g4 t TGo] begin_turn_told [OF g5] by auto
  next
    case (TRaise x)
    then show ?thesis using e fail_told [OF g5] by simp
  next
    case TWaiting
    then show ?thesis using turn_tail_counts [OF t] by simp
  qed
qed

lemma gem5_recv_told:
  assumes "told (p, g)" "\<And>v. p \<noteq> GOver v"
  shows "told (gem5_recv late i (p, g))"
proof (cases i)
  case None
  have "told (gem5_fail ContractError g)" if "p = GQuantum out" for out
    by (rule fail_told) (use assms(1) that in \<open>simp_all add: told_def\<close>)
  then show ?thesis using None assms by (cases p) (simp_all add: told_def)
next
  case (Some m)
  show ?thesis
  proof (cases p)
    case GHello
    have g: "closings g = []" "sync_msgs (fg_sent g) = []" "of_kind ''bye'' (fg_outbox g) = []" "ddr_ok (fg_ddr g)" "\<not> fg_scenario_done g"
      using assms(1) GHello by (simp_all add: told_def)
    obtain e out g1 where h: "fg_handle m (fg_outbox g) g = (e, out, g1)" by (cases "fg_handle m (fg_outbox g) g")
    let ?g = "g1\<lparr>fg_outbox := out\<rparr>"
    have g1: "closings g1 = []" "sync_msgs (fg_sent g1) = []" "of_kind ''bye'' out = []" "of_kind ''bye'' (fg_outbox g1) = []"
      "ddr_ok (fg_ddr g1)" "\<not> fg_scenario_done g1"
      using g handle_kinds [OF h, of "''bye''"] fg_handle_keeps [OF h] by (simp_all add: fg_keeps_def fg_fixed_def)
    have s: "closings (run_scenario ?g) = []" "of_kind ''bye'' (fg_outbox (run_scenario ?g)) = []"
      "ddr_ok (fg_ddr (run_scenario ?g))" "\<not> fg_scenario_done (run_scenario ?g)"
      using g1 run_scenario_kinds [of "''bye''" ?g] by (simp_all add: fg_ddr_def)
    have b: "told (begin_turn late (run_scenario ?g))"
      using begin_turn_told [OF s(1-3)] s(4) by blast
    show ?thesis
    proof (cases "opt_str m ''t'' \<in> {Some ''peer_closed'', Some ''bye''}")
      case True
      then show ?thesis using Some GHello g by (auto simp: told_def)
    next
      case False
      then show ?thesis using Some GHello h g1 b by (cases e) (auto simp: told_def fg_ddr_def)
    qed
  next
    case (GQuantum out)
    have g: "closings g = []" "of_kind ''bye'' out = []" "of_kind ''bye'' (fg_outbox g) = []" "ddr_ok (fg_ddr g)" "\<not> fg_scenario_done g"
      using assms(1) GQuantum by (simp_all add: told_def)
    obtain e out1 g1 where h: "fg_handle m out g = (e, out1, g1)" by (cases "fg_handle m out g")
    have g1: "closings g1 = []" "of_kind ''bye'' (fg_outbox g1) = []" "of_kind ''bye'' out1 = []"
      "ddr_ok (fg_ddr g1)" "\<not> fg_scenario_done g1"
      using g handle_kinds [OF h, of "''bye''"] fg_handle_keeps [OF h] by (simp_all add: fg_keeps_def fg_fixed_def)
    show ?thesis
      using Some GQuantum h fail_told [OF g1(1,2)] end_quantum_told [OF g1, of late] g1
      by (cases e) (auto simp: told_def)
  qed (use assms(2) in simp)
qed

lemma fail_remote [simp]: "fg_remote_bye (snd (gem5_fail e g)) = fg_remote_bye g"
  by (cases e) (simp_all add: fg_send_def)

lemma begin_turn_remote: "fg_remote_bye (snd (begin_turn late g)) = fg_remote_bye g"
  using flush_kinds [of "fg_pending_write_data g" g _ "''bye''"]
  by (auto simp: begin_turn_def send_outbox_def fold_send fg_send_def simp del: gem5_fail.simps split: sum.split)

lemma handle_remote:
  assumes "fg_handle m out g = (e, out', g')" "opt_str m ''t'' \<notin> {Some ''bye'', Some ''peer_closed''}"
  shows "fg_remote_bye g' = fg_remote_bye g"
proof -
  have "fg_remote_bye (snd (handle_flit m g)) = fg_remote_bye g"
    by (simp add: handle_flit_def Let_def maybe_react_def split: option.split prod.split)
  moreover have "fg_remote_bye (snd (snd (handle_mem_read m out g))) = fg_remote_bye g"
    by (auto simp: handle_mem_read_def fg_upd_ddr_def Let_def split: sum.split prod.split)
  moreover have "fg_remote_bye (snd (snd (handle_mem_write m out g))) = fg_remote_bye g"
    by (auto simp: handle_mem_write_def fg_upd_ddr_def Let_def split: sum.split prod.split)
  moreover have "fg_remote_bye (snd (handle_bypass_resp m g)) = fg_remote_bye g"
    by (auto simp: handle_bypass_resp_def fg_upd_ddr_def Let_def split: sum.split prod.split option.split)
  ultimately have "fg_remote_bye (snd (snd (fg_handle m out g))) = fg_remote_bye g"
    using assms(2) by (auto simp: fg_handle_def Let_def keep_out_def)
  then show ?thesis using assms(1) by simp
qed

text \<open>The gem5 side learns that the other has ended only from its \<^verbatim>\<open>bye\<close> or from the end of the stream.\<close>

lemma gem5_recv_remote:
  assumes "\<And>m. i = Some m \<Longrightarrow> opt_str m ''t'' \<notin> {Some ''bye'', Some ''peer_closed''}"
  shows "fg_remote_bye (snd (gem5_recv late i s)) = fg_remote_bye (snd s)"
proof -
  obtain p g where s: "s = (p, g)" by fastforce
  have q: "fg_remote_bye (snd (end_quantum late out g)) = fg_remote_bye g" for out g
  proof -
    define g4 where "g4 = (fold fg_send out g)\<lparr>fg_sync_cycle := fg_sync_cycle g + ga_quantum (fg_args g),
        fg_syncs := fg_syncs g + 1\<rparr>"
    obtain r g5 where t: "turn_tail g4 = (r, g5)" by fastforce
    have "fg_remote_bye g4 = fg_remote_bye g" by (simp add: g4_def fold_send)
    then show ?thesis
      using t turn_tail_counts [OF t] begin_turn_remote
      by (simp add: end_quantum_def Let_def g4_def fold_send split: turn_end.split)
  qed
  show ?thesis
  proof (cases i)
    case None
    then show ?thesis by (cases p) (simp_all add: s del: gem5_fail.simps)
  next
    case (Some m)
    have h: "fg_remote_bye g' = fg_remote_bye g" if "fg_handle m out g = (e, out', g')" for out e out' g'
      using handle_remote [OF that] assms Some by blast
    show ?thesis
      using h q begin_turn_remote run_scenario_kinds [of "''bye''"]
      by (cases p) (auto simp: s Some simp del: gem5_fail.simps split: prod.split option.split)
  qed
qed

section \<open>What the runtime says while it runs\<close>

definition byes :: "runtime \<Rightarrow> json list" where
  "byes rt = filter (\<lambda>m. opt_str (as_obj m) ''t'' = Some ''bye'') (rt_sent rt)"

lemma byes_control: "byes rt = filter (\<lambda>m. opt_str (as_obj m) ''t'' = Some ''bye'') (filter is_control (rt_sent rt))"
proof -
  have "filter (\<lambda>m. opt_str (as_obj m) ''t'' = Some ''bye'') ms =
      filter (\<lambda>m. opt_str (as_obj m) ''t'' = Some ''bye'') (filter is_control ms)" for ms
    by (induction ms) (auto simp: is_control_def)
  then show ?thesis by (simp only: byes_def)
qed

lemma quiet_byes: "quiet rt rt' \<Longrightarrow> rt_clean rt \<Longrightarrow> byes rt' = byes rt"
  by (simp add: byes_control quiet_def)

text \<open>Only the end of the loop sends a \<^verbatim>\<open>bye\<close>, and with no budget only a message of gem5 ends it.\<close>

definition runs_on :: "runtime \<Rightarrow> runtime \<Rightarrow> bool" where
  "runs_on rt rt' \<longleftrightarrow>
     (rt_running rt' \<longrightarrow> byes rt' = byes rt) \<and> (rt_phase rt' = BFinished \<longrightarrow> rt_done rt') \<and>
     rt_done rt' = rt_done rt \<and> rt_exit_reason rt' = rt_exit_reason rt \<and> rt_max_syncs rt' = rt_max_syncs rt"

lemma acknowledge_runs_on:
  assumes "rt_max_syncs rt = 0"
  shows "byes (acknowledge rt) = byes rt" "rt_done (acknowledge rt) = rt_done rt" "rt_exit_reason (acknowledge rt) = rt_exit_reason rt"
    "rt_max_syncs (acknowledge rt) = 0" "rt_phase (acknowledge rt) = rt_phase rt"
  using assms by (simp_all add: acknowledge_def Let_def byes_def rt_send_def ack_msg_def opt_str_def)

lemma barrier_runs_on:
  assumes "rt_clean rt" "rt_max_syncs rt = 0" "rt_running rt"
  shows "runs_on rt (barrier_turn rt)"
proof -
  have fin: "runs_on rt (barrier_finish rt')"
    if "rt_done rt'" "rt_done rt' = rt_done rt" "rt_exit_reason rt' = rt_exit_reason rt" "rt_max_syncs rt' = rt_max_syncs rt" for rt'
    using that by (simp add: runs_on_def barrier_finish_def rt_running_def rt_send_def)
  have nxt: "runs_on rt (next_cycle n rt')"
    if "byes rt' = byes rt" "rt_done rt' = rt_done rt" "rt_exit_reason rt' = rt_exit_reason rt" "rt_max_syncs rt' = rt_max_syncs rt"
    for n rt' using that by (simp add: runs_on_def next_cycle_def byes_def)
  have park: "runs_on rt (rt'\<lparr>rt_phase := BParked k\<rparr>)"
    if "byes rt' = byes rt" "rt_done rt' = rt_done rt" "rt_exit_reason rt' = rt_exit_reason rt" "rt_max_syncs rt' = rt_max_syncs rt"
    for k rt' using that by (simp add: runs_on_def byes_def)
  have wake: "runs_on rt (wake rt')"
    if "byes rt' = byes rt" "rt_done rt' = rt_done rt" "rt_exit_reason rt' = rt_exit_reason rt" "rt_max_syncs rt' = rt_max_syncs rt"
    for rt'
  proof -
    let ?r = "rt'\<lparr>rt_sync_seen := False\<rparr>"
    have r: "byes ?r = byes rt" "rt_done ?r = rt_done rt" "rt_exit_reason ?r = rt_exit_reason rt" "rt_max_syncs ?r = rt_max_syncs rt"
      using that by (simp_all add: byes_def)
    then have a: "byes (acknowledge ?r) = byes rt" "rt_done (acknowledge ?r) = rt_done rt"
      "rt_exit_reason (acknowledge ?r) = rt_exit_reason rt" "rt_max_syncs (acknowledge ?r) = rt_max_syncs rt"
      using acknowledge_runs_on [of ?r] assms(2) by simp_all
    show ?thesis
      using fin [OF _ r(2-4)] fin [OF _ a(2-4)] park [OF a] nxt [OF r] by (simp add: wake_def Let_def park_or_finish_def)
  qed
  have top: "runs_on rt (barrier_top rt')"
    if "byes rt' = byes rt" "rt_done rt' = rt_done rt" "rt_exit_reason rt' = rt_exit_reason rt" "rt_max_syncs rt' = rt_max_syncs rt"
    for rt' using that fin wake park by (simp add: barrier_top_def)
  have cyc: "runs_on rt (end_cycle n rt)" for n
  proof -
    define r where "r = (put_agent (agent_on_cycle (rt_agent rt)) rt)\<lparr>rt_cycles_run := rt_cycles_run rt + 1\<rparr>"
    have e: "end_cycle n rt = (if n \<le> 1 then barrier_top (acknowledge r) else next_cycle (n - 1) r)"
      by (simp add: end_cycle_def Let_def put_agent_def r_def)
    have "quiet rt (put_agent (agent_on_cycle (rt_agent rt)) rt)"
      by (rule quiet_agent [of ClockCycle]) simp
    from quiet_byes [OF this assms(1)] have r: "byes r = byes rt" "rt_done r = rt_done rt" "rt_exit_reason r = rt_exit_reason rt"
      "rt_max_syncs r = rt_max_syncs rt" by (simp_all add: r_def byes_def put_agent_def)
    then have a: "byes (acknowledge r) = byes rt" "rt_done (acknowledge r) = rt_done rt"
      "rt_exit_reason (acknowledge r) = rt_exit_reason rt" "rt_max_syncs (acknowledge r) = rt_max_syncs rt"
      using acknowledge_runs_on [of r] assms(2) by simp_all
    show ?thesis using top [OF a] nxt [OF r] e by simp
  qed
  show ?thesis
    using assms(3) top [of rt] wake [of rt] park [of rt] cyc
    by (auto simp: barrier_turn_def parked_turn_def rt_running_def runs_on_def byes_def split: barrier_phase.split)
qed

lemma local_runs_on:
  assumes "rt_step rt l rt'" "\<forall>m. l \<noteq> Dispatch m" "rt_clean rt" "rt_max_syncs rt = 0" "rt_running rt"
  shows "runs_on rt rt'"
  using assms(1)
proof cases
  case (task i)
  have "rt_exit_reason rt' = rt_exit_reason rt" unfolding task
    by (simp add: task_turn_def started_def drop_task_def rt_put_defs Let_def split: bypass_task.split sum.split prod.split)
  then show ?thesis
    using quiet_byes [OF quiet_task assms(3), of i] barrier_part_task [of i rt] done_task [of i rt] task assms(5)
    by (simp add: runs_on_def barrier_part_def rt_running_def)
next
  case (device e a)
  then show ?thesis
    using quiet_byes [OF quiet_agent [OF device(3)] assms(3)] assms(5) by (simp add: runs_on_def put_agent_def rt_running_def)
next
  case (port op)
  then show ?thesis
    using quiet_byes [OF quiet_port assms(3), of op] assms(5) by (simp add: runs_on_def put_broker_def rt_running_def)
qed (use assms barrier_runs_on in auto)

lemma fail_sends: "sends_on g (snd (gem5_fail e g))"
  by (cases e) (simp_all add: sends_on_def fg_send_def)

lemma begin_turn_sends: "sends_on g (snd (begin_turn late g))"
  using flush_kinds [of "fg_pending_write_data g" g _ "''bye''"] fail_sends [of g]
  by (auto simp: begin_turn_def sends_on_def send_outbox_def fold_send fg_send_def simp del: gem5_fail.simps split: sum.split)

lemma end_quantum_sends: "sends_on g (snd (end_quantum late out g))"
proof -
  define g4 where "g4 = (fold fg_send out g)\<lparr>fg_sync_cycle := fg_sync_cycle g + ga_quantum (fg_args g),
      fg_syncs := fg_syncs g + 1\<rparr>"
  obtain r g5 where t: "turn_tail g4 = (r, g5)" by fastforce
  have "sends_on g g5" using turn_tail_counts [OF t] by (simp add: g4_def fold_send sends_on_def)
  then show ?thesis
    using t sends_on_trans [OF _ begin_turn_sends] sends_on_trans [OF _ fail_sends]
    by (simp add: end_quantum_def Let_def g4_def fold_send split: turn_end.split)
qed

lemma gem5_recv_sends: "sends_on (snd s) (snd (gem5_recv late i s))"
proof -
  obtain p g where s: "s = (p, g)" by fastforce
  show ?thesis
  proof (cases i)
    case None
    then show ?thesis using fail_sends by (cases p) (simp_all add: s del: gem5_fail.simps)
  next
    case (Some m)
    have h: "sends_on g g' \<and> sends_on g (run_scenario (g'\<lparr>fg_outbox := out'\<rparr>))"
      if "fg_handle m out g = (e, out', g')" for out e out' g'
      using handle_kinds [OF that, of "''bye''"] run_scenario_kinds [of "''bye''" "g'\<lparr>fg_outbox := out'\<rparr>"] by (simp add: sends_on_def)
    have o: "sends_on g (g'\<lparr>fg_outbox := out\<rparr>) = sends_on g g'" for g' out by (simp add: sends_on_def)
    show ?thesis
      using h o sends_on_trans [OF _ begin_turn_sends] sends_on_trans [OF _ fail_sends] sends_on_trans [OF _ end_quantum_sends]
      by (cases p) (auto simp: s Some simp del: gem5_fail.simps split: prod.split option.split)
  qed
qed

section \<open>The two processes together\<close>

text \<open>With no budget: what ended the loop, and what has been said so far.\<close>

definition ended_by :: "cosim \<Rightarrow> bool" where
  "ended_by s \<longleftrightarrow>
     bye_msg (rt_exit_reason (cs_rt s)) \<in> set (fg_sent (cs_fg s)) \<or>
     rt_exit_reason (cs_rt s) = ''gem5 peer closed'' \<and> closings (cs_fg s) = [] \<and> fg_remote_bye (cs_fg s) = None \<and> gem5_over s"

definition honest :: "cosim \<Rightarrow> bool" where
  "honest s \<longleftrightarrow>
     told (cs_gem5 s) \<and> rt_max_syncs (cs_rt s) = 0 \<and> (rt_phase (cs_rt s) = BFinished \<longrightarrow> rt_done (cs_rt s)) \<and>
     (rt_running (cs_rt s) \<longrightarrow> byes (cs_rt s) = [] \<and> fg_remote_bye (cs_fg s) = None) \<and>
     (if rt_done (cs_rt s) then ended_by s else of_kind ''bye'' (take (cs_down s) (fg_sent (cs_fg s))) = [])"

lemma told_ends:
  assumes "told (p, g)"
  shows "closings g = [] \<or> closings g = [bye_msg ''workload exit''] \<and> p = GOver (Exit 0) \<and> fg_verified g \<or>
    closings g = [bye_msg ''contract'']"
proof (cases p)
  case (GOver v)
  have "closings g = [] \<and> (fg_remote_bye g = None \<longrightarrow> (\<exists>e. v = Crash e) \<or> v = Exit 1 \<and> sync_msgs (fg_sent g) = []) \<or>
      closings g = [bye_msg ''workload exit''] \<and> v = Exit 0 \<and> fg_verified g \<or> closings g = [bye_msg ''contract''] \<and> v = Exit 1"
    using assms unfolding told_def Let_def GOver fst_conv snd_conv fg_phase.case by (rule conjunct2)
  then show ?thesis unfolding GOver by blast
qed (use assms in \<open>simp_all add: told_def\<close>)

lemma told_bye:
  assumes "told (p, g)" "m \<in> set (fg_sent g)" "opt_str m ''t'' = Some ''bye''"
  shows "\<exists>r. m = bye_msg r"
proof -
  have m: "m \<in> set (closings g)" using assms(2,3) by simp
  have "closings g = [] \<or> (\<exists>r. closings g = [bye_msg r])" using told_ends [OF assms(1)] by blast
  then show ?thesis
  proof
    assume "\<exists>r. closings g = [bye_msg r]"
    then obtain r where "closings g = [bye_msg r]" by blast
    then show ?thesis using m by (metis empty_iff empty_set list.simps(15) singletonD)
  next
    assume "closings g = []"
    then show ?thesis using m by (metis empty_iff empty_set)
  qed
qed

lemma honest_gem5:
  assumes "honest s" "\<not> gem5_over s" "told g" "sends_on (cs_fg s) (snd g)" "cs_down s \<le> length (fg_sent (cs_fg s))"
    and "rt_running (cs_rt s) \<Longrightarrow> fg_remote_bye (snd g) = fg_remote_bye (cs_fg s)"
  shows "honest (s\<lparr>cs_gem5 := g, cs_up := u, cs_hung_up := h\<rparr>)"
  using assms by (auto simp: honest_def ended_by_def sends_on_def)

lemma honest_local:
  assumes "honest s" "runs_on (cs_rt s) rt'" "rt_running (cs_rt s)"
  shows "honest (s\<lparr>cs_rt := rt'\<rparr>)"
  using assms by (auto simp: honest_def ended_by_def runs_on_def gem5_over_def)

lemma dispatch_end:
  assumes "\<not> rt_done rt" "\<not> rt_dispatcher_dead rt"
  shows "(if opt_str m ''t'' = Some ''bye''
      then rt_done (dispatcher_turn m rt) \<and> rt_exit_reason (dispatcher_turn m rt) = get_str m ''reason'' ''gem5 exit''
      else if opt_str m ''t'' = Some ''peer_closed''
      then rt_done (dispatcher_turn m rt) \<and> rt_exit_reason (dispatcher_turn m rt) = ''gem5 peer closed''
      else \<not> rt_done (dispatcher_turn m rt)) \<and> barrier_part (dispatcher_turn m rt) = barrier_part rt"
  using assms barrier_part_dispatch [of m rt]
  by (auto simp: dispatcher_turn_def route_def route_flit_def put_agent_def put_broker_def Let_def split: sum.split if_splits)

lemma honest_down:
  assumes "honest s" "rt_running (cs_rt s)" "cs_down s < length (down_stream s)" "\<not> rt_done (cs_rt s)" "\<not> rt_dispatcher_dead (cs_rt s)"
    and typed: "side_typed (cs_gem5 s)" and clean: "rt_clean (cs_rt s)"
  shows "honest (s\<lparr>cs_rt := dispatcher_turn (down_stream s ! cs_down s) (cs_rt s), cs_down := Suc (cs_down s)\<rparr>)"
proof -
  let ?m = "down_stream s ! cs_down s" and ?rt = "dispatcher_turn (down_stream s ! cs_down s) (cs_rt s)"
  let ?s = "s\<lparr>cs_rt := ?rt, cs_down := Suc (cs_down s)\<rparr>"
  note d = dispatch_end [OF assms(4,5), of ?m]
  have f: "rt_phase ?rt = rt_phase (cs_rt s)" "rt_max_syncs ?rt = rt_max_syncs (cs_rt s)" "byes ?rt = byes (cs_rt s)"
    using d quiet_byes [OF quiet_dispatch clean] by (simp_all add: barrier_part_def)
  have h: "told (cs_gem5 s)" "rt_max_syncs (cs_rt s) = 0" "byes (cs_rt s) = []" "fg_remote_bye (cs_fg s) = None"
    "of_kind ''bye'' (take (cs_down s) (fg_sent (cs_fg s))) = []" using assms(1,2,4) by (simp_all add: honest_def)
  have p: "rt_phase ?rt \<noteq> BFinished" using assms(2) f by (simp add: rt_running_def)
  have "if rt_done ?rt then ended_by ?s else of_kind ''bye'' (take (Suc (cs_down s)) (fg_sent (cs_fg s))) = []"
  proof (cases "cs_down s < length (fg_sent (cs_fg s))")
    case True
    then have m: "?m = fg_sent (cs_fg s) ! cs_down s" "?m \<in> set (fg_sent (cs_fg s))" by (simp_all add: down_stream_def nth_append)
    have k: "opt_str ?m ''t'' \<noteq> Some ''peer_closed''"
    proof -
      have "msg_ok Gem5 ?m" using typed m(2) by (auto simp: side_typed_def fg_typed_def list_all_iff)
      then show ?thesis by (cases rule: msg_ok_Gem5_cases) (auto simp: opt_str_def g2t_flit_def bye_msg_def)
    qed
    show ?thesis
    proof (cases "opt_str ?m ''t'' = Some ''bye''")
      case bye: True
      obtain r where r: "?m = bye_msg r" using told_bye [of "fst (cs_gem5 s)" "cs_fg s", OF _ m(2) bye] h(1) by auto
      then have "rt_exit_reason ?rt = r" using d bye by (simp add: get_str_def bye_msg_def)
      then show ?thesis using d bye r m(2) by (simp add: ended_by_def)
    next
      case False
      then show ?thesis using d k h(5) True m(1) by (simp add: take_Suc_conv_app_nth)
    qed
  next
    case False
    then have m: "?m = closed_msg" "gem5_over s"
      using assms(3) by (auto simp: down_stream_def nth_append split: if_splits)
    have "closings (cs_fg s) = []" using h(5) False by simp
    moreover have "opt_str closed_msg ''t'' = Some ''peer_closed''" by (simp add: closed_msg_def opt_str_def)
    ultimately show ?thesis using d m h(4) by (simp add: ended_by_def gem5_over_def)
  qed
  then show ?thesis using h f p by (simp add: honest_def)
qed

lemma running_says:
  assumes "honest s" "rt_running (cs_rt s)" "rt_typed (cs_rt s)" "m \<in> set (rt_sent (cs_rt s))"
  shows "opt_str (as_obj m) ''t'' \<notin> {Some ''bye'', Some ''peer_closed''}"
proof -
  have "opt_str (as_obj m) ''t'' \<noteq> Some ''bye''"
    using assms(1,2,4) by (auto simp: honest_def byes_def filter_empty_conv)
  moreover have "opt_str (as_obj m) ''t'' \<noteq> Some ''peer_closed''"
  proof -
    have "case m of JObj kvs \<Rightarrow> msg_ok Tb kvs | _ \<Rightarrow> False"
      using assms(3,4) by (auto simp: rt_typed_def sent_ok_def list_all_iff)
    then obtain kvs where kvs: "m = JObj kvs" "msg_ok Tb kvs" by (cases m) auto
    from kvs(2) have "opt_str kvs ''t'' \<noteq> Some ''peer_closed''"
      by (cases rule: msg_ok_Tb_cases) (auto simp: opt_str_def ack_msg_def bye_msg_def flit_msg_def)
    then show ?thesis using kvs(1) by simp
  qed
  ultimately show ?thesis by blast
qed

lemma honest_step:
  assumes "cosim_step s l s'" "honest s" "cosim_inv q 0 s" "cosim_typed s" "0 \<le> q"
  shows "honest s'"
proof -
  have typed: "rt_typed (cs_rt s)" "side_typed (cs_gem5 s)" using assms(4) by (simp_all add: cosim_typed_def)
  have clean: "rt_clean (cs_rt s)" using typed(1) by (simp add: rt_typed_def)
  have gem: "gem5_inv q (taken s) (cs_gem5 s)" using assms(3) by (simp add: cosim_inv_def)
  have over: "fst (cs_gem5 s) \<noteq> GOver v" if "\<not> gem5_over s" for v using that by (auto simp: gem5_over_def)
  have h: "told (fst (cs_gem5 s), cs_fg s)" using assms(2) by (simp add: honest_def)
  have t: "told (gem5_recv late i (cs_gem5 s))" if "\<not> gem5_over s" for late i
    using gem5_recv_told [OF h over [OF that]] by simp
  have d: "cs_down s \<le> length (fg_sent (cs_fg s))" if "\<not> gem5_over s"
    using assms(3) that by (simp add: cosim_inv_def down_stream_def)
  have gem5: "honest (s\<lparr>cs_gem5 := gem5_recv late i (cs_gem5 s), cs_up := u, cs_hung_up := b\<rparr>)"
    if "\<not> gem5_over s"
      "\<And>m. rt_running (cs_rt s) \<Longrightarrow> i = Some m \<Longrightarrow> opt_str m ''t'' \<notin> {Some ''bye'', Some ''peer_closed''}" for late i u b
    using honest_gem5 [OF assms(2) that(1) t [OF that(1)] gem5_recv_sends d [OF that(1)]] gem5_recv_remote [of i late "cs_gem5 s"] that(2)
    by blast
  show ?thesis
    using assms(1)
  proof cases
    case (local l1 rt')
    have "rt_max_syncs (cs_rt s) = 0" using assms(2) by (simp add: honest_def)
    from local_runs_on [OF local(4,5) clean this local(3)] show ?thesis using honest_local [OF assms(2) _ local(3)] local(2) by simp
  next
    case (down rt')
    then show ?thesis using honest_down [OF assms(2) down(3,4) _ _ typed(2) clean] by (simp add: dispatch_step_iff)
  next
    case (up late)
    have "opt_str (as_obj (rt_sent (cs_rt s) ! cs_up s)) ''t'' \<notin> {Some ''bye'', Some ''peer_closed''}" if "rt_running (cs_rt s)"
      by (rule running_says [OF assms(2) that typed(1)]) (use up(5) in simp)
    then have "honest (s\<lparr>cs_gem5 := gem5_recv (\<lambda>_. late) (Some (as_obj (rt_sent (cs_rt s) ! cs_up s))) (cs_gem5 s),
        cs_up := Suc (cs_up s), cs_hung_up := cs_hung_up s\<rparr>)" by (intro gem5 [OF up(3)]) auto
    then show ?thesis using up(2) by simp
  next
    case (silent late)
    then show ?thesis using gem5 [OF silent(3), where i = None and late = "\<lambda>_. late" and u = "cs_up s" and b = "cs_hung_up s"] by simp
  next
    case (hang_up late)
    then show ?thesis using gem5 [OF hang_up(3), where i = "Some closed_msg" and late = "\<lambda>_. late" and u = "cs_up s" and b = True] by simp
  qed
qed

lemma honest_start:
  assumes "en_max_syncs e = 0"
  shows "honest (cosim_start e args)"
proof -
  have h: "opt_str (hello_msg args) ''t'' = Some ''hello''" by (simp add: hello_msg_def opt_str_def)
  have g: "fst (gem5_start args) = GHello" "fg_sent (snd (gem5_start args)) = [hello_msg args]" "fg_outbox (snd (gem5_start args)) = []"
    "\<not> fg_scenario_done (snd (gem5_start args))" "fg_remote_bye (snd (gem5_start args)) = None"
    by (simp_all add: gem5_start_def fg_serve_def fg_send_def fake_gem5_init_def)
  have "ddr_ok (fg_ddr (snd (gem5_start args)))"
    by (simp add: gem5_start_def fg_serve_def fg_send_def fake_gem5_init_def fg_ddr_def checker_init_def ddr_ok_def)
  then have "told (gem5_start args)" by (simp add: told_def g h)
  moreover have "rt_max_syncs (cs_rt (cosim_start e args)) = 0" "rt_phase (cs_rt (cosim_start e args)) = BIdle"
    "\<not> rt_done (cs_rt (cosim_start e args))" "byes (cs_rt (cosim_start e args)) = []"
    using assms by (simp_all add: cosim_start_def take_hello_def runtime_init_def Let_def rt_send_def byes_def hello_ack_msg_def opt_str_def)
  moreover have "cs_gem5 (cosim_start e args) = gem5_start args" "cs_down (cosim_start e args) = 1" by (simp_all add: cosim_start_def)
  ultimately show ?thesis by (simp add: honest_def g h)
qed

lemma honest_run:
  "cosim_run s ls s' \<Longrightarrow> honest s \<Longrightarrow> cosim_inv q 0 s \<Longrightarrow> cosim_typed s \<Longrightarrow> 0 \<le> q \<Longrightarrow> honest s'"
  by (induction rule: cosim_run.induct) (auto intro: honest_step cosim_run_inv cosim_run_typed)

section \<open>The verdict\<close>


text \<open>The witness goes on from the short run: the \<^verbatim>\<open>bye\<close> is routed, and the parked loop ends.\<close>

lemma short_end_sel:
  "\<not> rt_done (cs_rt short_end)" "rt_phase (cs_rt short_end) = BParked 0" "rt_running (cs_rt short_end)"
  "cs_down short_end = 2" "down_stream short_end ! 2 = bye_msg ''workload exit''" "2 < length (down_stream short_end)"
proof -
  have "cs_rt short_end = barrier_turn (short_rt\<lparr>rt_sync_cycle := 0, rt_sync_seen := False, rt_clk := False, rt_phase := BLow 1\<rparr>)"
    using short_turns by (simp add: short_end_def Let_def)
  then show "\<not> rt_done (cs_rt short_end)"
    using short_rt_sel by (simp add: barrier_turn_def end_cycle_def put_agent_def barrier_top_def acknowledge_def rt_send_def Let_def)
  show p: "rt_phase (cs_rt short_end) = BParked 0" by (rule short_last(3))
  then show "rt_running (cs_rt short_end)" by (simp add: rt_running_def)
  show "cs_down short_end = 2" "down_stream short_end ! 2 = bye_msg ''workload exit''" "2 < length (down_stream short_end)"
    by (simp_all add: short_end_def Let_def down_stream_def gem5_over_def)
qed


text \<open>
  C40. With a barrier budget the verdict can hide a contract violation: when gem5 reports one during the last cycle of a quantum, the test
  fails, except if that quantum uses up the budget; then the reason for the end is overwritten and the test passes.
\<close>

theorem budget_hides_contract:
  assumes "\<not> rt_done rt" and "\<not> rt_dispatcher_dead rt" and "rt_phase rt = BLow 1"
  shows "cosim_test peer_closed (barrier_turn (dispatcher_turn (bye_msg ''contract'') rt)) =
    (if rt_max_syncs rt \<noteq> 0 \<and> rt_max_syncs rt \<le> rt_syncs_acked rt + 1 then TestPassed else TestFailed)"
proof -
  have "dispatcher_turn (bye_msg ''contract'') rt = rt\<lparr>rt_done := True, rt_exit_reason := ''contract'', rt_sync_seen := True\<rparr>"
    using assms by (simp add: dispatcher_turn_def route_def bye_msg_def opt_str_def get_str_def)
  then show ?thesis
    using assms(3) by (simp add: barrier_turn_def end_cycle_def put_agent_def barrier_top_def acknowledge_def barrier_finish_def
        rt_send_def cosim_test_def cosim_asserts_def Let_def)
qed

theorem budget_hides_contract_witness:
  "let rt = (runtime_init (demo_env\<lparr>en_max_syncs := 1\<rparr>))\<lparr>rt_phase := BLow 1\<rparr>
   in cosim_test True (barrier_turn (dispatcher_turn (bye_msg ''contract'') rt)) = TestPassed"
  using budget_hides_contract [of "(runtime_init (demo_env\<lparr>en_max_syncs := 1\<rparr>))\<lparr>rt_phase := BLow 1\<rparr>" True]
  by (simp add: runtime_init_def Let_def)

end
