(* ===== verification/C2xm_Env.thy ===== *)
theory C2xm_Env
  imports Chi_Monitor Gem5_Adaptor Axi_Slave_Stub Axi_Ddr_Proxy
begin

text \<open>
  The environment of \<^verbatim>\<open>c2xm_env.py\<close>: the component sets of its two modes, and the components run together on one clock.

  In standalone mode flits made by hand go through the adaptor's fifo, the adaptor and the driver's fifo to the link; in
  co-simulation mode the transactions come from the agent, and what the device answers returns to it through monitor and
  responder.  The two fifos hold 64 items: a producer that finds one full is suspended with what it has to put.  What is put
  is taken at once by a consumer that waits for it (\<open>put_item\<close>), so the pump functions below are what a producer does
  from one suspension to the next.  Edges are those of \<^theory_text>\<open>Link_Driver\<close>; the AXI components run on the other port.
\<close>

definition FIFO_SIZE :: nat where "FIFO_SIZE = 64"

section \<open>State\<close>

text \<open>The slave on the AXI port, if any, and what feeds the driver: the adaptor with its input fifo and the transactions
  of the current flit that are not yet put, or the agent with the transaction it is putting and the responder.\<close>

datatype axi_slave = NoSlave | StubSlave axi_stub | ProxySlave axi_proxy

datatype front = HandMade "flit list" adaptor "txn list" | FromGem5 snf_agent "txn option" responder

record c2xm_env =
  ce_front :: front
  ce_driver :: link_tb
  ce_chi_mon :: chi_mon
  ce_axi_mon :: axi_mon
  ce_axi_slave :: axi_slave

definition env_build :: "bool \<Rightarrow> bool \<Rightarrow> c2xm_env" where
  "env_build cosim_mode enable_axi_slave_stub =
     \<lparr>ce_front = (if cosim_mode then FromGem5 agent_init None responder_init else HandMade [] adaptor_init []),
      ce_driver = link_tb_init True, ce_chi_mon = chi_mon_init, ce_axi_mon = axi_mon_init,
      ce_axi_slave = (if cosim_mode then ProxySlave axi_proxy_init
        else if enable_axi_slave_stub then StubSlave axi_stub_init else NoSlave)\<rparr>"

text \<open>The ports are the calls of the pumps; what is left to connect is the responder's sinks.\<close>

definition env_connect :: "c2xm_env \<Rightarrow> c2xm_env" where
  "env_connect env =
     (case ce_front env of
        FromGem5 a w r \<Rightarrow> env\<lparr>ce_front := FromGem5 a w (bind_and_connect r)\<rparr>
      | HandMade fs a ts \<Rightarrow> env)"

definition chi_counts :: "c2xm_env \<Rightarrow> (string \<times> int) list" where
  "chi_counts env =
     (let m = ce_chi_mon env
      in [(''rxreq'', cm_rxreq_count m), (''rxdat'', cm_rxdat_count m), (''txrsp'', cm_txrsp_count m), (''txdat'', cm_txdat_count m)])"

definition axi_counts :: "c2xm_env \<Rightarrow> (string \<times> int) list" where
  "axi_counts env =
     (let m = ce_axi_mon env
      in [(''aw'', am_aw_count m), (''w'', am_w_count m), (''b'', am_b_count m), (''ar'', am_ar_count m), (''r'', am_r_count m)])"

section \<open>The producers\<close>

text \<open>\<^verbatim>\<open>run_phase\<close> of the adaptor until it waits for a flit or for room; a transaction counts once it is put.\<close>

function adaptor_pump :: "flit list \<Rightarrow> adaptor \<Rightarrow> txn list \<Rightarrow> link_tb \<Rightarrow> flit list \<times> adaptor \<times> txn list \<times> link_tb" where
  "adaptor_pump fs a (t # ts) tb =
     (if length (tb_items tb) < FIFO_SIZE then adaptor_pump fs (a\<lparr>ad_converted := ad_converted a + 1\<rparr>) ts (put_item t tb)
      else (fs, a, t # ts, tb))"
| "adaptor_pump (f # fs) a [] tb = (let (a', txns) = to_transactions a f in adaptor_pump fs a' txns tb)"
| "adaptor_pump [] a [] tb = ([], a, [], tb)"
  by pat_completeness auto
termination by (relation "measures [\<lambda>(fs, a, ts, tb). length fs, \<lambda>(fs, a, ts, tb). length ts]") auto

text \<open>\<^verbatim>\<open>run_phase\<close> of the agent until it waits for an edge or for room.\<close>

function agent_pump :: "snf_agent \<Rightarrow> txn option \<Rightarrow> link_tb \<Rightarrow> snf_agent \<times> txn option \<times> link_tb" where
  "agent_pump a (Some t) tb =
     (if length (tb_items tb) < FIFO_SIZE then agent_pump a None (put_item t tb) else (a, Some t, tb))"
| "agent_pump a None tb =
     (case agent_next_txn a of
        (None, a') \<Rightarrow> (a', None, tb)
      | (Some t, a') \<Rightarrow> agent_pump a' (Some t) tb)"
  by pat_completeness auto
termination
  by (relation "measure (\<lambda>(a, w, tb). 2 * length (ag_txn_queue a) + (case w of None \<Rightarrow> 0 | Some t \<Rightarrow> 1))")
    (auto simp: agent_next_txn_def split: list.splits)

declare adaptor_pump.simps [simp del] agent_pump.simps [simp del]

section \<open>Steps\<close>

text \<open>\<^verbatim>\<open>try_push_flit\<close>; \<^verbatim>\<open>send_flit\<close> blocks until it can do the same.  In co-simulation mode there is no adaptor.\<close>

definition env_push :: "flit \<Rightarrow> c2xm_env \<Rightarrow> bool \<times> c2xm_env" where
  "env_push f env =
     (case ce_front env of
        HandMade fs a ts \<Rightarrow>
          if length fs < FIFO_SIZE then
            let (fs, a, ts, tb) = adaptor_pump (fs @ [f]) a ts (ce_driver env)
            in (True, env\<lparr>ce_front := HandMade fs a ts, ce_driver := tb\<rparr>)
          else (False, env)
      | FromGem5 a w r \<Rightarrow> (False, env))"

text \<open>A call of the runtime into the agent: a message of gem5, or the end of a cycle.\<close>

datatype runtime_call = CallReq obj | CallDat obj | CallCycle

fun call_event :: "runtime_call \<Rightarrow> agent_event" where
  "call_event (CallReq p) = GemReq p"
| "call_event (CallDat p) = GemDat p"
| "call_event CallCycle = ClockCycle"

definition env_agent :: "runtime_call \<Rightarrow> c2xm_env \<Rightarrow> c2xm_env result" where
  "env_agent ev env =
     (case ce_front env of
        FromGem5 a w r \<Rightarrow> and_then (agent_step (call_event ev) a) (\<lambda>a. Inr (env\<lparr>ce_front := FromGem5 a w r\<rparr>))
      | HandMade fs a ts \<Rightarrow> Inr env)"

text \<open>What the handshake of the runtime sets in the agent.\<close>

definition env_handshake :: "int \<Rightarrow> c2xm_env \<Rightarrow> c2xm_env" where
  "env_handshake snf_id env =
     (case ce_front env of
        FromGem5 a w r \<Rightarrow>
          env\<lparr>ce_front := FromGem5 (a\<lparr>ag_snf_id := snf_id, ag_dut_nodeid := 0, ag_connected := True\<rparr>) w r\<rparr>
      | HandMade fs a ts \<Rightarrow> env)"

text \<open>
  A falling edge: the device's side of both ports, the orders of the link tasks (no transactions come from elsewhere), the broker
  at this edge, and whether the agent's coroutine runs before the responder hands it the flits of the edge.
\<close>

record clock_edge =
  ee_link :: edge
  ee_axi :: axi_master
  ee_axi_pins :: axi_pins
  ee_broker :: "bool \<times> broker"
  ee_agent_first :: bool

definition slave_pins :: "axi_pins \<Rightarrow> axi_slave \<Rightarrow> axi_pins" where
  "slave_pins outside s = (case s of NoSlave \<Rightarrow> outside | StubSlave st \<Rightarrow> st_pins st | ProxySlave px \<Rightarrow> px_pins px)"

definition slave_edge :: "clock_edge \<Rightarrow> axi_slave \<Rightarrow> axi_slave" where
  "slave_edge e s =
     (case s of
        NoSlave \<Rightarrow> NoSlave
      | StubSlave st \<Rightarrow> StubSlave (stub_edge (ee_axi e) st)
      | ProxySlave px \<Rightarrow> ProxySlave (proxy_step (ee_axi e, ee_broker e) px))"

text \<open>The agent's part of an edge; an exception of the agent ends the monitor's coroutine, and the run of the model.\<close>

definition front_edge :: "clock_edge \<Rightarrow> front \<Rightarrow> link_tb \<Rightarrow> (front \<times> link_tb) result" where
  "front_edge e fr tb =
     (case fr of
        HandMade fs a ts \<Rightarrow> (case adaptor_pump fs a ts tb of (fs, a, ts, tb) \<Rightarrow> Inr (HandMade fs a ts, tb))
      | FromGem5 a w r \<Rightarrow>
          if ee_agent_first e then
            (case agent_pump a w tb of
               (a, w, tb) \<Rightarrow> and_then (respond_edge (ed_dut (ee_link e)) (r, a)) (\<lambda>(r, a). Inr (FromGem5 a w r, tb)))
          else
            and_then (respond_edge (ed_dut (ee_link e)) (r, a)) (\<lambda>(r, a).
              case agent_pump a w tb of (a, w, tb) \<Rightarrow> Inr (FromGem5 a w r, tb)))"

definition env_edge :: "clock_edge \<Rightarrow> c2xm_env \<Rightarrow> c2xm_env result" where
  "env_edge e env =
     (let tb = ce_driver env; link = (ee_link e)\<lparr>ed_puts := []\<rparr>;
          mon = chi_mon_edge (lb_pins (tb_bfm tb)) (ed_dut link) (ce_chi_mon env);
          axi = axi_mon_edge (ee_axi e) (slave_pins (ee_axi_pins e) (ce_axi_slave env)) (ce_axi_mon env)
      in and_then (front_edge e (ce_front env) (link_edge link tb)) (\<lambda>(fr, tb).
           Inr \<lparr>ce_front = fr, ce_driver = tb, ce_chi_mon = mon, ce_axi_mon = axi, ce_axi_slave = slave_edge e (ce_axi_slave env)\<rparr>))"

text \<open>A run, with the flits that were accepted; in neither mode are the components of the other called.\<close>

datatype env_event = Push flit | Call runtime_call | Handshake int | Edge clock_edge

fun env_run :: "env_event list \<Rightarrow> c2xm_env \<Rightarrow> (flit list \<times> c2xm_env) result" where
  "env_run [] env = Inr ([], env)"
| "env_run (Push f # es) env =
     (case env_push f env of
        (ok, env) \<Rightarrow> and_then (env_run es env) (\<lambda>(fs, env). Inr (if ok then f # fs else fs, env)))"
| "env_run (Call ev # es) env = and_then (env_agent ev env) (env_run es)"
| "env_run (Handshake snf_id # es) env = env_run es (env_handshake snf_id env)"
| "env_run (Edge e # es) env = and_then (env_edge e env) (env_run es)"

section \<open>The pumps are queues\<close>

text \<open>The adaptor as it will have counted once the transactions of its current flit are put.\<close>

definition settled :: "adaptor \<Rightarrow> txn list \<Rightarrow> adaptor" where
  "settled a ts = a\<lparr>ad_converted := ad_converted a + int (length ts)\<rparr>"

lemma adaptor_run_snoc:
  "adaptor_run a (fs @ [f]) = (let (a1, ts) = adaptor_run a fs; (a2, t) = adaptor_step a1 f in (a2, ts @ t))"
  by (induction fs arbitrary: a) (simp_all add: Let_def split: prod.split)

lemma adaptor_pump_queue:
  "adaptor_pump fs a ts tb = (fs', a', ts', tb') \<Longrightarrow> drv_ok tb \<Longrightarrow> adaptor_run a0 past = (settled a ts, old) \<Longrightarrow>
     drv_keeps tb tb' \<and>
     (\<exists>flits new. fs = flits @ fs' \<and> adaptor_run a0 (past @ flits) = (settled a' ts', old @ new) \<and>
        handed tb' @ map erase ts' = handed tb @ map erase (ts @ new))"
proof (induction fs a ts tb arbitrary: past old rule: adaptor_pump.induct)
  case (1 fs a t ts tb)
  show ?case
  proof (cases "length (tb_items tb) < FIFO_SIZE")
    case True
    let ?a = "a\<lparr>ad_converted := ad_converted a + 1\<rparr>"
    have k: "drv_keeps tb (put_item t tb)" "handed (put_item t tb) = handed tb @ [erase t]" "drv_ok (put_item t tb)"
      using put_item_keeps [OF "1.prems"(2)] by (simp_all add: drv_keeps_def)
    have "adaptor_pump fs ?a ts (put_item t tb) = (fs', a', ts', tb')" "adaptor_run a0 past = (settled ?a ts, old)"
      using "1.prems" True by (simp_all add: adaptor_pump.simps(1) settled_def)
    from "1.IH" [OF True this(1) k(3) this(2)] show ?thesis using k drv_keeps_trans by force
  next
    case False
    then show ?thesis using "1.prems" drv_keeps_refl
      by (auto simp: adaptor_pump.simps(1) intro!: exI [of _ "[]"])
  qed
next
  case (2 f fs a tb)
  obtain a1 txns where t: "to_transactions a f = (a1, txns)" by fastforce
  have "adaptor_step a f = (settled a1 txns, txns)" by (simp add: adaptor_step_def t settled_def)
  moreover have "settled a [] = a" by (simp add: settled_def)
  ultimately have r: "adaptor_run a0 (past @ [f]) = (settled a1 txns, old @ txns)"
    using "2.prems"(3) by (simp add: adaptor_run_snoc)
  have "adaptor_pump fs a1 txns tb = (fs', a', ts', tb')" using "2.prems"(1) t by (simp add: adaptor_pump.simps(2))
  from "2.IH" [OF t [symmetric] refl this "2.prems"(2) r] obtain flits new where
    "drv_keeps tb tb'" "fs = flits @ fs'" "adaptor_run a0 ((past @ [f]) @ flits) = (settled a' ts', (old @ txns) @ new)"
    "handed tb' @ map erase ts' = handed tb @ map erase (txns @ new)" by blast
  then show ?case by (intro conjI exI [of _ "f # flits"] exI [of _ "txns @ new"]) simp_all
next
  case (3 a tb)
  then show ?case using drv_keeps_refl by (auto simp: adaptor_pump.simps(3) intro!: exI [of _ "[]"])
qed

definition waiting :: "txn option \<Rightarrow> txn list" where
  "waiting w = (case w of None \<Rightarrow> [] | Some t \<Rightarrow> [t])"

lemma agent_pump_queue:
  "agent_pump a w tb = (a', w', tb') \<Longrightarrow> drv_ok tb \<Longrightarrow>
     drv_keeps tb tb' \<and> (\<exists>q. a' = a\<lparr>ag_txn_queue := q\<rparr>) \<and>
     handed tb' @ map erase (waiting w' @ ag_txn_queue a') = handed tb @ map erase (waiting w @ ag_txn_queue a)"
proof (induction a w tb rule: agent_pump.induct)
  case (1 a t tb)
  show ?case
  proof (cases "length (tb_items tb) < FIFO_SIZE")
    case True
    have k: "drv_keeps tb (put_item t tb)" "handed (put_item t tb) = handed tb @ [erase t]" "drv_ok (put_item t tb)"
      using put_item_keeps [OF "1.prems"(2)] by (simp_all add: drv_keeps_def)
    have "agent_pump a None (put_item t tb) = (a', w', tb')" using "1.prems"(1) True by (simp add: agent_pump.simps(1))
    from "1.IH" [OF True this k(3)] show ?thesis using k drv_keeps_trans by (auto simp: waiting_def)
  next
    case False
    then show ?thesis using "1.prems" drv_keeps_refl by (auto simp: agent_pump.simps(1) intro!: exI [of _ "ag_txn_queue a"])
  qed
next
  case (2 a tb)
  show ?case
  proof (cases "ag_txn_queue a")
    case Nil
    then show ?thesis using 2 drv_keeps_refl
      by (auto simp: agent_pump.simps(2) agent_next_txn_def intro!: exI [of _ "[]"])
  next
    case (Cons t ts)
    let ?a = "a\<lparr>ag_txn_queue := ts\<rparr>"
    have n: "agent_next_txn a = (Some t, ?a)" by (simp add: agent_next_txn_def Cons)
    have "agent_pump ?a (Some t) tb = (a', w', tb')" using "2.prems"(1) n by (simp add: agent_pump.simps(2))
    from "2.IH" [OF n [symmetric] refl this "2.prems"(2)] show ?thesis by (auto simp: waiting_def Cons)
  qed
qed

lemma agent_pump_sub: "agent_pump a w tb = (a', w', tb') \<Longrightarrow> set (ag_txn_queue a') \<subseteq> set (ag_txn_queue a)"
proof (induction a w tb rule: agent_pump.induct)
  case (2 a tb)
  show ?case
  proof (cases "ag_txn_queue a")
    case (Cons t ts)
    have n: "agent_next_txn a = (Some t, a\<lparr>ag_txn_queue := ts\<rparr>)" by (simp add: agent_next_txn_def Cons)
    show ?thesis using "2.IH" [OF n [symmetric] refl] "2.prems" n by (auto simp: agent_pump.simps(2) Cons)
  qed (use 2 in \<open>auto simp: agent_pump.simps(2) agent_next_txn_def\<close>)
qed (auto simp: agent_pump.simps(1) split: if_splits)

section \<open>What the monitor reports\<close>

text \<open>The link part of the environment, with the transactions handed over so far.\<close>

definition link_part :: "txn list \<Rightarrow> link_tb \<Rightarrow> chi_mon \<Rightarrow> bool" where
  "link_part h tb m \<longleftrightarrow>
     drv_ok tb \<and> handed tb = h \<and> cm_rxreq_ap m = map rxreq_wire (sent_req tb) \<and> cm_rxdat_ap m = map rxdat_wire (sent_dat tb)"

lemma link_part_keeps:
  "link_part h tb m \<Longrightarrow> drv_keeps tb tb' \<Longrightarrow> link_part (handed tb') tb' m"
  by (simp add: link_part_def drv_keeps_def)

lemma link_part_edge:
  assumes "link_part h tb m"
  shows "link_part h (link_edge (e\<lparr>ed_puts := []\<rparr>) tb) (chi_mon_edge (lb_pins (tb_bfm tb)) d m)"
proof -
  have "drv_ok tb" using assms by (simp add: link_part_def)
  then show ?thesis
    using link_edge_step [of tb "e\<lparr>ed_puts := []\<rparr>"] chi_mon_sees_wire [of tb d m] assms by (simp add: link_part_def)
qed

lemma link_part_init: "link_part [] (link_tb_init w) chi_mon_init"
  using drv_ok_init by (simp add: link_part_def handed_def link_tb_init_def sent_req_def sent_dat_def past_dat_def chi_mon_init_def)

text \<open>Data beats but for the buffer id, which the driver fills in.\<close>

abbreviation no_dbid :: "raw_dat \<Rightarrow> raw_dat" where
  "no_dbid d \<equiv> d\<lparr>dt_dbid := 0\<rparr>"

lemma erase_parts [simp]:
  "req_of (erase t) = req_of t" "dat_of (erase t) = map no_dbid (dat_of t)"
  by (cases t; simp add: erase_def req_of_def dat_of_def set_dbids_def)+

lemma erased_flits:
  "requests_of (map erase ts) = requests_of ts" "beats_of (map erase ts) = map no_dbid (beats_of ts)"
  by (induction ts) simp_all

lemma wire_no_dbid: "no_dbid (rxdat_wire d) = rxdat_wire (no_dbid d)"
  by (simp add: rxdat_wire_def)

lemma past_prefix: "prefix (past_dat ph) (beats_of (current ph))"
proof (cases "phase_job ph")
  case (Some job)
  then have "current ph = [job_txn job]" by (cases ph rule: phase_job.cases) auto
  then show ?thesis using Some by (cases job) (simp_all add: past_dat_def dat_of_def take_is_prefix)
qed (simp add: past_dat_def)

text \<open>What the monitor has published is a beginning of what was handed over.\<close>

lemma link_part_prefix:
  assumes "link_part h tb m"
  shows "prefix (cm_rxreq_ap m) (map rxreq_wire (requests_of h))"
    "prefix (map no_dbid (cm_rxdat_ap m)) (map rxdat_wire (beats_of h))"
proof -
  have h: "h = map erase (tb_ap tb @ current (tb_drv tb) @ tb_items tb)" using assms by (simp add: link_part_def handed_def)
  have "prefix (sent_req tb) (requests_of (tb_ap tb @ current (tb_drv tb) @ tb_items tb))" by (simp add: sent_req_def)
  then show "prefix (cm_rxreq_ap m) (map rxreq_wire (requests_of h))"
    using assms unfolding h erased_flits link_part_def by (simp del: map_append concat_append add: map_mono_prefix)
  have "prefix (sent_dat tb) (beats_of (tb_ap tb @ current (tb_drv tb) @ tb_items tb))"
    using past_prefix [of "tb_drv tb"] by (auto simp: sent_dat_def prefix_def)
  then have "prefix (map (no_dbid \<circ> rxdat_wire) (sent_dat tb))
      (map (no_dbid \<circ> rxdat_wire) (beats_of (tb_ap tb @ current (tb_drv tb) @ tb_items tb)))" by (rule map_mono_prefix)
  moreover have "no_dbid \<circ> rxdat_wire = rxdat_wire \<circ> no_dbid" by (rule ext) (simp add: wire_no_dbid)
  ultimately show "prefix (map no_dbid (cm_rxdat_ap m)) (map rxdat_wire (beats_of h))"
    using assms unfolding h erased_flits link_part_def by (simp del: map_append)
qed

section \<open>Standalone mode\<close>

text \<open>The flits that become transactions: the two requests (a read whose size is not negative), and write data.\<close>

definition request_flits :: "flit list \<Rightarrow> raw_req list" where
  "request_flits fs = concat (map (\<lambda>f. case f of ReqFlit r \<Rightarrow> if f_opcode r = 0x04 \<and> 0 \<le> rq_size r \<or> f_opcode r \<in> {0x1C, 0x1D} then [r] else [] | _ \<Rightarrow> []) fs)"

definition data_flits :: "flit list \<Rightarrow> raw_dat list" where
  "data_flits fs = concat (map (\<lambda>f. case f of DatFlit d \<Rightarrow> if f_opcode d \<in> {0x3, 0x2} then [d] else [] | _ \<Rightarrow> []) fs)"

lemma adaptor_step_flits:
  "adaptor_step a f = (a', ts) \<Longrightarrow> requests_of ts = request_flits [f] \<and> beats_of ts = data_flits [f]"
proof (cases f)
  case (ReqFlit r)
  then show "adaptor_step a f = (a', ts) \<Longrightarrow> ?thesis"
    by (auto simp: adaptor_step_def req_to_txn_def txn_from_req_def is_read_no_snp_def is_write_no_snp_def opcode_defs
        request_flits_def data_flits_def req_of_def dat_of_def read_txn_from_def write_txn_from_def Let_def size_to_bytes_def
        split: if_splits sum.splits txn.splits)
next
  case (DatFlit d)
  then show "adaptor_step a f = (a', ts) \<Longrightarrow> ?thesis"
    by (auto simp: adaptor_step_def dat_to_txn_def OPC_NCB_WRITE_DATA_def OPC_CB_WRITE_DATA_def request_flits_def data_flits_def
        req_of_def dat_of_def Let_def split: if_splits option.splits)
qed (simp_all add: adaptor_step_def request_flits_def data_flits_def)

lemma adaptor_run_flits:
  "adaptor_run a fs = (a', ts) \<Longrightarrow> requests_of ts = request_flits fs \<and> beats_of ts = data_flits fs"
proof (induction fs arbitrary: a a' ts)
  case (Cons f fs)
  obtain a1 t1 where s: "adaptor_step a f = (a1, t1)" by fastforce
  obtain a2 t2 where r: "adaptor_run a1 fs = (a2, t2)" by fastforce
  have "requests_of (t1 @ t2) = request_flits [f] @ request_flits fs" "beats_of (t1 @ t2) = data_flits [f] @ data_flits fs"
    using adaptor_step_flits [OF s] Cons.IH [OF r] by simp_all
  then show ?case using Cons.prems s r by (auto simp: request_flits_def data_flits_def)
qed (simp add: request_flits_def data_flits_def)

definition standalone_inv :: "flit list \<Rightarrow> c2xm_env \<Rightarrow> bool" where
  "standalone_inv pushed env \<longleftrightarrow>
     (\<exists>fs a ts past old h. ce_front env = HandMade fs a ts \<and> pushed = past @ fs \<and> adaptor_run adaptor_init past = (settled a ts, old) \<and>
        link_part h (ce_driver env) (ce_chi_mon env) \<and> h @ map erase ts = map erase old)"

lemma pump_inv:
  assumes "adaptor_run adaptor_init past = (settled a ts, old)" "link_part h tb m" "h @ map erase ts = map erase old"
    and "adaptor_pump fs a ts tb = (fs', a', ts', tb')"
  shows "\<exists>flits old' h'. fs = flits @ fs' \<and> adaptor_run adaptor_init (past @ flits) = (settled a' ts', old') \<and>
    link_part h' tb' m \<and> h' @ map erase ts' = map erase old'"
proof -
  have ok: "drv_ok tb" "handed tb = h" using assms(2) by (simp_all add: link_part_def)
  from adaptor_pump_queue [OF assms(4) ok(1) assms(1)] obtain flits new where p: "drv_keeps tb tb'" "fs = flits @ fs'"
    "adaptor_run adaptor_init (past @ flits) = (settled a' ts', old @ new)"
    "handed tb' @ map erase ts' = handed tb @ map erase (ts @ new)" by blast
  have "link_part (handed tb') tb' m" by (rule link_part_keeps [OF assms(2) p(1)])
  moreover have "handed tb' @ map erase ts' = map erase (old @ new)" using p(4) ok(2) assms(3) by (simp flip: append_assoc)
  ultimately show ?thesis using p(2,3) by blast
qed

lemma standalone_push:
  assumes "standalone_inv pushed env" "env_push f env = (ok, env')"
  shows "standalone_inv (if ok then pushed @ [f] else pushed) env'"
proof -
  obtain fs a ts past old h where i: "ce_front env = HandMade fs a ts" "pushed = past @ fs"
    "adaptor_run adaptor_init past = (settled a ts, old)" "link_part h (ce_driver env) (ce_chi_mon env)"
    "h @ map erase ts = map erase old" using assms(1) by (auto simp: standalone_inv_def)
  show ?thesis
  proof (cases "length fs < FIFO_SIZE")
    case True
    obtain fs' a' ts' tb' where p: "adaptor_pump (fs @ [f]) a ts (ce_driver env) = (fs', a', ts', tb')" by (metis prod_cases4)
    from pump_inv [OF i(3,4,5) p] obtain flits old' h' where "fs @ [f] = flits @ fs'"
      "adaptor_run adaptor_init (past @ flits) = (settled a' ts', old')" "link_part h' tb' (ce_chi_mon env)"
      "h' @ map erase ts' = map erase old'" by blast
    moreover from this(1) have "pushed @ [f] = (past @ flits) @ fs'" using i(2) by simp
    ultimately show ?thesis using assms(2) i(1) True p by (fastforce simp: env_push_def standalone_inv_def)
  qed (use assms i(1) in \<open>auto simp: env_push_def\<close>)
qed

lemma standalone_edge:
  assumes "standalone_inv pushed env"
  shows "\<exists>env'. env_edge e env = Inr env' \<and> standalone_inv pushed env'"
proof -
  obtain fs a ts past old h where i: "ce_front env = HandMade fs a ts" "pushed = past @ fs"
    "adaptor_run adaptor_init past = (settled a ts, old)" "link_part h (ce_driver env) (ce_chi_mon env)"
    "h @ map erase ts = map erase old" using assms by (auto simp: standalone_inv_def)
  let ?tb = "link_edge ((ee_link e)\<lparr>ed_puts := []\<rparr>) (ce_driver env)"
  let ?m = "chi_mon_edge (lb_pins (tb_bfm (ce_driver env))) (ed_dut (ee_link e)) (ce_chi_mon env)"
  have l: "link_part h ?tb ?m" by (rule link_part_edge [OF i(4)])
  obtain fs' a' ts' tb' where p: "adaptor_pump fs a ts ?tb = (fs', a', ts', tb')" by (metis prod_cases4)
  from pump_inv [OF i(3) l i(5) p] obtain flits old' h' where "fs = flits @ fs'"
    "adaptor_run adaptor_init (past @ flits) = (settled a' ts', old')" "link_part h' tb' ?m"
    "h' @ map erase ts' = map erase old'" by blast
  moreover from this(1) have "pushed = (past @ flits) @ fs'" using i(2) by simp
  ultimately show ?thesis using i(1) p by (fastforce simp: env_edge_def front_edge_def standalone_inv_def Let_def)
qed

lemma standalone_run:
  "standalone_inv pushed env \<Longrightarrow> \<exists>fs env'. env_run es env = Inr (fs, env') \<and> standalone_inv (pushed @ fs) env'"
proof (induction es arbitrary: pushed env)
  case (Cons ev es)
  show ?case
  proof (cases ev)
    case (Push f)
    obtain ok env1 where p: "env_push f env = (ok, env1)" by fastforce
    from Cons.IH [OF standalone_push [OF Cons.prems p]] Push p show ?thesis by (cases ok) auto
  next
    case (Call c)
    have "env_agent c env = Inr env" using Cons.prems by (auto simp: standalone_inv_def env_agent_def)
    then show ?thesis using Cons.IH [OF Cons.prems] Call by simp
  next
    case (Handshake n)
    have "env_handshake n env = env" using Cons.prems by (auto simp: standalone_inv_def env_handshake_def)
    then show ?thesis using Cons.IH [OF Cons.prems] Handshake by simp
  next
    case (Edge e)
    then show ?thesis using standalone_edge [OF Cons.prems, of e] Cons.IH by auto
  qed
qed simp

lemma standalone_start: "standalone_inv [] (env_connect (env_build False stub))"
proof -
  have "settled adaptor_init [] = adaptor_init" by (simp add: settled_def)
  then show ?thesis
    using link_part_init by (simp add: standalone_inv_def env_connect_def env_build_def)
qed

text \<open>What the link monitor has seen, and where the accepted flits are.\<close>

lemma standalone_seen:
  assumes "standalone_inv fs env"
  shows "prefix (cm_rxreq_ap (ce_chi_mon env)) (map rxreq_wire (request_flits fs))"
    "prefix (map no_dbid (cm_rxdat_ap (ce_chi_mon env))) (map (\<lambda>d. no_dbid (rxdat_wire d)) (data_flits fs))"
    "\<exists>queued a ts. ce_front env = HandMade queued a ts \<and>
       int (length fs) = int (length queued) + ad_dropped a + ad_converted a + int (length ts)"
proof -
  obtain queued a ts past old h where i: "ce_front env = HandMade queued a ts" "fs = past @ queued"
    "adaptor_run adaptor_init past = (settled a ts, old)" "link_part h (ce_driver env) (ce_chi_mon env)"
    "h @ map erase ts = map erase old" using assms by (auto simp: standalone_inv_def)
  have "requests_of (map erase old) = request_flits past" "beats_of (map erase old) = map no_dbid (data_flits past)"
    using adaptor_run_flits [OF i(3)] by (simp_all only: erased_flits)
  moreover have "requests_of (map erase old) = requests_of h @ requests_of ts"
    "beats_of (map erase old) = beats_of h @ map no_dbid (beats_of ts)"
    using erased_flits [of ts] by (simp_all flip: i(5))
  moreover have "request_flits fs = request_flits past @ request_flits queued" "data_flits fs = data_flits past @ data_flits queued"
    by (simp_all add: i(2) request_flits_def data_flits_def)
  ultimately have "prefix (requests_of h) (request_flits fs)" "prefix (beats_of h) (map no_dbid (data_flits fs))"
    by (metis append_assoc map_append prefixI)+
  then have h: "prefix (map rxreq_wire (requests_of h)) (map rxreq_wire (request_flits fs))"
    "prefix (map rxdat_wire (beats_of h)) (map rxdat_wire (map no_dbid (data_flits fs)))" using map_mono_prefix by blast+
  have "int (length old) + ad_dropped a = int (length past)" "ad_converted a + int (length ts) = int (length old)"
    using adaptor_run_counts [OF i(3)] by (simp_all add: adaptor_init_def settled_def)
  then show "\<exists>queued a ts. ce_front env = HandMade queued a ts \<and>
      int (length fs) = int (length queued) + ad_dropped a + ad_converted a + int (length ts)" using i(1,2) by fastforce
  show "prefix (cm_rxreq_ap (ce_chi_mon env)) (map rxreq_wire (request_flits fs))"
    "prefix (map no_dbid (cm_rxdat_ap (ce_chi_mon env))) (map (\<lambda>d. no_dbid (rxdat_wire d)) (data_flits fs))"
    using prefix_order.trans [OF link_part_prefix(1) [OF i(4)] h(1)] prefix_order.trans [OF link_part_prefix(2) [OF i(4)] h(2)]
    by (simp_all add: o_def wire_no_dbid)
qed


section \<open>Co-simulation mode\<close>

text \<open>The requests that an event adds to those that wait for a slot: one of gem5, or one that the device had refused and now
  grants a credit for.\<close>

fun arrivals :: "agent_event \<Rightarrow> snf_agent \<Rightarrow> raw_req list" where
  "arrivals (GemReq p) a = [req_from_payload p]"
| "arrivals (TxRsp f) a =
     (if f_opcode f = OPC_PCRDGRANT then
        (case ag_retrying a of [] \<Rightarrow> [] | r # rs \<Rightarrow> (case r_orig_req r of None \<Rightarrow> [] | Some req \<Rightarrow> [req]))
      else [])"
| "arrivals _ a = []"

definition is_request :: "txn \<Rightarrow> bool" where
  "is_request t \<longleftrightarrow> (case t of DataTxn d \<Rightarrow> False | _ \<Rightarrow> True)"

text \<open>What a step issues: a beginning of the waiting requests, each supported one as one transaction, in order.\<close>

definition issues :: "raw_req list \<Rightarrow> snf_agent \<Rightarrow> snf_agent \<Rightarrow> bool" where
  "issues new a a' \<longleftrightarrow>
     (\<exists>n ts. map fst (ag_pending_reqs a') = drop n (map fst (ag_pending_reqs a) @ new) \<and> ag_txn_queue a' = ag_txn_queue a @ ts \<and>
        list_all2 carries (filter (\<lambda>req. supported req agent_init) (take n (map fst (ag_pending_reqs a) @ new))) (filter is_request ts))"

lemma issues_none:
  "ag_pending_reqs a' = ag_pending_reqs a \<Longrightarrow> ag_txn_queue a' = ag_txn_queue a @ ts \<Longrightarrow> filter is_request ts = [] \<Longrightarrow> issues [] a a'"
  unfolding issues_def by (intro exI [of _ 0] exI [of _ ts]) simp

lemma carries_requests: "list_all2 carries rs ts \<Longrightarrow> filter is_request ts = ts"
proof (induction rule: list_all2_induct)
  case (Cons r rs t ts)
  then show ?case by (cases t) (auto simp: carries_def is_request_def)
qed simp

lemma retry_issues:
  assumes "map fst (ag_pending_reqs b) = map fst (ag_pending_reqs a) @ new" "ag_txn_queue b = ag_txn_queue a"
    "ag_line_bytes b = 64"
  shows "issues new a (retry_pending b)"
proof -
  obtain q' a' where r: "retry_loop (ag_pending_reqs b) b = (q', a')" by fastforce
  from retry_loop_order [OF r] obtain n ts where o: "q' = drop n (ag_pending_reqs b)" "ag_txn_queue a' = ag_txn_queue b @ ts"
    "list_all2 carries (filter (\<lambda>req. supported req b) (map fst (take n (ag_pending_reqs b)))) ts" by blast
  have "supported req b = supported req agent_init" for req by (rule supported_cong) (simp add: assms(3) agent_init_def)
  then show ?thesis
    using o assms carries_requests [OF o(3)] unfolding issues_def
    by (intro exI [of _ n] exI [of _ ts]) (simp add: retry_pending_def r drop_map take_map flip: assms(1))
qed

lemma finish_queue [simp]:
  "ag_txn_queue (finish r a) = ag_txn_queue a" "ag_pending_reqs (finish r a) = ag_pending_reqs a"
  "ag_txn_queue (with_mapper f a) = ag_txn_queue a" "ag_pending_reqs (with_mapper f a) = ag_pending_reqs a"
  "ag_txn_queue (send_rsp r opc a) = ag_txn_queue a" "ag_pending_reqs (send_rsp r opc a) = ag_pending_reqs a"
  "ag_txn_queue (send_to_gem5 m a) = ag_txn_queue a" "ag_pending_reqs (send_to_gem5 m a) = ag_pending_reqs a"
  "ag_txn_queue (count g a) = ag_txn_queue a" "ag_pending_reqs (count g a) = ag_pending_reqs a"
  by (simp_all add: finish_def agent_complete_def with_mapper_def send_rsp_def send_to_gem5_def count_def Let_def)

lemma agent_step_issues:
  assumes "agent_step e a = Inr a'" "e \<noteq> TakeTxn" "ag_line_bytes a = 64"
  shows "issues (arrivals e a) a a'"
proof (cases e)
  case (GemReq p)
  then show ?thesis
    using assms(1,3) unfolding GemReq agent_step.simps handle_gem5_req_def Let_def
    by (auto intro!: retry_issues simp: count_def)
next
  case (GemDat p)
  obtain ts where "ag_txn_queue a' = ag_txn_queue a @ ts" "ag_pending_reqs a' = ag_pending_reqs a" "filter is_request ts = []"
    using assms(1) unfolding GemDat agent_step.simps handle_gem5_dat_def Let_def
    by (auto simp: is_request_def o_def split: option.splits)
  then show ?thesis using issues_none GemDat by simp
next
  case (TxRsp f)
  show ?thesis
  proof (cases "f_opcode f = OPC_PCRDGRANT")
    case True
    then have a': "a' = on_pcrd_grant a" using assms(1) TxRsp by (simp add: on_txrsp_def agent_opcodes)
    consider "ag_retrying a = []" | r rs where "ag_retrying a = r # rs" "r_orig_req r = None"
      | r rs req where "ag_retrying a = r # rs" "r_orig_req r = Some req" by (cases "ag_retrying a") auto
    then show ?thesis
    proof cases
      case 3
      then show ?thesis using TxRsp True a' assms(3) by (auto simp: on_pcrd_grant_def Let_def intro!: retry_issues)
    qed (use TxRsp True a' in \<open>auto simp: on_pcrd_grant_def Let_def intro!: issues_none [of _ _ "[]"]\<close>)
  next
    case False
    have "ag_txn_queue (on_retry_ack k a) = ag_txn_queue a \<and> ag_pending_reqs (on_retry_ack k a) = ag_pending_reqs a" for k
      by (simp add: on_retry_ack_def with_mapper_def split: option.split)
    then have "ag_txn_queue a' = ag_txn_queue a \<and> ag_pending_reqs a' = ag_pending_reqs a"
      using assms(1) TxRsp False by (auto simp: on_txrsp_def Let_def split: option.splits)
    then show ?thesis using TxRsp False by (simp add: issues_none [of _ _ "[]"])
  qed
next
  case (TxDat f)
  then have "ag_txn_queue a' = ag_txn_queue a \<and> ag_pending_reqs a' = ag_pending_reqs a"
    using assms(1) by (auto simp: on_txdat_def Let_def split: option.splits if_splits)
  then show ?thesis using TxDat by (simp add: issues_none [of _ _ "[]"])
next
  case ClockCycle
  have "issues [] a (retry_pending (with_mapper mapper_on_cycle a))"
    by (rule retry_issues) (use assms(3) in \<open>simp_all add: with_mapper_def\<close>)
  then show ?thesis using ClockCycle assms(1) by (simp add: agent_on_cycle_def)
qed (use assms(2) in simp)

text \<open>The requests that have arrived in a run.\<close>

fun event_arrivals :: "env_event \<Rightarrow> c2xm_env \<Rightarrow> raw_req list" where
  "event_arrivals (Call c) env = (case ce_front env of FromGem5 a w r \<Rightarrow> arrivals (call_event c) a | _ \<Rightarrow> [])"
| "event_arrivals (Edge e) env =
     (case ce_front env of
        FromGem5 a w r \<Rightarrow> concat (map (\<lambda>ev. arrivals ev a) (tx_events (ed_dut (ee_link e))))
      | _ \<Rightarrow> [])"
| "event_arrivals _ env = []"

fun env_arrivals :: "env_event list \<Rightarrow> c2xm_env \<Rightarrow> raw_req list" where
  "env_arrivals [] env = []"
| "env_arrivals (ev # es) env =
     event_arrivals ev env @ (case env_run [ev] env of Inl x \<Rightarrow> [] | Inr (fs, env') \<Rightarrow> env_arrivals es env')"

text \<open>The books of the agent: what has arrived was issued or waits, and what was issued is queued, being put, or handed over.\<close>

definition ledger :: "raw_req list \<Rightarrow> snf_agent \<Rightarrow> txn option \<Rightarrow> txn list \<Rightarrow> bool" where
  "ledger arrived a w h \<longleftrightarrow>
     (\<exists>issued all. arrived = issued @ map fst (ag_pending_reqs a) \<and>
        list_all2 carries (filter (\<lambda>req. supported req agent_init) issued) (filter is_request all) \<and>
        h @ map erase (waiting w @ ag_txn_queue a) = map erase all)"

lemma ledger_step:
  assumes "ledger arrived a w h" "issues new a a'"
  shows "ledger (arrived @ new) a' w h"
proof -
  obtain issued all where l: "arrived = issued @ map fst (ag_pending_reqs a)"
    "list_all2 carries (filter (\<lambda>req. supported req agent_init) issued) (filter is_request all)"
    "h @ map erase (waiting w @ ag_txn_queue a) = map erase all" using assms(1) by (auto simp: ledger_def)
  obtain n ts where i: "map fst (ag_pending_reqs a') = drop n (map fst (ag_pending_reqs a) @ new)"
    "ag_txn_queue a' = ag_txn_queue a @ ts"
    "list_all2 carries (filter (\<lambda>req. supported req agent_init) (take n (map fst (ag_pending_reqs a) @ new))) (filter is_request ts)"
    using assms(2) by (auto simp: issues_def)
  have "arrived @ new = (issued @ take n (map fst (ag_pending_reqs a) @ new)) @ map fst (ag_pending_reqs a')"
    unfolding l(1) i(1) by (simp only: append_assoc append_take_drop_id)
  moreover have "h @ map erase (waiting w @ ag_txn_queue a') = map erase (all @ ts)"
    using l(3) by (simp add: i(2) flip: append_assoc)
  ultimately show ?thesis using l(2) i(3) unfolding ledger_def by (metis filter_append list_all2_appendI)
qed

lemma ledger_run:
  "agent_run evs a = Inr a' \<Longrightarrow> ledger arrived a w h \<Longrightarrow> agent_ok a \<Longrightarrow> TakeTxn \<notin> set evs \<Longrightarrow>
     (\<And>ev b. ev \<in> set (tl evs) \<Longrightarrow> arrivals ev b = []) \<Longrightarrow>
     ledger (arrived @ concat (map (\<lambda>ev. arrivals ev a) evs)) a' w h \<and> agent_ok a'"
proof (induction evs arbitrary: a arrived)
  case (Cons ev evs)
  obtain a1 where a1: "agent_step ev a = Inr a1" "agent_run evs a1 = Inr a'" using Cons.prems(1) by auto
  have "issues (arrivals ev a) a a1" using agent_step_issues [OF a1(1)] Cons.prems(3,4) by (auto simp: agent_ok_def)
  then have l: "ledger (arrived @ arrivals ev a) a1 w h" by (rule ledger_step [OF Cons.prems(2)])
  have none: "concat (map (\<lambda>ev. arrivals ev b) evs) = []" for b using Cons.prems(5) by auto
  have "arrivals ev' b = []" if "ev' \<in> set (tl evs)" for ev' b using Cons.prems(5) that by (cases evs) auto
  note ih = Cons.IH [OF a1(2) l agent_ok_step [OF Cons.prems(3) a1(1)] _ this]
  have "arrived @ concat (map (\<lambda>ev. arrivals ev a) (ev # evs)) = (arrived @ arrivals ev a) @ concat (map (\<lambda>ev. arrivals ev a1) evs)"
    using none [of a] none [of a1] by (simp only: list.map concat.simps append_assoc append_Nil2)
  then show ?case using ih Cons.prems(4) by simp
qed simp

definition cosim_env_inv :: "raw_req list \<Rightarrow> c2xm_env \<Rightarrow> bool" where
  "cosim_env_inv arrived env \<longleftrightarrow>
     (\<exists>a w r h. ce_front env = FromGem5 a w r \<and> agent_ok a \<and> responder_bound r \<and>
        link_part h (ce_driver env) (ce_chi_mon env) \<and> ledger arrived a w h)"

lemma ledger_pump:
  assumes "agent_pump a w tb = (a', w', tb')" "link_part h tb m" "ledger arrived a w h" "agent_ok a"
  shows "link_part (handed tb') tb' m \<and> ledger arrived a' w' (handed tb') \<and> agent_ok a' \<and> ag_retrying a' = ag_retrying a"
proof -
  have ok: "drv_ok tb" "handed tb = h" using assms(2) by (simp_all add: link_part_def)
  from agent_pump_queue [OF assms(1) ok(1)] obtain q where p: "drv_keeps tb tb'" "a' = a\<lparr>ag_txn_queue := q\<rparr>"
    "handed tb' @ map erase (waiting w' @ ag_txn_queue a') = handed tb @ map erase (waiting w @ ag_txn_queue a)" by blast
  have "set q \<subseteq> set (ag_txn_queue a)" using agent_pump_sub [OF assms(1)] p(2) by simp
  then have "agent_ok a'" using assms(4) p(2) by (auto simp: agent_ok_def)
  then show ?thesis using link_part_keeps [OF assms(2) p(1)] p assms(3) ok(2) by (simp add: ledger_def)
qed

lemma tx_events_sets: "TakeTxn \<notin> set (tx_events d)" "ev \<in> set (tl (tx_events d)) \<Longrightarrow> arrivals ev b = []"
  by (auto simp: tx_events_def split: option.splits)

lemma respond_ledger:
  assumes "respond_edge d (r, a) = Inr (r', a')" "responder_bound r" "agent_ok a" "ledger arrived a w h"
  shows "responder_bound r' \<and> agent_ok a' \<and> ledger (arrived @ concat (map (\<lambda>ev. arrivals ev a) (tx_events d))) a' w h"
proof -
  have run: "agent_run (tx_events d) a = Inr a'" "responder_bound r'"
    by (rule respond_edge_agent [OF assms(2), of d a]; use assms(1) in simp)+
  have "ledger (arrived @ concat (map (\<lambda>ev. arrivals ev a) (tx_events d))) a' w h \<and> agent_ok a'"
    by (rule ledger_run [OF run(1) assms(4,3)]) (use tx_events_sets in blast)+
  then show ?thesis using run(2) by blast
qed

lemma cosim_env_edge:
  assumes "cosim_env_inv arrived env" "env_edge e env = Inr env'"
  shows "cosim_env_inv (arrived @ event_arrivals (Edge e) env) env'"
proof -
  obtain a w r h where i: "ce_front env = FromGem5 a w r" "agent_ok a" "responder_bound r"
    "link_part h (ce_driver env) (ce_chi_mon env)" "ledger arrived a w h" using assms(1) by (auto simp: cosim_env_inv_def)
  let ?d = "ed_dut (ee_link e)" and ?new = "\<lambda>a. concat (map (\<lambda>ev. arrivals ev a) (tx_events (ed_dut (ee_link e))))"
  let ?tb = "link_edge ((ee_link e)\<lparr>ed_puts := []\<rparr>) (ce_driver env)"
  let ?m = "chi_mon_edge (lb_pins (tb_bfm (ce_driver env))) ?d (ce_chi_mon env)"
  have l: "link_part h ?tb ?m" by (rule link_part_edge [OF i(4)])
  obtain fr tb' where f: "front_edge e (FromGem5 a w r) ?tb = Inr (fr, tb')"
    "env' = \<lparr>ce_front = fr, ce_driver = tb', ce_chi_mon = ?m, ce_axi_mon = ce_axi_mon env', ce_axi_slave = ce_axi_slave env'\<rparr>"
    using assms(2) i(1) by (auto simp: env_edge_def Let_def)
  have "\<exists>a' w' r' h'. fr = FromGem5 a' w' r' \<and> agent_ok a' \<and> responder_bound r' \<and> link_part h' tb' ?m \<and>
      ledger (arrived @ ?new a) a' w' h'"
  proof (cases "ee_agent_first e")
    case True
    obtain a1 w1 tb1 where p: "agent_pump a w ?tb = (a1, w1, tb1)" by (metis prod_cases3)
    note k = ledger_pump [OF p l i(5,2)]
    obtain r' a' where rs: "respond_edge ?d (r, a1) = Inr (r', a')" "fr = FromGem5 a' w1 r'" "tb' = tb1"
      using f(1) True p by (auto simp: front_edge_def)
    have "arrivals ev a1 = arrivals ev a" for ev using k by (cases ev) simp_all
    then show ?thesis using respond_ledger [OF rs(1) i(3)] k rs(2,3) by fastforce
  next
    case False
    obtain r' a' a1 w1 where rs: "respond_edge ?d (r, a) = Inr (r', a')" "agent_pump a' w ?tb = (a1, w1, tb')" "fr = FromGem5 a1 w1 r'"
      using f(1) False by (auto simp: front_edge_def split: prod.splits)
    note k = respond_ledger [OF rs(1) i(3,2,5)]
    then show ?thesis using ledger_pump [OF rs(2) l] rs(3) by blast
  qed
  then show ?thesis
    unfolding cosim_env_inv_def using f(2) i(1) by (metis c2xm_env.select_convs(1,2,3) event_arrivals.simps(2) front.simps(6))
qed

lemma cosim_env_call:
  assumes "cosim_env_inv arrived env" "env_agent c env = Inr env'"
  shows "cosim_env_inv (arrived @ event_arrivals (Call c) env) env'"
proof -
  obtain a w r h where i: "ce_front env = FromGem5 a w r" "agent_ok a" "responder_bound r"
    "link_part h (ce_driver env) (ce_chi_mon env)" "ledger arrived a w h" using assms(1) by (auto simp: cosim_env_inv_def)
  obtain a' where a': "agent_step (call_event c) a = Inr a'" "env' = env\<lparr>ce_front := FromGem5 a' w r\<rparr>"
    using assms(2) i(1) by (auto simp: env_agent_def)
  have "call_event c \<noteq> TakeTxn" by (cases c) simp_all
  then have "issues (arrivals (call_event c) a) a a'" using agent_step_issues [OF a'(1)] i(2) by (simp add: agent_ok_def)
  from ledger_step [OF i(5) this] show ?thesis
    using agent_ok_step [OF i(2) a'(1)] i a'(2) by (auto simp: cosim_env_inv_def)
qed

lemma cosim_env_run:
  "cosim_env_inv arrived env \<Longrightarrow> env_run es env = Inr (fs, env') \<Longrightarrow> cosim_env_inv (arrived @ env_arrivals es env) env'"
proof (induction es arbitrary: arrived env fs)
  case (Cons ev es)
  obtain a w r where fr: "ce_front env = FromGem5 a w r" using Cons.prems(1) by (auto simp: cosim_env_inv_def)
  have "\<exists>env1 fs1. env_run [ev] env = Inr (fs1, env1) \<and> cosim_env_inv (arrived @ event_arrivals ev env) env1 \<and>
      (\<exists>fs2. env_run es env1 = Inr (fs2, env'))"
  proof (cases ev)
    case (Push f)
    have "env_push f env = (False, env)" by (simp add: env_push_def fr)
    then show ?thesis using Cons.prems Push by auto
  next
    case (Call c)
    then obtain env1 where "env_agent c env = Inr env1" "env_run es env1 = Inr (fs, env')" using Cons.prems(2) by auto
    then show ?thesis using cosim_env_call [OF Cons.prems(1)] Call by auto
  next
    case (Handshake n)
    have "cosim_env_inv arrived (env_handshake n env)"
    proof -
      obtain a w r h where i: "ce_front env = FromGem5 a w r" "agent_ok a" "responder_bound r"
        "link_part h (ce_driver env) (ce_chi_mon env)" "ledger arrived a w h" using Cons.prems(1) by (auto simp: cosim_env_inv_def)
      let ?a = "a\<lparr>ag_snf_id := n, ag_dut_nodeid := 0, ag_connected := True\<rparr>"
      have "agent_ok ?a" "ledger arrived ?a w h" using i(2,5) by (simp_all add: agent_ok_def ledger_def)
      then show ?thesis using i by (auto simp: cosim_env_inv_def env_handshake_def)
    qed
    then show ?thesis using Cons.prems(2) Handshake by auto
  next
    case (Edge e)
    then obtain env1 where "env_edge e env = Inr env1" "env_run es env1 = Inr (fs, env')" using Cons.prems(2) by auto
    then show ?thesis using cosim_env_edge [OF Cons.prems(1)] Edge by auto
  qed
  then show ?case using Cons.IH by fastforce
qed simp

text \<open>A request as it is seen on the wire, which has 48 address bits and 11 for a node.\<close>

definition request_on_wire :: "raw_req \<Rightarrow> raw_req \<Rightarrow> bool" where
  "request_on_wire req g \<longleftrightarrow>
     rq_addr g = take_bit 48 (rq_addr req) \<and> f_srcid g = take_bit 11 (f_srcid req) \<and> f_qos g = take_bit 4 (f_qos req) \<and>
     f_opcode g = (if f_opcode req = 0x5C then 0x1C else 0x04) \<and> rq_trace_tag g = rq_trace_tag req \<and>
     rq_return_nid g = take_bit 11 (if rq_return_nid req \<noteq> 0 then rq_return_nid req else f_srcid req)"

lemma carries_on_wire:
  "list_all2 carries rs ts \<Longrightarrow> list_all2 request_on_wire rs (map rxreq_wire (requests_of ts))"
proof (induction rule: list_all2_induct)
  case (Cons r rs t ts)
  then obtain f where f: "request_flit t = Some f" "rq_addr f = rq_addr r" "f_srcid f = f_srcid r" "f_qos f = f_qos r"
    "f_opcode f = (if f_opcode r = 0x5C then OPC_WRITENOSNP_FULL else OPC_READNOSNP)" "rq_trace_tag f = rq_trace_tag r"
    "rq_return_nid f = (if rq_return_nid r \<noteq> 0 then rq_return_nid r else f_srcid r)" by (auto simp: carries_def)
  then have "req_of t = [f]" by (cases t) (simp_all add: req_of_def)
  then show ?case using f Cons.IH
    by (simp add: request_on_wire_def rxreq_wire_def raw_req_default_def opcode_defs take_bit_eq_mod)
qed simp

lemma requests_of_filter: "requests_of (filter is_request ts) = requests_of ts"
proof (induction ts)
  case (Cons t ts)
  then show ?case by (cases t) (simp_all add: is_request_def req_of_def)
qed simp

lemma cosim_env_wire:
  assumes "cosim_env_inv arrived env"
  shows "list_all2 request_on_wire
    (take (length (cm_rxreq_ap (ce_chi_mon env))) (filter (\<lambda>req. supported req agent_init) arrived)) (cm_rxreq_ap (ce_chi_mon env))"
proof -
  obtain a w h where i: "link_part h (ce_driver env) (ce_chi_mon env)" "ledger arrived a w h"
    using assms by (auto simp: cosim_env_inv_def)
  then obtain issued all where l: "arrived = issued @ map fst (ag_pending_reqs a)"
    "list_all2 carries (filter (\<lambda>req. supported req agent_init) issued) (filter is_request all)"
    "h @ map erase (waiting w @ ag_txn_queue a) = map erase all" by (auto simp: ledger_def)
  have "requests_of all = requests_of (map erase all)" by (simp only: erased_flits)
  also have "... = requests_of h @ requests_of (map erase (waiting w @ ag_txn_queue a))" by (simp flip: l(3))
  finally have "prefix (requests_of h) (requests_of all)" by simp
  then have "prefix (cm_rxreq_ap (ce_chi_mon env)) (map rxreq_wire (requests_of all))"
    using link_part_prefix(1) [OF i(1)] map_mono_prefix prefix_order.trans by blast
  then obtain rest where r: "map rxreq_wire (requests_of all) = cm_rxreq_ap (ce_chi_mon env) @ rest" by (auto simp: prefix_def)
  let ?n = "length (cm_rxreq_ap (ce_chi_mon env))" and ?sup = "filter (\<lambda>req. supported req agent_init)"
  have w: "list_all2 request_on_wire (?sup issued) (cm_rxreq_ap (ce_chi_mon env) @ rest)"
    using carries_on_wire [OF l(2)] r by (simp add: requests_of_filter)
  then have "?n \<le> length (?sup issued)" using list_all2_lengthD by fastforce
  then have "take ?n (?sup (arrived)) = take ?n (?sup issued)" by (simp add: l(1))
  moreover have "list_all2 request_on_wire (take ?n (?sup issued)) (take ?n (cm_rxreq_ap (ce_chi_mon env) @ rest))"
    by (rule list_all2_takeI [OF w])
  ultimately show ?thesis by simp
qed

lemma cosim_env_start: "cosim_env_inv [] (env_connect (env_build True stub))"
proof -
  have "agent_ok agent_init" using agent_ok_start [of 0 0] by (simp add: agent_ok_def agent_start_def)
  then show ?thesis
    using link_part_init by (fastforce simp: cosim_env_inv_def env_connect_def env_build_def responder_bound_def bind_and_connect_def
        responder_init_def ledger_def agent_init_def waiting_def)
qed

text \<open>
  Co-simulation from gem5's request to the wire: in every run of the environment, whatever gem5, the device and
  the clock do, the request flits that the link monitor has published are the requests that gem5 sent (and those it
  sent again, because the device had refused them), the unsupported ones left out, in the order of arrival, from the
  first on and none twice, with their address, requester, opcode, priority and return node.
\<close>

theorem cosim_requests_in_order:
  assumes "env_run es (env_connect (env_build True stub)) = Inr (fs, env)"
  shows "list_all2 request_on_wire
    (take (length (cm_rxreq_ap (ce_chi_mon env)))
      (filter (\<lambda>req. supported req agent_init) (env_arrivals es (env_connect (env_build True stub)))))
    (cm_rxreq_ap (ce_chi_mon env))"
  using cosim_env_wire cosim_env_run [OF cosim_env_start assms] by simp

text \<open>The witness: the link comes up, gem5 writes a line, and its request is seen on the wire with pool slot 0.\<close>

definition demo_dut :: dut_out where
  "demo_dut = \<lparr>do_rstn = Resolved 1, do_tx_linkactivereq = Resolved 1, do_chi_rx_run = Resolved 1, do_chi_tx_run = Resolved 1,
     do_rxreqcrdv = Resolved 1, do_rxdatcrdv = Resolved 0, do_txrspfltv = Resolved 0, do_txrspflt = Unresolved,
     do_txdatfltv = Resolved 0, do_txdatflt = Unresolved\<rparr>"

definition quiet_axi :: axi_master where
  "quiet_axi = (let z = Resolved 0 in \<lparr>ax_rstn = z, ax_awvalid = z, ax_awid = z, ax_awaddr = z, ax_awlen = z,
    ax_awsize = z, ax_awburst = z, ax_awqos = z, ax_awcache = z, ax_awprot = z, ax_awlock = z, ax_wvalid = z, ax_wdata = z,
    ax_wstrb = z, ax_wlast = z, ax_wpoison = z, ax_wdatachk = z, ax_bready = z, ax_arvalid = z, ax_arid = z, ax_araddr = z,
    ax_arlen = z, ax_arsize = z, ax_arburst = z, ax_arqos = z, ax_arcache = z, ax_arprot = z, ax_arlock = z, ax_arsnoop = z,
    ax_ardomain = z, ax_rready = z\<rparr>)"

definition demo_clock :: clock_edge where
  "demo_clock = \<lparr>ee_link = \<lparr>ed_dut = demo_dut, ed_before = [Activation, RxCredit, ObserveTx, TxCredit], ed_after = [], ed_puts = []\<rparr>,
     ee_axi = quiet_axi, ee_axi_pins = axi_idle_pins, ee_broker = (True, broker_init), ee_agent_first = True\<rparr>"

definition demo_events :: "env_event list" where
  "demo_events =
     replicate 7 (Edge demo_clock) @ [Handshake 0x80, Call (CallReq demo_write)] @ replicate 2 (Edge demo_clock)"

lemma demo_events_run:
  "(case env_run demo_events (env_connect (env_build True True)) of
      Inl e \<Rightarrow> [] | Inr (fs, env) \<Rightarrow> map (\<lambda>f. (rq_addr f, f_txnid f)) (cm_rxreq_ap (ce_chi_mon env))) = [(0x80000040, 0)]"
  by code_simp

theorem cosim_requests_in_order_witness:
  "\<exists>fs env req g. env_run demo_events (env_connect (env_build True True)) = Inr (fs, env) \<and>
     cm_rxreq_ap (ce_chi_mon env) = [g] \<and> f_txnid g = 0 \<and> rq_addr g = 0x80000040 \<and> request_on_wire req g"
proof -
  obtain fs env where r: "env_run demo_events (env_connect (env_build True True)) = Inr (fs, env)"
    using demo_events_run by (cases "env_run demo_events (env_connect (env_build True True))") auto
  then obtain g where g: "cm_rxreq_ap (ce_chi_mon env) = [g]" "f_txnid g = 0" "rq_addr g = 0x80000040"
    using demo_events_run by auto
  from cosim_requests_in_order [OF r] g obtain req where "request_on_wire req g" by (auto simp: list_all2_Cons2)
  then show ?thesis using r g by blast
qed

section \<open>The fifos\<close>

lemma driver_loop_items: "length (tb_items (driver_loop tb)) \<le> length (tb_items tb)"
proof -
  have "length (tb_items (take_items ts tb)) \<le> length ts" if "tb_items tb = ts" for ts tb
    using that
  proof (induction ts arbitrary: tb)
    case (Cons t ts)
    show ?case
    proof (cases "tb_drv tb = DrvIdle")
      case True
      have "tb_items (drive t (tb\<lparr>tb_items := ts\<rparr>)) = ts" by (rule drive_items)
      from Cons.IH [OF this] show ?thesis using True by simp
    qed (use Cons.prems in simp)
  qed simp
  then show ?thesis by (simp add: driver_loop_def)
qed

lemma driver_step_items:
  "tb_items (take_credit job n tb) = tb_items tb" "tb_items (send_beats t fs tb) = tb_items tb"
  "tb_items (wait_dbid t n tb) = tb_items tb" "tb_items (after_flit job tb) = tb_items tb"
  by (simp_all add: take_credit_def send_beats_def wait_dbid_def after_flit_def publish_def Let_def split: drv_job.split option.split)

lemma driver_edge_items: "length (tb_items (driver_edge d tb)) \<le> length (tb_items tb)"
  using driver_loop_items [of "with_bfm (\<lambda>b. b\<lparr>lb_link_up := True\<rparr>) (tb\<lparr>tb_drv := DrvIdle\<rparr>)"]
    driver_loop_items [of "wait_dbid t (Suc n) tb" for t n]
    driver_loop_items [of "after_flit job (with_bfm (with_pins (drop_valid job)) tb)" for job]
  by (auto simp: driver_edge_def driver_step_items start_tasks_def Let_def split: drv_phase.split link_wait.split)

lemma link_edge_items: "length (tb_items (link_edge (e\<lparr>ed_puts := []\<rparr>) tb)) \<le> length (tb_items tb)"
proof -
  have tasks: "tb_items (tasks_edge on d ts u) = tb_items u" for on d ts u
    using tasks_keep_edge [of d on ts u] by (simp add: tasks_keep_def)
  show ?thesis
    using driver_edge_items [of "ed_dut e" "tasks_edge (tb_started tb) (ed_dut e) (ed_before e) tb"]
    by (simp add: link_edge_def Let_def tasks)
qed

lemma put_item_items: "length (tb_items (put_item t tb)) \<le> Suc (length (tb_items tb))"
  using driver_loop_items [of "tb\<lparr>tb_items := tb_items tb @ [t]\<rparr>"] by (simp add: put_item_def)

lemma adaptor_pump_full:
  "adaptor_pump fs a ts tb = (fs', a', ts', tb') \<Longrightarrow> length (tb_items tb) \<le> FIFO_SIZE \<Longrightarrow> length ts \<le> 1 \<Longrightarrow>
     length (tb_items tb') \<le> FIFO_SIZE \<and> length fs' \<le> length fs \<and> length ts' \<le> 1 \<and> (fs' \<noteq> [] \<longrightarrow> ts' \<noteq> []) \<and>
     (ts' \<noteq> [] \<longrightarrow> length (tb_items tb') = FIFO_SIZE)"
proof (induction fs a ts tb rule: adaptor_pump.induct)
  case (1 fs a t ts tb)
  show ?case
  proof (cases "length (tb_items tb) < FIFO_SIZE")
    case True
    then have "length (tb_items (put_item t tb)) \<le> FIFO_SIZE" using put_item_items [of t tb] by linarith
    then show ?thesis using "1.IH" [OF True] "1.prems" True by (simp add: adaptor_pump.simps(1))
  qed (use "1.prems" in \<open>auto simp: adaptor_pump.simps(1)\<close>)
next
  case (2 f fs a tb)
  obtain a1 txns where t: "to_transactions a f = (a1, txns)" by fastforce
  have "length txns \<le> 1" using adaptor_step_counts [of a f] by (simp add: adaptor_step_def t)
  then show ?case using "2.IH" [OF t [symmetric] refl] "2.prems" t by (auto simp: adaptor_pump.simps(2))
qed (auto simp: adaptor_pump.simps(3))

lemma agent_pump_full:
  "agent_pump a w tb = (a', w', tb') \<Longrightarrow> length (tb_items tb) \<le> FIFO_SIZE \<Longrightarrow>
     length (tb_items tb') \<le> FIFO_SIZE \<and> (w' \<noteq> None \<longrightarrow> length (tb_items tb') = FIFO_SIZE)"
proof (induction a w tb rule: agent_pump.induct)
  case (1 a t tb)
  show ?case
  proof (cases "length (tb_items tb) < FIFO_SIZE")
    case True
    then have "length (tb_items (put_item t tb)) \<le> FIFO_SIZE" using put_item_items [of t tb] by linarith
    then show ?thesis using "1.IH" [OF True] "1.prems" True by (simp add: agent_pump.simps(1))
  qed (use "1.prems" in \<open>auto simp: agent_pump.simps(1)\<close>)
next
  case (2 a tb)
  show ?case
  proof (cases "ag_txn_queue a")
    case (Cons t ts)
    have n: "agent_next_txn a = (Some t, a\<lparr>ag_txn_queue := ts\<rparr>)" by (simp add: agent_next_txn_def Cons)
    show ?thesis using "2.IH" [OF n [symmetric] refl] "2.prems" n by (simp add: agent_pump.simps(2))
  qed (use 2 in \<open>auto simp: agent_pump.simps(2) agent_next_txn_def\<close>)
qed

definition front_full :: "front \<Rightarrow> nat \<Rightarrow> bool" where
  "front_full fr n \<longleftrightarrow>
     n \<le> FIFO_SIZE \<and>
     (case fr of
        HandMade queued a ts \<Rightarrow> length queued \<le> FIFO_SIZE \<and> length ts \<le> 1 \<and> (queued \<noteq> [] \<longrightarrow> ts \<noteq> []) \<and> (ts \<noteq> [] \<longrightarrow> n = FIFO_SIZE)
      | FromGem5 a w r \<Rightarrow> w \<noteq> None \<longrightarrow> n = FIFO_SIZE)"

lemma front_edge_full:
  assumes "front_edge e fr tb = Inr (fr', tb')" "length (tb_items tb) \<le> FIFO_SIZE"
    and "\<And>queued a ts. fr = HandMade queued a ts \<Longrightarrow> length queued \<le> FIFO_SIZE \<and> length ts \<le> 1"
  shows "front_full fr' (length (tb_items tb'))"
proof (cases fr)
  case (HandMade queued a ts)
  obtain fs' a' ts' tb1 where p: "adaptor_pump queued a ts tb = (fs', a', ts', tb1)" by (metis prod_cases4)
  show ?thesis using assms(1) adaptor_pump_full [OF p assms(2)] assms(3) HandMade p by (fastforce simp: front_edge_def front_full_def)
next
  case (FromGem5 a w r)
  have "front_full (FromGem5 a1 w1 r1) (length (tb_items tb1))" if "agent_pump a0 w tb = (a1, w1, tb1)" for a0 a1 w1 r1 tb1
    using agent_pump_full [OF that assms(2)] by (simp add: front_full_def)
  then have pump: "w1 \<noteq> None \<longrightarrow> length (tb_items tb1) = FIFO_SIZE" "length (tb_items tb1) \<le> FIFO_SIZE"
    if "agent_pump a0 w tb = (a1, w1, tb1)" for a0 a1 w1 tb1 using that by (auto simp: front_full_def)
  show ?thesis
  proof (cases "ee_agent_first e")
    case True
    obtain a1 w1 tb1 where p: "agent_pump a w tb = (a1, w1, tb1)" by (metis prod_cases3)
    then show ?thesis using assms(1) FromGem5 True pump [OF p] by (auto simp: front_edge_def front_full_def)
  next
    case False
    then obtain r1 a0 a1 w1 where "agent_pump a0 w tb = (a1, w1, tb')" "fr' = FromGem5 a1 w1 r1"
      using assms(1) FromGem5 by (auto simp: front_edge_def split: prod.splits)
    then show ?thesis using pump by (simp add: front_full_def)
  qed
qed

definition env_full :: "c2xm_env \<Rightarrow> bool" where
  "env_full env \<longleftrightarrow> front_full (ce_front env) (length (tb_items (ce_driver env)))"

lemma env_event_full:
  assumes "env_full env" "env_run [ev] env = Inr (fs, env')"
  shows "env_full env'"
proof (cases ev)
  case (Push f)
  show ?thesis
  proof (cases "ce_front env")
    case (HandMade queued a ts)
    obtain fs' a' ts' tb' where p: "adaptor_pump (queued @ [f]) a ts (ce_driver env) = (fs', a', ts', tb')" by (metis prod_cases4)
    have "length (tb_items (ce_driver env)) \<le> FIFO_SIZE" "length ts \<le> 1"
      using assms(1) HandMade by (simp_all add: env_full_def front_full_def)
    from adaptor_pump_full [OF p this] show ?thesis
      using assms Push HandMade p by (auto simp: env_push_def env_full_def front_full_def split: if_splits)
  qed (use assms Push in \<open>auto simp: env_push_def\<close>)
next
  case (Call c)
  then show ?thesis using assms by (auto simp: env_agent_def env_full_def front_full_def split: front.splits)
next
  case (Handshake n)
  then show ?thesis using assms by (auto simp: env_handshake_def env_full_def front_full_def split: front.splits)
next
  case (Edge e)
  let ?tb = "link_edge ((ee_link e)\<lparr>ed_puts := []\<rparr>) (ce_driver env)"
  obtain fr' tb' where f: "front_edge e (ce_front env) ?tb = Inr (fr', tb')" "ce_front env' = fr'" "ce_driver env' = tb'"
    using assms(2) Edge by (auto simp: env_edge_def Let_def)
  have "length (tb_items ?tb) \<le> FIFO_SIZE"
    using link_edge_items [of "ee_link e" "ce_driver env"] assms(1) by (simp add: env_full_def front_full_def)
  moreover have "length queued \<le> FIFO_SIZE \<and> length ts \<le> 1" if "ce_front env = HandMade queued a ts" for queued a ts
    using assms(1) that by (simp add: env_full_def front_full_def)
  ultimately have "front_full fr' (length (tb_items tb'))" using front_edge_full [OF f(1)] by blast
  then show ?thesis using f(2,3) by (simp add: env_full_def)
qed

lemma env_run_full: "env_full env \<Longrightarrow> env_run es env = Inr (fs, env') \<Longrightarrow> env_full env'"
proof (induction es arbitrary: env fs)
  case (Cons ev es)
  obtain fs1 env1 fs2 where "env_run [ev] env = Inr (fs1, env1)" "env_run es env1 = Inr (fs2, env')"
    using Cons.prems(2) by (cases ev) (auto split: prod.splits if_splits)
  then show ?case using Cons.IH env_event_full [OF Cons.prems(1)] by blast
qed simp

text \<open>
  C26. Back-pressure: in every run of either mode the driver's fifo and the adaptor's never hold more than 64 items; a producer is
  suspended only while the driver's fifo is full, and the adaptor lets a flit wait only while it is suspended itself.
\<close>

theorem fifos_bounded:
  assumes "env_run es (env_connect (env_build cosim stub)) = Inr (fs, env)"
  shows "length (tb_items (ce_driver env)) \<le> 64 \<and>
    (case ce_front env of
       HandMade queued a ts \<Rightarrow> length queued \<le> 64 \<and> length ts \<le> 1 \<and> (queued \<noteq> [] \<longrightarrow> ts \<noteq> []) \<and>
         (ts \<noteq> [] \<longrightarrow> length (tb_items (ce_driver env)) = 64)
     | FromGem5 a w r \<Rightarrow> w \<noteq> None \<longrightarrow> length (tb_items (ce_driver env)) = 64)"
proof -
  have "env_full (env_connect (env_build cosim stub))"
    by (simp add: env_full_def front_full_def env_connect_def env_build_def link_tb_init_def)
  from env_run_full [OF this assms] show ?thesis
    unfolding env_full_def front_full_def FIFO_SIZE_def by (cases "ce_front env") simp_all
qed

text \<open>The witness: 130 reads pushed before the link is up fill both fifos, and the last is refused.\<close>

definition demo_reads :: "env_event list" where
  "demo_reads = replicate 130 (Push (ReqFlit (raw_req_default\<lparr>f_opcode := 0x04, rq_size := 6\<rparr>)))"

lemma demo_reads_run:
  "(case env_run demo_reads (env_connect (env_build False True)) of
      Inl e \<Rightarrow> (0, 0) | Inr (fs, env) \<Rightarrow> (length fs, length (tb_items (ce_driver env)))) = (129, 64)"
  by code_simp

theorem fifos_bounded_witness:
  "\<exists>fs env. env_run demo_reads (env_connect (env_build False True)) = Inr (fs, env) \<and> length fs = 129 \<and>
     length (tb_items (ce_driver env)) = 64 \<and> length (tb_items (ce_driver env)) \<le> 64"
proof -
  obtain fs env where r: "env_run demo_reads (env_connect (env_build False True)) = Inr (fs, env)"
    using demo_reads_run by (cases "env_run demo_reads (env_connect (env_build False True))") auto
  then show ?thesis using fifos_bounded [OF r] demo_reads_run by auto
qed

end

