(* ===== verification/Testbench.thy ===== *)
theory Testbench
  imports Cosim_Runtime C2xm_Env
begin

text \<open>
  The testbench of a co-simulation: the runtime of \<^verbatim>\<open>cosim_runtime.py\<close> together with the environment of \<^verbatim>\<open>c2xm_env.py\<close>, on the
  clock that the runtime owns.

  The runtime and the environment share the agent and the broker.  Here the runtime's state holds them, and the environment
  borrows them for an edge: the driver, the monitors, the responder and the slave on the AXI port all run at the falling
  edges of the clock.  With the clock gated there is one such edge for each time the barrier loop lowers the clock; it comes
  before the loop's timer runs out, and messages and bypass tasks may be served in between.  With the free-running clock of
  debug runs the edges come by themselves.
\<close>

section \<open>State\<close>

text \<open>\<open>tn_falling\<close>: the clock has been lowered, and what waits for the edge has not run yet.\<close>

record testbench =
  tn_rt :: runtime
  tn_env :: c2xm_env
  tn_falling :: bool

definition lend :: "snf_agent \<Rightarrow> c2xm_env \<Rightarrow> c2xm_env" where
  "lend a env =
     (case ce_front env of
        FromGem5 old w r \<Rightarrow> env\<lparr>ce_front := FromGem5 a w r\<rparr>
      | HandMade fs ad ts \<Rightarrow> env)"

definition env_snf :: "c2xm_env \<Rightarrow> snf_agent" where
  "env_snf env = (case ce_front env of FromGem5 a w r \<Rightarrow> a | HandMade fs ad ts \<Rightarrow> agent_init)"

section \<open>An edge\<close>

text \<open>The broker after the edge; the handshake has bound it to the slave on the AXI port.\<close>

definition port_edge :: "clock_edge \<Rightarrow> c2xm_env \<Rightarrow> broker \<Rightarrow> broker" where
  "port_edge e env b =
     (case ce_axi_slave env of
        ProxySlave px \<Rightarrow> snd (proxy_edge (ee_axi e) (px\<lparr>px_bound := True\<rparr>, b))
      | _ \<Rightarrow> b)"

definition falling_edge :: "clock_edge \<Rightarrow> testbench \<Rightarrow> (snf_agent \<times> broker \<times> c2xm_env) result" where
  "falling_edge e s =
     (let b = rt_broker (tn_rt s); env = lend (rt_agent (tn_rt s)) (tn_env s)
      in and_then (env_edge (e\<lparr>ee_broker := (True, b)\<rparr>) env) (\<lambda>env'. Inr (env_snf env', port_edge e env b, env')))"

text \<open>What agent and broker have sent goes to the transport's queue, in the order \<open>ms\<close>.\<close>

definition gather :: "snf_agent \<Rightarrow> broker \<Rightarrow> json list \<Rightarrow> runtime \<Rightarrow> runtime" where
  "gather a b ms rt = rt\<lparr>rt_agent := a\<lparr>ag_sent := []\<rparr>, rt_broker := b\<lparr>mb_sent := []\<rparr>, rt_sent := rt_sent rt @ ms\<rparr>"

section \<open>The step relation\<close>

text \<open>
  A step of the runtime, for which the calls of the device are left to the edges, or an edge.  The coroutines of an edge may
  run in any order, so the messages of agent and broker are merged in any way.  An exception in the agent ends the run.
\<close>

definition is_device :: "rt_label \<Rightarrow> bool" where
  "is_device l \<longleftrightarrow> (case l of Device ev \<Rightarrow> True | Port op \<Rightarrow> True | _ \<Rightarrow> False)"

definition lowers_clock :: "runtime \<Rightarrow> rt_label \<Rightarrow> bool" where
  "lowers_clock rt l \<longleftrightarrow> l = Barrier \<and> (case rt_phase rt of BHigh n \<Rightarrow> True | _ \<Rightarrow> False)"

datatype tb_label = Software rt_label | Falling clock_edge

inductive tb_step :: "testbench \<Rightarrow> tb_label \<Rightarrow> testbench \<Rightarrow> bool" where
  software: "rt_step (tn_rt s) l rt \<Longrightarrow> \<not> is_device l \<Longrightarrow> (l = Barrier \<Longrightarrow> \<not> tn_falling s) \<Longrightarrow>
     tb_step s (Software l) (s\<lparr>tn_rt := rt, tn_falling := (tn_falling s \<or> lowers_clock (tn_rt s) l)\<rparr>)"
| falling: "tn_falling s \<or> rt_free_run (tn_rt s) \<Longrightarrow> falling_edge e s = Inr (a, b, env) \<Longrightarrow>
     ms \<in> shuffles (ag_sent a) (map JObj (mb_sent b)) \<Longrightarrow>
     tb_step s (Falling e) (s\<lparr>tn_rt := gather a b ms (tn_rt s), tn_env := env, tn_falling := False\<rparr>)"

text \<open>The requests that arrive in a step: one of gem5, or one that the device grants a credit for.\<close>

definition request_in :: "obj \<Rightarrow> raw_req list" where
  "request_in msg =
     (if opt_str msg ''t'' = Some ''flit'' \<and> get_str msg ''dir'' ''g2t'' = ''g2t'' \<and> opt_str msg ''ch'' = Some ''req''
      then [req_from_payload (get_obj msg ''flit'')] else [])"

definition tb_arrivals :: "tb_label \<Rightarrow> testbench \<Rightarrow> raw_req list" where
  "tb_arrivals l s =
     (case l of
        Software (Dispatch msg) \<Rightarrow> request_in msg
      | Falling e \<Rightarrow> concat (map (\<lambda>ev. arrivals ev (rt_agent (tn_rt s))) (tx_events (ed_dut (ee_link e))))
      | _ \<Rightarrow> [])"

text \<open>Runs, with the requests that have arrived.\<close>

inductive tb_run :: "testbench \<Rightarrow> tb_label list \<Rightarrow> raw_req list \<Rightarrow> testbench \<Rightarrow> bool" where
  none: "tb_run s [] [] s"
| more: "tb_run s ls rs s' \<Longrightarrow> tb_step s' l s'' \<Longrightarrow> tb_run s (ls @ [l]) (rs @ tb_arrivals l s') s''"

section \<open>The start\<close>

text \<open>
  The test resets the device and trains the link on its own clock, with no broker bound; then comes the handshake, between two
  edges, and the runtime takes over a clock that is low.  Requests that come before the hello are routed to the agent.
\<close>

definition training :: "clock_edge list \<Rightarrow> env_event list" where
  "training es = map (\<lambda>e. Edge (e\<lparr>ee_broker := (False, broker_init)\<rparr>)) es"

definition tb_start :: "runtime_env \<Rightarrow> clock_edge list \<Rightarrow> obj option list \<Rightarrow> testbench result option" where
  "tb_start e es ms =
     (case env_run (training es) (env_connect (env_build True False)) of
        Inl x \<Rightarrow> Some (Inl x)
      | Inr (fs, env) \<Rightarrow>
          map_option (\<lambda>r. and_then r (\<lambda>rt. Inr \<lparr>tn_rt = rt, tn_env = env, tn_falling = False\<rparr>))
            (handshake ms (put_agent (env_snf env) (runtime_init e))))"

fun early_requests :: "obj option list \<Rightarrow> raw_req list" where
  "early_requests (Some msg # ms) = (if opt_str msg ''t'' = Some ''hello'' then [] else request_in msg @ early_requests ms)"
| "early_requests _ = []"

inductive_cases software_stepE: "tb_step s (Software l) s'"
inductive_cases falling_stepE: "tb_step s (Falling e) s'"

section \<open>The books of the agent\<close>

abbreviation books :: "raw_req list \<Rightarrow> testbench \<Rightarrow> bool" where
  "books arrived s \<equiv> cosim_env_inv arrived (lend (rt_agent (tn_rt s)) (tn_env s))"

lemma lend_inv:
  "cosim_env_inv arrived (lend a env) \<longleftrightarrow>
     (\<exists>old w r h. ce_front env = FromGem5 old w r \<and> agent_ok a \<and> responder_bound r \<and>
        link_part h (ce_driver env) (ce_chi_mon env) \<and> ledger arrived a w h)"
  by (cases "ce_front env") (auto simp: lend_def cosim_env_inv_def)

lemma lend_sent [simp]: "cosim_env_inv arrived (lend (a\<lparr>ag_sent := ms\<rparr>) env) = cosim_env_inv arrived (lend a env)"
  by (simp add: lend_inv agent_ok_def ledger_def)

lemma lend_step:
  assumes "cosim_env_inv arrived (lend a env)" "agent_step ev a = Inr a'" "ev \<noteq> TakeTxn"
  shows "cosim_env_inv (arrived @ arrivals ev a) (lend a' env)"
proof -
  obtain old w r h where i: "ce_front env = FromGem5 old w r" "agent_ok a" "responder_bound r"
    "link_part h (ce_driver env) (ce_chi_mon env)" "ledger arrived a w h" using assms(1) by (auto simp: lend_inv)
  have "issues (arrivals ev a) a a'" using agent_step_issues [OF assms(2,3)] i(2) by (simp add: agent_ok_def)
  from ledger_step [OF i(5) this] show ?thesis using i agent_ok_step [OF i(2) assms(2)] by (auto simp: lend_inv)
qed

text \<open>What a step of the software does to the agent: nothing, or one call of it.\<close>

definition calls_agent :: "raw_req list \<Rightarrow> runtime \<Rightarrow> runtime \<Rightarrow> bool" where
  "calls_agent new rt rt' \<longleftrightarrow>
     new = [] \<and> rt_agent rt' = rt_agent rt \<or>
     (\<exists>ev a. agent_step ev (rt_agent rt) = Inr a \<and> ev \<noteq> TakeTxn \<and> arrivals ev (rt_agent rt) = new \<and>
        rt_agent rt' = a\<lparr>ag_sent := []\<rparr>)"

lemma calls_agent_inv:
  "calls_agent new rt rt' \<Longrightarrow> cosim_env_inv arrived (lend (rt_agent rt) env) \<Longrightarrow>
     cosim_env_inv (arrived @ new) (lend (rt_agent rt') env)"
  using lend_step by (auto simp: calls_agent_def)

lemma route_calls:
  assumes "route msg rt = Inr rt'"
  shows "calls_agent (request_in msg) rt rt'"
proof -
  let ?f = "get_obj msg ''flit''"
  have route: "route_flit msg rt = Inr rt'" if "opt_str msg ''t'' = Some ''flit''"
    using assms that by (simp add: route_def)
  have quiet: "rt_agent rt' = rt_agent rt" if "opt_str msg ''t'' \<noteq> Some ''flit''"
    using assms that by (simp add: route_def put_broker_def Let_def split: if_split_asm) auto
  consider (req) "rt' = put_agent (handle_gem5_req ?f (rt_agent rt)) rt" "request_in msg = [req_from_payload ?f]"
    | (dat) a where "handle_gem5_dat ?f (rt_agent rt) = Inr a" "rt' = put_agent a rt" "request_in msg = []"
    | (other) "request_in msg = []" "rt_agent rt' = rt_agent rt"
  proof (cases "opt_str msg ''t'' = Some ''flit''")
    case True
    have "request_in msg = (if get_str msg ''dir'' ''g2t'' = ''g2t'' \<and> opt_str msg ''ch'' = Some ''req'' then [req_from_payload ?f] else [])"
      using True by (simp add: request_in_def)
    then show thesis
      using that(1) that(2) that(3) route [OF True] unfolding route_flit_def Let_def
      by (cases "handle_gem5_dat ?f (rt_agent rt)") (simp_all split: if_split_asm)
  qed (use that(3) quiet in \<open>simp add: request_in_def\<close>)
  then show ?thesis
  proof cases
    case req
    then show ?thesis by (auto simp: calls_agent_def put_agent_def intro!: exI [of _ "GemReq ?f"])
  next
    case dat
    then show ?thesis by (auto simp: calls_agent_def put_agent_def intro!: exI [of _ "GemDat ?f"])
  qed (simp add: calls_agent_def)
qed

lemma route_fails: "route msg rt = Inl x \<Longrightarrow> request_in msg = []"
  by (auto simp: route_def route_flit_def request_in_def Let_def split: if_splits)

lemma dispatch_calls:
  "\<not> rt_done rt \<Longrightarrow> \<not> rt_dispatcher_dead rt \<Longrightarrow> calls_agent (request_in msg) rt (dispatcher_turn msg rt)"
  using route_calls [of msg rt] route_fails [of msg rt] by (auto simp: dispatcher_turn_def calls_agent_def split: sum.split)

lemma task_agent: "rt_agent (task_turn i rt) = rt_agent rt"
  by (simp add: task_turn_def started_def drop_task_def rt_put_defs Let_def split: bypass_task.split sum.split prod.split)

lemma loop_parts_agent:
  "rt_agent (acknowledge rt) = rt_agent rt" "rt_agent (barrier_finish rt) = rt_agent rt" "rt_agent (next_cycle n rt) = rt_agent rt"
  "rt_agent (park_or_finish rt) = rt_agent rt"
  by (simp_all add: acknowledge_def barrier_finish_def next_cycle_def park_or_finish_def rt_send_def Let_def)

lemma loop_top_agent: "rt_agent (wake rt) = rt_agent rt" "rt_agent (barrier_top rt) = rt_agent rt"
  by (simp_all add: wake_def barrier_top_def loop_parts_agent Let_def)

lemma loop_calls: "calls_agent [] rt (barrier_turn rt)"
proof -
  have "rt_agent (end_cycle n rt) = (agent_on_cycle (rt_agent rt))\<lparr>ag_sent := []\<rparr>" for n
    by (simp add: end_cycle_def loop_parts_agent loop_top_agent put_agent_def Let_def)
  then have "calls_agent [] rt (end_cycle n rt)" for n by (auto simp: calls_agent_def intro!: exI [of _ ClockCycle])
  then show ?thesis
    by (auto simp: barrier_turn_def parked_turn_def calls_agent_def loop_top_agent split: barrier_phase.split)
qed

lemma software_calls:
  assumes "rt_step rt l rt'" "\<not> is_device l"
  shows "calls_agent (tb_arrivals (Software l) (s\<lparr>tn_rt := rt\<rparr>)) rt rt'"
  using assms(1)
  by cases (use assms(2) dispatch_calls loop_calls task_agent in \<open>auto simp: tb_arrivals_def is_device_def calls_agent_def\<close>)

text \<open>An edge is an edge of the environment with the runtime's agent in it.\<close>

lemma falling_books:
  assumes "books arrived s" "falling_edge e s = Inr (a, b, env)"
  shows "cosim_env_inv (arrived @ tb_arrivals (Falling e) s) (lend a env)"
proof -
  let ?env = "lend (rt_agent (tn_rt s)) (tn_env s)" and ?e = "e\<lparr>ee_broker := (True, rt_broker (tn_rt s))\<rparr>"
  have edge: "env_edge ?e ?env = Inr env" "a = env_snf env" using assms(2) by (auto simp: falling_edge_def Let_def)
  obtain w r where "ce_front ?env = FromGem5 (rt_agent (tn_rt s)) w r" using assms(1) by (auto simp: lend_inv) (auto simp: lend_def)
  then have "event_arrivals (Edge ?e) ?env = tb_arrivals (Falling e) s" by (simp add: tb_arrivals_def)
  then have i: "cosim_env_inv (arrived @ tb_arrivals (Falling e) s) env" using cosim_env_edge [OF assms(1) edge(1)] by simp
  then obtain w r where "ce_front env = FromGem5 a w r" using edge(2) by (auto simp: cosim_env_inv_def env_snf_def)
  then have "lend a env = env" by (simp add: lend_def)
  then show ?thesis using i by simp
qed

lemma books_step:
  assumes "tb_step s l s'" "books arrived s"
  shows "books (arrived @ tb_arrivals l s) s'"
  using assms(1)
proof cases
  case (software l1 rt)
  have "tb_arrivals (Software l1) (s\<lparr>tn_rt := tn_rt s\<rparr>) = tb_arrivals l s" by (simp add: software(1))
  then show ?thesis using calls_agent_inv [OF software_calls [OF software(3,4), of s] assms(2)] software(2) by simp
next
  case (falling e a b env ms)
  then show ?thesis using falling_books [OF assms(2) falling(4)] by (simp add: gather_def)
qed

lemma books_run: "tb_run s ls rs s' \<Longrightarrow> books arrived s \<Longrightarrow> books (arrived @ rs) s'"
proof (induction rule: tb_run.induct)
  case (more s ls rs s' l s'')
  then show ?case using books_step [OF more.hyps(2) more.IH [OF more.prems]] by simp
qed simp

lemma early_books:
  "await_message ''hello'' ms rt = Some (Inr (hello, rt')) \<Longrightarrow> cosim_env_inv arrived (lend (rt_agent rt) env) \<Longrightarrow>
     cosim_env_inv (arrived @ early_requests ms) (lend (rt_agent rt') env)"
proof (induction "''hello''" ms rt arbitrary: arrived rule: await_message.induct)
  case (3 msg ms rt)
  show ?case
  proof (cases "opt_str msg ''t'' = Some ''hello''")
    case False
    then obtain rt1 where r: "route msg rt = Inr rt1" "await_message ''hello'' ms rt1 = Some (Inr (hello, rt'))"
      using "3.prems"(1) by (auto split: sum.splits)
    from "3.hyps" [OF False r calls_agent_inv [OF route_calls [OF r(1)] "3.prems"(2)]] False show ?thesis by simp
  qed (use "3.prems" in simp)
qed simp_all

lemma start_books:
  assumes "tb_start e es ms = Some (Inr s)"
  shows "books (env_arrivals (training es) (env_connect (env_build True False)) @ early_requests ms) s"
proof -
  let ?env = "env_connect (env_build True False)"
  obtain fs env hello rt where r: "env_run (training es) ?env = Inr (fs, env)"
    "await_message ''hello'' ms (put_agent (env_snf env) (runtime_init e)) = Some (Inr (hello, rt))"
    "s = \<lparr>tn_rt = take_hello hello rt, tn_env = env, tn_falling = False\<rparr>"
    using assms by (auto simp: tb_start_def handshake_def split: sum.splits)
  have i: "cosim_env_inv (env_arrivals (training es) ?env) env" using cosim_env_run [OF cosim_env_start r(1)] by simp
  then have "lend (env_snf env) env = env" by (auto simp: cosim_env_inv_def lend_def env_snf_def)
  then have "cosim_env_inv (env_arrivals (training es) ?env) (lend (rt_agent (put_agent (env_snf env) (runtime_init e))) env)"
    using i by (simp add: put_agent_def)
  from early_books [OF r(2) this] have l: "cosim_env_inv (env_arrivals (training es) ?env @ early_requests ms) (lend (rt_agent rt) env)" .
  have "rt_agent (take_hello hello rt) =
      (rt_agent rt)\<lparr>ag_snf_id := rt_snf_id (take_hello hello rt), ag_dut_nodeid := 0, ag_connected := True\<rparr>"
    by (simp add: take_hello_def rt_send_def Let_def)
  then show ?thesis using l r(3) by (auto simp: lend_inv agent_ok_def ledger_def)
qed

text \<open>
  C10. Requests through the whole testbench: in every run after a handshake, whatever messages arrive and however the dispatcher,
  the barrier loop, the bypass tasks and the edges of the clock interleave, the request flits that the link monitor has seen are
  the supported requests of gem5 (those that came before the hello included, and those sent again because the device had refused
  them) in the order of arrival, from the first on and none twice, with address, requester, opcode, priority and return node.
\<close>

theorem testbench_requests_in_order:
  assumes "tb_start e es ms = Some (Inr s)" and "tb_run s ls rs s'"
  shows "let seen = cm_rxreq_ap (ce_chi_mon (tn_env s'));
      requests = env_arrivals (training es) (env_connect (env_build True False)) @ early_requests ms @ rs
    in list_all2 request_on_wire (take (length seen) (filter (\<lambda>req. supported req agent_init) requests)) seen"
proof -
  have "ce_chi_mon (lend a env) = ce_chi_mon env" for a env by (simp add: lend_def split: front.split)
  then show ?thesis using cosim_env_wire [OF books_run [OF assms(2) start_books [OF assms(1)]]] by (simp add: Let_def)
qed

section \<open>What is sent at an edge\<close>

lemma agent_pump_sent: "agent_pump a w tb = (a', w', tb') \<Longrightarrow> ag_sent a' = ag_sent a"
proof (induction a w tb rule: agent_pump.induct)
  case (2 a tb)
  show ?case
  proof (cases "ag_txn_queue a")
    case (Cons t ts)
    have n: "agent_next_txn a = (Some t, a\<lparr>ag_txn_queue := ts\<rparr>)" by (simp add: agent_next_txn_def Cons)
    show ?thesis using "2.IH" [OF n [symmetric] refl] "2.prems" n by (simp add: agent_pump.simps(2))
  qed (use 2 in \<open>auto simp: agent_pump.simps(2) agent_next_txn_def\<close>)
qed (auto simp: agent_pump.simps(1) split: if_splits)

lemma sends_flits_run: "agent_run evs a = Inr a' \<Longrightarrow> sends_flits a \<Longrightarrow> sends_flits a'"
proof (induction evs arbitrary: a)
  case (Cons ev evs)
  then show ?case using sends_flits_step by (cases "agent_step ev a") auto
qed simp

lemma env_edge_sends:
  assumes "cosim_env_inv arrived env" "sends_flits (env_snf env)" "env_edge e env = Inr env'"
  shows "sends_flits (env_snf env')"
proof -
  let ?d = "ed_dut (ee_link e)"
  obtain a w r where fr: "ce_front env = FromGem5 a w r" "responder_bound r" "sends_flits a"
    using assms(1,2) by (auto simp: cosim_env_inv_def env_snf_def)
  have respond: "sends_flits a1'" if "respond_edge ?d (r, a1) = Inr (r', a1')" "sends_flits a1" for a1 a1' r'
  proof -
    have "agent_run (tx_events ?d) a1 = Inr a1'"
      by (rule respond_edge_agent [OF fr(2), of ?d a1]; use that(1) in simp)
    from sends_flits_run [OF this that(2)] show ?thesis .
  qed
  have pump: "sends_flits a1'" if "agent_pump a1 w tb = (a1', w', tb')" "sends_flits a1" for a1 a1' w' tb tb'
    using agent_pump_sent [OF that(1)] that(2) by (simp add: sends_flits_def)
  obtain tb fr' tb' where f: "front_edge e (FromGem5 a w r) tb = Inr (fr', tb')" "ce_front env' = fr'"
    using assms(3) fr(1) by (auto simp: env_edge_def Let_def)
  show ?thesis
  proof (cases "ee_agent_first e")
    case True
    obtain a1 w1 tb1 where p: "agent_pump a w tb = (a1, w1, tb1)" by (metis prod_cases3)
    obtain r' a' where "respond_edge ?d (r, a1) = Inr (r', a')" "fr' = FromGem5 a' w1 r'"
      using f(1) True p by (auto simp: front_edge_def)
    then show ?thesis using respond pump [OF p fr(3)] f(2) by (simp add: env_snf_def)
  next
    case False
    then obtain r' a1 a' w' where rs: "respond_edge ?d (r, a) = Inr (r', a1)" "agent_pump a1 w tb = (a', w', tb')" "fr' = FromGem5 a' w' r'"
      using f(1) by (auto simp: front_edge_def split: prod.splits)
    then show ?thesis using pump [OF rs(2) respond [OF rs(1) fr(3)]] f(2) by (simp add: env_snf_def)
  qed
qed

lemma env_snf_lend: "cosim_env_inv arrived (lend a env) \<Longrightarrow> env_snf (lend a env) = a"
  by (auto simp: lend_inv) (simp add: lend_def env_snf_def)

lemma edge_sends_flits:
  assumes "books arrived s" "sends_flits (rt_agent (tn_rt s))" "falling_edge e s = Inr (a, b, env)"
  shows "sends_flits a"
proof -
  have "env_edge (e\<lparr>ee_broker := (True, rt_broker (tn_rt s))\<rparr>) (lend (rt_agent (tn_rt s)) (tn_env s)) = Inr env" "a = env_snf env"
    using assms(3) by (auto simp: falling_edge_def Let_def)
  then show ?thesis using env_edge_sends [OF assms(1) _ ] env_snf_lend [OF assms(1)] assms(2) by simp
qed

text \<open>The calls of the broker that the slave on the AXI port waits for.\<close>

definition b_calls :: "proxy_b_phase \<Rightarrow> int set" where
  "b_calls p = (case p of PbCall aw data rid c \<Rightarrow> {rid} | _ \<Rightarrow> {})"

definition r_calls :: "proxy_r_phase \<Rightarrow> int set" where
  "r_calls p = (case p of PrCall ar rid c \<Rightarrow> {rid} | _ \<Rightarrow> {})"

definition slave_calls :: "axi_proxy \<Rightarrow> int set" where
  "slave_calls px = b_calls (px_b px) \<union> r_calls (px_r px)"

lemma b_calls_simps [simp]: "b_calls PbWait = {}" "b_calls (PbCall aw data rid c) = {rid}" "b_calls (PbDead aw e) = {}"
  by (simp_all add: b_calls_def)

lemma r_calls_simps [simp]:
  "r_calls PrWait = {}" "r_calls (PrCall ar rid c) = {rid}" "r_calls (PrHold ar data resp n) = {}" "r_calls (PrDead ar e) = {}"
  by (simp_all add: r_calls_def)

lemma read_done_calls [simp]: "r_calls (px_r (read_done ar data resp s)) = {}" "px_b (read_done ar data resp s) = px_b s"
  by (simp_all add: read_done_def Let_def)

lemma slave_tasks_calls [simp]:
  "px_b (proxy_w d s) = px_b s" "px_r (proxy_w d s) = px_r s" "px_b (proxy_aw d s) = px_b s" "px_r (proxy_aw d s) = px_r s"
  "px_b (proxy_ar d s) = px_b s" "px_r (proxy_ar d s) = px_r s" "px_b (proxy_d d s) = px_b s" "px_r (proxy_d d s) = px_r s"
  "px_b (proxy_reset_edge d s) = px_b s" "px_r (proxy_reset_edge d s) = px_r s" "px_r (write_done aw data resp s) = px_r s"
  by (simp_all add: proxy_w_def proxy_aw_def proxy_ar_def proxy_d_def proxy_d_next_def proxy_reset_edge_def write_done_def Let_def
      split: list.split sum.split proxy_d_phase.split)

text \<open>It uses the broker through its three operations only, and resumes no call but its own.\<close>

lemma proxy_edge_calls:
  assumes rd: "\<And>addr n I b rid b'. P I b \<Longrightarrow> broker_read addr (int n) b = (rid, b') \<Longrightarrow> P (insert rid I) b'"
    and wr: "\<And>addr data strb I b rid b'. P I b \<Longrightarrow> broker_write addr data strb b = (rid, b') \<Longrightarrow> P (insert rid I) b'"
    and resume: "\<And>rid c I b r b'. P I b \<Longrightarrow> rid \<in> I \<Longrightarrow> broker_resume rid c b = (r, b') \<Longrightarrow> P I b'"
    and fewer: "\<And>I J b. P I b \<Longrightarrow> J \<subseteq> I \<Longrightarrow> P J b"
    and start: "P (slave_calls px) b" and edge: "proxy_edge d (px, b) = (px', b')"
  shows "P (slave_calls px') b'"
proof -
  have b_next: "P (r_calls (px_r s)) b \<Longrightarrow> proxy_b_next q (s, b) = (s', b') \<Longrightarrow> P (slave_calls s') b'" for q s b s' b'
  proof (induction q "(s, b)" arbitrary: s b rule: proxy_b_next.induct)
    case (2 aw data strb q s b)
    show ?case
    proof (cases "px_bound s")
      case True
      obtain rid b1 where w: "broker_write (pq_addr aw) data strb b = (rid, b1)" by fastforce
      then show ?thesis using "2.prems" True wr [OF _ w] by (auto simp: slave_calls_def)
    qed (use 2 in simp)
  qed (auto simp: slave_calls_def)
  have r_next: "P (b_calls (px_b s)) b \<Longrightarrow> proxy_r_next q (s, b) = (s', b') \<Longrightarrow> P (slave_calls s') b'" for q s b s' b'
  proof (induction q "(s, b)" arbitrary: s b rule: proxy_r_next.induct)
    case (2 ar q s b)
    show ?case
    proof (cases "px_bound s")
      case True
      obtain rid b1 where r: "broker_read (pq_addr ar) (int (burst_bytes ar)) b = (rid, b1)" by fastforce
      then show ?thesis using "2.prems" True rd [OF _ r] by (auto simp: slave_calls_def)
    qed (use 2 in \<open>auto simp: slave_calls_def Let_def split: if_splits\<close>)
  qed (auto simp: slave_calls_def)
  have pb: "P (slave_calls s') b'" if "P (slave_calls s) b" "proxy_b (s, b) = (s', b')" for s b s' b'
  proof (cases "px_b s")
    case (PbCall aw data rid c)
    obtain r b1 where r: "broker_resume rid c b = (r, b1)" by fastforce
    have 1: "P (slave_calls s) b1" by (rule resume [OF that(1) _ r]) (simp add: slave_calls_def PbCall)
    have "P (r_calls (px_r s)) b1" by (rule fewer [OF 1]) (simp add: slave_calls_def)
    then have "proxy_b_next q (write_done aw data v s, b1) = (s', b') \<Longrightarrow> P (slave_calls s') b'" for q v
      by (intro b_next) simp_all
    moreover have "P (slave_calls s') b'" if "px_b s' \<in> {PbCall aw data rid c', PbDead aw e}" "px_r s' = px_r s" "b' = b1" for c' e
      by (rule fewer [OF 1 [folded that(3)]]) (use that PbCall in \<open>auto simp: slave_calls_def\<close>)
    ultimately show ?thesis using that(2) PbCall r by (auto simp: proxy_b_def Let_def split: sum.splits)
  next
    case PbWait
    have "P (r_calls (px_r s)) b" by (rule fewer [OF that(1)]) (simp add: slave_calls_def)
    then show ?thesis using that(2) PbWait b_next by (simp add: proxy_b_def)
  qed (use that in \<open>simp add: proxy_b_def\<close>)
  have pr: "P (slave_calls s') b'" if "P (slave_calls s) b" "proxy_r d (s, b) = (s', b')" for s b s' b'
  proof -
    have less: "P (b_calls (px_b s)) b" by (rule fewer [OF that(1)]) (simp add: slave_calls_def)
    show ?thesis
    proof (cases "px_r s")
      case (PrCall ar rid c)
      obtain r b1 where r: "broker_resume rid c b = (r, b1)" by fastforce
      have 1: "P (slave_calls s) b1" by (rule resume [OF that(1) _ r]) (simp add: slave_calls_def PrCall)
      have 2: "P (b_calls (px_b s)) b1" by (rule fewer [OF 1]) (simp add: slave_calls_def)
      then have "proxy_r_next q (read_done ar data v s, b1) = (s', b') \<Longrightarrow> P (slave_calls s') b'" for q data v
        by (intro r_next) simp_all
      moreover have "P (slave_calls s') b'" if "r_calls (px_r s') \<subseteq> {rid}" "px_b s' = px_b s" "b' = b1"
        by (rule fewer [OF 1 [folded that(3)]]) (use that PrCall in \<open>auto simp: slave_calls_def\<close>)
      ultimately show ?thesis using that(2) PrCall r by (auto simp: proxy_r_def Let_def split: sum.splits if_splits)
    next
      case (PrHold ar data resp n)
      have "P (slave_calls s') b'" if "r_calls (px_r s') = {}" "px_b s' = px_b s" "b' = b"
        using that less by (simp add: slave_calls_def)
      moreover have "proxy_r_next q (s\<lparr>px_pins := ps\<rparr>, b) = (s', b') \<Longrightarrow> P (slave_calls s') b'" for q ps
        by (rule r_next) (simp_all add: less)
      ultimately show ?thesis using that(2) PrHold by (auto simp: proxy_r_def slave_calls_def Let_def split: if_splits)
    qed (use that less r_next in \<open>auto simp: proxy_r_def\<close>)
  qed
  show ?thesis
  proof (cases "px_started px")
    case True
    obtain s1 b1 where 1: "proxy_b (proxy_w d (proxy_aw d px), b) = (s1, b1)" by fastforce
    have "P (slave_calls s1) b1" by (rule pb [OF _ 1]) (use start in \<open>simp add: slave_calls_def\<close>)
    then have "P (slave_calls (proxy_ar d (proxy_d d s1))) b1" by (simp add: slave_calls_def)
    from pr [OF this] show ?thesis using edge True 1 by (simp add: proxy_edge_def Let_def)
  qed (use edge start in \<open>auto simp: proxy_edge_def slave_calls_def\<close>)
qed

lemma port_edge_broker:
  assumes rd: "\<And>addr len b rid b'. P b \<Longrightarrow> broker_read addr len b = (rid, b') \<Longrightarrow> P b'"
    and wr: "\<And>addr data strb b rid b'. P b \<Longrightarrow> broker_write addr data strb b = (rid, b') \<Longrightarrow> P b'"
    and resume: "\<And>rid c b r b'. P b \<Longrightarrow> broker_resume rid c b = (r, b') \<Longrightarrow> P b'"
    and start: "P b"
  shows "P (port_edge e env b)"
proof -
  have "P b'" if "proxy_edge d (px, b) = (px', b')" for d px px' b'
    by (rule proxy_edge_calls [of "\<lambda>I. P", OF _ _ _ _ start that]) (blast intro: rd wr resume)+
  then show ?thesis using start by (simp add: port_edge_def split: axi_slave.split) (metis prod.collapse)
qed

lemma port_edge_only: "broker_only b \<Longrightarrow> broker_only (port_edge e env b)"
proof (rule port_edge_broker [of broker_only])
  show "broker_only b1 \<Longrightarrow> broker_resume rid c b1 = (r, b') \<Longrightarrow> broker_only b'" for rid c b1 r b'
    using broker_ops_only(2) [of b1 rid c] by simp
qed (auto dest: broker_ops_only(3,4))

lemma falling_parts:
  "falling_edge e s = Inr (a, b, env) \<Longrightarrow> b = port_edge e (lend (rt_agent (tn_rt s)) (tn_env s)) (rt_broker (tn_rt s))"
  by (auto simp: falling_edge_def Let_def)

lemma quiet_falling:
  assumes "books arrived s" "falling_edge e s = Inr (a, b, env)" "ms \<in> shuffles (ag_sent a) (map JObj (mb_sent b))"
  shows "quiet (tn_rt s) (gather a b ms (tn_rt s))"
proof -
  have "filter is_control ms = []" if "rt_clean (tn_rt s)"
  proof -
    have "sends_flits (rt_agent (tn_rt s))" "broker_only (rt_broker (tn_rt s))"
      using that broker_only_empty by (simp_all add: rt_clean_def sends_flits_def)
    then have "filter is_control (ag_sent a) = []" "filter is_control (map JObj (mb_sent b)) = []"
      using edge_sends_flits [OF assms(1) _ assms(2)] port_edge_only falling_parts [OF assms(2)] sends_flits_control broker_only_control
      by blast+
    then show ?thesis using set_shuffles [OF assms(3)] by (auto simp: filter_empty_conv)
  qed
  then show ?thesis by (simp add: quiet_def gather_def rt_clean_def)
qed

section \<open>The runtime owns the clock\<close>

definition is_falling :: "tb_label \<Rightarrow> bool" where
  "is_falling l \<longleftrightarrow> (case l of Falling e \<Rightarrow> True | _ \<Rightarrow> False)"

definition takes_sync :: "tb_label \<Rightarrow> bool" where
  "takes_sync l \<longleftrightarrow> (case l of Software l \<Rightarrow> is_sync l | _ \<Rightarrow> False)"

definition low_half :: "runtime \<Rightarrow> bool" where
  "low_half rt \<longleftrightarrow> (case rt_phase rt of BLow n \<Rightarrow> True | _ \<Rightarrow> False)"

text \<open>Each edge so far belongs to a cycle that was counted, or to the one in its low half.\<close>

definition clocked :: "int \<Rightarrow> int \<Rightarrow> nat \<Rightarrow> nat \<Rightarrow> testbench \<Rightarrow> bool" where
  "clocked q budget syncs edges s \<longleftrightarrow>
     lockstep q budget syncs (tn_rt s) \<and> \<not> rt_free_run (tn_rt s) \<and> (tn_falling s \<longrightarrow> low_half (tn_rt s)) \<and>
     int edges + of_bool (tn_falling s) = rt_cycles_run (tn_rt s) + of_bool (low_half (tn_rt s))"

lemma loop_parts_clock:
  "rt_cycles_run (acknowledge rt) = rt_cycles_run rt" "rt_free_run (acknowledge rt) = rt_free_run rt"
  "rt_cycles_run (barrier_finish rt) = rt_cycles_run rt" "rt_free_run (barrier_finish rt) = rt_free_run rt"
  "rt_cycles_run (next_cycle n rt) = rt_cycles_run rt" "rt_free_run (next_cycle n rt) = rt_free_run rt"
  "rt_cycles_run (park_or_finish rt) = rt_cycles_run rt" "rt_free_run (park_or_finish rt) = rt_free_run rt"
  "\<not> low_half (barrier_finish rt)" "\<not> low_half (next_cycle n rt)" "\<not> low_half (park_or_finish rt)"
  by (simp_all add: acknowledge_def barrier_finish_def next_cycle_def park_or_finish_def rt_send_def low_half_def Let_def)

lemma loop_top_clock:
  "rt_cycles_run (wake rt) = rt_cycles_run rt" "rt_free_run (wake rt) = rt_free_run rt" "\<not> low_half (wake rt)"
  "rt_cycles_run (barrier_top rt) = rt_cycles_run rt" "rt_free_run (barrier_top rt) = rt_free_run rt" "\<not> low_half (barrier_top rt)"
  by (simp_all add: wake_def barrier_top_def loop_parts_clock Let_def) (simp_all add: low_half_def)

lemma end_cycle_clock:
  "rt_cycles_run (end_cycle n rt) = rt_cycles_run rt + 1" "rt_free_run (end_cycle n rt) = rt_free_run rt" "\<not> low_half (end_cycle n rt)"
  by (simp_all add: end_cycle_def loop_top_clock loop_parts_clock put_agent_def Let_def)

lemma loop_clock:
  assumes "\<not> rt_free_run rt" "phase_ok rt"
  shows "rt_cycles_run (barrier_turn rt) + of_bool (low_half (barrier_turn rt)) =
      rt_cycles_run rt + of_bool (low_half rt) + of_bool (lowers_clock rt Barrier)"
    "rt_free_run (barrier_turn rt) = rt_free_run rt" "lowers_clock rt Barrier \<Longrightarrow> low_half (barrier_turn rt)"
  using assms
  by (auto simp: barrier_turn_def parked_turn_def loop_top_clock end_cycle_clock lowers_clock_def phase_ok_def split: barrier_phase.split)
    (auto simp: low_half_def)

lemma clocked_software:
  assumes "clocked q budget n k s" "rt_step (tn_rt s) l rt" "\<not> is_device l" "l = Barrier \<Longrightarrow> \<not> tn_falling s" "0 \<le> q"
  shows "clocked q budget (n + of_bool (is_sync l)) k
    (s\<lparr>tn_rt := rt, tn_falling := (tn_falling s \<or> lowers_clock (tn_rt s) l)\<rparr>)"
proof -
  have c: "lockstep q budget n (tn_rt s)" "\<not> rt_free_run (tn_rt s)" "phase_ok (tn_rt s)"
    using assms(1) by (simp_all add: clocked_def lockstep_def)
  have l: "lockstep q budget (n + of_bool (is_sync l)) rt" by (rule lockstep_step [OF assms(2) c(1) assms(5)])
  show ?thesis
  proof (cases "l = Barrier")
    case True
    then have rt: "rt = barrier_turn (tn_rt s)" using assms(2) by (simp add: barrier_step_iff)
    show ?thesis
      using l c assms(1,4) True loop_clock [OF c(2,3)] unfolding rt clocked_def by (auto simp: of_bool_def split: if_splits)
  next
    case False
    have "barrier_part rt = barrier_part (tn_rt s)"
      using assms(2) by cases (use False assms(3) barrier_part_dispatch barrier_part_task in \<open>auto simp: is_device_def\<close>)
    then have "low_half rt = low_half (tn_rt s)" "rt_cycles_run rt = rt_cycles_run (tn_rt s)" "rt_free_run rt = rt_free_run (tn_rt s)"
      by (simp_all add: barrier_part_def low_half_def)
    then show ?thesis using l assms(1) False by (simp add: clocked_def lowers_clock_def)
  qed
qed

lemma clocked_step:
  assumes "tb_step s l s'" "clocked q budget n k s" "books arrived s" "0 \<le> q"
  shows "clocked q budget (n + of_bool (takes_sync l)) (k + of_bool (is_falling l)) s'"
  using assms(1)
proof cases
  case (software l1 rt)
  from clocked_software [OF assms(2) software(3,4) _ assms(4)] software show ?thesis
    by (simp add: takes_sync_def is_falling_def)
next
  case (falling e a b env ms)
  let ?rt = "gather a b ms (tn_rt s)"
  have "barrier_part ?rt = barrier_part (tn_rt s)" by (simp add: gather_def barrier_part_def)
  moreover have "rt_done ?rt = rt_done (tn_rt s)" "rt_sync_seen ?rt = rt_sync_seen (tn_rt s)" by (simp_all add: gather_def)
  ultimately have "lockstep q budget n ?rt"
    using lockstep_frame [OF _ quiet_falling [OF assms(3) falling(4,5)], of q budget n n] assms(2) by (simp add: clocked_def)
  then show ?thesis
    using assms(2) falling by (auto simp: clocked_def takes_sync_def is_falling_def gather_def low_half_def)
qed

lemma clocked_run:
  "tb_run s ls rs s' \<Longrightarrow> clocked q budget n k s \<Longrightarrow> books arrived s \<Longrightarrow> 0 \<le> q \<Longrightarrow>
     clocked q budget (n + length (filter takes_sync ls)) (k + length (filter is_falling ls)) s'"
proof (induction rule: tb_run.induct)
  case (more s ls rs s' l s'')
  then show ?case
    using clocked_step [OF more.hyps(2) more.IH [OF more.prems] books_run [OF more.hyps(1) more.prems(2)] more.prems(3)]
    by (cases "takes_sync l"; cases "is_falling l") auto
qed simp

lemma training_sends:
  "env_run (training es) env = Inr (fs, env') \<Longrightarrow> cosim_env_inv arrived env \<Longrightarrow> sends_flits (env_snf env) \<Longrightarrow>
     sends_flits (env_snf env')"
proof (induction es arbitrary: env arrived)
  case (Cons e es)
  obtain env1 where s: "env_edge (e\<lparr>ee_broker := (False, broker_init)\<rparr>) env = Inr env1" "env_run (training es) env1 = Inr (fs, env')"
    using Cons.prems(1) by (auto simp: training_def)
  show ?case by (rule Cons.IH [OF s(2) cosim_env_edge [OF Cons.prems(2) s(1)] env_edge_sends [OF Cons.prems(2,3) s(1)]])
qed (simp add: training_def)

lemma await_quiet:
  "await_message kind ms rt = Some (Inr (m, rt')) \<Longrightarrow> quiet rt rt' \<and> barrier_part rt' = barrier_part rt"
proof (induction kind ms rt rule: await_message.induct)
  case (3 kind msg ms rt)
  show ?case
  proof (cases "opt_str msg ''t'' = Some kind")
    case False
    then obtain rt1 where r: "route msg rt = Inr rt1" "await_message kind ms rt1 = Some (Inr (m, rt'))"
      using "3.prems" by (auto split: sum.splits)
    show ?thesis
      using "3.IH" [OF False r] quiet_trans [OF quiet_route [OF r(1)]] barrier_part_route [OF r(1)] by simp
  qed (use "3.prems" quiet_same [of rt rt] in simp)
qed simp_all

lemma start_ready:
  assumes "tb_start e es ms = Some (Inr s)" "0 \<le> rt_quantum_cycles (tn_rt s)"
  shows "rt_ready (tn_rt s)" "rt_free_run (tn_rt s) = en_free_run e" "\<not> tn_falling s"
proof -
  let ?env = "env_connect (env_build True False)"
  obtain fs env hello rt where r: "env_run (training es) ?env = Inr (fs, env)"
    "await_message ''hello'' ms (put_agent (env_snf env) (runtime_init e)) = Some (Inr (hello, rt))"
    "s = \<lparr>tn_rt = take_hello hello rt, tn_env = env, tn_falling = False\<rparr>"
    using assms(1) by (auto simp: tb_start_def handshake_def split: sum.splits)
  let ?rt0 = "put_agent (env_snf env) (runtime_init e)"
  have "sends_flits (env_snf ?env)"
    by (simp add: env_connect_def env_build_def env_snf_def sends_flits_def agent_init_def)
  from training_sends [OF r(1) cosim_env_start this] have "filter is_control (ag_sent (env_snf env)) = []" by (rule sends_flits_control)
  then have 0: "rt_clean ?rt0" "filter is_ack (rt_sent ?rt0) = []"
    using ack_control [of "ag_sent (env_snf env)"] by (simp_all add: rt_clean_def put_agent_def runtime_init_def broker_init_def)
  from await_quiet [OF r(2)] have 1: "rt_clean rt" "filter is_ack (rt_sent rt) = []" "barrier_part rt = barrier_part ?rt0"
    using quiet_acks [of ?rt0 rt] 0 by simp_all
  have b: "rt_phase rt = BIdle" "rt_syncs_acked rt = 0" "rt_cycles_run rt = 0" "\<not> rt_clk rt" "rt_free_run rt = en_free_run e"
    using 1(3) by (simp_all add: barrier_part_def put_agent_def runtime_init_def)
  have k: "\<not> is_ack (JObj (hello_ack_msg rt'))" for rt' by (simp add: is_ack_def hello_ack_msg_def opt_str_def)
  show "rt_ready (tn_rt s)" "rt_free_run (tn_rt s) = en_free_run e" "\<not> tn_falling s"
    using assms(2) 1(1,2) b k by (simp_all add: r(3) take_hello_def rt_ready_def rt_clean_def acks_def rt_send_def Let_def)
qed

lemma start_clocked:
  assumes "tb_start e es ms = Some (Inr s)" "\<not> en_free_run e" "0 \<le> rt_quantum_cycles (tn_rt s)"
  shows "clocked (rt_quantum_cycles (tn_rt s)) (rt_max_syncs (tn_rt s)) (of_bool (rt_sync_seen (tn_rt s))) 0 s"
  using start_ready [OF assms(1,3)] assms(2)
  by (auto simp: clocked_def rt_ready_def lockstep_def phase_ok_def cycles_into_def in_quantum_def low_half_def)

text \<open>Those of the quantum under way: all but the ones left, and half of the one that runs.\<close>

definition edges_into :: "testbench \<Rightarrow> int" where
  "edges_into s =
     (let q = rt_quantum_cycles (tn_rt s)
      in case rt_phase (tn_rt s) of BHigh n \<Rightarrow> q - int n | BLow n \<Rightarrow> q - int n + of_bool (\<not> tn_falling s) | _ \<Rightarrow> 0)"

lemma clocked_edges:
  assumes "clocked q budget syncs edges s" "0 \<le> q"
  shows "int edges = q * int (acks (tn_rt s)) + edges_into s" "0 \<le> edges_into s"
    "edges_into s \<le> q * of_bool (in_quantum (tn_rt s))" "rt_quantum_cycles (tn_rt s) = q"
    "int (acks (tn_rt s)) + of_bool (in_quantum (tn_rt s)) \<le> int syncs"
proof -
  define p where "p = rt_phase (tn_rt s)"
  show q: "rt_quantum_cycles (tn_rt s) = q" using assms(1) by (simp add: clocked_def lockstep_def)
  show "int edges = q * int (acks (tn_rt s)) + edges_into s"
    using assms(1) q unfolding edges_into_def Let_def p_def [symmetric]
    by (auto simp: p_def clocked_def lockstep_def cycles_into_def low_half_def phase_ok_def split: barrier_phase.splits)
  show "0 \<le> edges_into s" "edges_into s \<le> q * of_bool (in_quantum (tn_rt s))"
    using assms q by (auto simp: edges_into_def clocked_def lockstep_def phase_ok_def in_quantum_def Let_def split: barrier_phase.splits)
  have "rt_syncs_acked (tn_rt s) + of_bool (in_quantum (tn_rt s)) + of_bool (rt_sync_seen (tn_rt s) \<and> \<not> rt_done (tn_rt s))
      \<le> int syncs" "int (acks (tn_rt s)) = rt_syncs_acked (tn_rt s)" using assms(1) by (simp_all only: clocked_def lockstep_def)
  moreover have "(0 :: int) \<le> of_bool (rt_sync_seen (tn_rt s) \<and> \<not> rt_done (tn_rt s))" by simp
  ultimately show "int (acks (tn_rt s)) + of_bool (in_quantum (tn_rt s)) \<le> int syncs" by linarith
qed

text \<open>
  C7. The runtime owns the clock of the device: with the clock gated, in every run after a handshake and in every interleaving, the
  edges that the environment has seen since are exactly a quantum for each acknowledgement that was sent and those of the quantum
  under way, whether or not the last one has been served; so neither the device nor the testbench moves between an
  acknowledgement and the next sync, and there are never more edges than the syncs of gem5 allow.
\<close>

theorem testbench_clock:
  assumes "tb_start e es ms = Some (Inr s)" and "\<not> en_free_run e" and "0 \<le> rt_quantum_cycles (tn_rt s)" and "tb_run s ls rs s'"
  shows "let rt = tn_rt s'; q = rt_quantum_cycles (tn_rt s); edges = int (length (filter is_falling ls));
      syncs = length (filter takes_sync ls) + of_bool (rt_sync_seen (tn_rt s))
    in edges = q * int (acks rt) +
         (case rt_phase rt of BHigh n \<Rightarrow> q - int n | BLow n \<Rightarrow> q - int n + of_bool (\<not> tn_falling s') | _ \<Rightarrow> 0) \<and>
       edges \<le> q * int syncs"
proof -
  let ?q = "rt_quantum_cycles (tn_rt s)" and ?syncs = "of_bool (rt_sync_seen (tn_rt s)) + length (filter takes_sync ls)"
  have "clocked ?q (rt_max_syncs (tn_rt s)) ?syncs (length (filter is_falling ls)) s'"
    using clocked_run [OF assms(4) start_clocked [OF assms(1-3)] start_books [OF assms(1)] assms(3)] by simp
  note c = clocked_edges [OF this assms(3)]
  have "?q * (int (acks (tn_rt s')) + of_bool (in_quantum (tn_rt s'))) \<le> ?q * int ?syncs"
    using c(5) by (rule mult_left_mono [OF _ assms(3)])
  then have "int (length (filter is_falling ls)) \<le> ?q * int ?syncs" using c(1,3) by (simp add: distrib_left)
  then show ?thesis using c(1,4) by (simp add: edges_into_def add.commute Let_def)
qed

section \<open>One broker for the device and the bypass tasks\<close>

definition is_mem_request :: "obj \<Rightarrow> bool" where
  "is_mem_request m \<longleftrightarrow> opt_str m ''t'' \<in> {Some ''mem_read'', Some ''mem_write''}"

definition mem_ids :: "json list \<Rightarrow> int list" where
  "mem_ids ms = map (\<lambda>m. get_int (as_obj m) ''id'' 0) (filter (\<lambda>m. is_mem_request (as_obj m)) ms)"

lemma mem_ids_append [simp]: "mem_ids (xs @ ys) = mem_ids xs @ mem_ids ys"
  by (simp add: mem_ids_def)

text \<open>The broker between two handovers of what it has sent: the next ids, each once.\<close>

definition ids_from :: "int \<Rightarrow> broker \<Rightarrow> bool" where
  "ids_from n b \<longleftrightarrow> broker_ok b \<and> n \<le> mb_next_id b \<and> mem_ids (map JObj (mb_sent b)) = [n .. mb_next_id b - 1]"

definition numbered :: "runtime \<Rightarrow> bool" where
  "numbered rt \<longleftrightarrow> rt_clean rt \<and> broker_ok (rt_broker rt) \<and> mem_ids (rt_sent rt) = [1 .. mb_next_id (rt_broker rt) - 1]"

lemma ids_from_call:
  assumes "ids_from n b" "broker_read addr len b = (rid, b') \<or> broker_write addr data strb b = (rid, b')"
  shows "ids_from n b'"
proof -
  have "mem_ids (map JObj (mb_sent b')) = mem_ids (map JObj (mb_sent b)) @ [mb_next_id b]" "mb_next_id b' = mb_next_id b + 1"
    using assms(2) by (auto simp: broker_read_def broker_write_def broker_alloc_id_def mem_read_msg_def mem_write_msg_def mem_ids_def
        is_mem_request_def opt_str_def get_int_def Let_def)
  moreover have "broker_ok b'"
    using assms begin_ok [of b addr len rid b' addr data strb] by (auto simp: ids_from_def)
  ultimately show ?thesis using assms(1) upto_rec2 [of n "mb_next_id b"] by (simp add: ids_from_def)
qed

lemma broker_ok_deliver: "broker_ok b \<Longrightarrow> broker_ok (snd (broker_deliver msg b))"
proof -
  have "broker_ids (snd (broker_deliver msg b)) = broker_ids b"
    by (auto simp: broker_deliver_def broker_ids_def insert_absorb simp del: image_eqI split: option.split)
  moreover have "distinct (map fst (mb_pending b)) \<Longrightarrow> distinct (map fst (mb_pending (snd (broker_deliver msg b))))"
    "mb_next_id (snd (broker_deliver msg b)) = mb_next_id b"
    by (simp_all add: broker_deliver_def distinct_update split: option.split)
  ultimately show "broker_ok b \<Longrightarrow> broker_ok (snd (broker_deliver msg b))" by (simp add: broker_ok_def)
qed

lemma ids_from_same:
  "ids_from n b \<Longrightarrow> ids_from n (snd (broker_deliver msg b))"
  "ids_from n b \<Longrightarrow> broker_resume rid c b = (r, b') \<Longrightarrow> ids_from n b'"
  using broker_ok_deliver [of b msg] broker_ok_delete [of b rid]
  by (auto simp: ids_from_def broker_deliver_def broker_resume_def Let_def split: option.splits if_splits)

lemma numbered_broker:
  assumes "numbered rt" "ids_from (mb_next_id (rt_broker rt)) b"
  shows "numbered (put_broker b rt)"
proof -
  let ?n = "mb_next_id (rt_broker rt)"
  have "1 \<le> ?n" using assms(1) by (simp add: numbered_def broker_ok_def)
  then have "[1 .. ?n - 1] @ [?n .. mb_next_id b - 1] = [1 .. mb_next_id b - 1]"
    using assms(2) upto_split1 [of 1 ?n "mb_next_id b - 1"] by (cases "?n = mb_next_id b") (auto simp: ids_from_def)
  then show ?thesis using assms by (simp add: numbered_def put_broker_def rt_clean_def ids_from_def broker_ok_def broker_ids_def)
qed

lemma ids_from_clean: "numbered rt \<Longrightarrow> ids_from (mb_next_id (rt_broker rt)) (rt_broker rt)"
  by (simp add: numbered_def ids_from_def rt_clean_def mem_ids_def)

lemma flits_no_ids: "sends_flits a \<Longrightarrow> mem_ids (ag_sent a) = []"
  by (auto simp: mem_ids_def sends_flits_def is_mem_request_def list_all_iff filter_empty_conv)

lemma numbered_agent:
  assumes "numbered rt" "agent_step ev (rt_agent rt) = Inr a"
  shows "numbered (put_agent a rt)"
proof -
  have "sends_flits a" using sends_flits_step [OF _ assms(2)] assms(1) by (simp add: numbered_def rt_clean_def sends_flits_def)
  then show ?thesis using assms(1) flits_no_ids by (simp add: numbered_def put_agent_def rt_clean_def)
qed

lemma numbered_send: "\<not> is_mem_request m \<Longrightarrow> numbered rt \<Longrightarrow> numbered (rt_send m rt)"
  by (simp add: numbered_def rt_send_def rt_clean_def mem_ids_def)

lemma numbered_same:
  "numbered rt \<Longrightarrow> rt_agent rt' = rt_agent rt \<Longrightarrow> rt_broker rt' = rt_broker rt \<Longrightarrow> rt_sent rt' = rt_sent rt \<Longrightarrow> numbered rt'"
  by (simp add: numbered_def rt_clean_def)

lemma runtime_no_ids:
  "\<not> is_mem_request (ack_msg c)" "\<not> is_mem_request (runtime_bye rt)" "\<not> is_mem_request (bypass_resp_msg pkt v)"
  "\<not> is_mem_request (hello_ack_msg rt)"
  by (simp_all add: is_mem_request_def ack_msg_def runtime_bye_def bypass_resp_msg_def hello_ack_msg_def opt_str_def split: mem_value.split)

lemma numbered_route:
  assumes "route msg rt = Inr rt'" "numbered rt"
  shows "numbered rt'"
  using assms(1)
proof (cases rule: route_cases)
  case broker
  then show ?thesis using numbered_broker [OF assms(2) ids_from_same(1) [OF ids_from_clean [OF assms(2)]]] by simp
qed (use assms(2) numbered_agent numbered_same in auto)

lemma numbered_dispatch: "numbered rt \<Longrightarrow> numbered (dispatcher_turn msg rt)"
  by (auto simp: dispatcher_turn_def intro: numbered_route numbered_same split: sum.split)

lemma start_ids:
  "ids_from n b \<Longrightarrow> start_bypass_read m b = Inr (t, b') \<Longrightarrow> ids_from n b'"
  "ids_from n b \<Longrightarrow> start_bypass_write m b = Inr (t, b') \<Longrightarrow> ids_from n b'"
  by (auto simp: start_bypass_read_def start_bypass_write_def split: prod.splits intro: ids_from_call)

lemma numbered_task:
  assumes "numbered rt"
  shows "numbered (task_turn i rt)"
proof -
  note ids = ids_from_clean [OF assms]
  have put: "numbered (put_broker b rt')" if "ids_from (mb_next_id (rt_broker rt)) b" "rt_agent rt' = rt_agent rt"
    "rt_broker rt' = rt_broker rt" "rt_sent rt' = rt_sent rt" for b rt'
    using numbered_broker [OF numbered_same [OF assms that(2-4)]] that by simp
  have gone: "numbered (drop_task i rt)" using numbered_same [OF assms] by (simp add: drop_task_def)
  show ?thesis
  proof (cases "i < length (rt_tasks rt)")
    case True
    show ?thesis
    proof (cases "rt_tasks rt ! i")
      case (WaitMem pkt rid c)
      obtain r b where r: "broker_resume rid c (rt_broker rt) = (r, b)" by fastforce
      have w: "numbered (put_broker b (drop_task i rt))" "numbered (put_broker b (rt\<lparr>rt_tasks := ts\<rparr>))" for ts
        using ids_from_same(2) [OF ids r] by (intro put; simp add: drop_task_def)+
      have "numbered (rt_send (bypass_resp_msg pkt v) (rt1\<lparr>rt_bypass_served := k\<rparr>))" if "numbered rt1" for v rt1 k
        using numbered_send [OF runtime_no_ids(3)] numbered_same [OF that] by simp
      then show ?thesis using w True WaitMem r by (simp add: task_turn_def Let_def split: sum.split)
    qed (use True gone put start_ids [OF ids] in \<open>auto simp: task_turn_def started_def split: sum.split\<close>)
  qed (use assms in \<open>simp add: task_turn_def\<close>)
qed

lemma numbered_loop:
  assumes "numbered rt"
  shows "numbered (barrier_turn rt)"
proof -
  note send = numbered_send [OF runtime_no_ids(1)] numbered_send [OF runtime_no_ids(2)]
  have ack: "numbered (acknowledge rt)" if "numbered rt" for rt
  proof -
    have "numbered (rt_send (ack_msg (rt_sync_cycle rt)) rt)" by (rule send(1) [OF that])
    then show ?thesis by (simp add: acknowledge_def Let_def numbered_same)
  qed
  have fin: "numbered (barrier_finish rt)" if "numbered rt" for rt
    using send(2) numbered_same [OF that] by (simp add: barrier_finish_def)
  have nxt: "numbered (next_cycle n rt)" "numbered (rt\<lparr>rt_phase := p\<rparr>)" if "numbered rt" for rt n p
    using numbered_same [OF that] by (simp_all add: next_cycle_def)
  have park: "numbered (park_or_finish rt)" if "numbered rt" for rt
    using fin [OF that] nxt [OF that] by (simp add: park_or_finish_def)
  have wake: "numbered (wake rt)" if "numbered rt" for rt
  proof -
    have "numbered (rt\<lparr>rt_sync_seen := False\<rparr>)" by (rule numbered_same [OF that]) simp_all
    then show ?thesis using fin park [OF ack] nxt by (simp add: wake_def Let_def)
  qed
  have top: "numbered (barrier_top rt)" if "numbered rt" for rt
    using fin wake nxt that by (simp add: barrier_top_def)
  have "numbered (end_cycle n rt)" for n
  proof -
    have "numbered (put_agent (agent_on_cycle (rt_agent rt)) rt)" by (rule numbered_agent [of _ ClockCycle, OF assms]) simp
    then have "numbered ((put_agent (agent_on_cycle (rt_agent rt)) rt)\<lparr>rt_cycles_run := k\<rparr>)" for k by (rule numbered_same) simp_all
    then show ?thesis using top ack nxt by (simp add: end_cycle_def Let_def)
  qed
  then show ?thesis
    using assms top wake nxt numbered_same [OF assms] by (simp add: barrier_turn_def parked_turn_def split: barrier_phase.split)
qed

lemma port_edge_ids: "ids_from n b \<Longrightarrow> ids_from n (port_edge e env b)"
  by (rule port_edge_broker [of "ids_from n"]) (auto intro: ids_from_call ids_from_same(2))

lemma numbered_falling:
  assumes "numbered (tn_rt s)" "books arrived s" "falling_edge e s = Inr (a, b, env)"
    and "ms \<in> shuffles (ag_sent a) (map JObj (mb_sent b))"
  shows "numbered (gather a b ms (tn_rt s))"
proof -
  have "sends_flits (rt_agent (tn_rt s))" using assms(1) by (simp add: numbered_def rt_clean_def sends_flits_def)
  from edge_sends_flits [OF assms(2) this assms(3)] have none: "filter (\<lambda>m. is_mem_request (as_obj m)) (ag_sent a) = []"
    using flits_no_ids by (simp add: mem_ids_def)
  have "filter (\<lambda>m. is_mem_request (as_obj m)) ms \<in>
      shuffles (filter (\<lambda>m. is_mem_request (as_obj m)) (ag_sent a)) (filter (\<lambda>m. is_mem_request (as_obj m)) (map JObj (mb_sent b)))"
    using assms(4) by (simp only: flip: filter_shuffles) blast
  then have "mem_ids ms = mem_ids (map JObj (mb_sent b))" by (simp only: none mem_ids_def shuffles.simps singleton_iff)
  moreover have "ids_from (mb_next_id (rt_broker (tn_rt s))) b"
    using port_edge_ids [OF ids_from_clean [OF assms(1)]] falling_parts [OF assms(3)] by simp
  from numbered_broker [OF assms(1) this] have "numbered (put_broker b (tn_rt s))" .
  ultimately show ?thesis by (simp add: numbered_def put_broker_def gather_def rt_clean_def)
qed

lemma numbered_step:
  assumes "tb_step s l s'" "numbered (tn_rt s)" "books arrived s"
  shows "numbered (tn_rt s')"
  using assms(1)
proof cases
  case (software l1 rt)
  from software(3) have "numbered rt"
    by cases (use assms(2) software(4) numbered_dispatch numbered_task numbered_loop in \<open>auto simp: is_device_def\<close>)
  then show ?thesis by (simp add: software)
next
  case (falling e a b env ms)
  then show ?thesis using numbered_falling [OF assms(2,3) falling(4,5)] by simp
qed

lemma numbered_run: "tb_run s ls rs s' \<Longrightarrow> numbered (tn_rt s) \<Longrightarrow> books arrived s \<Longrightarrow> numbered (tn_rt s')"
proof (induction rule: tb_run.induct)
  case (more s ls rs s' l s'')
  then show ?case using numbered_step [OF more.hyps(2) more.IH [OF more.prems]] books_run [OF more.hyps(1) more.prems(2)] by blast
qed

lemma await_numbered:
  "await_message kind ms rt = Some (Inr (m, rt')) \<Longrightarrow> numbered rt \<Longrightarrow> numbered rt'"
  by (induction kind ms rt rule: await_message.induct) (auto split: if_splits sum.splits dest: numbered_route)

lemma start_numbered:
  assumes "tb_start e es ms = Some (Inr s)"
  shows "numbered (tn_rt s)"
proof -
  let ?env = "env_connect (env_build True False)"
  obtain fs env hello rt where r: "env_run (training es) ?env = Inr (fs, env)"
    "await_message ''hello'' ms (put_agent (env_snf env) (runtime_init e)) = Some (Inr (hello, rt))"
    "s = \<lparr>tn_rt = take_hello hello rt, tn_env = env, tn_falling = False\<rparr>"
    using assms by (auto simp: tb_start_def handshake_def split: sum.splits)
  have "sends_flits (env_snf ?env)"
    by (simp add: env_connect_def env_build_def env_snf_def sends_flits_def agent_init_def)
  from training_sends [OF r(1) cosim_env_start this] have "mem_ids (ag_sent (env_snf env)) = []" by (rule flits_no_ids)
  then have "numbered (put_agent (env_snf env) (runtime_init e))"
    by (simp add: numbered_def put_agent_def runtime_init_def rt_clean_def broker_init_def broker_ok_def broker_ids_def)
  from await_numbered [OF r(2) this] have "numbered rt" .
  then show ?thesis
    using runtime_no_ids(4) by (simp add: r(3) take_hello_def numbered_def rt_send_def rt_clean_def mem_ids_def Let_def)
qed

text \<open>
  C19. Memory traffic of the device and bypass accesses of gem5 share one broker: in every run, whatever interleaves, the memory
  requests in the order in which they are queued for gem5 have the ids 1, 2, 3, ..., so no two have the same; and every entry in
  which a completion can be awaited belongs to exactly one request that was sent.
\<close>

theorem memory_ids_unique:
  assumes "tb_start e es ms = Some (Inr s)" and "tb_run s ls rs s'"
  shows "mem_ids (rt_sent (tn_rt s')) = [1 .. mb_next_id (rt_broker (tn_rt s')) - 1] \<and>
    distinct (mem_ids (rt_sent (tn_rt s'))) \<and> distinct (map fst (mb_pending (rt_broker (tn_rt s')))) \<and>
    fst ` set (mb_pending (rt_broker (tn_rt s'))) \<subseteq> set (mem_ids (rt_sent (tn_rt s')))"
  using numbered_run [OF assms(2) start_numbered [OF assms(1)] start_books [OF assms(1)]]
  by (auto simp: numbered_def broker_ok_def broker_ids_def)

section \<open>A run\<close>

text \<open>The steps as a function, with one of the orders in which the messages of an edge can be queued.\<close>

definition software_turn :: "rt_label \<Rightarrow> testbench \<Rightarrow> runtime option" where
  "software_turn l s =
     (let rt = tn_rt s in
      case l of
        Dispatch msg \<Rightarrow> if rt_done rt \<or> rt_dispatcher_dead rt then None else Some (dispatcher_turn msg rt)
      | Barrier \<Rightarrow> if rt_phase rt \<in> {BFinished, BTimedOut} \<or> tn_falling s then None else Some (barrier_turn rt)
      | Task i \<Rightarrow> if i < length (rt_tasks rt) then Some (task_turn i rt) else None
      | Device ev \<Rightarrow> None
      | Port op \<Rightarrow> None)"

definition tb_turn :: "tb_label \<Rightarrow> testbench \<Rightarrow> testbench option" where
  "tb_turn l s =
     (case l of
        Software l \<Rightarrow>
          map_option (\<lambda>rt. s\<lparr>tn_rt := rt, tn_falling := (tn_falling s \<or> lowers_clock (tn_rt s) l)\<rparr>) (software_turn l s)
      | Falling e \<Rightarrow>
          if tn_falling s \<or> rt_free_run (tn_rt s) then
            case falling_edge e s of
              Inl x \<Rightarrow> None
            | Inr (a, b, env) \<Rightarrow>
                Some (s\<lparr>tn_rt := gather a b (splice (ag_sent a) (map JObj (mb_sent b))) (tn_rt s), tn_env := env, tn_falling := False\<rparr>)
          else None)"

definition tb_turns :: "tb_label list \<Rightarrow> testbench \<Rightarrow> testbench option" where
  "tb_turns ls s = foldl (\<lambda>s l. Option.bind s (tb_turn l)) (Some s) ls"

lemma software_turn_step:
  "software_turn l s = Some rt \<Longrightarrow> rt_step (tn_rt s) l rt \<and> \<not> is_device l \<and> (l = Barrier \<longrightarrow> \<not> tn_falling s)"
  by (cases l) (auto simp: software_turn_def is_device_def Let_def intro: rt_step.intros split: if_splits)

lemma tb_turn_step: "tb_turn l s = Some s' \<Longrightarrow> tb_step s l s'"
proof (cases l)
  case (Software l1)
  show "tb_turn l s = Some s' \<Longrightarrow> ?thesis"
    using software_turn_step tb_step.software Software by (auto simp: tb_turn_def)
next
  case (Falling e)
  then show "tb_turn l s = Some s' \<Longrightarrow> ?thesis"
    using tb_step.falling by (auto simp: tb_turn_def split: if_splits sum.splits)
qed

lemma tb_turns_run: "tb_turns ls s = Some s' \<Longrightarrow> \<exists>rs. tb_run s ls rs s'"
proof (induction ls arbitrary: s' rule: rev_induct)
  case (snoc l ls)
  then obtain s1 where s1: "tb_turns ls s = Some s1" "tb_turn l s1 = Some s'" by (auto simp: tb_turns_def Option.bind_eq_Some_conv)
  then show ?case using snoc.IH tb_turn_step tb_run.more by blast
qed (auto simp: tb_turns_def intro: tb_run.none)

text \<open>The link is trained, gem5 says hello with a quantum of two cycles, and sends a request, a bypass read and a sync.\<close>

definition bench_env :: runtime_env where
  "bench_env = \<lparr>en_quantum = 100, en_gem5_clk_ns = JFloat ''0.556'', en_clk_ns = ''0.556'', en_snf_id = 0x80, en_hnf_id = 0x90,
     en_free_run = False, en_max_syncs = 0\<rparr>"

definition bench_hello :: obj where
  "bench_hello = [(''t'', JStr ''hello''), (''quantum_cycles'', JInt 2)]"

definition bench_labels :: "tb_label list" where
  "bench_labels =
     map (Software \<circ> Dispatch)
       [[(''t'', JStr ''flit''), (''ch'', JStr ''req''), (''dir'', JStr ''g2t''), (''flit'', JObj demo_write)],
        [(''t'', JStr ''bypass_read''), (''pkt'', JInt 7), (''addr'', JInt 0x1000), (''len'', JInt 64)],
        [(''t'', JStr ''sync''), (''cycle'', JInt 0)]] @
     [Software (Task 0), Software Barrier] @
     concat (replicate 2 [Software Barrier, Falling demo_clock, Software Barrier])"

definition bench_seen :: "testbench \<Rightarrow> (int \<times> int) list \<times> int list \<times> nat \<times> bool" where
  "bench_seen s =
     (map (\<lambda>f. (rq_addr f, f_txnid f)) (cm_rxreq_ap (ce_chi_mon (tn_env s))), mem_ids (rt_sent (tn_rt s)), acks (tn_rt s),
      rt_phase (tn_rt s) = BParked 0)"

lemma bench_run:
  "(case tb_start bench_env (replicate 7 demo_clock) [Some bench_hello] of
      Some (Inr s) \<Rightarrow> (rt_quantum_cycles (tn_rt s), map_option bench_seen (tb_turns bench_labels s))
    | _ \<Rightarrow> (0, None)) = (2, Some ([(0x80000040, 0)], [1], 1, True))"
  by code_simp

abbreviation bench_start :: "testbench result option" where
  "bench_start \<equiv> tb_start bench_env (replicate 7 demo_clock) [Some bench_hello]"

lemma bench_runs:
  obtains s s' rs where "bench_start = Some (Inr s)" "tb_run s bench_labels rs s'" "rt_quantum_cycles (tn_rt s) = 2"
    "bench_seen s' = ([(0x80000040, 0)], [1], 1, True)"
proof -
  obtain s where s: "bench_start = Some (Inr s)" "rt_quantum_cycles (tn_rt s) = 2"
    "map_option bench_seen (tb_turns bench_labels s) = Some ([(0x80000040, 0)], [1], 1, True)"
    using bench_run by (cases bench_start) (auto split: sum.splits)
  then obtain s' where s': "tb_turns bench_labels s = Some s'" "bench_seen s' = ([(0x80000040, 0)], [1], 1, True)" by auto
  from tb_turns_run [OF s'(1)] obtain rs where "tb_run s bench_labels rs s'" ..
  then show thesis using that s(1,2) s'(2) by blast
qed

theorem testbench_requests_in_order_witness:
  "\<exists>s rs s' req g. bench_start = Some (Inr s) \<and> tb_run s bench_labels rs s' \<and> cm_rxreq_ap (ce_chi_mon (tn_env s')) = [g] \<and>
     f_txnid g = 0 \<and> rq_addr g = 0x80000040 \<and> request_on_wire req g"
proof -
  obtain s s' rs where r: "bench_start = Some (Inr s)" "tb_run s bench_labels rs s'" "bench_seen s' = ([(0x80000040, 0)], [1], 1, True)"
    by (rule bench_runs)
  then obtain g where g: "cm_rxreq_ap (ce_chi_mon (tn_env s')) = [g]" "f_txnid g = 0" "rq_addr g = 0x80000040"
    by (auto simp: bench_seen_def)
  from testbench_requests_in_order [OF r(1,2)] g obtain req where "request_on_wire req g" by (auto simp: list_all2_Cons2 Let_def)
  then show ?thesis using r(1,2) g by blast
qed

theorem testbench_clock_witness:
  "\<exists>s rs s'. bench_start = Some (Inr s) \<and> tb_run s bench_labels rs s' \<and> rt_quantum_cycles (tn_rt s) = 2 \<and> acks (tn_rt s') = 1 \<and>
     int (length (filter is_falling bench_labels)) = 2 * int (acks (tn_rt s'))"
proof -
  obtain s s' rs where r: "bench_start = Some (Inr s)" "tb_run s bench_labels rs s'" "rt_quantum_cycles (tn_rt s) = 2"
    "bench_seen s' = ([(0x80000040, 0)], [1], 1, True)" by (rule bench_runs)
  have "\<not> en_free_run bench_env" "0 \<le> rt_quantum_cycles (tn_rt s)" using r(3) by (simp_all add: bench_env_def)
  from testbench_clock [OF r(1) this r(2)] have "int (length (filter is_falling bench_labels)) = 2 * int (acks (tn_rt s'))"
    using r(3,4) by (simp add: Let_def bench_seen_def)
  then show ?thesis using r by (auto simp: bench_seen_def)
qed

theorem memory_ids_unique_witness:
  "\<exists>s rs s'. bench_start = Some (Inr s) \<and> tb_run s bench_labels rs s' \<and> mem_ids (rt_sent (tn_rt s')) = [1] \<and>
     mb_next_id (rt_broker (tn_rt s')) = 2"
proof -
  obtain s s' rs where r: "bench_start = Some (Inr s)" "tb_run s bench_labels rs s'" "bench_seen s' = ([(0x80000040, 0)], [1], 1, True)"
    by (rule bench_runs)
  have ids: "mem_ids (rt_sent (tn_rt s')) = [1]" using r(3) by (simp add: bench_seen_def)
  with memory_ids_unique [OF r(1,2)] have "[1 .. mb_next_id (rt_broker (tn_rt s')) - 1] = [1 :: int]" by simp
  then have "length [1 .. mb_next_id (rt_broker (tn_rt s')) - 1] = 1" by (simp only: list.size)
  then have "mb_next_id (rt_broker (tn_rt s')) = 2" by simp
  then show ?thesis using r(1,2) ids by blast
qed

end
