(* ===== verification/Standalone_Test.thy ===== *)
theory Standalone_Test
  imports C2xm_Env
begin

text \<open>
  The standalone tests of \<^verbatim>\<open>c2xm_test.py\<close>: bring-up, the read and the write, run against the environment and whatever the device
  does.  A test is a coroutine that waits for falling edges, as the components of the environment do, and it may be resumed before
  or after them; then what it does up to its next wait comes before or after what they do at that edge.  A driver that gives up
  (\<open>DrvDead\<close>) also ends a test; here the test goes on and runs into its own time-outs.
\<close>

definition RESET_HOLD_NS :: int where "RESET_HOLD_NS = 100"
definition DRAIN_NS :: int where "DRAIN_NS = 2000"
definition C2XM_NODEID :: int where "C2XM_NODEID = 0"
definition GEM5_SRCID :: int where "GEM5_SRCID = 1"
definition DEFAULT_QOS :: int where "DEFAULT_QOS = 0"
definition TEST_OPC_COMPDBIDRESP :: int where "TEST_OPC_COMPDBIDRESP = 0x5"
definition TEST_OPC_DBIDRESP :: int where "TEST_OPC_DBIDRESP = 0x6"
definition TEST_OPC_COMP :: int where "TEST_OPC_COMP = 0x4"
definition SIZE_64B :: int where "SIZE_64B = 6"

section \<open>Waiting for edges\<close>

text \<open>An edge that is to come: the device's side of it, and whether the test is resumed before the environment.\<close>

record poll =
  po_edge :: clock_edge
  po_first :: bool

text \<open>The environment, with the edge that it has still to run when the test was first; the pins of the device and the reset
  pin, which the test drives; and the edges to come.\<close>

record bench =
  be_env :: c2xm_env
  be_due :: "clock_edge option"
  be_dut :: "dut_out option"
  be_rstn :: sig_value
  be_polls :: "poll list"

text \<open>A test that has used up its edges waits.\<close>

datatype 'a outcome = Waiting | Raised pyerr | AssertFailed | Returned 'a

definition run_then :: "'a outcome \<Rightarrow> ('a \<Rightarrow> 'b outcome) \<Rightarrow> 'b outcome" where
  "run_then m f = (case m of Waiting \<Rightarrow> Waiting | Raised x \<Rightarrow> Raised x | AssertFailed \<Rightarrow> AssertFailed | Returned a \<Rightarrow> f a)"

definition assert_that :: "bool \<Rightarrow> bench \<Rightarrow> bench outcome" where
  "assert_that c b = (if c then Returned b else AssertFailed)"

definition with_rstn :: "sig_value \<Rightarrow> clock_edge \<Rightarrow> clock_edge" where
  "with_rstn v e =
     e\<lparr>ee_link := (ee_link e)\<lparr>ed_dut := (ed_dut (ee_link e))\<lparr>do_rstn := v\<rparr>\<rparr>, ee_axi := (ee_axi e)\<lparr>ax_rstn := v\<rparr>\<rparr>"

definition settle :: "bench \<Rightarrow> c2xm_env result" where
  "settle b = (case be_due b of None \<Rightarrow> Inr (be_env b) | Some e \<Rightarrow> env_edge e (be_env b))"

definition next_edge :: "bench \<Rightarrow> bench outcome" where
  "next_edge b =
     (case be_polls b of
        [] \<Rightarrow> Waiting
      | p # ps \<Rightarrow>
          let e = with_rstn (be_rstn b) (po_edge p)
          in case and_then (settle b) (\<lambda>env. if po_first p then Inr (env, Some e) else and_then (env_edge e env) (\<lambda>env. Inr (env, None))) of
               Inl x \<Rightarrow> Raised x
             | Inr (env, due) \<Rightarrow> Returned (b\<lparr>be_env := env, be_due := due, be_dut := Some (ed_dut (ee_link e)), be_polls := ps\<rparr>))"

fun await_edges :: "nat \<Rightarrow> bench \<Rightarrow> bench outcome" where
  "await_edges 0 b = Returned b"
| "await_edges (Suc n) b = run_then (next_edge b) (await_edges n)"

section \<open>The helpers\<close>

definition start_clock :: "bench \<Rightarrow> bench outcome" where
  "start_clock b = await_edges 2 b"

definition reset_dut :: "bench \<Rightarrow> bench outcome" where
  "reset_dut b =
     run_then (await_edges (nat (max 2 (RESET_HOLD_NS div CLK_PERIOD_NS))) (b\<lparr>be_rstn := Resolved 0\<rparr>)) (\<lambda>b.
       await_edges 4 (b\<lparr>be_rstn := Resolved 1\<rparr>))"

text \<open>The number of polls is that of the additions of a clock period until the time-out is reached.\<close>

definition polls_in :: "int \<Rightarrow> nat" where
  "polls_in timeout_ns = nat ((timeout_ns + CLK_PERIOD_NS - 1) div CLK_PERIOD_NS)"

fun wait_for :: "nat \<Rightarrow> (bench \<Rightarrow> bool) \<Rightarrow> bench \<Rightarrow> (bool \<times> bench) outcome" where
  "wait_for 0 cond b = Returned (False, b)"
| "wait_for (Suc n) cond b = run_then (next_edge b) (\<lambda>b. if cond b then Returned (True, b) else wait_for n cond b)"

definition link_active :: "bench \<Rightarrow> bool" where
  "link_active b = (case be_dut b of None \<Rightarrow> False | Some d \<Rightarrow> high (do_chi_rx_run d) \<and> high (do_chi_tx_run d))"

definition wait_link_up :: "bench \<Rightarrow> (bool \<times> bench) outcome" where
  "wait_link_up b = wait_for (polls_in LINK_UP_TIMEOUT_NS) link_active b"

definition drain_link :: "bench \<Rightarrow> bench outcome" where
  "drain_link b = await_edges (nat (max 1 (DRAIN_NS div CLK_PERIOD_NS))) b"

definition txrsp_opcodes :: "bench \<Rightarrow> int list" where
  "txrsp_opcodes b = map tx_opcode (lb_txrsp_history (tb_bfm (ce_driver (be_env b))))"

definition chi_count :: "string \<Rightarrow> bench \<Rightarrow> int" where
  "chi_count k b = (case map_of (chi_counts (be_env b)) k of None \<Rightarrow> 0 | Some n \<Rightarrow> n)"

definition axi_count :: "string \<Rightarrow> bench \<Rightarrow> int" where
  "axi_count k b = (case map_of (axi_counts (be_env b)) k of None \<Rightarrow> 0 | Some n \<Rightarrow> n)"

text \<open>\<^verbatim>\<open>send_flit\<close> waits while the adaptor's fifo is full.\<close>

lemma next_edge_polls: "next_edge b = Returned b' \<Longrightarrow> length (be_polls b) = Suc (length (be_polls b'))"
  by (auto simp: next_edge_def Let_def split: list.splits sum.splits)

function send_flit :: "flit \<Rightarrow> bench \<Rightarrow> bench outcome" where
  "send_flit f b =
     (case env_push f (be_env b) of
        (True, env) \<Rightarrow> Returned (b\<lparr>be_env := env\<rparr>)
      | (False, env) \<Rightarrow> (case next_edge b of Returned b \<Rightarrow> send_flit f b | m \<Rightarrow> m))"
  by pat_completeness auto
termination by (relation "measure (\<lambda>(f, b). length (be_polls b))") (auto dest: next_edge_polls)

declare send_flit.simps [simp del]

section \<open>The tests\<close>

definition bring_up :: "bench \<Rightarrow> bench outcome" where
  "bring_up b =
     run_then (start_clock b) (\<lambda>b. run_then (reset_dut b) (\<lambda>b. run_then (wait_link_up b) (\<lambda>(up, b). assert_that up b)))"

definition smoke_test :: "bench \<Rightarrow> bench outcome" where
  "smoke_test b =
     run_then (bring_up b) (\<lambda>b. run_then (drain_link b) (\<lambda>b.
       assert_that (chi_count ''txrsp'' b = 0 \<and> chi_count ''txdat'' b = 0) b))"

definition test_read_flit :: raw_req where
  "test_read_flit = make_read_no_snp 1 0x1000 GEM5_SRCID C2XM_NODEID SIZE_64B DEFAULT_QOS 0 0 None 1 False"

definition read_test :: "bench \<Rightarrow> bench outcome" where
  "read_test b =
     run_then (bring_up b) (\<lambda>b. run_then (send_flit (ReqFlit test_read_flit) b) (\<lambda>b.
     run_then (wait_for (polls_in 4000) (\<lambda>b. axi_count ''ar'' b \<ge> 1) b) (\<lambda>(got_ar, b).
     run_then (wait_for (polls_in 4000) (\<lambda>b. chi_count ''txdat'' b \<ge> 1) b) (\<lambda>(got_data, b).
       assert_that (got_ar \<and> got_data \<and> chi_count ''rxreq'' b = 1) b))))"

definition test_write_flit :: raw_req where
  "test_write_flit = make_write_no_snp 0 0x2000 GEM5_SRCID C2XM_NODEID SIZE_64B DEFAULT_QOS 0 0 None 1 False"

definition test_write_beat :: "int \<Rightarrow> int \<Rightarrow> raw_dat" where
  "test_write_beat index data_id =
     make_write_data 0 ((0x1000 * (index + 1)) OR (index AND 0xFF)) GEM5_SRCID C2XM_NODEID data_id 0 (Some (push_bit 32 1 - 1)) 0x3 0 0"

definition write_test :: "bench \<Rightarrow> bench outcome" where
  "write_test b =
     run_then (bring_up b) (\<lambda>b. run_then (send_flit (ReqFlit test_write_flit) b) (\<lambda>b.
     run_then (wait_for (polls_in 4000)
         (\<lambda>b. TEST_OPC_DBIDRESP \<in> set (txrsp_opcodes b) \<or> TEST_OPC_COMPDBIDRESP \<in> set (txrsp_opcodes b)) b) (\<lambda>(got_dbid, b).
     run_then (assert_that got_dbid b) (\<lambda>b.
     run_then (send_flit (DatFlit (test_write_beat 0 0)) b) (\<lambda>b. run_then (send_flit (DatFlit (test_write_beat 1 2)) b) (\<lambda>b.
     run_then (wait_for (polls_in 4000) (\<lambda>b. axi_count ''aw'' b \<ge> 1) b) (\<lambda>(got_aw, b).
     run_then (wait_for (polls_in 4000) (\<lambda>b. axi_count ''w'' b \<ge> 2) b) (\<lambda>(got_w, b).
     run_then (wait_for (polls_in 4000) (\<lambda>b. axi_count ''b'' b \<ge> 1) b) (\<lambda>(got_b, b).
     run_then (wait_for (polls_in 4000) (\<lambda>b. TEST_OPC_COMP \<in> set (txrsp_opcodes b)) b) (\<lambda>(got_comp, b).
       assert_that (got_aw \<and> got_w \<and> got_b \<and> got_comp \<and> chi_count ''rxdat'' b = 2) b))))))))))"

text \<open>The environment as the tests build it, before the clock is started.\<close>

definition bench_init :: "sig_value \<Rightarrow> poll list \<Rightarrow> bench" where
  "bench_init rstn ps =
     \<lparr>be_env = env_connect (env_build False True), be_due = None, be_dut = None, be_rstn = rstn, be_polls = ps\<rparr>"

section \<open>What every operation keeps\<close>

text \<open>The counters of the link monitor are the lengths of what it has published, and those of the AXI monitor only grow.\<close>

definition chi_counted :: "chi_mon \<Rightarrow> bool" where
  "chi_counted m \<longleftrightarrow>
     cm_rxreq_count m = int (length (cm_rxreq_ap m)) \<and> cm_rxdat_count m = int (length (cm_rxdat_ap m)) \<and>
     cm_txrsp_count m = int (length (cm_txrsp_ap m)) \<and> cm_txdat_count m = int (length (cm_txdat_ap m))"

definition axi_grown :: "axi_mon \<Rightarrow> axi_mon \<Rightarrow> bool" where
  "axi_grown m m' \<longleftrightarrow>
     am_aw_count m \<le> am_aw_count m' \<and> am_w_count m \<le> am_w_count m' \<and> am_b_count m \<le> am_b_count m' \<and>
     am_ar_count m \<le> am_ar_count m' \<and> am_r_count m \<le> am_r_count m'"

lemma chi_counted_edge: "chi_counted m \<Longrightarrow> chi_counted (chi_mon_edge p d m)"
  by (simp add: chi_counted_def chi_mon_edge_def monitor_rxreq_def monitor_rxdat_def monitor_txrsp_def monitor_txdat_def
      split: option.split)

lemma axi_grown_edge: "axi_grown m m' \<Longrightarrow> axi_grown m (axi_mon_edge d p m')"
  by (simp add: axi_grown_def axi_mon_edge_def monitor_aw_def monitor_w_def monitor_b_def monitor_ar_def monitor_r_def Let_def)

lemma axi_grown_refl: "axi_grown m m"
  by (simp add: axi_grown_def)

definition env_keeps :: "flit list \<Rightarrow> axi_mon \<Rightarrow> c2xm_env \<Rightarrow> bool" where
  "env_keeps pushed m env \<longleftrightarrow> standalone_inv pushed env \<and> chi_counted (ce_chi_mon env) \<and> axi_grown m (ce_axi_mon env)"

lemma env_keeps_edge:
  assumes "env_keeps pushed m env"
  obtains env' where "env_edge e env = Inr env'" "env_keeps pushed m env'"
proof -
  obtain env' where e: "env_edge e env = Inr env'" "standalone_inv pushed env'"
    using standalone_edge [of pushed env e] assms by (auto simp: env_keeps_def)
  then have "ce_chi_mon env' = chi_mon_edge (lb_pins (tb_bfm (ce_driver env))) (ed_dut (ee_link e)) (ce_chi_mon env)"
    "ce_axi_mon env' = axi_mon_edge (ee_axi e) (slave_pins (ee_axi_pins e) (ce_axi_slave env)) (ce_axi_mon env)"
    by (auto simp: env_edge_def Let_def)
  then show thesis using that e assms chi_counted_edge axi_grown_edge by (simp add: env_keeps_def)
qed

lemma env_keeps_push:
  assumes "env_keeps pushed m env" "env_push f env = (ok, env')"
  shows "env_keeps (if ok then pushed @ [f] else pushed) m env'"
proof -
  have "ce_chi_mon env' = ce_chi_mon env" "ce_axi_mon env' = ce_axi_mon env"
    using assms(2) by (auto simp: env_push_def split: front.splits if_splits prod.splits)
  then show ?thesis using assms standalone_push [of pushed env f ok env'] by (simp add: env_keeps_def)
qed

text \<open>An operation started with \<open>len\<close> edges to come: it does not raise, waits only when there are fewer than \<open>n\<close>, and leaves all but \<open>n\<close>
  of them.\<close>

definition behaves :: "('a \<Rightarrow> bench) \<Rightarrow> nat \<Rightarrow> flit list \<Rightarrow> axi_mon \<Rightarrow> nat \<Rightarrow> 'a outcome \<Rightarrow> bool" where
  "behaves st n pushed m len out \<longleftrightarrow>
     (case out of
        Waiting \<Rightarrow> len < n
      | Raised x \<Rightarrow> False
      | AssertFailed \<Rightarrow> True
      | Returned a \<Rightarrow> env_keeps pushed m (be_env (st a)) \<and> len \<le> length (be_polls (st a)) + n)"

lemma behaves_then:
  assumes "behaves st n pushed m len out"
    and "\<And>a. out = Returned a \<Longrightarrow> env_keeps pushed m (be_env (st a)) \<Longrightarrow> behaves st' k pushed' m' (length (be_polls (st a))) (f a)"
  shows "behaves st' (n + k) pushed' m' len (run_then out f)"
proof (cases out)
  case (Returned a)
  then have "behaves st' k pushed' m' (length (be_polls (st a))) (f a)" "len \<le> length (be_polls (st a)) + n"
    using assms by (auto simp: behaves_def)
  then show ?thesis using Returned by (auto simp: behaves_def run_then_def split: outcome.splits)
qed (use assms(1) in \<open>simp_all add: behaves_def run_then_def\<close>)

lemma behaves_less: "behaves st n pushed m len out \<Longrightarrow> n \<le> n' \<Longrightarrow> behaves st n' pushed m len out"
  by (auto simp: behaves_def split: outcome.splits)

lemma behaves_next:
  assumes "env_keeps pushed m (be_env b)"
  shows "behaves (\<lambda>b. b) 1 pushed m (length (be_polls b)) (next_edge b)"
proof (cases "be_polls b")
  case (Cons p ps)
  obtain env where s: "settle b = Inr env" "env_keeps pushed m env"
  proof (cases "be_due b")
    case None
    then show ?thesis using that assms by (simp add: settle_def)
  next
    case (Some e)
    obtain env' where "env_edge e (be_env b) = Inr env'" "env_keeps pushed m env'" by (rule env_keeps_edge [OF assms])
    then show ?thesis using that Some by (simp add: settle_def)
  qed
  let ?e = "with_rstn (be_rstn b) (po_edge p)"
  obtain env' where "env_edge ?e env = Inr env'" "env_keeps pushed m env'" by (rule env_keeps_edge [OF s(2)])
  then show ?thesis using s Cons by (simp add: behaves_def next_edge_def Let_def)
qed (simp add: behaves_def next_edge_def)

lemma behaves_edges:
  "env_keeps pushed m (be_env b) \<Longrightarrow> behaves (\<lambda>b. b) n pushed m (length (be_polls b)) (await_edges n b)"
proof (induction n arbitrary: b)
  case (Suc n)
  then show ?case using behaves_then [OF behaves_next [OF Suc.prems], of "\<lambda>b. b" n pushed m "await_edges n"] by simp
qed (simp add: behaves_def)

lemma behaves_wait:
  "env_keeps pushed m (be_env b) \<Longrightarrow> behaves snd n pushed m (length (be_polls b)) (wait_for n cond b)"
proof (induction n arbitrary: b)
  case (Suc n)
  have "behaves snd n pushed m (length (be_polls b1)) (if cond b1 then Returned (True, b1) else wait_for n cond b1)"
    if "env_keeps pushed m (be_env b1)" for b1 using Suc.IH [OF that] that by (simp add: behaves_def)
  then show ?case
    using behaves_then [OF behaves_next [OF Suc.prems], of snd n pushed m "\<lambda>b. if cond b then Returned (True, b) else wait_for n cond b"]
    by simp
qed (simp add: behaves_def)

lemma behaves_assert: "env_keeps pushed m (be_env b) \<Longrightarrow> behaves (\<lambda>b. b) 0 pushed m (length (be_polls b)) (assert_that c b)"
  by (simp add: behaves_def assert_that_def)

lemma wait_for_cond: "wait_for n cond b = Returned (True, b') \<Longrightarrow> cond b'"
  by (induction n arbitrary: b) (auto simp: run_then_def split: outcome.splits if_splits)

text \<open>As long as few flits have been sent the fifo has room.\<close>

lemma behaves_send:
  assumes "env_keeps pushed m (be_env b)" "length pushed < FIFO_SIZE"
  shows "behaves (\<lambda>b. b) 0 (pushed @ [f]) m (length (be_polls b)) (send_flit f b)"
proof -
  obtain fs a ts past where i: "ce_front (be_env b) = HandMade fs a ts" "pushed = past @ fs"
    using assms(1) by (auto simp: env_keeps_def standalone_inv_def)
  then have "length fs < FIFO_SIZE" using assms(2) by simp
  then obtain env where p: "env_push f (be_env b) = (True, env)" using i(1) by (cases "adaptor_pump (fs @ [f]) a ts (ce_driver (be_env b))")
    (simp add: env_push_def)
  from env_keeps_push [OF assms(1) p] show ?thesis by (simp add: send_flit.simps [of f b] p behaves_def)
qed

section \<open>The tests end\<close>

lemma test_polls [simp]:
  "polls_in 4000 = 1000" "polls_in LINK_UP_TIMEOUT_NS = 1000" "nat (max 2 (RESET_HOLD_NS div CLK_PERIOD_NS)) = 25"
  "nat (max 1 (DRAIN_NS div CLK_PERIOD_NS)) = 500"
  by (simp_all add: polls_in_def CLK_PERIOD_NS_def LINK_UP_TIMEOUT_NS_def RESET_HOLD_NS_def DRAIN_NS_def)

lemma run_then_assoc: "run_then (run_then m f) g = run_then m (\<lambda>a. run_then (f a) g)"
  by (simp add: run_then_def split: outcome.split)

text \<open>The operations as rules for what follows them.\<close>

lemma then_edges:
  assumes "env_keeps pushed m (be_env b)" "len = length (be_polls b)"
    and "\<And>b. env_keeps pushed m (be_env b) \<Longrightarrow> behaves st k pushed' m (length (be_polls b)) (f b)"
  shows "behaves st (n + k) pushed' m len (run_then (await_edges n b) f)"
  using behaves_then [OF behaves_edges [OF assms(1), of n], of st k pushed' m f] assms(2,3) by simp

lemma then_wait:
  assumes "env_keeps pushed m (be_env b)" "len = length (be_polls b)"
    and "\<And>got b. env_keeps pushed m (be_env b) \<Longrightarrow> behaves st k pushed' m (length (be_polls b)) (f (got, b))"
  shows "behaves st (n + k) pushed' m len (run_then (wait_for n cond b) f)"
  using behaves_then [OF behaves_wait [OF assms(1), of n cond], of st k pushed' m f] assms(2,3) by auto

lemma then_send:
  assumes "env_keeps pushed m (be_env b)" "len = length (be_polls b)" "length pushed < FIFO_SIZE"
    and "\<And>b. env_keeps (pushed @ [g]) m (be_env b) \<Longrightarrow> behaves st k pushed' m (length (be_polls b)) (f b)"
  shows "behaves st k pushed' m len (run_then (send_flit g b) f)"
  using behaves_then [OF behaves_send [OF assms(1,3), of g], of st k pushed' m f] assms(2,4) by simp

lemma then_assert:
  assumes "env_keeps pushed m (be_env b)" "len = length (be_polls b)"
    and "\<And>b. env_keeps pushed m (be_env b) \<Longrightarrow> behaves st k pushed' m (length (be_polls b)) (f b)"
  shows "behaves st k pushed' m len (run_then (assert_that c b) f)"
  using behaves_then [OF behaves_assert [OF assms(1), of c], of st k pushed' m f] assms(2,3) by simp

lemma last_assert:
  "env_keeps pushed m (be_env b) \<Longrightarrow> len = length (be_polls b) \<Longrightarrow> behaves (\<lambda>b. b) 0 pushed m len (assert_that c b)"
  using behaves_assert by simp

lemmas test_rules = then_edges then_wait then_send then_assert last_assert

lemma then_bring_up:
  assumes "env_keeps [] m (be_env b)" "len = length (be_polls b)"
    and "\<And>b. env_keeps [] m (be_env b) \<Longrightarrow> behaves st k pushed m (length (be_polls b)) (f b)"
  shows "behaves st (1031 + k) pushed m len (run_then (bring_up b) f)"
proof -
  have "behaves st (2 + (25 + (4 + (1000 + k)))) pushed m len (run_then (bring_up b) f)"
    unfolding bring_up_def run_then_assoc start_clock_def reset_dut_def wait_link_up_def test_polls case_prod_beta
    by (intro test_rules) (use assms in simp_all)
  then show ?thesis by simp
qed

lemma tests_behave:
  assumes "env_keeps [] m (be_env b)" "len = length (be_polls b)"
  shows "behaves (\<lambda>b. b) 1531 [] m len (smoke_test b)"
    "behaves (\<lambda>b. b) 3031 [ReqFlit test_read_flit] m len (read_test b)"
    "behaves (\<lambda>b. b) 6031 [ReqFlit test_write_flit, DatFlit (test_write_beat 0 0), DatFlit (test_write_beat 1 2)] m len (write_test b)"
proof -
  have "behaves (\<lambda>b. b) (1031 + (500 + 0)) [] m len (smoke_test b)"
    unfolding smoke_test_def drain_link_def test_polls by (intro then_bring_up test_rules) (use assms in simp_all)
  then show "behaves (\<lambda>b. b) 1531 [] m len (smoke_test b)" by simp
  have "behaves (\<lambda>b. b) (1031 + (1000 + (1000 + 0))) ([] @ [ReqFlit test_read_flit]) m len (read_test b)"
    unfolding read_test_def test_polls case_prod_beta by (intro then_bring_up test_rules) (use assms in \<open>auto simp: FIFO_SIZE_def\<close>)
  then show "behaves (\<lambda>b. b) 3031 [ReqFlit test_read_flit] m len (read_test b)" by simp
  have "behaves (\<lambda>b. b) (1031 + (1000 + (1000 + (1000 + (1000 + (1000 + 0))))))
      ((([] @ [ReqFlit test_write_flit]) @ [DatFlit (test_write_beat 0 0)]) @ [DatFlit (test_write_beat 1 2)]) m len (write_test b)"
    unfolding write_test_def test_polls case_prod_beta by (intro then_bring_up test_rules) (use assms in \<open>auto simp: FIFO_SIZE_def\<close>)
  then show "behaves (\<lambda>b. b) 6031 [ReqFlit test_write_flit, DatFlit (test_write_beat 0 0), DatFlit (test_write_beat 1 2)] m len (write_test b)"
    by simp
qed

lemma bench_start: "env_keeps [] axi_mon_init (be_env (bench_init rstn ps))"
proof -
  have "standalone_inv [] (be_env (bench_init rstn ps))" using standalone_start by (simp add: bench_init_def)
  then show ?thesis
    by (simp add: env_keeps_def bench_init_def env_connect_def env_build_def chi_counted_def chi_mon_init_def axi_grown_refl)
qed


section \<open>What a pass means\<close>

lemma run_then_Returned: "run_then m f = Returned x \<longleftrightarrow> (\<exists>a. m = Returned a \<and> f a = Returned x)"
  by (cases m) (simp_all add: run_then_def)

lemma assert_Returned: "assert_that c b = Returned x \<longleftrightarrow> c \<and> x = b"
  by (auto simp: assert_that_def)

abbreviation chi_seen :: "bench \<Rightarrow> chi_mon" where
  "chi_seen b \<equiv> ce_chi_mon (be_env b)"

abbreviation axi_seen :: "bench \<Rightarrow> axi_mon" where
  "axi_seen b \<equiv> ce_axi_mon (be_env b)"

lemma keeps_self: "env_keeps pushed m env \<Longrightarrow> env_keeps pushed (ce_axi_mon env) env"
  by (simp add: env_keeps_def axi_grown_refl)

lemma wait_Returned:
  assumes "wait_for n cond b = Returned (got, b')" "env_keeps pushed m (be_env b)"
  shows "env_keeps pushed m' (be_env b') \<longleftrightarrow> axi_grown m' (axi_seen b')" "axi_grown (axi_seen b) (axi_seen b')" "got \<Longrightarrow> cond b'"
proof -
  have "env_keeps pushed (axi_seen b) (be_env b')"
    using behaves_wait [OF keeps_self [OF assms(2)], of n cond] assms(1) by (simp add: behaves_def)
  then show "env_keeps pushed m' (be_env b') \<longleftrightarrow> axi_grown m' (axi_seen b')" "axi_grown (axi_seen b) (axi_seen b')"
    by (simp_all add: env_keeps_def)
  show "got \<Longrightarrow> cond b'" using wait_for_cond [of n cond b b'] assms(1) by (cases got) simp_all
qed

lemma counts:
  assumes "env_keeps pushed m (be_env b)"
  shows "chi_count ''rxreq'' b = int (length (cm_rxreq_ap (chi_seen b)))" "chi_count ''rxdat'' b = int (length (cm_rxdat_ap (chi_seen b)))"
    "chi_count ''txrsp'' b = int (length (cm_txrsp_ap (chi_seen b)))" "chi_count ''txdat'' b = int (length (cm_txdat_ap (chi_seen b)))"
    "axi_count ''aw'' b = am_aw_count (axi_seen b)" "axi_count ''w'' b = am_w_count (axi_seen b)"
    "axi_count ''b'' b = am_b_count (axi_seen b)" "axi_count ''ar'' b = am_ar_count (axi_seen b)"
  using assms by (simp_all add: env_keeps_def chi_counted_def chi_count_def chi_counts_def axi_count_def axi_counts_def Let_def)

text \<open>The test flits become transactions.\<close>

lemma test_flits [simp]:
  "request_flits [ReqFlit test_read_flit] = [test_read_flit]" "data_flits [ReqFlit test_read_flit] = []"
  "request_flits [ReqFlit test_write_flit, DatFlit (test_write_beat 0 0), DatFlit (test_write_beat 1 2)] = [test_write_flit]"
  "data_flits [ReqFlit test_write_flit, DatFlit (test_write_beat 0 0), DatFlit (test_write_beat 1 2)] =
     [test_write_beat 0 0, test_write_beat 1 2]"
  by (simp_all add: request_flits_def data_flits_def test_read_flit_def test_write_flit_def test_write_beat_def make_read_no_snp_def
      make_write_no_snp_def make_write_data_def opcode_defs SIZE_64B_def raw_req_default_def raw_dat_default_def)

lemma prefix_full: "prefix xs ys \<Longrightarrow> length xs = length ys \<Longrightarrow> xs = ys"
  by (auto simp: prefix_def)

lemma smoke_pass:
  assumes "smoke_test (bench_init rstn ps) = Returned b"
  shows "cm_rxreq_ap (chi_seen b) = [] \<and> cm_rxdat_ap (chi_seen b) = [] \<and> cm_txrsp_ap (chi_seen b) = [] \<and> cm_txdat_ap (chi_seen b) = []"
proof -
  have k: "env_keeps [] axi_mon_init (be_env b)"
    using tests_behave(1) [OF bench_start [of rstn ps] refl] assms by (simp add: behaves_def)
  then have "standalone_inv [] (be_env b)" by (simp add: env_keeps_def)
  from standalone_seen(1,2) [OF this] have "cm_rxreq_ap (chi_seen b) = []" "cm_rxdat_ap (chi_seen b) = []"
    by (simp_all add: request_flits_def data_flits_def)
  moreover have "chi_count ''txrsp'' b = 0" "chi_count ''txdat'' b = 0"
    using assms by (auto simp: smoke_test_def run_then_Returned assert_Returned)
  ultimately show ?thesis using counts(3,4) [OF k] by simp
qed

lemma read_pass:
  assumes "read_test (bench_init rstn ps) = Returned b"
  shows "cm_rxreq_ap (chi_seen b) = [rxreq_wire test_read_flit] \<and> cm_rxdat_ap (chi_seen b) = [] \<and>
    1 \<le> am_ar_count (axi_seen b) \<and> cm_txdat_ap (chi_seen b) \<noteq> []"
proof -
  let ?fs = "[ReqFlit test_read_flit]"
  have k: "env_keeps ?fs axi_mon_init (be_env b)"
    using tests_behave(2) [OF bench_start [of rstn ps] refl] assms by (simp add: behaves_def)
  then have i: "standalone_inv ?fs (be_env b)" by (simp add: env_keeps_def)
  obtain b1 b2 b3 where r: "bring_up (bench_init rstn ps) = Returned b1" "send_flit (ReqFlit test_read_flit) b1 = Returned b2"
    "wait_for 1000 (\<lambda>b. axi_count ''ar'' b \<ge> 1) b2 = Returned (True, b3)"
    "wait_for 1000 (\<lambda>b. chi_count ''txdat'' b \<ge> 1) b3 = Returned (True, b)" "chi_count ''rxreq'' b = 1"
    using assms by (auto simp: read_test_def run_then_Returned assert_Returned)
  have k1: "env_keeps [] axi_mon_init (be_env b1)"
    using then_bring_up [OF bench_start [of rstn ps] refl, of "\<lambda>b. b" 0 "[]" Returned] r(1) by (simp add: behaves_def run_then_def)
  have k2: "env_keeps ?fs axi_mon_init (be_env b2)"
    using behaves_send [OF k1, of "ReqFlit test_read_flit"] r(2) by (simp add: behaves_def FIFO_SIZE_def)
  have k3: "env_keeps ?fs (axi_seen b2) (be_env b3)" using wait_Returned(1,2) [OF r(3) k2] by simp
  have "axi_count ''ar'' b3 \<ge> 1" using wait_Returned(3) [OF r(3) k2] by simp
  moreover have "am_ar_count (axi_seen b3) \<le> am_ar_count (axi_seen b)" using wait_Returned(2) [OF r(4) k3] by (simp add: axi_grown_def)
  moreover have "chi_count ''txdat'' b \<ge> 1" using wait_Returned(3) [OF r(4) k3] by simp
  moreover have "cm_rxreq_ap (chi_seen b) = [rxreq_wire test_read_flit]"
    using prefix_full [OF standalone_seen(1) [OF i]] r(5) counts(1) [OF k] by simp
  moreover have "cm_rxdat_ap (chi_seen b) = []" using standalone_seen(2) [OF i] by simp
  ultimately show ?thesis using counts(8) [OF k3] counts(4) [OF k] by auto
qed

lemma write_pass:
  assumes "write_test (bench_init rstn ps) = Returned b"
  shows "prefix (cm_rxreq_ap (chi_seen b)) [rxreq_wire test_write_flit] \<and>
    map no_dbid (cm_rxdat_ap (chi_seen b)) = map (\<lambda>d. no_dbid (rxdat_wire d)) [test_write_beat 0 0, test_write_beat 1 2] \<and>
    1 \<le> am_aw_count (axi_seen b) \<and> 2 \<le> am_w_count (axi_seen b) \<and> 1 \<le> am_b_count (axi_seen b) \<and>
    TEST_OPC_COMP \<in> set (txrsp_opcodes b)"
proof -
  let ?w = "[ReqFlit test_write_flit]"
  let ?fs = "[ReqFlit test_write_flit, DatFlit (test_write_beat 0 0), DatFlit (test_write_beat 1 2)]"
  have k: "env_keeps ?fs axi_mon_init (be_env b)"
    using tests_behave(3) [OF bench_start [of rstn ps] refl] assms by (simp add: behaves_def)
  then have i: "standalone_inv ?fs (be_env b)" by (simp add: env_keeps_def)
  obtain b1 b2 b3 b4 b5 b6 b7 b8 cond where r: "bring_up (bench_init rstn ps) = Returned b1"
    "send_flit (ReqFlit test_write_flit) b1 = Returned b2" "wait_for 1000 cond b2 = Returned (True, b3)"
    "send_flit (DatFlit (test_write_beat 0 0)) b3 = Returned b4" "send_flit (DatFlit (test_write_beat 1 2)) b4 = Returned b5"
    "wait_for 1000 (\<lambda>b. axi_count ''aw'' b \<ge> 1) b5 = Returned (True, b6)"
    "wait_for 1000 (\<lambda>b. axi_count ''w'' b \<ge> 2) b6 = Returned (True, b7)"
    "wait_for 1000 (\<lambda>b. axi_count ''b'' b \<ge> 1) b7 = Returned (True, b8)"
    "wait_for 1000 (\<lambda>b. TEST_OPC_COMP \<in> set (txrsp_opcodes b)) b8 = Returned (True, b)" "chi_count ''rxdat'' b = 2"
    using assms unfolding write_test_def run_then_Returned assert_Returned test_polls case_prod_beta by auto
  have k1: "env_keeps [] axi_mon_init (be_env b1)"
    using then_bring_up [OF bench_start [of rstn ps] refl, of "\<lambda>b. b" 0 "[]" Returned] r(1) by (simp add: behaves_def run_then_def)
  have k2: "env_keeps ?w axi_mon_init (be_env b2)"
    using behaves_send [OF k1, of "ReqFlit test_write_flit"] r(2) by (simp add: behaves_def FIFO_SIZE_def)
  have k3: "env_keeps ?w (axi_seen b2) (be_env b3)" using wait_Returned(1,2) [OF r(3) k2] by simp
  have k4: "env_keeps (?w @ [DatFlit (test_write_beat 0 0)]) (axi_seen b2) (be_env b4)"
    using behaves_send [OF k3, of "DatFlit (test_write_beat 0 0)"] r(4) by (simp add: behaves_def FIFO_SIZE_def)
  have k5: "env_keeps ?fs (axi_seen b2) (be_env b5)"
    using behaves_send [OF k4, of "DatFlit (test_write_beat 1 2)"] r(5) by (simp add: behaves_def FIFO_SIZE_def)
  have k6: "env_keeps ?fs (axi_seen b5) (be_env b6)" using wait_Returned(1,2) [OF r(6) k5] by simp
  have k7: "env_keeps ?fs (axi_seen b6) (be_env b7)" using wait_Returned(1,2) [OF r(7) k6] by simp
  have k8: "env_keeps ?fs (axi_seen b7) (be_env b8)" using wait_Returned(1,2) [OF r(8) k7] by simp
  have "1 \<le> am_aw_count (axi_seen b6)" "2 \<le> am_w_count (axi_seen b7)" "1 \<le> am_b_count (axi_seen b8)"
    using wait_Returned(3) [OF r(6) k5] wait_Returned(3) [OF r(7) k6] wait_Returned(3) [OF r(8) k7] counts(5) [OF k6]
      counts(6) [OF k7] counts(7) [OF k8] by simp_all
  moreover have "axi_grown (axi_seen b6) (axi_seen b7)" "axi_grown (axi_seen b7) (axi_seen b8)" "axi_grown (axi_seen b8) (axi_seen b)"
    using wait_Returned(2) [OF r(7) k6] wait_Returned(2) [OF r(8) k7] wait_Returned(2) [OF r(9) k8] by simp_all
  ultimately have "1 \<le> am_aw_count (axi_seen b) \<and> 2 \<le> am_w_count (axi_seen b) \<and> 1 \<le> am_b_count (axi_seen b)"
    unfolding axi_grown_def by linarith
  moreover have "TEST_OPC_COMP \<in> set (txrsp_opcodes b)" using wait_Returned(3) [OF r(9) k8] by simp
  moreover have "map no_dbid (cm_rxdat_ap (chi_seen b)) = map (\<lambda>d. no_dbid (rxdat_wire d)) [test_write_beat 0 0, test_write_beat 1 2]"
    using prefix_full [OF standalone_seen(2) [OF i]] r(10) counts(2) [OF k] by simp
  ultimately show ?thesis using standalone_seen(1) [OF i] by simp
qed

text \<open>
  C14. What a pass of a standalone test says, whatever the device does: after the bring-up test nothing has been on the link in either
  direction; after the read test the link monitor has seen the test's request, as it looks after the wire, and no other request or data,
  and the device has read on its AXI port and returned data; after the write test the two data beats have been seen, in order, with no
  other data and no other request, the device has sent an address and two beats on its AXI port, the slave has answered, and the
  completion has come.
\<close>

theorem standalone_tests_sound:
  "(smoke_test (bench_init rstn ps) = Returned b \<longrightarrow>
      cm_rxreq_ap (chi_seen b) = [] \<and> cm_rxdat_ap (chi_seen b) = [] \<and> cm_txrsp_ap (chi_seen b) = [] \<and> cm_txdat_ap (chi_seen b) = []) \<and>
   (read_test (bench_init rstn ps) = Returned b \<longrightarrow>
      cm_rxreq_ap (chi_seen b) = [rxreq_wire test_read_flit] \<and> cm_rxdat_ap (chi_seen b) = [] \<and>
      1 \<le> am_ar_count (axi_seen b) \<and> cm_txdat_ap (chi_seen b) \<noteq> []) \<and>
   (write_test (bench_init rstn ps) = Returned b \<longrightarrow>
      prefix (cm_rxreq_ap (chi_seen b)) [rxreq_wire test_write_flit] \<and>
      map no_dbid (cm_rxdat_ap (chi_seen b)) = map (\<lambda>d. no_dbid (rxdat_wire d)) [test_write_beat 0 0, test_write_beat 1 2] \<and>
      1 \<le> am_aw_count (axi_seen b) \<and> 2 \<le> am_w_count (axi_seen b) \<and> 1 \<le> am_b_count (axi_seen b) \<and>
      TEST_OPC_COMP \<in> set (txrsp_opcodes b))"
  using smoke_pass read_pass write_pass by blast

text \<open>The witnesses: a run of the read test in which the link comes up, the address is read and data returned.\<close>

definition poll_of :: "dut_out \<Rightarrow> axi_master \<Rightarrow> poll" where
  "poll_of d m = \<lparr>po_edge = demo_clock\<lparr>ee_link := (ee_link demo_clock)\<lparr>ed_dut := d\<rparr>, ee_axi := m\<rparr>, po_first = False\<rparr>"

definition read_polls :: "poll list" where
  "read_polls = replicate 39 (poll_of demo_dut quiet_axi) @
     [poll_of demo_dut (quiet_axi\<lparr>ax_arvalid := Resolved 1\<rparr>),
      poll_of (demo_dut\<lparr>do_txdatfltv := Resolved 1, do_txdatflt := Resolved 0\<rparr>) quiet_axi]"

lemma read_polls_pass: "(case read_test (bench_init (Resolved 1) read_polls) of Returned b \<Rightarrow> True | _ \<Rightarrow> False)"
  by code_simp

theorem standalone_tests_sound_witness:
  "\<exists>b. read_test (bench_init (Resolved 1) read_polls) = Returned b \<and> cm_rxreq_ap (chi_seen b) = [rxreq_wire test_read_flit] \<and>
     cm_rxdat_ap (chi_seen b) = [] \<and> 1 \<le> am_ar_count (axi_seen b) \<and> cm_txdat_ap (chi_seen b) \<noteq> []"
proof -
  obtain b where r: "read_test (bench_init (Resolved 1) read_polls) = Returned b"
    using read_polls_pass by (cases "read_test (bench_init (Resolved 1) read_polls)") auto
  then show ?thesis using standalone_tests_sound [of "Resolved 1" read_polls b] by blast
qed


end
