(* ===== verification/Edge_Steps.thy ===== *)
theory Edge_Steps
  imports Testbench
begin

text \<open>
  An edge of the clock as steps of the runtime.

  At a falling edge the responder and the driver call the agent and the slave on the AXI port calls the broker, several times each,
  and what they send reaches the queue of the transport in the order in which the coroutines happen to run.  Every such edge is a
  sequence of the steps \<^const>\<open>Device\<close> and \<^const>\<open>Port\<close> of \<^theory_text>\<open>Cosim_Runtime\<close>: a call sends one message at most, so
  the calls can be ordered as their messages are.  The slave resumes its own calls only, as \<^const>\<open>port_allowed\<close> demands, because
  its calls and those of the bypass tasks have different ids.
\<close>

section \<open>What a call sends\<close>

text \<open>What the agent queues for gem5 does not depend on what is queued already, and one flit of the device makes one message at most.\<close>

definition put_sent :: "json list \<Rightarrow> snf_agent \<Rightarrow> snf_agent" where
  "put_sent ms a = a\<lparr>ag_sent := ms\<rparr>"

lemma put_sent_sel [simp]:
  "ag_mapper (put_sent ms a) = ag_mapper a" "ag_pending_reqs (put_sent ms a) = ag_pending_reqs a"
  "ag_retrying (put_sent ms a) = ag_retrying a" "ag_txn_queue (put_sent ms a) = ag_txn_queue a"
  "ag_line_bytes (put_sent ms a) = ag_line_bytes a" "ag_dut_nodeid (put_sent ms a) = ag_dut_nodeid a"
  "ag_sent (put_sent ms a) = ms" "ag_connected (put_sent ms a) = ag_connected a" "ag_snf_id (put_sent ms a) = ag_snf_id a"
  "put_sent ms (put_sent ns a) = put_sent ms a" "put_sent (ag_sent a) a = a"
  by (simp_all add: put_sent_def)

lemma put_sent_frame:
  "count f (put_sent ms a) = put_sent ms (count f a)" "with_mapper g (put_sent ms a) = put_sent ms (with_mapper g a)"
  "(put_sent ms a)\<lparr>ag_mapper := m\<rparr> = put_sent ms (a\<lparr>ag_mapper := m\<rparr>)"
  "(put_sent ms a)\<lparr>ag_txn_queue := q\<rparr> = put_sent ms (a\<lparr>ag_txn_queue := q\<rparr>)"
  "(put_sent ms a)\<lparr>ag_pending_reqs := p\<rparr> = put_sent ms (a\<lparr>ag_pending_reqs := p\<rparr>)"
  "(put_sent ms a)\<lparr>ag_retrying := rs\<rparr> = put_sent ms (a\<lparr>ag_retrying := rs\<rparr>)"
  "inc_unsupported (put_sent ms a) = put_sent ms (inc_unsupported a)"
  "agent_complete r (put_sent ms a) = put_sent ms (agent_complete r a)"
  "finish r (put_sent ms a) = put_sent ms (finish r a)"
  by (simp_all add: put_sent_def count_def with_mapper_def inc_unsupported_def agent_complete_def finish_def Let_def)

lemma put_sent_issue: "issue_req req t (put_sent ms a) = (fst (issue_req req t a), put_sent ms (snd (issue_req req t a)))"
  by (simp add: issue_req_def put_sent_frame wire_req_def Let_def split: sum.split option.split prod.split)

lemma put_sent_retry: "retry_pending (put_sent ms a) = put_sent ms (retry_pending a)"
proof -
  have "retry_loop q (put_sent ms a) = (fst (retry_loop q a), put_sent ms (snd (retry_loop q a)))" for q a
    by (induction q a rule: retry_loop.induct) (simp_all add: put_sent_issue put_sent_frame Let_def split: prod.split)
  then show ?thesis by (simp add: retry_pending_def put_sent_frame Let_def split: prod.split)
qed

lemma send_frame:
  "send_to_gem5 m (put_sent ms a) = put_sent (ms @ (if ag_connected a then [JObj m] else [])) a"
  by (simp add: send_to_gem5_def put_sent_def)

definition at_edge :: "agent_event \<Rightarrow> bool" where
  "at_edge ev \<longleftrightarrow> (case ev of TxRsp f \<Rightarrow> True | TxDat f \<Rightarrow> True | TakeTxn \<Rightarrow> True | _ \<Rightarrow> False)"

lemma edge_event_sends:
  assumes "agent_step ev a = Inr a'" "at_edge ev"
  obtains new where "length new \<le> 1" "\<And>ms. agent_step ev (put_sent ms a) = Inr (put_sent (ms @ new) a')"
proof (cases ev)
  case TakeTxn
  then show thesis using that [of "[]"] assms(1) by (auto simp: agent_next_txn_def put_sent_frame split: list.splits)
next
  case (TxRsp f)
  have ack: "on_retry_ack k (put_sent ms a) = put_sent ms (on_retry_ack k a)" for k ms
    by (simp add: on_retry_ack_def put_sent_frame split: option.split)
  have grant: "on_pcrd_grant (put_sent ms a) = put_sent ms (on_pcrd_grant a)" for ms
    by (simp add: on_pcrd_grant_def put_sent_frame put_sent_retry Let_def split: list.split option.split)
  have rsp: "send_rsp r k (put_sent ms b) = put_sent (ms @ (if ag_connected b then [JObj (flit_msg ''rsp'' (rsp_payload b r k))] else []))
      (send_rsp r k b)" for r k ms b
    by (simp add: send_rsp_def put_sent_frame send_frame rsp_payload_def) (simp add: send_to_gem5_def put_sent_def count_def)
  have a': "a' = on_txrsp f a" using assms(1) TxRsp by simp
  let ?out = "\<exists>new. length new \<le> 1 \<and> (\<forall>ms. on_txrsp f (put_sent ms a) = put_sent (ms @ new) a')"
  have one: ?out if "\<And>ms. on_txrsp f (put_sent ms a) = put_sent (ms @ (if c then [x] else [])) a'" for c x
    using that by (intro exI [of _ "if c then [x] else []"]) simp
  have ?out
  proof (cases "f_opcode f = OPC_RETRYACK \<or> f_opcode f = OPC_PCRDGRANT")
    case True
    have "on_txrsp f (put_sent ms a) = put_sent ms a'" for ms using True ack grant by (auto simp: a' on_txrsp_def)
    then show ?thesis by (intro exI [of _ "[]"]) simp
  next
    case False
    show ?thesis
    proof (cases "by_wire_id (ag_mapper a) (f_txnid f)")
      case None
      then have "on_txrsp f (put_sent ms a) = put_sent ms a'" for ms unfolding a' on_txrsp_def using False by simp
      then show ?thesis by (intro exI [of _ "[]"]) simp
    next
      case (Some r)
      consider (buffer) "f_opcode f = OPC_DBIDRESP" | (both) "f_opcode f = OPC_COMPDBIDRESP" | (comp) "f_opcode f = OPC_COMP"
        | (none) "f_opcode f \<notin> {OPC_DBIDRESP, OPC_COMPDBIDRESP, OPC_COMP}" by blast
      then show ?thesis
      proof cases
        case none
        then have "on_txrsp f (put_sent ms a) = put_sent ms a'" for ms unfolding a' on_txrsp_def using False Some by simp
        then show ?thesis by (intro exI [of _ "[]"]) simp
      qed (rule one; use False Some in \<open>simp add: a' on_txrsp_def put_sent_frame rsp Let_def agent_opcodes OPC_COMP_def OPC_COMPDBIDRESP_def OPC_DBIDRESP_def\<close>)+
    qed
  qed
  then show thesis using that TxRsp by auto
next
  case (TxDat f)
  let ?out = "\<exists>new. length new \<le> 1 \<and> (\<forall>ms. on_txdat f (put_sent ms a) = Inr (put_sent (ms @ new) a'))"
  have a': "on_txdat f a = Inr a'" using assms(1) TxDat by simp
  have ?out
  proof (cases "\<exists>r. by_wire_id (ag_mapper a) (f_txnid f) = Some r \<and> r_kind r = KRead")
    case False
    then have "on_txdat f (put_sent ms a) = Inr (put_sent ms a')" for ms
      using a' by (auto simp: on_txdat_def split: option.splits if_splits)
    then show ?thesis by (intro exI [of _ "[]"]) simp
  next
    case True
    then obtain r where r: "by_wire_id (ag_mapper a) (f_txnid f) = Some r" "r_kind r = KRead" by blast
    then obtain beat where b: "bytes_of_ints (slice (dt_data f) 0 DAT_BEAT_BYTES) = Inr beat" using a' by (auto simp: on_txdat_def Let_def)
    define advance where "advance = (\<lambda>r :: txn_record. r\<lparr>r_next_dataid := r_next_dataid r + 1, r_beats_left := r_beats_left r - 1\<rparr>)"
    define flag :: int where "flag = (if r_beats_left (advance r) \<le> 0 then 1 else 0)"
    define a2 where "a2 = count (\<lambda>c. c\<lparr>ac_dat_out := ac_dat_out c + 1\<rparr>) (with_mapper (update_record (f_txnid f) advance) a)"
    define m where "m = flit_msg ''dat'' (dat_payload a2 (advance r) flag (r_next_dataid r) (beat_length r) (slice beat 0 (beat_length r)))"
    have p: "dat_payload (put_sent ms b) x l d n bs = dat_payload b x l d n bs" for ms b x l d n bs by (simp add: dat_payload_def)
    have "on_txdat f (put_sent ms a) = Inr (let a3 = send_to_gem5 m (put_sent ms a2) in if flag \<noteq> 0 then finish (advance r) a3 else a3)" for ms
      using r b by (simp add: on_txdat_def Let_def put_sent_frame p flag_def m_def a2_def advance_def cong: if_cong)
    then have s: "on_txdat f (put_sent ms a) = Inr (put_sent (ms @ (if ag_connected a2 then [JObj m] else []))
        (if flag \<noteq> 0 then finish (advance r) a2 else a2))" for ms
      by (simp add: send_frame put_sent_frame Let_def)
    moreover from s [of "ag_sent a"] have "a' = put_sent (ag_sent a') (if flag \<noteq> 0 then finish (advance r) a2 else a2)" using a' by auto
    ultimately show ?thesis by (intro exI [of _ "if ag_connected a2 then [JObj m] else []"] conjI allI) (simp, metis put_sent_sel(10))
  qed
  then show thesis using that TxDat by auto
qed (use assms in \<open>simp_all add: at_edge_def\<close>)

lemma edge_run_sends:
  "agent_run evs a = Inr a' \<Longrightarrow> list_all at_edge evs \<Longrightarrow>
     \<exists>new. \<forall>ms. agent_run evs (put_sent ms a) = Inr (put_sent (ms @ new) a')"
proof (induction evs arbitrary: a)
  case (Cons ev evs)
  obtain a1 where a1: "agent_step ev a = Inr a1" "agent_run evs a1 = Inr a'" using Cons.prems(1) by auto
  obtain n where n: "\<And>ms. agent_step ev (put_sent ms a) = Inr (put_sent (ms @ n) a1)"
    using edge_event_sends [OF a1(1)] Cons.prems(2) by auto
  obtain new where "\<And>ms. agent_run evs (put_sent ms a1) = Inr (put_sent (ms @ new) a')" using Cons.IH [OF a1(2)] Cons.prems(2) by auto
  then show ?case using n by (intro exI [of _ "n @ new"]) simp
qed (auto intro: exI [of _ "[]"])

lemma port_turn_sends:
  obtains new where "length new \<le> 1" "\<And>ms. port_turn op (b\<lparr>mb_sent := ms\<rparr>) = (port_turn op b)\<lparr>mb_sent := ms @ new\<rparr>"
proof (cases op)
  case (PortRead addr n)
  then show thesis using that [of "[mem_read_msg (mb_next_id b) addr (int n)]"]
    by (simp add: broker_read_def broker_alloc_id_def Let_def)
next
  case (PortWrite addr data strb)
  then show thesis using that [of "[mem_write_msg (mb_next_id b) addr data strb]"]
    by (simp add: broker_write_def broker_alloc_id_def Let_def)
next
  case (PortResume rid c)
  then show thesis using that [of "[]"] by (simp add: broker_resume_def Let_def split: option.split)
qed

lemma port_turns_send: "\<exists>new. \<forall>ms. fold port_turn ops (b\<lparr>mb_sent := ms\<rparr>) = (fold port_turn ops b)\<lparr>mb_sent := ms @ new\<rparr>"
proof (induction ops arbitrary: b)
  case (Cons op ops)
  obtain n where n: "\<And>ms. port_turn op (b\<lparr>mb_sent := ms\<rparr>) = (port_turn op b)\<lparr>mb_sent := ms @ n\<rparr>"
    by (rule port_turn_sends [of op b]) blast
  obtain new where "\<And>ms. fold port_turn ops ((port_turn op b)\<lparr>mb_sent := ms\<rparr>) = (fold port_turn ops (port_turn op b))\<lparr>mb_sent := ms @ new\<rparr>"
    using Cons.IH [of "port_turn op b"] by blast
  then show ?case using n by (intro exI [of _ "n @ new"]) simp
qed (auto intro: exI [of _ "[]"])

section \<open>The calls of an edge in the order of their messages\<close>

text \<open>The first call of an edge into agent or broker as a step, and what is left of the edge.\<close>

lemma agent_first:
  assumes "agent_run (ev # evs) (rt_agent rt) = Inr a" "list_all at_edge (ev # evs)" "rt_clean rt"
  obtains rt1 n a1 where "length n \<le> 1" "rt_step rt (Device ev) rt1" "rt_clean rt1" "rt_tasks rt1 = rt_tasks rt" "rt_broker rt1 = rt_broker rt"
    "agent_run evs (rt_agent rt1) = Inr a1" "ag_sent a = n @ ag_sent a1" "\<And>b ms. gather a1 b ms rt1 = gather a b (n @ ms) rt"
proof -
  obtain a2 where a2: "agent_step ev (rt_agent rt) = Inr a2" "agent_run evs a2 = Inr a" using assms(1) by auto
  have clean: "put_sent [] (rt_agent rt) = rt_agent rt" using assms(3) put_sent_sel(11) [of "rt_agent rt"] by (simp add: rt_clean_def)
  obtain n where n: "length n \<le> 1" "\<And>ms. agent_step ev (put_sent ms (rt_agent rt)) = Inr (put_sent (ms @ n) a2)"
    by (rule edge_event_sends [OF a2(1)]) (use assms(2) in auto)
  have "a2 = put_sent n a2" using n(2) [of "[]"] a2(1) clean by simp
  then have s: "ag_sent a2 = n" by (metis put_sent_sel(7))
  obtain new where new: "\<And>ms. agent_run evs (put_sent ms a2) = Inr (put_sent (ms @ new) a)" using edge_run_sends [OF a2(2)] assms(2) by auto
  have "a = put_sent (n @ new) a" using new [of n] a2(2) s by (metis put_sent_sel(11) sum.inject(2))
  then have sa: "ag_sent a = n @ new" by (metis put_sent_sel(7))
  let ?rt = "put_agent a2 rt"
  show thesis
  proof (rule that [of n ?rt "put_sent new a"])
    show "rt_step rt (Device ev) ?rt" by (rule rt_step.device [OF a2(1)])
    show "agent_run evs (rt_agent ?rt) = Inr (put_sent new a)" using new [of "[]"] by (simp add: put_agent_def put_sent_def)
    show "gather (put_sent new a) b ms ?rt = gather a b (n @ ms) rt" for b ms
      using s by (simp add: gather_def put_agent_def put_sent_def)
  qed (use n(1) sa assms(3) in \<open>simp_all add: put_agent_def rt_clean_def\<close>)
qed

lemma port_first:
  assumes "port_allowed op (rt_tasks rt)" "rt_clean rt" "b = fold port_turn (op # ops) (rt_broker rt)"
  obtains rt1 n b1 where "length n \<le> 1" "rt_step rt (Port op) rt1" "rt_clean rt1" "rt_tasks rt1 = rt_tasks rt" "rt_agent rt1 = rt_agent rt"
    "fold port_turn ops (rt_broker rt1) = b1" "mb_sent b = n @ mb_sent b1" "\<And>a ms. gather a b1 ms rt1 = gather a b (map JObj n @ ms) rt"
proof -
  define b2 where "b2 = port_turn op (rt_broker rt)"
  have clean: "(rt_broker rt)\<lparr>mb_sent := []\<rparr> = rt_broker rt" using assms(2) by (simp add: rt_clean_def)
  obtain n where n: "length n \<le> 1" "\<And>ms. port_turn op ((rt_broker rt)\<lparr>mb_sent := ms\<rparr>) = b2\<lparr>mb_sent := ms @ n\<rparr>"
    unfolding b2_def by (rule port_turn_sends [of op "rt_broker rt"]) blast
  have "b2 = b2\<lparr>mb_sent := n\<rparr>" using n(2) [of "[]"] clean by (simp add: b2_def)
  then have s: "mb_sent b2 = n" by (metis broker.select_convs(5) broker.surjective broker.update_convs(5))
  obtain new where new: "\<And>ms. fold port_turn ops (b2\<lparr>mb_sent := ms\<rparr>) = b\<lparr>mb_sent := ms @ new\<rparr>"
    using port_turns_send [of ops b2] by (auto simp: assms(3) b2_def)
  have "fold port_turn ops b2 = b\<lparr>mb_sent := n @ new\<rparr>" using new [of n] by (simp only: flip: \<open>b2 = b2\<lparr>mb_sent := n\<rparr>\<close>)
  then have "b = b\<lparr>mb_sent := n @ new\<rparr>" by (simp add: assms(3) b2_def)
  then have sb: "mb_sent b = n @ new" by (metis broker.select_convs(5) broker.surjective broker.update_convs(5))
  let ?rt = "put_broker b2 rt"
  show thesis
  proof (rule that [of n ?rt "b\<lparr>mb_sent := new\<rparr>"])
    show "rt_step rt (Port op) ?rt" unfolding b2_def by (rule rt_step.port [OF assms(1)])
    show "fold port_turn ops (rt_broker ?rt) = b\<lparr>mb_sent := new\<rparr>" using new [of "[]"] by (simp add: put_broker_def)
    show "gather a (b\<lparr>mb_sent := new\<rparr>) ms ?rt = gather a b (map JObj n @ ms) rt" for a ms
      using s by (simp add: gather_def put_broker_def)
  qed (use n(1) sb assms(2) in \<open>simp_all add: put_broker_def rt_clean_def\<close>)
qed

lemma first_of_shuffle:
  assumes "ms \<in> shuffles (xs @ as) (ys @ bs)" "length xs \<le> 1" "length ys \<le> 1"
  shows "(\<exists>ms'. ms = xs @ ms' \<and> ms' \<in> shuffles as (ys @ bs)) \<or> (\<exists>ms'. ms = ys @ ms' \<and> ms' \<in> shuffles (xs @ as) bs)"
proof (cases "xs = [] \<or> ys = []")
  case False
  then obtain x y where "xs = [x]" "ys = [y]" using assms(2,3) by (cases xs; cases ys) auto
  then show ?thesis using assms(1) by auto
qed (use assms(1) in auto)

lemma rt_steps_cons: "rt_steps rt1 ls rt2 \<Longrightarrow> rt_step rt l rt1 \<Longrightarrow> rt_steps rt (l # ls) rt2"
proof (induction rule: rt_steps.induct)
  case (none rt1)
  then show ?case using rt_steps.more [OF rt_steps.none] by fastforce
next
  case (more rt1 ls rt' l' rt'')
  then show ?case using rt_steps.more [OF more.IH [OF more.prems] more.hyps(2)] by simp
qed

text \<open>Whatever the calls of an edge send, and in whatever order it reaches the queue, they are steps of the runtime.\<close>

lemma edge_is_steps:
  "agent_run evs (rt_agent rt) = Inr a \<Longrightarrow> list_all at_edge evs \<Longrightarrow> list_all (\<lambda>op. port_allowed op (rt_tasks rt)) ops \<Longrightarrow>
     rt_clean rt \<Longrightarrow> b = fold port_turn ops (rt_broker rt) \<Longrightarrow> ms \<in> shuffles (ag_sent a) (map JObj (mb_sent b)) \<Longrightarrow>
     \<exists>ls. rt_steps rt ls (gather a b ms rt) \<and> list_all is_device ls"
proof (induction "length evs + length ops" arbitrary: rt evs ops ms a b rule: less_induct)
  case less
  let ?goal = "\<exists>ls. rt_steps rt ls (gather a b ms rt) \<and> list_all is_device ls"
  have agent: "\<exists>n as. length n \<le> 1 \<and> ag_sent a = n @ as \<and>
      (\<forall>ms'. ms = n @ ms' \<and> ms' \<in> shuffles as (map JObj (mb_sent b)) \<longrightarrow> ?goal)" if evs: "evs = ev # evs1" for ev evs1
  proof -
    obtain rt1 n a1 where r: "length n \<le> 1" "rt_step rt (Device ev) rt1" "rt_clean rt1" "rt_tasks rt1 = rt_tasks rt" "rt_broker rt1 = rt_broker rt"
      "agent_run evs1 (rt_agent rt1) = Inr a1" "ag_sent a = n @ ag_sent a1" "\<And>b ms. gather a1 b ms rt1 = gather a b (n @ ms) rt"
      by (rule agent_first [OF less.prems(1,2,4) [unfolded evs]]) blast
    have ?goal if m: "ms = n @ ms'" "ms' \<in> shuffles (ag_sent a1) (map JObj (mb_sent b))" for ms'
    proof -
      obtain ls where "rt_steps rt1 ls (gather a1 b ms' rt1)" "list_all is_device ls"
        using less.hyps [OF _ r(6) _ _ r(3) _ m(2), of ops] less.prems evs r(4,5) by auto
      then show ?thesis using rt_steps_cons [OF _ r(2)] r(8) m(1) by (intro exI [of _ "Device ev # ls"]) (simp add: is_device_def)
    qed
    then show ?thesis using r(1,7) by blast
  qed
  have port: "\<exists>n bs. length n \<le> 1 \<and> mb_sent b = n @ bs \<and>
      (\<forall>ms'. ms = map JObj n @ ms' \<and> ms' \<in> shuffles (ag_sent a) (map JObj bs) \<longrightarrow> ?goal)" if ops: "ops = op # ops1" for op ops1
  proof -
    have "port_allowed op (rt_tasks rt)" "b = fold port_turn (op # ops1) (rt_broker rt)" using less.prems(3,5) ops by simp_all
    note first = port_first [OF this(1) less.prems(4) this(2)]
    obtain rt1 n b1 where r: "length n \<le> 1" "rt_step rt (Port op) rt1" "rt_clean rt1" "rt_tasks rt1 = rt_tasks rt" "rt_agent rt1 = rt_agent rt"
      "fold port_turn ops1 (rt_broker rt1) = b1" "mb_sent b = n @ mb_sent b1" "\<And>a ms. gather a b1 ms rt1 = gather a b (map JObj n @ ms) rt"
      by (rule first) blast
    have ?goal if m: "ms = map JObj n @ ms'" "ms' \<in> shuffles (ag_sent a) (map JObj (mb_sent b1))" for ms'
    proof -
      obtain ls where "rt_steps rt1 ls (gather a b1 ms' rt1)" "list_all is_device ls"
        using less.hyps [OF _ _ less.prems(2) _ r(3) r(6) [symmetric] m(2)] less.prems ops r(4,5) by auto
      then show ?thesis using rt_steps_cons [OF _ r(2)] r(8) m(1) by (intro exI [of _ "Port op # ls"]) (simp add: is_device_def)
    qed
    then show ?thesis using r(1,7) by blast
  qed
  show ?case
  proof (cases evs)
    case Nil
    then have a: "a = rt_agent rt" "ag_sent a = []" using less.prems(1,4) by (simp_all add: rt_clean_def)
    show ?thesis
    proof (cases ops)
      case Nil
      then have "gather a b ms rt = rt" using less.prems(4-6) a by (simp add: rt_clean_def gather_def)
      then show ?thesis by (auto intro: exI [of _ "[]"] rt_steps.none)
    next
      case (Cons op ops1)
      then show ?thesis using port less.prems(6) a by fastforce
    qed
  next
    case (Cons ev evs1)
    from agent [OF this] obtain n as where n: "length n \<le> 1" "ag_sent a = n @ as"
      "\<And>ms'. ms = n @ ms' \<Longrightarrow> ms' \<in> shuffles as (map JObj (mb_sent b)) \<Longrightarrow> ?goal" by blast
    show ?thesis
    proof (cases ops)
      case Nil
      then have "mb_sent b = []" using less.prems(4,5) by (simp add: rt_clean_def)
      then show ?thesis using n(2,3) less.prems(6) by simp
    next
      case (Cons op ops1)
      from port [OF this] obtain m bs where m: "length m \<le> 1" "mb_sent b = m @ bs"
        "\<And>ms'. ms = map JObj m @ ms' \<Longrightarrow> ms' \<in> shuffles (ag_sent a) (map JObj bs) \<Longrightarrow> ?goal" by blast
      have "ms \<in> shuffles (n @ as) (map JObj m @ map JObj bs)" using less.prems(6) n(2) m(2) by simp
      from first_of_shuffle [OF this n(1)] m(1) n(2,3) m(2,3) show ?thesis by auto
    qed
  qed
qed

section \<open>The calls of an edge\<close>

text \<open>The calls of an edge into the agent: those of the responder, and the driver's.\<close>

lemma pump_run: "agent_pump a w tb = (a', w', tb') \<Longrightarrow> \<exists>k. agent_run (replicate k TakeTxn) a = Inr a'"
proof (induction a w tb rule: agent_pump.induct)
  case (1 a t tb)
  show ?case
  proof (cases "length (tb_items tb) < FIFO_SIZE")
    case False
    then show ?thesis using 1 by (auto simp: agent_pump.simps(1) intro: exI [of _ 0])
  qed (use 1 in \<open>simp add: agent_pump.simps(1)\<close>)
next
  case (2 a tb)
  show ?case
  proof (cases "ag_txn_queue a")
    case Nil
    then show ?thesis using 2 by (auto simp: agent_pump.simps(2) agent_next_txn_def intro: exI [of _ 0])
  next
    case (Cons t ts)
    have n: "agent_next_txn a = (Some t, a\<lparr>ag_txn_queue := ts\<rparr>)" by (simp add: agent_next_txn_def Cons)
    then obtain k where "agent_run (replicate k TakeTxn) (a\<lparr>ag_txn_queue := ts\<rparr>) = Inr a'"
      using "2.IH" [OF n [symmetric] refl] "2.prems" by (auto simp: agent_pump.simps(2))
    then show ?thesis using n by (intro exI [of _ "Suc k"]) simp
  qed
qed

lemma tx_at_edge: "list_all at_edge (tx_events d)" "list_all at_edge (replicate k TakeTxn)"
  by (auto simp: tx_events_def at_edge_def list_all_iff split: option.split)

lemma falling_events:
  assumes "books arrived s" "falling_edge e s = Inr (a, b, env)"
  obtains evs where "list_all at_edge evs" "agent_run evs (rt_agent (tn_rt s)) = Inr a"
proof -
  let ?a = "rt_agent (tn_rt s)" and ?e = "e\<lparr>ee_broker := (True, rt_broker (tn_rt s))\<rparr>" and ?d = "ed_dut (ee_link e)"
  have edge: "env_edge ?e (lend ?a (tn_env s)) = Inr env" "a = env_snf env" using assms(2) by (auto simp: falling_edge_def Let_def)
  obtain w r where fr: "ce_front (lend ?a (tn_env s)) = FromGem5 ?a w r" "responder_bound r"
    using assms(1) by (auto simp: lend_inv) (auto simp: lend_def)
  obtain tb fr' tb' where f: "front_edge ?e (FromGem5 ?a w r) tb = Inr (fr', tb')" "ce_front env = fr'"
    using edge(1) fr(1) by (auto simp: env_edge_def Let_def)
  have respond: "agent_run (tx_events ?d) a1 = Inr a1'" if "respond_edge ?d (r, a1) = Inr (r', a1')" for a1 a1' r'
    by (rule respond_edge_agent [OF fr(2), of ?d a1]; use that in simp)
  show thesis
  proof (cases "ee_agent_first e")
    case True
    obtain a1 w1 tb1 where p: "agent_pump ?a w tb = (a1, w1, tb1)" by (metis prod_cases3)
    obtain k where k: "agent_run (replicate k TakeTxn) ?a = Inr a1" using pump_run [OF p] by blast
    obtain r' a' where "respond_edge ?d (r, a1) = Inr (r', a')" "fr' = FromGem5 a' w1 r'"
      using f(1) True p by (auto simp: front_edge_def)
    then show thesis
      using that [of "replicate k TakeTxn @ tx_events ?d"] tx_at_edge k respond edge(2) f(2) by (simp add: agent_run_append env_snf_def)
  next
    case False
    then obtain r' a1 a' w' where rs: "respond_edge ?d (r, ?a) = Inr (r', a1)" "agent_pump a1 w tb = (a', w', tb')" "fr' = FromGem5 a' w' r'"
      using f(1) by (auto simp: front_edge_def split: prod.splits)
    obtain k where "agent_run (replicate k TakeTxn) a1 = Inr a'" using pump_run [OF rs(2)] by blast
    then show thesis
      using that [of "tx_events ?d @ replicate k TakeTxn"] tx_at_edge respond [OF rs(1)] edge(2) f(2) rs(3)
      by (simp add: agent_run_append env_snf_def)
  qed
qed

section \<open>Whose calls of the broker\<close>

text \<open>Calls of the slave on the AXI port and of bypass tasks have different ids, all of them taken.\<close>

definition port_calls :: "c2xm_env \<Rightarrow> int set" where
  "port_calls env = (case ce_axi_slave env of ProxySlave px \<Rightarrow> slave_calls px | _ \<Rightarrow> {})"

definition task_calls :: "runtime \<Rightarrow> int set" where
  "task_calls rt = set (concat (map task_ids (rt_tasks rt)))"

definition apart :: "int set \<Rightarrow> int set \<Rightarrow> broker \<Rightarrow> bool" where
  "apart T C b \<longleftrightarrow> T \<inter> C = {} \<and> T \<union> C \<subseteq> {..< mb_next_id b}"

abbreviation calls_apart :: "testbench \<Rightarrow> bool" where
  "calls_apart s \<equiv> apart (task_calls (tn_rt s)) (port_calls (tn_env s)) (rt_broker (tn_rt s))"

lemma begin_id:
  "broker_read addr n b = (rid, b') \<or> broker_write addr' data strb b = (rid, b') \<Longrightarrow> rid = mb_next_id b \<and> mb_next_id b' = rid + 1"
  by (auto simp: broker_read_def broker_write_def broker_alloc_id_def Let_def)

lemma resume_next: "broker_resume rid c b = (r, b') \<Longrightarrow> mb_next_id b' = mb_next_id b"
  by (auto simp: broker_resume_def Let_def split: option.splits if_splits)

lemma falling_calls:
  assumes "calls_apart s" "falling_edge e s = Inr (a, b, env)"
  obtains ops where "list_all (\<lambda>op. port_allowed op (rt_tasks (tn_rt s))) ops" "b = fold port_turn ops (rt_broker (tn_rt s))"
    "apart (task_calls (tn_rt s)) (port_calls env) b"
proof -
  let ?b = "rt_broker (tn_rt s)" and ?T = "task_calls (tn_rt s)"
  let ?ok = "list_all (\<lambda>op. port_allowed op (rt_tasks (tn_rt s)))"
  define P where "P I b \<longleftrightarrow> (\<exists>ops. ?ok ops \<and> b = fold port_turn ops ?b) \<and> apart ?T I b" for I b
  have call: "P (insert rid I) b'" if "P I b" "port_turn op b = b'" "port_allowed op (rt_tasks (tn_rt s))"
    "rid = mb_next_id b \<and> mb_next_id b' = rid + 1" for rid I b b' op
  proof -
    from that(1) obtain ops where "?ok ops" "b = fold port_turn ops ?b" by (auto simp: P_def)
    then have "?ok (ops @ [op])" "b' = fold port_turn (ops @ [op]) ?b" using that(2,3) by simp_all
    moreover have "apart ?T (insert rid I) b'" using that(1,4) by (fastforce simp: P_def apart_def)
    ultimately show ?thesis unfolding P_def by blast
  qed
  have rd: "P (insert rid I) b'" if "P I b" "broker_read addr (int n) b = (rid, b')" for addr n I b rid b'
    by (rule call [OF that(1) _ _ begin_id [OF disjI1 [OF that(2)]], of "PortRead addr n"]) (simp_all add: that(2) port_allowed_def)
  have wr: "P (insert rid I) b'" if "P I b" "broker_write addr data strb b = (rid, b')" for addr data strb I b rid b'
    by (rule call [OF that(1) _ _ begin_id [OF disjI2 [OF that(2)]], of "PortWrite addr data strb"]) (simp_all add: that(2) port_allowed_def)
  have resume: "P I b'" if "P I b" "rid \<in> I" "broker_resume rid c b = (r, b')" for rid c I b r b'
  proof -
    from that(1) obtain ops where "?ok ops" "b = fold port_turn ops ?b" by (auto simp: P_def)
    moreover have "port_allowed (PortResume rid c) (rt_tasks (tn_rt s))"
      using that(1,2) by (auto simp: P_def apart_def port_allowed_def task_calls_def)
    ultimately have "?ok (ops @ [PortResume rid c])" "b' = fold port_turn (ops @ [PortResume rid c]) ?b" using that(3) by simp_all
    moreover have "apart ?T I b'" using that(1) resume_next [OF that(3)] by (simp add: P_def apart_def)
    ultimately show ?thesis unfolding P_def by blast
  qed
  have fewer: "P J b" if "P I b" "J \<subseteq> I" for I J b using that by (auto simp: P_def apart_def)
  have start: "P (port_calls (tn_env s)) ?b" using assms(1) by (auto simp: P_def intro: exI [of _ "[]"])
  let ?env = "lend (rt_agent (tn_rt s)) (tn_env s)"
  have slave: "ce_axi_slave ?env = ce_axi_slave (tn_env s)" by (simp add: lend_def split: front.split)
  have edge: "b = port_edge e ?env ?b" "ce_axi_slave env = slave_edge (e\<lparr>ee_broker := (True, ?b)\<rparr>) (ce_axi_slave (tn_env s))"
    using assms(2) slave by (auto simp: falling_edge_def env_edge_def Let_def)
  have "P (port_calls env) b"
  proof (cases "ce_axi_slave (tn_env s)")
    case (ProxySlave px)
    let ?px = "px\<lparr>px_bound := True\<rparr>"
    obtain px' b' where p: "proxy_edge (ee_axi e) (?px, ?b) = (px', b')" by fastforce
    have "P (slave_calls ?px) ?b" using start ProxySlave by (simp add: port_calls_def slave_calls_def)
    from proxy_edge_calls [of P, OF rd wr resume fewer this p] have "P (slave_calls px') b'" .
    then show ?thesis using edge p ProxySlave slave by (simp add: port_calls_def port_edge_def slave_edge_def proxy_step_def)
  qed (use start edge slave in \<open>simp_all add: port_calls_def port_edge_def slave_edge_def\<close>)
  then show thesis using that by (auto simp: P_def)
qed

lemma falling_is_steps:
  assumes "books arrived s" "calls_apart s" "rt_clean (tn_rt s)" "falling_edge e s = Inr (a, b, env)"
    "ms \<in> shuffles (ag_sent a) (map JObj (mb_sent b))"
  obtains ls where "rt_steps (tn_rt s) ls (gather a b ms (tn_rt s))" "list_all is_device ls"
proof -
  obtain evs where "list_all at_edge evs" "agent_run evs (rt_agent (tn_rt s)) = Inr a" by (rule falling_events [OF assms(1,4)])
  moreover obtain ops where "list_all (\<lambda>op. port_allowed op (rt_tasks (tn_rt s))) ops" "b = fold port_turn ops (rt_broker (tn_rt s))"
    by (rule falling_calls [OF assms(2,4)])
  ultimately show thesis using edge_is_steps [OF _ _ _ assms(3) _ assms(5)] that by blast
qed

text \<open>The software starts calls with new ids only.\<close>

definition ids_grow :: "runtime \<Rightarrow> runtime \<Rightarrow> bool" where
  "ids_grow rt rt' \<longleftrightarrow>
     mb_next_id (rt_broker rt) \<le> mb_next_id (rt_broker rt') \<and>
     task_calls rt' \<subseteq> task_calls rt \<union> {mb_next_id (rt_broker rt) ..< mb_next_id (rt_broker rt')}"

lemma apart_grow: "ids_grow rt rt' \<Longrightarrow> apart (task_calls rt) C (rt_broker rt) \<Longrightarrow> apart (task_calls rt') C (rt_broker rt')"
  by (fastforce simp: ids_grow_def apart_def)

lemma ids_grow_same: "rt_tasks rt' = rt_tasks rt \<Longrightarrow> mb_next_id (rt_broker rt') = mb_next_id (rt_broker rt) \<Longrightarrow> ids_grow rt rt'"
  by (simp add: ids_grow_def task_calls_def)

lemma route_ids:
  assumes "route msg rt = Inr rt'"
  shows "task_calls rt' = task_calls rt \<and> mb_next_id (rt_broker rt') = mb_next_id (rt_broker rt)"
  using assms
  by (auto simp: route_def route_flit_def put_agent_def put_broker_def broker_deliver_def task_calls_def Let_def split: if_splits option.splits)

lemma dispatch_ids: "ids_grow rt (dispatcher_turn msg rt)"
  by (auto simp: dispatcher_turn_def ids_grow_def task_calls_def dest!: route_ids split: sum.split)

lemma loop_parts_ids:
  "rt_tasks (acknowledge rt) = rt_tasks rt" "rt_broker (acknowledge rt) = rt_broker rt"
  "rt_tasks (barrier_finish rt) = rt_tasks rt" "rt_broker (barrier_finish rt) = rt_broker rt"
  "rt_tasks (next_cycle n rt) = rt_tasks rt" "rt_broker (next_cycle n rt) = rt_broker rt"
  "rt_tasks (park_or_finish rt) = rt_tasks rt" "rt_broker (park_or_finish rt) = rt_broker rt"
  by (simp_all add: acknowledge_def barrier_finish_def next_cycle_def park_or_finish_def rt_send_def Let_def)

lemma loop_ids: "rt_tasks (barrier_turn rt) = rt_tasks rt \<and> rt_broker (barrier_turn rt) = rt_broker rt"
  by (simp add: barrier_turn_def parked_turn_def end_cycle_def wake_def barrier_top_def put_agent_def loop_parts_ids Let_def
      split: barrier_phase.split)

lemma task_ids_grow: "ids_grow rt (task_turn i rt)"
proof (cases "i < length (rt_tasks rt)")
  case True
  define xs t ys where "xs = take i (rt_tasks rt)" "t = rt_tasks rt ! i" "ys = drop (Suc i) (rt_tasks rt)"
  have ts: "rt_tasks rt = xs @ t # ys" "length xs = i" using True by (simp_all add: xs_t_ys_def id_take_nth_drop)
  have upd: "(rt_tasks rt)[i := u] = xs @ u # ys" "rt_tasks (drop_task i rt) = xs @ ys" for u
    by (simp_all add: ts(1) ts(2) [symmetric] drop_task_def)
  have "task_calls (drop_task i rt) \<subseteq> task_calls rt" unfolding task_calls_def upd(2) ts(1) by auto
  moreover have "rt_broker (drop_task i rt) = rt_broker rt" by (simp add: drop_task_def)
  ultimately have dropped: "ids_grow rt (drop_task i rt)" by (auto simp: ids_grow_def)
  have replaced: "ids_grow rt (put_broker b (rt\<lparr>rt_tasks := (rt_tasks rt)[i := u]\<rparr>))"
    if "mb_next_id (rt_broker rt) \<le> mb_next_id b"
      "set (task_ids u) \<subseteq> set (task_ids t) \<union> {mb_next_id (rt_broker rt) ..< mb_next_id b}" for b u
  proof -
    let ?ids = "\<lambda>us. set (concat (map task_ids us))"
    have "task_calls (put_broker b (rt\<lparr>rt_tasks := (rt_tasks rt)[i := u]\<rparr>)) = ?ids xs \<union> (set (task_ids u) \<union> ?ids ys)"
      by (simp add: task_calls_def put_broker_def upd(1))
    moreover have "task_calls rt = ?ids xs \<union> (set (task_ids t) \<union> ?ids ys)" by (simp add: task_calls_def ts(1))
    ultimately show ?thesis using that unfolding ids_grow_def by (simp only: put_broker_def) auto
  qed
  have started: "ids_grow rt (started i r rt)"
    if "\<And>t b'. r = Inr (t, b') \<Longrightarrow> mb_next_id b' = mb_next_id (rt_broker rt) + 1 \<and> task_ids t = [mb_next_id (rt_broker rt)]" for r
  proof (cases r)
    case (Inr p)
    obtain u b where p: "p = (u, b)" by fastforce
    have "mb_next_id b = mb_next_id (rt_broker rt) + 1" "task_ids u = [mb_next_id (rt_broker rt)]" using that Inr p by blast+
    then have "ids_grow rt (put_broker b (rt\<lparr>rt_tasks := (rt_tasks rt)[i := u]\<rparr>))" by (intro replaced) simp_all
    then show ?thesis by (simp add: started_def Inr p)
  qed (simp add: started_def dropped)
  show ?thesis
  proof (cases t)
    case (WaitMem k rid c)
    obtain r b where r: "broker_resume rid c (rt_broker rt) = (r, b)" by fastforce
    have "ids_grow rt (put_broker b (drop_task i rt))" using dropped resume_next [OF r]
      by (simp add: put_broker_def drop_task_def ids_grow_def task_calls_def)
    moreover have "ids_grow rt (put_broker b (rt\<lparr>rt_tasks := (rt_tasks rt)[i := WaitMem k rid c']\<rparr>))" for c'
      using replaced [of b "WaitMem k rid c'"] resume_next [OF r] WaitMem by simp
    moreover have "ids_grow rt (rt_send m (rt'\<lparr>rt_bypass_served := n\<rparr>)) = ids_grow rt rt'" for m rt' n
      by (simp add: ids_grow_def task_calls_def rt_send_def)
    ultimately show ?thesis using True r xs_t_ys_def(2) [symmetric] WaitMem by (simp add: task_turn_def Let_def split: sum.split)
  next
    case (StartRead m)
    have "task_turn i rt = started i (start_bypass_read m (rt_broker rt)) rt"
      using True xs_t_ys_def(2) [symmetric] StartRead by (simp add: task_turn_def)
    moreover have "mb_next_id b' = mb_next_id (rt_broker rt) + 1 \<and> task_ids t' = [mb_next_id (rt_broker rt)]"
      if "start_bypass_read m (rt_broker rt) = Inr (t', b')" for t' b'
      using that by (auto simp: start_bypass_read_def dest!: begin_id [OF disjI1] split: prod.splits)
    ultimately show ?thesis using started by metis
  next
    case (StartWrite m)
    have "task_turn i rt = started i (start_bypass_write m (rt_broker rt)) rt"
      using True xs_t_ys_def(2) [symmetric] StartWrite by (simp add: task_turn_def)
    moreover have "mb_next_id b' = mb_next_id (rt_broker rt) + 1 \<and> task_ids t' = [mb_next_id (rt_broker rt)]"
      if "start_bypass_write m (rt_broker rt) = Inr (t', b')" for t' b'
      using that by (auto simp: start_bypass_write_def dest!: begin_id [OF disjI2] split: prod.splits)
    ultimately show ?thesis using started by metis
  qed
qed (simp add: task_turn_def ids_grow_same)

lemma apart_step:
  assumes "tb_step s l s'" "calls_apart s"
  shows "calls_apart s'"
  using assms(1)
proof cases
  case (software l1 rt)
  from software(3) have "ids_grow (tn_rt s) rt"
    by cases (use software(4) dispatch_ids task_ids_grow loop_ids ids_grow_same in \<open>auto simp: is_device_def\<close>)
  from apart_grow [OF this assms(2)] show ?thesis by (simp add: software)
next
  case (falling e a b env ms)
  have "apart (task_calls (tn_rt s)) (port_calls env) b" by (rule falling_calls [OF assms(2) falling(4)])
  then show ?thesis by (simp add: falling(2) gather_def task_calls_def apart_def)
qed

section \<open>The start\<close>

text \<open>Until the broker is bound the slave calls nobody.\<close>

lemma unbound_edge:
  assumes "slave_calls px = {}" "\<not> px_bound px"
  shows "slave_calls (fst (proxy_edge d (px, b))) = {}"
proof -
  have w: "proxy_b_next q (s, b) = (s', b') \<Longrightarrow> \<not> px_bound s \<Longrightarrow> b_calls (px_b s') = {} \<and> px_r s' = px_r s \<and> px_bound s' = px_bound s"
    for q s s' b b'
    by (induction q "(s, b)" arbitrary: s b rule: proxy_b_next.induct) (auto simp: write_done_def)
  have bound: "px_bound (read_done ar data resp s) = px_bound s" for ar data resp s by (simp add: read_done_def Let_def)
  have r: "proxy_r_next q (s, b) = (s', b') \<Longrightarrow> \<not> px_bound s \<Longrightarrow> r_calls (px_r s') = {} \<and> px_b s' = px_b s" for q s s' b b'
  proof (induction q "(s, b)" arbitrary: s b rule: proxy_r_next.induct)
    case (2 ar q s b)
    then show ?case by (cases "px_r (read_done ar (replicate (burst_bytes ar) 0) 0 (s\<lparr>px_ar_queue := q\<rparr>)) = PrWait")
        (auto simp: Let_def bound)
  qed auto
  have b: "b_calls (px_b s') = {} \<and> px_r s' = px_r s \<and> px_bound s' = px_bound s"
    if "proxy_b (s, b) = (s', b')" "\<not> px_bound s" "b_calls (px_b s) = {}" for s s' b b'
    using that w by (cases "px_b s") (auto simp: proxy_b_def)
  have r': "r_calls (px_r s') = {} \<and> px_b s' = px_b s"
    if "proxy_r d (s, b) = (s', b')" "\<not> px_bound s" "r_calls (px_r s) = {}" for s s' b b'
  proof (cases "px_r s")
    case (PrHold ar data resp n)
    then show ?thesis using that r [of _ "s\<lparr>px_pins := (px_pins s)\<lparr>xp_rvalid := 0\<rparr>\<rparr>" b s' b']
      by (auto simp: proxy_r_def Let_def split: if_splits)
  qed (use that r in \<open>auto simp: proxy_r_def\<close>)
  have same: "px_bound (proxy_w d s) = px_bound s" "px_bound (proxy_aw d s) = px_bound s" "px_bound (proxy_ar d s) = px_bound s"
    "px_bound (proxy_d d s) = px_bound s" for s
    by (simp_all add: proxy_w_def proxy_aw_def proxy_ar_def proxy_d_def proxy_d_next_def Let_def split: list.split sum.split proxy_d_phase.split)
  show ?thesis
  proof (cases "px_started px")
    case True
    obtain s1 b1 where 1: "proxy_b (proxy_w d (proxy_aw d px), b) = (s1, b1)" by fastforce
    obtain s2 b2 where 2: "proxy_r d (proxy_ar d (proxy_d d s1), b1) = (s2, b2)" by fastforce
    have "b_calls (px_b s1) = {}" "px_r s1 = px_r px" "\<not> px_bound s1"
      using b [OF 1] assms by (simp_all add: slave_calls_def same)
    then have "slave_calls s2 = {}" using r' [OF 2] assms by (simp add: slave_calls_def same)
    then show ?thesis using True 1 2 by (simp add: proxy_edge_def Let_def)
  qed (use assms in \<open>simp add: proxy_edge_def slave_calls_def\<close>)
qed

lemma training_calls: "env_run (training es) env = Inr (fs, env') \<Longrightarrow> port_calls env = {} \<Longrightarrow> port_calls env' = {}"
proof (induction es arbitrary: env)
  case (Cons e es)
  obtain env1 where s: "env_edge (e\<lparr>ee_broker := (False, broker_init)\<rparr>) env = Inr env1" "env_run (training es) env1 = Inr (fs, env')"
    using Cons.prems(1) by (auto simp: training_def)
  have "ce_axi_slave env1 = slave_edge (e\<lparr>ee_broker := (False, broker_init)\<rparr>) (ce_axi_slave env)"
    using s(1) by (auto simp: env_edge_def Let_def)
  moreover have "slave_calls (px\<lparr>px_bound := False\<rparr>) = slave_calls px" for px by (simp add: slave_calls_def)
  ultimately have "port_calls env1 = {}"
    using Cons.prems(2) unbound_edge by (auto simp: port_calls_def slave_edge_def proxy_step_def split: axi_slave.splits)
  then show ?case by (rule Cons.IH [OF s(2)])
qed (simp add: training_def)

lemma await_ids:
  "await_message kind ms rt = Some (Inr (m, rt')) \<Longrightarrow> task_calls rt' = task_calls rt \<and> mb_next_id (rt_broker rt') = mb_next_id (rt_broker rt)"
  by (induction kind ms rt rule: await_message.induct) (auto split: if_splits sum.splits dest: route_ids)

lemma start_apart:
  assumes "tb_start e es ms = Some (Inr s)"
  shows "calls_apart s"
proof -
  let ?env = "env_connect (env_build True False)"
  obtain fs env hello rt where r: "env_run (training es) ?env = Inr (fs, env)"
    "await_message ''hello'' ms (put_agent (env_snf env) (runtime_init e)) = Some (Inr (hello, rt))"
    "s = \<lparr>tn_rt = take_hello hello rt, tn_env = env, tn_falling = False\<rparr>"
    using assms by (auto simp: tb_start_def handshake_def split: sum.splits)
  have "port_calls ?env = {}" by (simp add: env_connect_def env_build_def port_calls_def axi_proxy_init_def slave_calls_def)
  then have "port_calls env = {}" by (rule training_calls [OF r(1)])
  moreover have "task_calls rt = {}" using await_ids [OF r(2)] by (simp add: task_calls_def put_agent_def runtime_init_def)
  ultimately show ?thesis by (simp add: r(3) apart_def take_hello_def task_calls_def rt_send_def Let_def)
qed

lemma apart_run: "tb_run s ls rs s' \<Longrightarrow> calls_apart s \<Longrightarrow> calls_apart s'"
  by (induction rule: tb_run.induct) (auto intro: apart_step)

end
