(* ===== verification/Whole_System.thy ===== *)
theory Whole_System
  imports Edge_Steps Cosim_System
begin

text \<open>
  The whole system: the stand-in of gem5, and the testbench with the environment on the clock of the device.

  It puts the two compositions together.  \<^theory_text>\<open>Cosim_System\<close> closes the runtime with gem5 and lets the device call agent and broker at
  any time; \<^theory_text>\<open>Testbench\<close> closes the runtime with the environment and lets any message arrive.  Here the messages are those of
  gem5 and the calls are those of the edges, so a run of the whole is a run of either.
\<close>

section \<open>State and steps\<close>

record whole =
  wh_bench :: testbench
  wh_gem5 :: gem5_side
  wh_up :: nat
  wh_down :: nat
  wh_hung_up :: bool

abbreviation wh_rt :: "whole \<Rightarrow> runtime" where "wh_rt s \<equiv> tn_rt (wh_bench s)"

abbreviation wh_fg :: "whole \<Rightarrow> fake_gem5" where "wh_fg s \<equiv> snd (wh_gem5 s)"

text \<open>The two processes, without the environment.\<close>

definition halves :: "whole \<Rightarrow> cosim" where
  "halves s = \<lparr>cs_rt = wh_rt s, cs_gem5 = wh_gem5 s, cs_up = wh_up s, cs_down = wh_down s, cs_hung_up = wh_hung_up s\<rparr>"

definition gem5_moves :: "cosim_label \<Rightarrow> bool" where
  "gem5_moves l \<longleftrightarrow> (case l of Local l \<Rightarrow> False | Down \<Rightarrow> False | _ \<Rightarrow> True)"

definition next_down :: "whole \<Rightarrow> obj option" where
  "next_down s = (let ms = down_stream (halves s) in if wh_down s < length ms then Some (ms ! wh_down s) else None)"

text \<open>A step of the testbench without a message, the next message of gem5 in it, or a step of gem5.\<close>

datatype whole_label = Bench tb_label | Deliver | Gem5 cosim_label

inductive whole_step :: "whole \<Rightarrow> whole_label \<Rightarrow> whole \<Rightarrow> bool" where
  bench: "rt_running (wh_rt s) \<Longrightarrow> tb_step (wh_bench s) l tb \<Longrightarrow> \<forall>m. l \<noteq> Software (Dispatch m) \<Longrightarrow>
     whole_step s (Bench l) (s\<lparr>wh_bench := tb\<rparr>)"
| deliver: "rt_running (wh_rt s) \<Longrightarrow> next_down s = Some m \<Longrightarrow> tb_step (wh_bench s) (Software (Dispatch m)) tb \<Longrightarrow>
     whole_step s Deliver (s\<lparr>wh_bench := tb, wh_down := Suc (wh_down s)\<rparr>)"
| gem5: "cosim_step (halves s) l c \<Longrightarrow> gem5_moves l \<Longrightarrow>
     whole_step s (Gem5 l) (s\<lparr>wh_gem5 := cs_gem5 c, wh_up := cs_up c, wh_hung_up := cs_hung_up c\<rparr>)"

inductive whole_run :: "whole \<Rightarrow> whole_label list \<Rightarrow> whole \<Rightarrow> bool" where
  none: "whole_run s [] s"
| more: "whole_run s ls s' \<Longrightarrow> whole_step s' l s'' \<Longrightarrow> whole_run s (ls @ [l]) s''"

inductive_cases whole_stepE: "whole_step s l s'"

text \<open>The link is trained, gem5 has said hello, and the testbench has taken it.\<close>

definition whole_start :: "runtime_env \<Rightarrow> gem5_args \<Rightarrow> clock_edge list \<Rightarrow> whole option" where
  "whole_start e args es =
     (case tb_start e es (map Some (fg_sent (snd (gem5_start args)))) of
        Some (Inr s) \<Rightarrow> Some \<lparr>wh_bench = s, wh_gem5 = gem5_start args, wh_up = 0, wh_down = 1, wh_hung_up = False\<rparr>
      | _ \<Rightarrow> None)"

text \<open>A device that sends no flit.\<close>

definition silent_edge :: "clock_edge \<Rightarrow> bool" where
  "silent_edge e \<longleftrightarrow> tx_events (ed_dut (ee_link e)) = []"

section \<open>The parts of a run\<close>

text \<open>The label of a step in the composition of the two processes, to which the edges are calls of the device.\<close>

fun cosim_part :: "whole_label \<Rightarrow> cosim_label list" where
  "cosim_part (Bench (Software l)) = [Local l]"
| "cosim_part (Bench (Falling e)) = []"
| "cosim_part Deliver = [Down]"
| "cosim_part (Gem5 l) = [l]"

definition by_device :: "cosim_label \<Rightarrow> bool" where
  "by_device l \<longleftrightarrow> (case l of Local l \<Rightarrow> is_device l | _ \<Rightarrow> False)"

text \<open>The labels of the testbench: a message is the one that is delivered.\<close>

fun bench_part :: "whole_label \<Rightarrow> whole \<Rightarrow> tb_label list" where
  "bench_part (Bench l) s = [l]"
| "bench_part Deliver s = map (\<lambda>m. Software (Dispatch m)) (case next_down s of None \<Rightarrow> [] | Some m \<Rightarrow> [m])"
| "bench_part (Gem5 l) s = []"

definition is_edge :: "whole_label \<Rightarrow> bool" where
  "is_edge l \<longleftrightarrow> (case l of Bench (Falling e) \<Rightarrow> True | _ \<Rightarrow> False)"

lemma halves_sel [simp]:
  "cs_rt (halves s) = wh_rt s" "cs_gem5 (halves s) = wh_gem5 s" "cs_up (halves s) = wh_up s" "cs_down (halves s) = wh_down s"
  "cs_hung_up (halves s) = wh_hung_up s"
  by (simp_all add: halves_def)

lemma halves_upd [simp]: "halves (s\<lparr>wh_bench := tb\<rparr>) = (halves s)\<lparr>cs_rt := tn_rt tb\<rparr>"
  "halves (s\<lparr>wh_bench := tb, wh_down := d\<rparr>) = (halves s)\<lparr>cs_rt := tn_rt tb, cs_down := d\<rparr>"
  by (simp_all add: halves_def)

text \<open>What is kept of the testbench: the books of the agent, the ids, and whose calls are whose.\<close>

definition bench_inv :: "raw_req list \<Rightarrow> testbench \<Rightarrow> bool" where
  "bench_inv arrived s \<longleftrightarrow> books arrived s \<and> numbered (tn_rt s) \<and> calls_apart s"

lemma bench_inv_step: "tb_step s l s' \<Longrightarrow> bench_inv arrived s \<Longrightarrow> bench_inv (arrived @ tb_arrivals l s) s'"
  using books_step numbered_step apart_step by (auto simp: bench_inv_def)

lemma cosim_run_one: "cosim_step s l s' \<Longrightarrow> cosim_run s [l] s'"
  using cosim_run.run [OF cosim_run.idle] by fastforce

text \<open>Calls of the device as steps of the two processes.\<close>

lemma device_runs:
  "rt_steps rt ls rt' \<Longrightarrow> list_all is_device ls \<Longrightarrow> rt_running rt \<Longrightarrow> cs_rt c = rt \<Longrightarrow>
     cosim_run c (map Local ls) (c\<lparr>cs_rt := rt'\<rparr>) \<and> rt_phase rt' = rt_phase rt"
proof (induction rule: rt_steps.induct)
  case (more rt ls rt' l rt'')
  have ih: "cosim_run c (map Local ls) (c\<lparr>cs_rt := rt'\<rparr>)" "rt_phase rt' = rt_phase rt" using more by simp_all
  have dev: "is_device l" using more.prems(1) by simp
  have "rt_phase rt'' = rt_phase rt'"
    using more.hyps(2) by cases (use dev in \<open>simp_all add: is_device_def put_agent_def put_broker_def\<close>)
  moreover have "cosim_step (c\<lparr>cs_rt := rt'\<rparr>) (Local l) (c\<lparr>cs_rt := rt'\<rparr>\<lparr>cs_rt := rt''\<rparr>)"
    by (rule cosim_step.local) (use more.hyps(2) more.prems(2) ih(2) dev in \<open>auto simp: rt_running_def is_device_def\<close>)
  ultimately show ?case using cosim_run.run [OF ih(1)] ih(2) by simp
next
  case (none rt)
  then have "c\<lparr>cs_rt := rt\<rparr> = c" by (cases c) simp
  then show ?case by (simp add: cosim_run.idle)
qed

lemma halves_step:
  assumes "whole_step s l s'" "bench_inv arrived (wh_bench s)"
  shows "\<exists>cls. cosim_run (halves s) cls (halves s') \<and> filter (\<lambda>l. \<not> by_device l) cls = cosim_part l"
  using assms(1)
proof cases
  case (bench l1 tb)
  from bench(4) show ?thesis
  proof cases
    case (software l2 rt)
    have "cosim_step (halves s) (Local l2) ((halves s)\<lparr>cs_rt := rt\<rparr>)"
      by (rule cosim_step.local) (use software bench in auto)
    then show ?thesis using cosim_run_one software bench by (fastforce simp: by_device_def)
  next
    case (falling e a b env ms)
    have "rt_clean (wh_rt s)" using assms(2) by (simp add: bench_inv_def numbered_def)
    from falling_is_steps [OF _ _ this falling(4,5)] assms(2)
    obtain ls where ls: "rt_steps (wh_rt s) ls (gather a b ms (wh_rt s))" "list_all is_device ls"
      unfolding bench_inv_def by blast
    from device_runs [OF ls, of "halves s"] bench(3)
    have "cosim_run (halves s) (map Local ls) (halves s')" by (simp add: bench falling)
    moreover have "filter (\<lambda>l. \<not> by_device l) (map Local ls) = []" using ls(2) by (auto simp: by_device_def list_all_iff filter_empty_conv)
    ultimately show ?thesis using bench falling by auto
  qed
next
  case (deliver m tb)
  from deliver(5) obtain rt where tb: "rt_step (wh_rt s) (Dispatch m) rt" "tn_rt tb = rt" by cases auto
  have m: "wh_down s < length (down_stream (halves s))" "m = down_stream (halves s) ! wh_down s"
    using deliver(4) by (auto simp: next_down_def Let_def split: if_splits)
  have "cosim_step (halves s) Down ((halves s)\<lparr>cs_rt := rt, cs_down := Suc (cs_down (halves s))\<rparr>)"
    by (rule cosim_step.down) (use deliver(3) tb m in auto)
  then show ?thesis using cosim_run_one deliver tb by (fastforce simp: by_device_def)
next
  case (gem5 l1 c)
  have "halves s' = c"
    using gem5(3) by cases (use gem5 in \<open>simp_all add: gem5_moves_def halves_def\<close>)
  then show ?thesis using cosim_run_one [OF gem5(3)] gem5 by (fastforce simp: by_device_def gem5_moves_def split: cosim_label.splits)
qed

lemma bench_part_step:
  assumes "whole_step s l s'"
  shows "tb_run (wh_bench s) (bench_part l s) (concat (map (\<lambda>l. tb_arrivals l (wh_bench s)) (bench_part l s))) (wh_bench s')"
  using assms by cases (use tb_run.more [OF tb_run.none] tb_run.none in \<open>fastforce+\<close>)

section \<open>Whole runs\<close>

lemma tb_run_trans: "tb_run s' ls' rs' s'' \<Longrightarrow> tb_run s ls rs s' \<Longrightarrow> tb_run s (ls @ ls') (rs @ rs') s''"
proof (induction rule: tb_run.induct)
  case (more s1 ls' rs' s' l s'')
  from tb_run.more [OF more.IH [OF more.prems] more.hyps(2)] show ?case by simp
qed simp

lemma bench_inv_run: "tb_run s ls rs s' \<Longrightarrow> bench_inv arrived s \<Longrightarrow> bench_inv (arrived @ rs) s'"
  using books_run numbered_run apart_run by (auto simp: bench_inv_def)

lemma edge_labels: "length (filter is_falling (bench_part l s)) = of_bool (is_edge l)"
  by (cases l) (auto simp: is_falling_def is_edge_def split: tb_label.split option.split)

text \<open>A run of the whole is a run of the testbench, with as many edges.\<close>

lemma whole_bench: "whole_run s ls s' \<Longrightarrow>
    \<exists>tls rs. tb_run (wh_bench s) tls rs (wh_bench s') \<and> length (filter is_falling tls) = length (filter is_edge ls)"
proof (induction rule: whole_run.induct)
  case (more s ls s' l s'')
  then obtain tls rs where ih: "tb_run (wh_bench s) tls rs (wh_bench s')" "length (filter is_falling tls) = length (filter is_edge ls)" by blast
  from tb_run_trans [OF bench_part_step [OF more.hyps(2)] ih(1)] show ?case
    using ih(2) edge_labels [of l s'] by (intro exI conjI) (assumption, cases "is_edge l", simp_all)
next
  case (none s)
  show ?case by (intro exI conjI, rule tb_run.none) simp
qed

text \<open>And of the two processes, in which the edges are calls of the device.\<close>

lemma whole_halves: "whole_run s ls s' \<Longrightarrow> bench_inv arrived (wh_bench s) \<Longrightarrow>
    \<exists>cls. cosim_run (halves s) cls (halves s') \<and> filter (\<lambda>l. \<not> by_device l) cls = concat (map cosim_part ls)"
proof (induction rule: whole_run.induct)
  case (more s ls s' l s'')
  obtain tls rs where "tb_run (wh_bench s) tls rs (wh_bench s')" using whole_bench [OF more.hyps(1)] by blast
  from halves_step [OF more.hyps(2) bench_inv_run [OF this more.prems]] more.IH [OF more.prems] show ?case
    using cosim_run_trans by fastforce
qed (auto intro: cosim_run.idle)

section \<open>The start\<close>

lemma silent_arrivals: "list_all silent_edge es \<Longrightarrow> env_arrivals (training es) env = []"
proof (induction es arbitrary: env)
  case (Cons e es)
  have "event_arrivals (Edge (e\<lparr>ee_broker := (False, broker_init)\<rparr>)) env = []"
    using Cons.prems by (simp add: silent_edge_def split: front.split)
  then show ?case using Cons by (simp add: training_def split: sum.split)
qed (simp add: training_def)

lemma silent_agent:
  "env_run (training es) env = Inr (fs, env') \<Longrightarrow> list_all silent_edge es \<Longrightarrow> ce_front env = FromGem5 agent_init None r \<Longrightarrow>
     responder_bound r \<Longrightarrow> env_snf env' = agent_init"
proof (induction es arbitrary: env r)
  case (Cons e es)
  let ?e = "e\<lparr>ee_broker := (False, broker_init)\<rparr>"
  obtain env1 where s: "env_edge ?e env = Inr env1" "env_run (training es) env1 = Inr (fs, env')"
    using Cons.prems(1) by (auto simp: training_def)
  have pump: "agent_pump agent_init None tb = (agent_init, None, tb)" for tb
    by (simp add: agent_pump.simps(2) agent_next_txn_def agent_init_def)
  obtain r' where r': "respond_edge (ed_dut (ee_link e)) (r, agent_init) = Inr (r', agent_init)" "responder_bound r'"
    using Cons.prems(2) by (cases rule: respond_edge_agent [OF Cons.prems(4), of "ed_dut (ee_link e)" agent_init]) (auto simp: silent_edge_def)
  have "ce_front env1 = FromGem5 agent_init None r'"
    using s(1) Cons.prems(3) by (auto simp: env_edge_def front_edge_def pump r'(1) Let_def split: if_splits)
  from Cons.IH [OF s(2) _ this r'(2)] Cons.prems(2) show ?case by simp
qed (simp add: training_def env_snf_def)

lemma whole_startE:
  assumes "whole_start e args es = Some s" "list_all silent_edge es"
  obtains "tb_start e es [Some (hello_msg args)] = Some (Inr (wh_bench s))" "halves s = cosim_start e args" "bench_inv [] (wh_bench s)"
proof -
  let ?env = "env_connect (env_build True False)"
  have hello: "map Some (fg_sent (snd (gem5_start args))) = [Some (hello_msg args)]"
    by (simp add: gem5_start_def fg_serve_def fg_send_def fake_gem5_init_def)
  have k: "opt_str (hello_msg args) ''t'' = Some ''hello''" by (simp add: hello_msg_def opt_str_def)
  obtain tb where tb: "tb_start e es [Some (hello_msg args)] = Some (Inr tb)"
      "s = \<lparr>wh_bench = tb, wh_gem5 = gem5_start args, wh_up = 0, wh_down = 1, wh_hung_up = False\<rparr>"
    using assms(1) unfolding whole_start_def hello by (auto split: option.splits sum.splits)
  then obtain fs env where r: "env_run (training es) ?env = Inr (fs, env)"
    "tn_rt tb = take_hello (hello_msg args) (put_agent (env_snf env) (runtime_init e))"
    using k by (auto simp: tb_start_def handshake_def split: sum.splits)
  have "ce_front ?env = FromGem5 agent_init None (bind_and_connect responder_init)" "responder_bound (bind_and_connect responder_init)"
    by (simp_all add: env_connect_def env_build_def responder_bound_def bind_and_connect_def responder_init_def)
  then have "env_snf env = agent_init" by (rule silent_agent [OF r(1) assms(2)])
  then have "tn_rt tb = take_hello (hello_msg args) (runtime_init e)"
    using r(2) by (simp add: put_agent_def runtime_init_def agent_init_def)
  then have "halves s = cosim_start e args" by (simp add: tb(2) halves_def cosim_start_def)
  moreover have "bench_inv [] tb"
    using start_books [OF tb(1)] start_numbered [OF tb(1)] start_apart [OF tb(1)] silent_arrivals [OF assms(2)] k by (simp add: bench_inv_def)
  ultimately show thesis using that tb by simp
qed

lemma whole_start_runs:
  assumes "whole_start e args es = Some s" "list_all silent_edge es" "whole_run s ls s'"
  obtains cls where "cosim_run (cosim_start e args) cls (halves s')" "filter (\<lambda>l. \<not> by_device l) cls = concat (map cosim_part ls)"
  using whole_startE [OF assms(1,2)] whole_halves [OF assms(3)] by metis

section \<open>Refinement\<close>


section \<open>One clock\<close>

text \<open>
  C3. Gem5 and the device share a clock: with the clock gated, in every run of the whole system the edges that the environment has
  seen since the handshake are never fewer than the cycles that gem5 has finished and never more than those of its next quantum;
  between two quanta they are the same, or one quantum more when the acknowledgement is still on its way.
\<close>

theorem whole_clock:
  assumes "whole_start e args es = Some s" and "list_all silent_edge es" and "whole_run s ls s'"
    and "\<not> en_free_run e" and "0 \<le> ga_quantum args"
  shows "let q = ga_quantum args; edges = int (length (filter is_edge ls)); now = fg_sync_cycle (wh_fg s')
    in now = q * fg_syncs (wh_fg s') \<and> now \<le> edges \<and> edges \<le> now + q \<and>
       (\<not> in_quantum (wh_rt s') \<longrightarrow> edges = q * int (acks (wh_rt s')) \<and> edges \<in> {now, now + q})"
proof -
  let ?q = "ga_quantum args"
  obtain start: "tb_start e es [Some (hello_msg args)] = Some (Inr (wh_bench s))" "halves s = cosim_start e args" "bench_inv [] (wh_bench s)"
    by (rule whole_startE [OF assms(1,2)])
  have "rt_quantum_cycles (wh_rt s) = ?q"
    using arg_cong [OF start(2), of "\<lambda>c. rt_quantum_cycles (cs_rt c)"]
    by (simp add: cosim_start_def take_hello_def Let_def rt_send_def hello_msg_def get_int_def)
  then have q: "rt_quantum_cycles (wh_rt s) = ?q" "0 \<le> rt_quantum_cycles (wh_rt s)" using assms(5) by simp_all
  obtain tls rs where t: "tb_run (wh_bench s) tls rs (wh_bench s')" "length (filter is_falling tls) = length (filter is_edge ls)"
    using whole_bench [OF assms(3)] by blast
  obtain cls where cls: "cosim_run (cosim_start e args) cls (halves s')" using whole_start_runs [OF assms(1-3)] by blast
  have inv: "cosim_inv ?q (en_max_syncs e) (halves s')" by (rule cosim_run_inv [OF cls cosim_start_inv [OF assms(5)] assms(5)])
  define k where "k = taken (halves s')"
  have g: "fg_sync_cycle (wh_fg s') = ?q * int k" "fg_syncs (wh_fg s') = int k" using inv by (simp_all add: cosim_inv_def gem5_inv_def k_def)
  have c: "k \<le> acks (wh_rt s')" "acks (wh_rt s') + of_bool (in_quantum (wh_rt s')) \<le> Suc k"
    using cosim_counts [OF inv] acks_le [of ?q "en_max_syncs e" "routed (halves s')" "wh_rt s'"] inv
    by (auto simp: k_def cosim_inv_def rt_inv_def)
  note clock = clocked_run [OF t(1) start_clocked [OF start(1) assms(4) q(2)] start_books [OF start(1)] q(2)]
  note n = clocked_edges [OF clock q(2), unfolded q(1)]
  have e: "int (length (filter is_edge ls)) = ?q * int (acks (wh_rt s')) + edges_into (wh_bench s')" using n(1) t(2) by simp
  have now: "fg_sync_cycle (wh_fg s') = ?q * fg_syncs (wh_fg s')" using g by simp
  show ?thesis
  proof (cases "in_quantum (wh_rt s')")
    case True
    then have "acks (wh_rt s') = k" using c by simp
    then show ?thesis using True now g e n(2,3) by (simp add: Let_def)
  next
    case False
    then have "edges_into (wh_bench s') = 0" "acks (wh_rt s') \<in> {k, Suc k}" using n(2,3) c by auto
    then show ?thesis using now g e assms(5) by (auto simp: Let_def distrib_left)
  qed
qed

section \<open>The requests that the agent remembers\<close>

text \<open>Those that wait, those of the records in use, and those that the device has refused.\<close>

definition recorded :: "txn_mapper \<Rightarrow> raw_req set" where
  "recorded m = {req. \<exists>k r. (k, r) \<in> set (m_records m) \<and> r_orig_req r = Some req}"

definition remembered :: "snf_agent \<Rightarrow> raw_req set" where
  "remembered a = fst ` set (ag_pending_reqs a) \<union> recorded (ag_mapper a) \<union> {req. \<exists>r \<in> set (ag_retrying a). r_orig_req r = Some req}"

lemma recorded_cycle: "recorded (mapper_on_cycle m) \<subseteq> recorded m"
proof -
  have "set (snd (release_due c q recs)) \<subseteq> set recs" for c q recs
  proof (induction c q recs rule: release_due.induct)
    case (2 c due w q recs)
    have "set (AList.delete w recs) \<subseteq> set recs" by (induction recs) auto
    then show ?case using 2 by auto
  qed simp
  then have "set (m_records (mapper_on_cycle m)) \<subseteq> set (m_records m)"
    by (simp add: mapper_on_cycle_def Let_def split: prod.split) (metis snd_conv)
  then show ?thesis by (auto simp: recorded_def)
qed

lemma recorded_release [simp]: "recorded (mapper_release w d m) = recorded m"
  by (simp add: recorded_def mapper_release_def)

lemma recorded_update: "(\<And>r. r_orig_req (f r) = r_orig_req r) \<Longrightarrow> recorded (update_record w f m) \<subseteq> recorded m"
  by (auto simp: recorded_def update_record_def split: if_splits) blast+

lemma recordedI: "by_wire_id m w = Some r \<Longrightarrow> r_orig_req r = Some req \<Longrightarrow> req \<in> recorded m"
  by (auto simp: recorded_def by_wire_id_def dest: map_of_SomeD)

lemma set_update: "set (AList.update k v al) \<subseteq> insert (k, v) (set al)"
  by (induction al) auto

lemma recorded_alloc:
  "mapper_alloc kind dep (issue_record req n t) m = (x, m') \<Longrightarrow> recorded m' \<subseteq> insert req (recorded m)"
  using set_update by (fastforce simp: mapper_alloc_def recorded_def issue_record_def Let_def split: if_splits option.splits)

lemma remembered_simps [simp]:
  "remembered (count f a) = remembered a" "remembered (inc_unsupported a) = remembered a" "remembered (send_to_gem5 msg a) = remembered a"
  "remembered (agent_complete r a) = remembered a" "remembered (finish r a) = remembered a" "remembered (send_rsp r k a) = remembered a"
  "remembered (a\<lparr>ag_txn_queue := q\<rparr>) = remembered a" "remembered (a\<lparr>ag_sent := ms\<rparr>) = remembered a"
  by (simp_all add: remembered_def count_def inc_unsupported_def send_to_gem5_def agent_complete_def finish_def with_mapper_def send_rsp_def Let_def)

lemma recorded_issue:
  "recorded (ag_mapper (snd (issue_req req t a))) \<subseteq> insert req (recorded (ag_mapper a)) \<and>
     ag_retrying (snd (issue_req req t a)) = ag_retrying a"
proof (cases rule: issue_req_cases [of req a t])
  case unsupported
  then show ?thesis by (auto simp: inc_unsupported_def count_def)
next
  case (stalled k m)
  then show ?thesis using recorded_alloc by fastforce
next
  case (issued k r m)
  then show ?thesis using recorded_alloc by fastforce
qed

lemma remembered_retry: "remembered (retry_pending a) \<subseteq> remembered a"
proof -
  have loop: "recorded (ag_mapper a') \<subseteq> recorded (ag_mapper a) \<union> fst ` set q \<and> set q' \<subseteq> set q \<and> ag_retrying a' = ag_retrying a"
    if "retry_loop q a = (q', a')" for q q' a'
    using that
  proof (induction q a rule: retry_loop.induct)
    case (2 req t rest a)
    obtain ok a1 where i: "issue_req req t a = (ok, a1)" by fastforce
    show ?case
      using 2 i recorded_issue [of req t a] by (cases ok) (fastforce simp: count_def)+
  qed simp
  obtain q a' where l: "retry_loop (ag_pending_reqs a) a = (q, a')" by fastforce
  show ?thesis using loop [OF l] by (auto simp: retry_pending_def l remembered_def)
qed

text \<open>A call makes the agent remember the request it carries, and asks again only for what it remembers.\<close>

lemma remembered_arrivals:
  assumes "at_edge ev"
  shows "set (arrivals ev a) \<subseteq> remembered a"
proof (cases ev)
  case (TxRsp f)
  show ?thesis
  proof (cases "ag_retrying a")
    case (Cons r rs)
    have "req \<in> remembered a" if "r_orig_req r = Some req" for req using that Cons by (auto simp: remembered_def)
    then show ?thesis unfolding TxRsp arrivals.simps Cons
      by (cases "f_opcode f = OPC_PCRDGRANT"; cases "r_orig_req r") simp_all
  next
    case Nil
    show ?thesis unfolding TxRsp arrivals.simps Nil by (cases "f_opcode f = OPC_PCRDGRANT") simp_all
  qed
qed (use assms in \<open>simp_all add: at_edge_def\<close>)

lemma remembered_step:
  assumes "agent_step ev a = Inr a'"
  shows "remembered a' \<subseteq> remembered a \<union> set (arrivals ev a)"
proof (cases ev)
  case (GemReq p)
  let ?a = "(count (\<lambda>c. c\<lparr>ac_req_in := ac_req_in c + 1\<rparr>) a)\<lparr>ag_pending_reqs := ag_pending_reqs a @ [(req_from_payload p, m_cycle (ag_mapper a))]\<rparr>"
  have "a' = retry_pending ?a" using assms GemReq by (simp add: handle_gem5_req_def Let_def count_def)
  moreover have "remembered ?a = insert (req_from_payload p) (remembered a)" by (auto simp: remembered_def count_def)
  ultimately show ?thesis using remembered_retry [of ?a] GemReq by simp
next
  case (GemDat p)
  then have "handle_gem5_dat p a = Inr a'" using assms by simp
  then have "ag_mapper a' = ag_mapper a \<and> ag_pending_reqs a' = ag_pending_reqs a \<and> ag_retrying a' = ag_retrying a"
    by (auto simp: handle_gem5_dat_def count_def Let_def split: option.splits)
  then show ?thesis by (simp add: remembered_def)
next
  case (TxRsp f)
  have upd: "remembered (with_mapper (update_record k (\<lambda>r. r\<lparr>r_fwd_dbid := r_wire_id r + 1\<rparr>)) a) \<subseteq> remembered a" for k
    using recorded_update [of "\<lambda>r. r\<lparr>r_fwd_dbid := r_wire_id r + 1\<rparr>" k "ag_mapper a"] by (auto simp: remembered_def with_mapper_def)
  have ack: "remembered (on_retry_ack k a) \<subseteq> remembered a" for k
    by (auto simp: on_retry_ack_def remembered_def with_mapper_def intro: recordedI split: option.split)
  have grant: "remembered (on_pcrd_grant a) \<subseteq> remembered a"
  proof (cases "ag_retrying a")
    case (Cons r rs)
    show ?thesis
    proof (cases "r_orig_req r")
      case (Some req)
      let ?a = "a\<lparr>ag_retrying := rs, ag_pending_reqs := ag_pending_reqs a @ [(req, r_start_cycle r)]\<rparr>"
      have "remembered ?a \<subseteq> remembered a" using Cons Some by (auto simp: remembered_def)
      then show ?thesis using remembered_retry [of ?a] Cons Some by (simp add: on_pcrd_grant_def Let_def)
    qed (use Cons in \<open>auto simp: on_pcrd_grant_def remembered_def\<close>)
  qed (simp add: on_pcrd_grant_def)
  have "remembered (on_txrsp f a) \<subseteq> remembered a"
  proof (cases "by_wire_id (ag_mapper a) (f_txnid f)")
    case None
    then show ?thesis using ack grant by (simp add: on_txrsp_def)
  next
    case (Some r)
    then show ?thesis using upd ack grant by (simp add: on_txrsp_def Let_def)
  qed
  moreover have "a' = on_txrsp f a" using assms TxRsp by simp
  ultimately show ?thesis by blast
next
  case (TxDat f)
  have upd: "remembered (with_mapper (update_record k (\<lambda>r. r\<lparr>r_next_dataid := r_next_dataid r + 1, r_beats_left := r_beats_left r - 1\<rparr>)) a)
      \<subseteq> remembered a" for k
    using recorded_update [of "\<lambda>r. r\<lparr>r_next_dataid := r_next_dataid r + 1, r_beats_left := r_beats_left r - 1\<rparr>" k "ag_mapper a"]
    by (auto simp: remembered_def with_mapper_def)
  have "on_txdat f a = Inr a'" using assms TxDat by simp
  then have "remembered a' = remembered a \<or>
      remembered a' = remembered (with_mapper (update_record (f_txnid f) (\<lambda>r. r\<lparr>r_next_dataid := r_next_dataid r + 1, r_beats_left := r_beats_left r - 1\<rparr>)) a)"
    by (auto simp: on_txdat_def Let_def split: option.splits if_splits)
  then show ?thesis using upd by blast
next
  case ClockCycle
  have "remembered (with_mapper mapper_on_cycle a) \<subseteq> remembered a"
    using recorded_cycle [of "ag_mapper a"] by (auto simp: remembered_def with_mapper_def)
  then show ?thesis using assms ClockCycle remembered_retry [of "with_mapper mapper_on_cycle a"] by (auto simp: agent_on_cycle_def)
next
  case TakeTxn
  then show ?thesis using assms by (auto simp: agent_next_txn_def split: list.splits)
qed

lemma remembered_run: "agent_run evs a = Inr a' \<Longrightarrow> list_all at_edge evs \<Longrightarrow> remembered a' \<subseteq> remembered a"
proof (induction evs arbitrary: a)
  case (Cons ev evs)
  obtain a1 where a1: "agent_step ev a = Inr a1" "agent_run evs a1 = Inr a'" using Cons.prems(1) by auto
  have "remembered a1 \<subseteq> remembered a" using remembered_step [OF a1(1)] remembered_arrivals [of ev a] Cons.prems(2) by auto
  then show ?case using Cons.IH [OF a1(2)] Cons.prems(2) by auto
qed simp

section \<open>Requests\<close>

text \<open>The requests in the messages of gem5 that the runtime has taken, and a device that grants a credit for a refused request.\<close>

definition requests_taken :: "whole \<Rightarrow> raw_req list" where
  "requests_taken s = concat (map request_in (take (wh_down s) (down_stream (halves s))))"

definition grants_credit :: "clock_edge \<Rightarrow> bool" where
  "grants_credit e \<longleftrightarrow> (\<exists>f. TxRsp f \<in> set (tx_events (ed_dut (ee_link e))) \<and> f_opcode f = OPC_PCRDGRANT)"

definition may_repeat :: "whole_label \<Rightarrow> bool" where
  "may_repeat l \<longleftrightarrow> (case l of Bench (Falling e) \<Rightarrow> grants_credit e | _ \<Rightarrow> False)"

lemma shuffles_more:
  "zs \<in> shuffles xs ys \<Longrightarrow> zs @ ns \<in> shuffles (xs @ ns) ys" "zs \<in> shuffles xs ys \<Longrightarrow> zs @ ns \<in> shuffles xs (ys @ ns)"
proof -
  have both: "xs @ ys \<in> shuffles xs ys" for xs ys :: "'a list"
    by (induction xs) (auto intro: Cons_in_shuffles_leftI)
  show left: "zs \<in> shuffles xs ys \<Longrightarrow> zs @ ns \<in> shuffles (xs @ ns) ys" for xs ys zs :: "'a list"
    by (induction xs ys arbitrary: zs rule: shuffles.induct) (auto simp: both shuffles_commutes [of ns])
  show "zs \<in> shuffles xs ys \<Longrightarrow> zs @ ns \<in> shuffles xs (ys @ ns)" using left [of zs ys xs] by (simp add: shuffles_commutes)
qed

lemma calls_remember: "calls_agent new rt rt' \<Longrightarrow> remembered (rt_agent rt') \<subseteq> remembered (rt_agent rt) \<union> set new"
  using remembered_step by (fastforce simp: calls_agent_def)

lemma edge_remembers:
  assumes "books arrived s" "falling_edge e s = Inr (a, b, env)"
  shows "remembered a \<subseteq> remembered (rt_agent (tn_rt s))" "set (tb_arrivals (Falling e) s) \<subseteq> remembered (rt_agent (tn_rt s))"
    "\<not> grants_credit e \<Longrightarrow> tb_arrivals (Falling e) s = []"
proof -
  obtain evs where "list_all at_edge evs" "agent_run evs (rt_agent (tn_rt s)) = Inr a" by (rule falling_events [OF assms])
  then show "remembered a \<subseteq> remembered (rt_agent (tn_rt s))" using remembered_run by blast
  show "set (tb_arrivals (Falling e) s) \<subseteq> remembered (rt_agent (tn_rt s))"
    using remembered_arrivals tx_at_edge(1) [of "ed_dut (ee_link e)"] unfolding tb_arrivals_def list_all_iff by fastforce
  assume "\<not> grants_credit e"
  then have "arrivals ev a = []" if "ev \<in> set (tx_events (ed_dut (ee_link e)))" for ev a
    using that by (cases ev) (auto simp: grants_credit_def tx_events_def split: option.splits)
  then show "tb_arrivals (Falling e) s = []" by (simp add: tb_arrivals_def)
qed

text \<open>What a step brings to the agent: the request of the message it takes, or requests that the agent remembers.\<close>

lemma whole_step_requests:
  assumes "whole_step s l s'" "bench_inv arrived (wh_bench s)" "cosim_inv q budget (halves s)"
    and "remembered (rt_agent (wh_rt s)) \<subseteq> set (requests_taken s)"
  defines "rs \<equiv> concat (map (\<lambda>l. tb_arrivals l (wh_bench s)) (bench_part l s))"
  shows "(requests_taken s' = requests_taken s @ rs \<or>
      requests_taken s' = requests_taken s \<and> set rs \<subseteq> set (requests_taken s) \<and> (rs = [] \<or> may_repeat l)) \<and>
    remembered (rt_agent (wh_rt s')) \<subseteq> set (requests_taken s')"
  using assms(1)
proof cases
  case (bench l1 tb)
  have same: "requests_taken s' = requests_taken s" by (simp add: bench requests_taken_def)
  from bench(4) show ?thesis
  proof cases
    case (software l2 rt)
    have none: "tb_arrivals (Software l2) s0 = []" for s0 using bench(5) software by (simp add: tb_arrivals_def split: rt_label.split)
    then have "calls_agent [] (wh_rt s) rt" using software_calls [OF software(3,4)] by metis
    from calls_remember [OF this] assms(4) show ?thesis using same none by (simp add: rs_def bench software)
  next
    case (falling e a b env ms)
    have "books arrived (wh_bench s)" using assms(2) by (simp add: bench_inv_def)
    note r = edge_remembers [OF this falling(4)]
    have "remembered (rt_agent (wh_rt s')) = remembered a" by (simp add: bench falling gather_def)
    then show ?thesis using same r assms(4) by (auto simp: rs_def bench falling may_repeat_def)
  qed
next
  case (deliver m tb)
  have m: "wh_down s < length (down_stream (halves s))" "m = down_stream (halves s) ! wh_down s"
    using deliver(4) by (auto simp: next_down_def Let_def split: if_splits)
  then have taken: "requests_taken s' = requests_taken s @ request_in m"
    by (simp add: deliver requests_taken_def take_Suc_conv_app_nth)
  moreover have "rs = request_in m" using deliver(4) by (simp add: rs_def deliver(1) tb_arrivals_def)
  moreover have "calls_agent (request_in m) (wh_rt s) (wh_rt s')"
    using deliver(5)
  proof cases
    case (software rt)
    from software_calls [OF this(2,3), of "wh_bench s"] software deliver show ?thesis by (simp add: tb_arrivals_def)
  qed
  ultimately show ?thesis using calls_remember assms(4) by fastforce
next
  case (gem5 l1 c)
  have "l1 \<noteq> Down" "l1 \<noteq> Local l2" for l2 using gem5(4) by (auto simp: gem5_moves_def)
  from gem5_step [OF gem5(3) assms(3) this]
  have g: "\<not> gem5_over (halves s)" "sends_on (wh_fg s) (cs_fg c)" "cs_rt c = wh_rt s" "cs_down c = wh_down s" by simp_all
  have "halves s' = c" using g by (simp add: gem5 halves_def)
  moreover have "wh_down s \<le> length (fg_sent (wh_fg s))" using assms(3) g(1) by (simp add: cosim_inv_def down_stream_def)
  ultimately have "requests_taken s' = requests_taken s" using g(1,2) by (auto simp: gem5 requests_taken_def down_stream_def sends_on_def)
  then show ?thesis using assms(4) by (simp add: rs_def gem5)
qed

lemma whole_requests:
  "whole_run s ls s' \<Longrightarrow> bench_inv arrived (wh_bench s) \<Longrightarrow> cosim_inv q budget (halves s) \<Longrightarrow> 0 \<le> q \<Longrightarrow> requests_taken s = [] \<Longrightarrow>
     remembered (rt_agent (wh_rt s)) = {} \<Longrightarrow>
     \<exists>tls rs again. tb_run (wh_bench s) tls rs (wh_bench s') \<and> rs \<in> shuffles (requests_taken s') again \<and>
       set again \<subseteq> set (requests_taken s') \<and> (again = [] \<or> (\<exists>l \<in> set ls. may_repeat l)) \<and>
       remembered (rt_agent (wh_rt s')) \<subseteq> set (requests_taken s')"
proof (induction rule: whole_run.induct)
  case (none s)
  then show ?case by (intro exI [of _ "[]"]) (auto intro: tb_run.none)
next
  case (more s ls s' l s'')
  from more.IH [OF more.prems] obtain tls rs again where ih: "tb_run (wh_bench s) tls rs (wh_bench s')"
    "rs \<in> shuffles (requests_taken s') again" "set again \<subseteq> set (requests_taken s')" "again = [] \<or> (\<exists>l \<in> set ls. may_repeat l)"
    "remembered (rt_agent (wh_rt s')) \<subseteq> set (requests_taken s')" by blast
  have b: "bench_inv (arrived @ rs) (wh_bench s')" by (rule bench_inv_run [OF ih(1) more.prems(1)])
  obtain cls where "cosim_run (halves s) cls (halves s')" using whole_halves [OF more.hyps(1) more.prems(1)] by blast
  then have c: "cosim_inv q budget (halves s')" by (rule cosim_run_inv [OF _ more.prems(2,3)])
  let ?new = "concat (map (\<lambda>l. tb_arrivals l (wh_bench s')) (bench_part l s'))"
  note run = tb_run_trans [OF bench_part_step [OF more.hyps(2)] ih(1)]
  note step = whole_step_requests [OF more.hyps(2) b c ih(5)]
  from step consider "requests_taken s'' = requests_taken s' @ ?new"
    | "requests_taken s'' = requests_taken s'" "set ?new \<subseteq> set (requests_taken s')" "?new = [] \<or> may_repeat l" by blast
  then show ?case
  proof cases
    case 1
    then show ?thesis using run shuffles_more(1) [OF ih(2), of ?new] ih(3,4) step by (intro exI conjI) (assumption | auto)+
  next
    case 2
    then show ?thesis using run shuffles_more(2) [OF ih(2), of ?new] ih(3,4) step
      by (intro exI [of _ "again @ ?new"] exI conjI) (assumption | auto)+
  qed
qed


section \<open>A run\<close>

text \<open>What the testbench does while gem5 waits, as a function: the messages it takes are the next ones of gem5.\<close>

definition bench_turns :: "tb_label list \<Rightarrow> testbench \<Rightarrow> testbench option" where
  "bench_turns ls s = foldl (\<lambda>s l. Option.bind s (\<lambda>s. if rt_running (tn_rt s) then tb_turn l s else None)) (Some s) ls"

fun delivers :: "tb_label list \<Rightarrow> obj list" where
  "delivers (Software (Dispatch m) # ls) = m # delivers ls"
| "delivers (l # ls) = delivers ls"
| "delivers [] = []"

fun in_whole :: "tb_label \<Rightarrow> whole_label" where
  "in_whole (Software (Dispatch m)) = Deliver"
| "in_whole l = Bench l"

lemma delivers_snoc: "delivers (ls @ [l]) = delivers ls @ delivers [l]"
  by (induction ls rule: delivers.induct) auto

lemma bench_turns_run:
  "bench_turns ls (wh_bench s) = Some b \<Longrightarrow> prefix (delivers ls) (drop (wh_down s) (down_stream (halves s))) \<Longrightarrow>
     whole_run s (map in_whole ls) (s\<lparr>wh_bench := b, wh_down := wh_down s + length (delivers ls)\<rparr>)"
proof (induction ls arbitrary: b rule: rev_induct)
  case Nil
  then have "s\<lparr>wh_bench := b\<rparr> = s" by (cases s) (simp add: bench_turns_def)
  then show ?case by (simp add: whole_run.none)
next
  case (snoc l ls)
  obtain b1 where b1: "bench_turns ls (wh_bench s) = Some b1" "rt_running (tn_rt b1)" "tb_turn l b1 = Some b"
    using snoc.prems(1) by (auto simp: bench_turns_def Option.bind_eq_Some_conv split: if_splits)
  let ?s = "s\<lparr>wh_bench := b1, wh_down := wh_down s + length (delivers ls)\<rparr>"
  have run: "whole_run s (map in_whole ls) ?s"
    by (rule snoc.IH [OF b1(1)]) (use snoc.prems(2) in \<open>simp add: delivers_snoc append_prefixD\<close>)
  have step: "tb_step b1 l b" by (rule tb_turn_step [OF b1(3)])
  show ?case
  proof (cases "\<exists>m. l = Software (Dispatch m)")
    case True
    then obtain m where l: "l = Software (Dispatch m)" by blast
    obtain ms where "drop (wh_down s) (down_stream (halves s)) = delivers ls @ m # ms" using snoc.prems(2) by (auto simp: l delivers_snoc prefix_def)
    then have "drop (length (delivers ls)) (drop (wh_down s) (down_stream (halves s))) = m # ms" by (simp del: drop_drop)
    then have "drop (wh_down s + length (delivers ls)) (down_stream (halves s)) = m # ms" by (simp add: add.commute)
    then have "next_down ?s = Some m"
      by (simp add: next_down_def Let_def) (metis length_drop nth_via_drop list.simps(3) drop_eq_Nil not_le)
    then have "whole_step ?s Deliver (?s\<lparr>wh_bench := b, wh_down := Suc (wh_down ?s)\<rparr>)"
      by (intro whole_step.deliver) (use b1(2) step l in simp_all)
    from whole_run.more [OF run this] show ?thesis by (simp add: l delivers_snoc)
  next
    case False
    then have l: "in_whole l = Bench l" "delivers [l] = []" by (cases l rule: in_whole.cases; simp)+
    have "whole_step ?s (Bench l) (?s\<lparr>wh_bench := b\<rparr>)" by (intro whole_step.bench) (use b1(2) step False in simp_all)
    moreover have "?s\<lparr>wh_bench := b\<rparr> = s\<lparr>wh_bench := b, wh_down := wh_down s + length (delivers ls)\<rparr>" by (cases s) simp
    ultimately show ?thesis using whole_run.more [OF run] by (simp add: l delivers_snoc)
  qed
qed

text \<open>Gem5 reads a line, with a quantum of two cycles: its request crosses the link in them.\<close>

definition demo_read :: gem5_args where
  "demo_read = demo_args\<lparr>ga_quantum := 2, ga_scenario := SRead, ga_reads := 1\<rparr>"

definition demo_request :: obj where
  "demo_request = g2t_flit ''req'' (fg_read_req demo_read 1 SCENARIO_BASE)"

lemma demo_hello:
  "\<exists>g. gem5_recv (\<lambda>_. False) (Some (hello_ack_msg rt)) (gem5_start demo_read) = (GQuantum [], g) \<and>
     fg_sent g = [hello_msg demo_read, demo_request, sync_msg 0] \<and> fg_sync_cycle g = 0"
  by (simp add: gem5_start_def fg_serve_def fg_send_def fake_gem5_init_def hello_ack_msg_def opt_str_def fg_handle_def
      run_scenario_def demo_read_def demo_args_def begin_turn_def send_outbox_def scenario_read_def fg_enqueue_def demo_request_def Let_def)

definition demo_labels :: "tb_label list" where
  "demo_labels =
     map (Software \<circ> Dispatch) [demo_request, sync_msg 0] @ [Software Barrier] @
     concat (replicate 2 [Software Barrier, Falling demo_clock, Software Barrier])"

lemma demo_bench:
  "(case tb_start bench_env (replicate 7 demo_clock) [Some (hello_msg demo_read)] of
      Some (Inr s) \<Rightarrow> map_option bench_seen (bench_turns demo_labels s)
    | _ \<Rightarrow> None) = Some ([(0x80000000, 0x20)], [], 1, True)"
  by code_simp

abbreviation demo_whole :: "whole option" where
  "demo_whole \<equiv> whole_start bench_env demo_read (replicate 7 demo_clock)"

definition demo_steps :: "whole_label list" where
  "demo_steps = Gem5 (Up False) # map in_whole demo_labels"

lemma whole_run_cons: "whole_run s1 ls s2 \<Longrightarrow> whole_step s l s1 \<Longrightarrow> whole_run s (l # ls) s2"
proof (induction rule: whole_run.induct)
  case (none s1)
  then show ?case using whole_run.more [OF whole_run.none] by fastforce
next
  case (more s1 ls s' l' s'')
  then show ?case using whole_run.more [OF more.IH [OF more.prems] more.hyps(2)] by simp
qed

lemma demo_silent: "list_all silent_edge (replicate 7 demo_clock)"
proof -
  have "tx_events (ed_dut (ee_link demo_clock)) = []" by code_simp
  then have "silent_edge demo_clock" by (simp only: silent_edge_def)
  then show ?thesis by (auto simp: list_all_iff)
qed

lemma demo_runs:
  obtains s s' where "demo_whole = Some s" "whole_run s demo_steps s'"
    "bench_seen (wh_bench s') = ([(0x80000000, 0x20)], [], 1, True)" "fg_sync_cycle (wh_fg s') = 0"
proof -
  obtain tb b where b: "tb_start bench_env (replicate 7 demo_clock) [Some (hello_msg demo_read)] = Some (Inr tb)"
    "bench_turns demo_labels tb = Some b" "bench_seen b = ([(0x80000000, 0x20)], [], 1, True)"
    using demo_bench by (auto split: option.splits sum.splits)
  define s where "s = \<lparr>wh_bench = tb, wh_gem5 = gem5_start demo_read, wh_up = 0, wh_down = 1, wh_hung_up = False\<rparr>"
  have hello: "map Some (fg_sent (snd (gem5_start demo_read))) = [Some (hello_msg demo_read)]"
    by (simp add: gem5_start_def fg_serve_def fg_send_def fake_gem5_init_def)
  have start: "demo_whole = Some s" unfolding whole_start_def hello by (simp add: b(1) s_def)
  obtain h: "halves s = cosim_start bench_env demo_read" by (rule whole_startE [OF start demo_silent])
  have "wh_rt s = cs_rt (cosim_start bench_env demo_read)" by (simp flip: h)
  then have sent: "rt_sent (wh_rt s) = rt_sent (take_hello (hello_msg demo_read) (runtime_init bench_env))" by (simp add: cosim_start_def)
  have ack: "\<exists>rt'. rt_sent (take_hello h rt) = rt_sent rt @ [JObj (hello_ack_msg rt')]" for h rt
    by (cases "rt_free_run rt") (simp_all add: take_hello_def rt_send_def Let_def, blast+)
  have "rt_sent (runtime_init bench_env) = []" by (simp add: runtime_init_def)
  with ack [of "hello_msg demo_read" "runtime_init bench_env"] obtain rt where rt: "rt_sent (wh_rt s) = [JObj (hello_ack_msg rt)]"
    by (auto simp: sent)
  obtain g where g: "gem5_recv (\<lambda>_. False) (Some (hello_ack_msg rt)) (gem5_start demo_read) = (GQuantum [], g)"
    "fg_sent g = [hello_msg demo_read, demo_request, sync_msg 0]" "fg_sync_cycle g = 0"
    using demo_hello by blast
  define s1 where "s1 = s\<lparr>wh_gem5 := (GQuantum [], g), wh_up := 1, wh_hung_up := False\<rparr>"
  have "cosim_step (halves s) (Up False) ((halves s)\<lparr>cs_gem5 := gem5_recv (\<lambda>_. False)
      (Some (as_obj (rt_sent (cs_rt (halves s)) ! cs_up (halves s)))) (cs_gem5 (halves s)), cs_up := Suc (cs_up (halves s))\<rparr>)"
    by (rule cosim_step.up) (simp_all add: gem5_over_def gem5_start_def rt, simp_all add: s_def gem5_start_def)
  from whole_step.gem5 [OF this] have step: "whole_step s (Gem5 (Up False)) s1"
    using rt g(1) by (simp add: gem5_moves_def s1_def) (simp add: s_def)
  have down: "drop (wh_down s1) (down_stream (halves s1)) = [demo_request, sync_msg 0]"
    by (simp add: down_stream_def gem5_over_def s1_def g(2)) (simp add: s_def)
  have "delivers demo_labels = [demo_request, sync_msg 0]" by (simp add: demo_labels_def numeral_2_eq_2)
  with down bench_turns_run [of demo_labels s1 b] b(2)
  have "whole_run s1 (map in_whole demo_labels) (s1\<lparr>wh_bench := b, wh_down := wh_down s1 + 2\<rparr>)"
    by (simp add: s1_def) (simp add: s_def)
  from whole_run_cons [OF this step] have run: "whole_run s demo_steps (s1\<lparr>wh_bench := b, wh_down := wh_down s1 + 2\<rparr>)"
    by (simp add: demo_steps_def)
  show thesis by (rule that [OF start run]) (simp_all add: b(3) s1_def g(3))
qed


theorem whole_clock_witness:
  "\<exists>s s'. demo_whole = Some s \<and> whole_run s demo_steps s' \<and> fg_sync_cycle (wh_fg s') = 0 \<and> acks (wh_rt s') = 1 \<and>
     int (length (filter is_edge demo_steps)) = 2 * int (acks (wh_rt s'))"
proof -
  obtain s s' where r: "demo_whole = Some s" "whole_run s demo_steps s'"
    "bench_seen (wh_bench s') = ([(0x80000000, 0x20)], [], 1, True)" "fg_sync_cycle (wh_fg s') = 0" by (rule demo_runs)
  have "\<not> en_free_run bench_env" "0 \<le> ga_quantum demo_read" "ga_quantum demo_read = 2"
    by (simp_all add: bench_env_def demo_read_def)
  note whole_clock [OF r(1) demo_silent r(2) this(1,2)]
  moreover have "rt_phase (wh_rt s') = BParked 0" "acks (wh_rt s') = 1" using r(3) by (simp_all add: bench_seen_def)
  ultimately show ?thesis using r \<open>ga_quantum demo_read = 2\<close> by (auto simp: Let_def in_quantum_def)
qed


end
