(* ===== verification/Spec2Isabelle.thy ===== *)
theory Spec2Isabelle
  imports Chi_Opcodes Chi_Layout Chi_Flit Chi_Txn Gem5_Adaptor Cosim_Json Cosim_Protocol Cosim_Transport
    Txn_Mapper Snf_Agent Fake_Ddr Hnf_Checker Fake_Gem5 Mem_Broker Cosim_Runtime Tb_Peer
    Tb_Signals Link_Driver Chi_Monitor Axi_Monitor Axi_Slave_Stub Axi_Ddr_Proxy Memory_Path Gem5_Contract
    Message_Types Cosim_System Cosim_Socket Cosim_Test C2xm_Env Testbench Standalone_Test
    Edge_Steps Whole_System
begin

text \<open>
  A verification development for the C2XM co-simulation testbench: the Python code that joins a CHI-to-AXI bridge
  under simulation (the device, or DUT) to the memory system of gem5.

  \<^bold>\<open>The program.\<close>  gem5 (or its stand-in \<^verbatim>\<open>fake_gem5.py\<close>) plays the home node on one side of a socket.  On the other, the
  runtime (\<^verbatim>\<open>cosim_runtime.py\<close>) owns the clock of the device: gem5 sends a \<^verbatim>\<open>sync\<close>, the runtime runs a quantum of
  cycles and sends an \<^verbatim>\<open>ack\<close>.  Requests and write data that arrive as JSON flits are rewritten by the agent
  (\<^verbatim>\<open>snf_agent.py\<close>), which mirrors the device's transaction pool, and driven on the CHI link under credits
  (\<^verbatim>\<open>driver.py\<close>).  What the device answers on the link is sampled (\<^verbatim>\<open>chi_mon.py\<close>), handed to the agent
  (\<^verbatim>\<open>cosim_responder.py\<close>) and sent to gem5.  The memory traffic of the device leaves on its AXI port, where a slave
  (\<^verbatim>\<open>axi_ddr_proxy.py\<close>) turns bursts into messages of the memory broker (in \<^verbatim>\<open>cosim_runtime.py\<close>), which gem5 serves.

  \<^bold>\<open>Data.\<close>
  \<^item> \<^theory_text>\<open>C2xm_Prelude\<close>: exceptions (\<open>pyerr\<close>, \<open>result\<close>), dictionaries, byte strings and slices, bits of unbounded integers.
  \<^item> \<^theory_text>\<open>Chi_Opcodes\<close>, \<^theory_text>\<open>Chi_Layout\<close>, \<^theory_text>\<open>Chi_Flit\<close> (\<^verbatim>\<open>chi_flit.py\<close>): opcodes and decoders, the four link layouts and the
    generic \<^verbatim>\<open>pack\<close> and \<^verbatim>\<open>unpack\<close>, the flit classes with their codecs.  The lemmas show that packing and unpacking
    are inverse up to the width of each field (locale \<open>wire_codec\<close>, interpreted for the four channels).
  \<^item> \<^theory_text>\<open>Chi_Txn\<close> (\<^verbatim>\<open>chi_txn.py\<close>) and \<^theory_text>\<open>Gem5_Adaptor\<close> (\<^verbatim>\<open>gem5_adaptor.py\<close>): transactions, and the adaptor of the standalone
    tests that makes them from flits.
  \<^item> \<^theory_text>\<open>Cosim_Json\<close> and \<^theory_text>\<open>Cosim_Protocol\<close> (\<^verbatim>\<open>cosim_protocol.py\<close>): the JSON that the messages use, one object per line, and the
    line reader (locale \<open>line_reader\<close>, interpreted for \<^verbatim>\<open>MessageReader\<close> and for the reader of \<^verbatim>\<open>fake_gem5.py\<close>).
  \<^item> \<^theory_text>\<open>Message_Types\<close> (the message table of \<^verbatim>\<open>cosim_protocol.py\<close>): the fields and types of every message of either side, as a
    predicate on messages.  Each side keeps to it as long as the other does, and then no message ends it with an exception.

  \<^bold>\<open>The testbench side.\<close>
  \<^item> \<^theory_text>\<open>Cosim_Transport\<close> (\<^verbatim>\<open>cosim_transport.py\<close>): connecting, the two threads and their queues as interleaved atomic actions, and
    the conversion of flits to JSON.  What is received is what was sent, in order, in every interleaving.
  \<^item> \<^theory_text>\<open>Txn_Mapper\<close> and \<^theory_text>\<open>Snf_Agent\<close> (\<^verbatim>\<open>snf_agent.py\<close>): the mirror of the pool with its invariant and release margin (locale
    \<open>fresh_ids\<close>), and the agent's handlers: order of issue, the write handshake, all branches of the responses.
  \<^item> \<^theory_text>\<open>Mem_Broker\<close> and \<^theory_text>\<open>Cosim_Runtime\<close> (\<^verbatim>\<open>cosim_runtime.py\<close>): the broker, whose request ids are another \<open>fresh_ids\<close>; the handshake,
    the dispatcher, the bypass tasks and the barrier loop as the step relation \<open>rt_step\<close>.  Cycles and acknowledgements are in
    lockstep in every interleaving, and the loop ends once the peer has gone.
  \<^item> \<^theory_text>\<open>Tb_Signals\<close> (\<^verbatim>\<open>tb_signals.py\<close>), \<^theory_text>\<open>Link_Driver\<close> (\<^verbatim>\<open>driver.py\<close>), \<^theory_text>\<open>Chi_Monitor\<close> (\<^verbatim>\<open>chi_mon.py\<close>, \<^verbatim>\<open>cosim_responder.py\<close>): signal values, the
    link tasks cut at clock edges, what is seen on the link.  Credits are conserved, waits end, and the link is a queue.
  \<^item> \<^theory_text>\<open>Axi_Monitor\<close> (\<^verbatim>\<open>axi_mon.py\<close>), \<^theory_text>\<open>Axi_Slave_Stub\<close> (\<^verbatim>\<open>axi_slave_stub.py\<close>), \<^theory_text>\<open>Axi_Ddr_Proxy\<close> (\<^verbatim>\<open>axi_ddr_proxy.py\<close>): the AXI port, and the two slaves
    that can sit on it.  Both meet the contract \<open>read_slave\<close>: read bursts are answered in order, beat for beat.

  \<^bold>\<open>The gem5 side and the stand-ins.\<close>
  \<^item> \<^theory_text>\<open>Fake_Ddr\<close>, \<^theory_text>\<open>Hnf_Checker\<close>, \<^theory_text>\<open>Fake_Gem5\<close> (\<^verbatim>\<open>fake_gem5.py\<close>): the reference memory, which refines a function from addresses to bytes
    (locale \<open>byte_memory\<close>); the acceptance contract of the home node; scenarios, quantum and verdict.
  \<^item> \<^theory_text>\<open>Tb_Peer\<close> (\<^verbatim>\<open>tb_peer_sim.py\<close>): the stand-in for the testbench.

  \<^bold>\<open>Compositions.\<close>
  \<^item> \<^theory_text>\<open>Memory_Path\<close>: AXI burst, broker message, reference memory, completion and AXI beats: what is written is read back.
  \<^item> \<^theory_text>\<open>Gem5_Contract\<close>: what the agent sends for reads and writes is what the home node's checker accepts.
  \<^item> \<^theory_text>\<open>Chi_Monitor\<close>: driver, link, monitor and agent on one clock.
  \<^item> \<^theory_text>\<open>C2xm_Env\<close> (\<^verbatim>\<open>c2xm_env.py\<close>): the environment in both modes, with the two fifos and all components on one clock.  The flits
    pushed by a test, and the requests of gem5, come out on the link in order; the fifos stay bounded.
  \<^item> \<^theory_text>\<open>Cosim_System\<close>: \<^verbatim>\<open>fake_gem5.py\<close> and the runtime joined by the two directions of the socket, as the step relation
    \<open>cosim_step\<close>.  The \<^verbatim>\<open>run\<close> of the stand-in is cut at its receives (\<open>gem5_recv\<close>), which is proved to be the same as \<open>fg_run\<close>.
    Both clocks are in lockstep, all messages have their types, and the system is never stuck.
  \<^item> \<^theory_text>\<open>Cosim_Socket\<close>: the same system over bytes.  What both sides send in a run can be encoded, and the transport's threads and
    the line readers deliver it in order however the bytes are cut and delayed: the queues of \<open>cosim_step\<close> are what the socket does.
  \<^item> \<^theory_text>\<open>Cosim_Test\<close> (the co-simulation test of \<^verbatim>\<open>c2xm_test.py\<close>): the verdict of the test on the closed system.  A pass means that
    gem5 has verified its workload, except with a barrier budget, which can hide a contract violation.
  \<^item> \<^theory_text>\<open>Testbench\<close>: the runtime and the environment with the agent and the broker that they share, on the clock that the barrier
    loop drives.  The edges that the environment sees are the cycles that gem5 has asked for, the requests of gem5 come out on the
    link in order, and the memory requests of the device and of the bypass tasks are numbered apart.
  \<^item> \<^theory_text>\<open>Edge_Steps\<close>: an edge of the clock as steps of the runtime.  The calls of an edge into agent and broker send one message each at
    most, so whatever order their messages reach the queue in is an order of the calls.
  \<^item> \<^theory_text>\<open>Whole_System\<close>: \<^verbatim>\<open>fake_gem5.py\<close>, runtime and environment together, as the step relation \<open>whole_step\<close>.  Its runs are runs of
    \<open>cosim_step\<close>, so all that holds of the two processes holds of it; and the edges that the environment sees follow the clock
    of gem5, and the requests that gem5 sends come out on the link in order.
  \<^item> \<^theory_text>\<open>Standalone_Test\<close> (the other tests of \<^verbatim>\<open>c2xm_test.py\<close>): the tests as coroutines beside the environment.  They end, and a pass
    means that the monitors have seen what the test sent.
\<close>

text \<open>
  \<^bold>\<open>Conventions.\<close>  Integers are unbounded as in Python; bytes are 8-bit words.  A message is an insertion-ordered association
  list, with accessors at the JSON type that the protocol gives a field.  A raise is a value: \<open>result\<close>, or the \<open>check\<close> of
  a state and an error.  A coroutine is cut at its awaits: its position is a datatype in the state, and a step is what it does
  between two of them.  Pins driven by the testbench are part of the state and are seen one edge later; signals of the
  device are arguments of a step, and may be unresolved.  Interleavings are lists of events, orders of tasks at an edge, or a step
  relation, and the theorems hold for all of them.

  \<^bold>\<open>Bounds and fuel.\<close>  Only the JSON parser has fuel; the length of the text suffices (\<open>loads_dumps\<close>).  The receive loops and the
  main loop of \<^verbatim>\<open>fake_gem5.py\<close> consume a list of what the outside world does, and report when it runs out that they still wait.
  Time-outs are those of the code, in edges or polls: 1250 edges for a credit, 1000 for the link, 250 for a buffer id, 2,000,000 for
  a memory call, and the polls of a parked clock (\<open>PARK_TIMEOUT_POLLS\<close>).  The longest
  standalone test takes 6031 edges.

  \<^bold>\<open>Not modelled.\<close>  Log messages, printed reports and \<^verbatim>\<open>describe()\<close> texts; wall time, except as the answer whether a deadline has
  passed; argument parsing, environment variables and socket set-up; pyuvm (of which the capacity of its fifos is used), cocotb
  and the simulated hardware, whose behaviour is an argument; the helpers \<^verbatim>\<open>all_done\<close> and \<^verbatim>\<open>idle\<close>, which nothing calls.  JSON text is
  limited to code points below 256, and fields of another JSON type than the protocol's are outside.

  \<^bold>\<open>What is not composed.\<close>  \<^theory_text>\<open>Whole_System\<close> starts from a link that was trained by a device that sends no flit meanwhile, and its
  socket is a pair of queues, which \<^theory_text>\<open>Cosim_Socket\<close> justifies for the two processes.  No theorem can say more of the device than
  what the testbench drives and samples, for the hardware is not part of the model: what it answers is arbitrary in every run.
\<close>

end
